(* ===== verification/Prelude.thy ===== *)
theory Prelude
  imports Main "HOL-Library.Word"
begin

text \<open>
  Shared vocabulary of the development: machine integers at their C++ widths, byte buffers
  with \<open>memcpy\<close>/\<open>memset\<close>, the big- and little-endian loads and stores that the sources repeat
  (\<open>load_be64\<close>, \<open>store_be32\<close>, ...), and the value of a byte string read as a number, with the
  lemmas about them that the component theories use.
\<close>

unbundle bit_operations_syntax

section \<open>Machine integers and collections of facts\<close>

type_synonym byte = "8 word"
type_synonym u32 = "32 word"
type_synonym u64 = "64 word"
type_synonym u128 = "128 word"
type_synonym bytes = "byte list"

named_theorems val_simps \<open>values of words and byte strings as integers\<close>
named_theorems len_simps \<open>lengths of buffers and encodings\<close>

lemma uint_lt64 [simp]: "uint (x :: u64) < 18446744073709551616"
  using uint_lt2p [of x] by simp

lemma uint_lt32 [simp]: "uint (x :: u32) < 4294967296"
  using uint_lt2p [of x] by simp

lemma uint_lt8 [simp]: "uint (x :: byte) < 256"
  using uint_lt2p [of x] by simp

lemma unat_lt8 [simp]: "unat (x :: byte) < 256"
  using unsigned_less [of x] by simp

section \<open>Byte buffers\<close>

text \<open>
  \<open>std::memcpy(buf + off, src, n)\<close> and \<open>std::memset(buf + off, v, n)\<close> on a buffer held as a
  list. The sources only write inside the buffer; \<open>length_memcpy_at\<close> has that as its premise.
\<close>

definition memcpy_at :: "'a list \<Rightarrow> nat \<Rightarrow> 'a list \<Rightarrow> 'a list" where
  "memcpy_at buf off src = take off buf @ src @ drop (off + length src) buf"

definition memset_at :: "'a list \<Rightarrow> nat \<Rightarrow> 'a \<Rightarrow> nat \<Rightarrow> 'a list" where
  "memset_at buf off v n = memcpy_at buf off (replicate n v)"

lemma length_memcpy_at [len_simps]:
  "off + length src \<le> length buf \<Longrightarrow> length (memcpy_at buf off src) = length buf"
  by (simp add: memcpy_at_def)

lemma length_memset_at [len_simps]:
  "off + n \<le> length buf \<Longrightarrow> length (memset_at buf off v n) = length buf"
  by (simp add: memset_at_def length_memcpy_at)

lemma take_memcpy_at:
  "off \<le> length buf \<Longrightarrow> take (off + length src) (memcpy_at buf off src) = take off buf @ src"
  by (simp add: memcpy_at_def)

lemma take_memcpy_at_prefix:
  "m \<le> off \<Longrightarrow> off \<le> length buf \<Longrightarrow> take m (memcpy_at buf off src) = take m buf"
  by (simp add: memcpy_at_def min_def)

lemma take_memset_at:
  "off \<le> length buf \<Longrightarrow> take (off + n) (memset_at buf off v n) = take off buf @ replicate n v"
  using take_memcpy_at [of off buf "replicate n v"] by (simp add: memset_at_def)

lemma memcpy_at_tail:
  "off + length src = length buf \<Longrightarrow> memcpy_at buf off src = take off buf @ src"
  by (simp add: memcpy_at_def)

lemma memset_at_tail:
  "off + n = length buf \<Longrightarrow> memset_at buf off v n = take off buf @ replicate n v"
  by (simp add: memset_at_def memcpy_at_tail)

lemma memcpy_at_seq:
  assumes "off + length x \<le> length buf"
  shows "memcpy_at (memcpy_at buf off x) (off + length x) y = memcpy_at buf off (x @ y)"
  using assms by (simp add: memcpy_at_def ac_simps)

text \<open>The layout of a padded last block: the data, \<open>0x80\<close>, zeros up to byte \<open>P\<close>, the length field.\<close>

lemma last_block_layout:
  assumes "length block = B" "length d < P" "P + length lf = B"
  shows "memcpy_at (memset_at ((memcpy_at block 0 d)[length d := v]) (length d + 1) 0 (P - length d - 1)) P lf
    = d @ [v] @ replicate (P - length d - 1) 0 @ lf"
proof -
  have 1: "(memcpy_at block 0 d)[length d := v] = d @ [v] @ drop (length d + 1) block"
    using assms by (simp add: memcpy_at_def list_update_append upd_conv_take_nth_drop)
  have 2: "take P (memset_at (d @ [v] @ drop (length d + 1) block) (length d + 1) 0 (P - length d - 1))
      = d @ [v] @ replicate (P - length d - 1) 0"
    using assms take_memset_at [of "length d + 1" "d @ [v] @ drop (length d + 1) block" "P - length d - 1" 0]
    by simp
  show ?thesis unfolding 1 using assms 2
    by (subst memcpy_at_tail) (simp_all add: length_memset_at)
qed

lemma memcpy_at_whole: "length src = length buf \<Longrightarrow> memcpy_at buf 0 src = src"
  by (simp add: memcpy_at_def)

text \<open>Element \<open>i\<close> of an array laid out as equal slices.\<close>

lemma nth_slice:
  assumes "\<And>j. j < n \<Longrightarrow> length (g j) = k" "i < n"
  shows "take k (drop (i * k) (concat (map g [0..<n]))) = g i"
  using assms
proof (induction n)
  case (Suc n)
  have "map (\<lambda>j. length (g j)) [0..<n] = map (\<lambda>_. k) [0..<n]"
    using Suc.prems(1) by (intro map_cong) simp_all
  then have len: "length (concat (map g [0..<n])) = n * k"
    by (simp add: length_concat o_def sum_list_triv del: map_eq_conv)
  show ?case
  proof (cases "i = n")
    case True
    then show ?thesis using len Suc.prems by simp
  next
    case False
    then have "i * k + k \<le> n * k" using Suc.prems(2) mult_le_mono1 [of "Suc i" n k] by simp
    then show ?thesis using Suc False len by simp
  qed
qed simp

section \<open>Numbers as byte strings\<close>

text \<open>The value of a byte string, most significant byte first, and least significant first.\<close>

fun be_val :: "bytes \<Rightarrow> int" where
  "be_val [] = 0"
| "be_val (b # bs) = uint b * 256 ^ length bs + be_val bs"

fun le_val :: "bytes \<Rightarrow> int" where
  "le_val [] = 0"
| "le_val (b # bs) = uint b + 256 * le_val bs"

lemma be_val_append [val_simps]: "be_val (xs @ ys) = be_val xs * 256 ^ length ys + be_val ys"
  by (induction xs) (auto simp: algebra_simps power_add)

lemma be_val_nonneg [simp]: "0 \<le> be_val bs"
  by (induction bs) auto

lemma be_val_bound: "be_val bs < 256 ^ length bs"
proof (induction bs)
  case (Cons b bs)
  have "uint b * 256 ^ length bs \<le> 255 * 256 ^ length bs"
    using uint_lt8 [of b] by (intro mult_right_mono) (auto simp del: uint_lt8)
  with Cons have "uint b * 256 ^ length bs + be_val bs < 255 * 256 ^ length bs + 256 ^ length bs"
    by linarith
  then show ?case by simp
qed simp

lemma le_val_rev: "le_val (rev bs) = be_val bs"
proof -
  have app: "le_val (xs @ ys) = le_val xs + 256 ^ length xs * le_val ys" for xs ys
    by (induction xs) (auto simp: algebra_simps)
  show ?thesis by (induction bs) (auto simp: app)
qed

lemma be_val_replicate0 [simp]: "be_val (replicate n 0) = 0"
  by (induction n) auto

lemma be_val_inj: "length xs = length ys \<Longrightarrow> be_val xs = be_val ys \<Longrightarrow> xs = ys"
proof (induction xs ys rule: list_induct2)
  case (Cons x xs y ys)
  have b: "be_val xs < 256 ^ length xs" "be_val ys < 256 ^ length xs"
    using be_val_bound [of xs] be_val_bound [of ys] Cons.hyps by auto
  have eq: "uint x * 256 ^ length xs + be_val xs = uint y * 256 ^ length xs + be_val ys"
    using Cons.prems Cons.hyps by simp
  have "uint x = uint y"
    using arg_cong [OF eq, of "\<lambda>v. v div 256 ^ length xs"] b by simp
  with eq Cons.IH show ?case by (simp add: word_uint_eq_iff)
qed simp

section \<open>Loads and stores\<close>

text \<open>
  \<open>load_be32\<close>, \<open>store_be32\<close>, \<open>load_le32\<close>, \<open>store_le32\<close> of hash_accel.cpp, and the 64-bit
  big-endian pair of scalar.cpp (there a \<open>memcpy\<close> and a byte swap, or the portable shifts of
  its \<open>#else\<close> branch). A pointer argument is the list of the bytes it points at.
\<close>

definition load_be32 :: "bytes \<Rightarrow> u32" where
  "load_be32 p = push_bit 24 (ucast (p ! 0)) OR push_bit 16 (ucast (p ! 1))
     OR push_bit 8 (ucast (p ! 2)) OR ucast (p ! 3)"

definition store_be32 :: "u32 \<Rightarrow> bytes" where
  "store_be32 v = [ucast (drop_bit 24 v), ucast (drop_bit 16 v), ucast (drop_bit 8 v), ucast v]"

definition load_le32 :: "bytes \<Rightarrow> u32" where
  "load_le32 p = ucast (p ! 0) OR push_bit 8 (ucast (p ! 1))
     OR push_bit 16 (ucast (p ! 2)) OR push_bit 24 (ucast (p ! 3))"

definition store_le32 :: "u32 \<Rightarrow> bytes" where
  "store_le32 v = [ucast v, ucast (drop_bit 8 v), ucast (drop_bit 16 v), ucast (drop_bit 24 v)]"

definition load_be64 :: "bytes \<Rightarrow> u64" where
  "load_be64 p = push_bit 56 (ucast (p ! 0)) OR push_bit 48 (ucast (p ! 1))
     OR push_bit 40 (ucast (p ! 2)) OR push_bit 32 (ucast (p ! 3))
     OR push_bit 24 (ucast (p ! 4)) OR push_bit 16 (ucast (p ! 5))
     OR push_bit 8 (ucast (p ! 6)) OR ucast (p ! 7)"

definition store_be64 :: "u64 \<Rightarrow> bytes" where
  "store_be64 v = [ucast (drop_bit 56 v), ucast (drop_bit 48 v), ucast (drop_bit 40 v),
     ucast (drop_bit 32 v), ucast (drop_bit 24 v), ucast (drop_bit 16 v),
     ucast (drop_bit 8 v), ucast v]"

definition load_le64 :: "bytes \<Rightarrow> u64" where
  "load_le64 p = ucast (p ! 0) OR push_bit 8 (ucast (p ! 1))
     OR push_bit 16 (ucast (p ! 2)) OR push_bit 24 (ucast (p ! 3))
     OR push_bit 32 (ucast (p ! 4)) OR push_bit 40 (ucast (p ! 5))
     OR push_bit 48 (ucast (p ! 6)) OR push_bit 56 (ucast (p ! 7))"

definition store_le64 :: "u64 \<Rightarrow> bytes" where
  "store_le64 v = [ucast v, ucast (drop_bit 8 v), ucast (drop_bit 16 v), ucast (drop_bit 24 v),
     ucast (drop_bit 32 v), ucast (drop_bit 40 v), ucast (drop_bit 48 v), ucast (drop_bit 56 v)]"

lemma length_store [len_simps, simp]:
  "length (store_be32 v) = 4" "length (store_le32 v) = 4"
  "length (store_be64 w) = 8" "length (store_le64 w) = 8"
  by (simp_all add: store_be32_def store_le32_def store_be64_def store_le64_def)

text \<open>
  A load is the value of its bytes, a store is the byte string of its value; the round trips
  follow from these two facts alone.
\<close>

lemma or_push_bit_add:
  fixes x y :: int
  assumes "0 \<le> y" and "y < 2 ^ n"
  shows "push_bit n x OR y = x * 2 ^ n + y"
proof -
  have y: "take_bit n y = y" using assms by (simp add: take_bit_int_eq_self)
  have "push_bit n x AND take_bit n y = 0"
    by (rule bit_eqI) (auto simp: bit_simps)
  then have "push_bit n x + y = push_bit n x OR y"
    using disjunctive_add_eq_or [of "push_bit n x" y] y by simp
  then show ?thesis by (simp add: push_bit_eq_mult)
qed

lemma int_or_bytes4:
  fixes a b c d :: int
  assumes "0 \<le> b" "b < 256" "0 \<le> c" "c < 256" "0 \<le> d" "d < 256"
  shows "push_bit 24 a OR push_bit 16 b OR push_bit 8 c OR d
    = a * 16777216 + b * 65536 + c * 256 + d"
proof -
  have 1: "push_bit 8 c OR d = c * 256 + d"
    using or_push_bit_add [of d 8 c] assms by simp
  have 2: "push_bit 16 b OR (c * 256 + d) = b * 65536 + (c * 256 + d)"
    using or_push_bit_add [of "c * 256 + d" 16 b] assms by simp
  have 3: "push_bit 24 a OR (b * 65536 + (c * 256 + d)) = a * 16777216 + (b * 65536 + (c * 256 + d))"
    using or_push_bit_add [of "b * 65536 + (c * 256 + d)" 24 a] assms by simp
  show ?thesis by (simp only: or.assoc 1 2 3)
qed

lemma int_or_bytes8:
  fixes a b c d e f g h :: int
  assumes "0 \<le> b" "b < 256" "0 \<le> c" "c < 256" "0 \<le> d" "d < 256" "0 \<le> e" "e < 256"
    "0 \<le> f" "f < 256" "0 \<le> g" "g < 256" "0 \<le> h" "h < 256"
  shows "push_bit 56 a OR push_bit 48 b OR push_bit 40 c OR push_bit 32 d OR push_bit 24 e
      OR push_bit 16 f OR push_bit 8 g OR h
    = a * 2 ^ 56 + b * 2 ^ 48 + c * 2 ^ 40 + d * 2 ^ 32 + e * 2 ^ 24 + f * 2 ^ 16 + g * 2 ^ 8 + h"
proof -
  define r where "r = e * 16777216 + f * 65536 + g * 256 + h"
  have r: "push_bit 24 e OR (push_bit 16 f OR (push_bit 8 g OR h)) = r" "0 \<le> r" "r < 2 ^ 32"
    using int_or_bytes4 [of f g h e] assms by (simp_all add: r_def or.assoc)
  have 1: "push_bit 32 d OR r = d * 2 ^ 32 + r"
    using or_push_bit_add [of r 32 d] r by simp
  have 2: "push_bit 40 c OR (d * 2 ^ 32 + r) = c * 2 ^ 40 + (d * 2 ^ 32 + r)"
    using or_push_bit_add [of "d * 2 ^ 32 + r" 40 c] r assms by simp
  have 3: "push_bit 48 b OR (c * 2 ^ 40 + (d * 2 ^ 32 + r)) = b * 2 ^ 48 + (c * 2 ^ 40 + (d * 2 ^ 32 + r))"
    using or_push_bit_add [of "c * 2 ^ 40 + (d * 2 ^ 32 + r)" 48 b] r assms by simp
  have 4: "push_bit 56 a OR (b * 2 ^ 48 + (c * 2 ^ 40 + (d * 2 ^ 32 + r)))
      = a * 2 ^ 56 + (b * 2 ^ 48 + (c * 2 ^ 40 + (d * 2 ^ 32 + r)))"
    using or_push_bit_add [of "b * 2 ^ 48 + (c * 2 ^ 40 + (d * 2 ^ 32 + r))" 56 a] r assms by simp
  show ?thesis by (simp only: or.assoc r(1) 1 2 3 4) (simp add: r_def)
qed

lemma length4_conv: "length p = 4 \<longleftrightarrow> (\<exists>a b c d. p = [a, b, c, d])"
  by (auto simp: numeral_eq_Suc length_Suc_conv)

lemma length8_conv: "length p = 8 \<longleftrightarrow> (\<exists>a b c d e f g h. p = [a, b, c, d, e, f, g, h])"
  by (auto simp: numeral_eq_Suc length_Suc_conv)

lemma uint_push_ucast:
  "k \<le> 24 \<Longrightarrow> uint (push_bit k (ucast (b :: byte) :: u32)) = push_bit k (uint b)"
  "k \<le> 56 \<Longrightarrow> uint (push_bit k (ucast (b :: byte) :: u64)) = push_bit k (uint b)"
  by (rule bit_eqI; auto simp: bit_simps unsigned_push_bit_eq unsigned_ucast_eq dest: bit_imp_le_length)+

lemma take_bit_uint_byte:
  "8 \<le> k \<Longrightarrow> take_bit k (uint (b :: byte)) = uint b"
  by (rule bit_eqI) (auto simp: bit_simps dest: bit_imp_le_length)

lemma uint_load_be32 [val_simps]: "length p = 4 \<Longrightarrow> uint (load_be32 p) = be_val p"
  by (auto simp: length4_conv load_be32_def unsigned_or_eq uint_push_ucast int_or_bytes4
      unsigned_ucast_eq take_bit_uint_byte)

lemma uint_load_be64 [val_simps]: "length p = 8 \<Longrightarrow> uint (load_be64 p) = be_val p"
  by (auto simp: length8_conv load_be64_def unsigned_or_eq uint_push_ucast int_or_bytes8
      unsigned_ucast_eq take_bit_uint_byte)

lemma load_le32_rev: "length p = 4 \<Longrightarrow> load_le32 p = load_be32 (rev p)"
  by (auto simp: length4_conv load_le32_def load_be32_def or.assoc or.commute or.left_commute)

lemma load_le64_rev: "length p = 8 \<Longrightarrow> load_le64 p = load_be64 (rev p)"
  by (auto simp: length8_conv load_le64_def load_be64_def or.assoc or.commute or.left_commute)

lemma store_le_rev: "store_le32 v = rev (store_be32 v)" "store_le64 w = rev (store_be64 w)"
  by (simp_all add: store_le32_def store_be32_def store_le64_def store_be64_def)

lemma uint_drop_bit_div [val_simps]: "uint (drop_bit k (v :: 'a::len word)) = uint v div 2 ^ k"
proof -
  have "take_bit LENGTH('a) (uint v) = uint v"
    using uint_lt2p [of v] by (simp add: take_bit_int_eq_self)
  then show ?thesis unfolding unsigned_drop_bit_eq by (simp only: drop_bit_eq_div)
qed

lemma uint_ucast_drop:
  "uint (ucast (drop_bit k (v :: 'a::len word)) :: byte) = uint v div 2 ^ k mod 256"
  unfolding unsigned_ucast_eq unsigned_drop_bit_eq by (simp add: take_bit_eq_mod drop_bit_eq_div)

lemma uint_ucast8: "uint (ucast (v :: 'a::len word) :: byte) = uint v mod 256"
  by (simp add: unsigned_ucast_eq take_bit_eq_mod)

lemma base256_split:
  fixes v :: int
  assumes "j = k + 8"
  shows "v div 2 ^ j * 256 + v div 2 ^ k mod 256 = v div 2 ^ k"
proof -
  have "v div 2 ^ j = v div 2 ^ k div 256"
    by (simp add: assms power_add zdiv_zmult2_eq)
  then show ?thesis by simp
qed

lemma base256_split0: "(v :: int) div 2 ^ 8 * 256 + v mod 256 = v"
  by simp

lemma be_val_store_be32 [val_simps]: "be_val (store_be32 v) = uint v"
proof -
  have horner: "v3 * 16777216 + (m2 * 65536 + (m1 * 256 + m0)) = v0"
    if "v1 * 256 + m0 = v0" "v2 * 256 + m1 = v1" "v3 * 256 + m2 = v2"
    for v0 v1 v2 v3 m0 m1 m2 :: int
    using that by linarith
  have top: "uint v div 2 ^ 24 mod 256 = uint v div 2 ^ 24"
    using uint_lt32 [of v]
    by (intro mod_pos_pos_trivial) (simp_all add: pos_imp_zdiv_nonneg_iff del: uint_lt32)
  have "be_val (store_be32 v) = uint v div 2 ^ 24 mod 256 * 16777216
      + (uint v div 2 ^ 16 mod 256 * 65536 + (uint v div 2 ^ 8 mod 256 * 256 + uint v mod 256))"
    by (simp add: store_be32_def uint_drop_bit_div uint_ucast8)
  also have "\<dots> = uint v"
    unfolding top by (rule horner [OF base256_split0]) (rule base256_split, simp)+
  finally show ?thesis .
qed

lemma be_val_store_be64 [val_simps]: "be_val (store_be64 v) = uint v"
proof -
  have horner: "v7 * 2 ^ 56 + (m6 * 2 ^ 48 + (m5 * 2 ^ 40 + (m4 * 2 ^ 32 + (m3 * 2 ^ 24
      + (m2 * 65536 + (m1 * 256 + m0)))))) = v0"
    if "v1 * 256 + m0 = v0" "v2 * 256 + m1 = v1" "v3 * 256 + m2 = v2" "v4 * 256 + m3 = v3"
      "v5 * 256 + m4 = v4" "v6 * 256 + m5 = v5" "v7 * 256 + m6 = v6"
    for v0 v1 v2 v3 v4 v5 v6 v7 m0 m1 m2 m3 m4 m5 m6 :: int
    using that by simp
  have top: "uint v div 2 ^ 56 mod 256 = uint v div 2 ^ 56"
    using uint_lt64 [of v]
    by (intro mod_pos_pos_trivial) (simp_all add: pos_imp_zdiv_nonneg_iff del: uint_lt64)
  have "be_val (store_be64 v) = uint v div 2 ^ 56 mod 256 * 2 ^ 56 + (uint v div 2 ^ 48 mod 256 * 2 ^ 48
      + (uint v div 2 ^ 40 mod 256 * 2 ^ 40 + (uint v div 2 ^ 32 mod 256 * 2 ^ 32
      + (uint v div 2 ^ 24 mod 256 * 2 ^ 24 + (uint v div 2 ^ 16 mod 256 * 65536
      + (uint v div 2 ^ 8 mod 256 * 256 + uint v mod 256))))))"
    by (simp add: store_be64_def uint_drop_bit_div uint_ucast8)
  also have "\<dots> = uint v"
    unfolding top by (rule horner [OF base256_split0]) (rule base256_split, simp)+
  finally show ?thesis .
qed

lemma load_store_be32 [simp]: "load_be32 (store_be32 v) = v"
  by (simp add: word_uint_eq_iff val_simps)

lemma load_store_be64 [simp]: "load_be64 (store_be64 v) = v"
  by (simp add: word_uint_eq_iff val_simps)

lemma store_load_be32: "length p = 4 \<Longrightarrow> store_be32 (load_be32 p) = p"
  by (rule be_val_inj) (simp_all add: val_simps)

lemma store_load_be64: "length p = 8 \<Longrightarrow> store_be64 (load_be64 p) = p"
  by (rule be_val_inj) (simp_all add: val_simps)

lemma load_store_le32 [simp]: "load_le32 (store_le32 v) = v"
  by (simp add: load_le32_rev store_le_rev)

lemma load_store_le64 [simp]: "load_le64 (store_le64 v) = v"
  by (simp add: load_le64_rev store_le_rev)

lemma store_load_le64: "length p = 8 \<Longrightarrow> store_le64 (load_le64 p) = p"
  by (simp add: load_le64_rev store_le_rev store_load_be64)

end
