(* ===== verification/Limbs.thy ===== *)
theory Limbs
  imports Prelude
begin

text \<open>
  The four-limb integers under \<open>Scalar\<close> and \<open>FieldElement\<close>: \<open>std::array<uint64_t, 4>\<close>, least
  significant limb first, the carry chains built on \<open>add64\<close> and \<open>sub64\<close> of detail/arith64.hpp,
  and the integer a limb array stands for. Loops over the four limbs are written out.
\<close>

section \<open>Limb arrays and their value\<close>

datatype limbs4 = Limbs4 (limb0: u64) (limb1: u64) (limb2: u64) (limb3: u64)

fun lval :: "limbs4 \<Rightarrow> int" where
  "lval (Limbs4 a0 a1 a2 a3) =
     uint a0 + 2 ^ 64 * uint a1 + 2 ^ 128 * uint a2 + 2 ^ 192 * uint a3"

lemma lval_nonneg [simp]: "0 \<le> lval a"
  by (cases a) simp

lemma lval_bound: "lval a < 2 ^ 256"
proof (cases a)
  case (Limbs4 a0 a1 a2 a3)
  then show ?thesis
    using uint_lt64 [of a0] uint_lt64 [of a1] uint_lt64 [of a2] uint_lt64 [of a3]
    by (simp del: uint_lt64)
qed

lemma limb_split:
  fixes a b c d :: u64 and x y :: int
  assumes "uint a + 2 ^ 64 * x = uint b + 2 ^ 64 * y"
  shows "a = b \<and> x = y"
proof -
  have "uint a = uint b"
    using arg_cong [OF assms, of "\<lambda>v. v mod 2 ^ 64"] by (simp add: mod_pos_pos_trivial)
  with assms show ?thesis by (simp add: word_uint_eq_iff)
qed

lemma lval_inj: "lval a = lval b \<longleftrightarrow> a = b"
proof
  assume eq: "lval a = lval b"
  obtain a0 a1 a2 a3 b0 b1 b2 b3 where a: "a = Limbs4 a0 a1 a2 a3" and b: "b = Limbs4 b0 b1 b2 b3"
    by (cases a; cases b) auto
  let ?up = "\<lambda>x1 x2 x3. uint x1 + 2 ^ 64 * (uint x2 + 2 ^ 64 * uint x3)"
  have 0: "a0 = b0 \<and> ?up a1 a2 a3 = ?up b1 b2 b3"
    using eq by (intro limb_split) (simp add: a b)
  then have 1: "a1 = b1 \<and> uint a2 + 2 ^ 64 * uint a3 = uint b2 + 2 ^ 64 * uint b3"
    by (intro limb_split) simp
  then have "a2 = b2 \<and> uint a3 = uint b3"
    by (intro limb_split) simp
  with 0 1 show "a = b" by (simp add: a b word_uint_eq_iff)
qed simp

text \<open>Limb arrays are ordered by the number they hold, as the sources' comparisons are.\<close>

instantiation limbs4 :: linorder
begin

definition less_eq_limbs4 :: "limbs4 \<Rightarrow> limbs4 \<Rightarrow> bool" where
  "a \<le> b \<longleftrightarrow> lval a \<le> lval b"

definition less_limbs4 :: "limbs4 \<Rightarrow> limbs4 \<Rightarrow> bool" where
  "a < b \<longleftrightarrow> lval a < lval b"

instance
  by standard (auto simp: less_eq_limbs4_def less_limbs4_def lval_inj)

end

lemma residue_unique:
  fixes x y m :: int
  assumes "x + m * k = m * j + y" and "0 \<le> x" "x < m" and "0 \<le> y" "y < m"
  shows "x = y"
proof -
  have "x mod m = (x + m * k) mod m" by simp
  also have "\<dots> = y mod m" by (simp only: assms(1)) simp
  finally show ?thesis using assms(2-5) by simp
qed

lemma uint64_lex:
  fixes a b :: u64 and x y :: int
  assumes "0 \<le> x" "x < k" "0 \<le> y" "y < k"
  shows "(k * uint a + x < k * uint b + y) = (a < b \<or> (a = b \<and> x < y))"
proof -
  consider "uint a < uint b" | "a = b" | "uint b < uint a"
    by (cases "uint a" "uint b" rule: linorder_cases) (auto simp: word_uint_eq_iff)
  then show ?thesis
  proof cases
    case 1
    then have "k * (uint a + 1) \<le> k * uint b" using assms by (intro mult_left_mono) auto
    with 1 assms show ?thesis by (auto simp: word_less_def algebra_simps)
  next
    case 2
    then show ?thesis by simp
  next
    case 3
    then have "k * (uint b + 1) \<le> k * uint a" using assms by (intro mult_left_mono) auto
    with 3 assms show ?thesis by (auto simp: word_less_def algebra_simps)
  qed
qed

text \<open>Comparing limb by limb from the top is comparing the numbers.\<close>

lemma lval_less_lex:
  "lval (Limbs4 a0 a1 a2 a3) < lval (Limbs4 b0 b1 b2 b3) \<longleftrightarrow>
     a3 < b3 \<or> (a3 = b3 \<and> (a2 < b2 \<or> (a2 = b2 \<and> (a1 < b1 \<or> (a1 = b1 \<and> a0 < b0)))))"
proof -
  let ?l1 = "\<lambda>x1 x0. 2 ^ 64 * uint (x1 :: u64) + uint (x0 :: u64)"
  let ?l2 = "\<lambda>x2 x1 x0. 2 ^ 128 * uint (x2 :: u64) + ?l1 x1 x0"
  have b0: "0 \<le> uint x0 \<and> uint x0 < 2 ^ 64" for x0 :: u64 by simp
  have b1: "0 \<le> ?l1 x1 x0 \<and> ?l1 x1 x0 < 2 ^ 128" for x1 x0
    using uint_lt64 [of x1] uint_lt64 [of x0] by (simp del: uint_lt64)
  have b2: "0 \<le> ?l2 x2 x1 x0 \<and> ?l2 x2 x1 x0 < 2 ^ 192" for x2 x1 x0
    using uint_lt64 [of x2] uint_lt64 [of x1] uint_lt64 [of x0] by (simp del: uint_lt64)
  have "lval (Limbs4 x0 x1 x2 x3) = 2 ^ 192 * uint x3 + ?l2 x2 x1 x0" for x0 x1 x2 x3
    by simp
  then show ?thesis
    using uint64_lex [of "?l2 a2 a1 a0" "2 ^ 192" "?l2 b2 b1 b0" a3 b3]
      uint64_lex [of "?l1 a1 a0" "2 ^ 128" "?l1 b1 b0" a2 b2]
      uint64_lex [of "uint a0" "2 ^ 64" "uint b0" a1 b1] b0 b1 b2
    by (simp only: word_less_def)
qed

section \<open>Carry and borrow chains\<close>

text \<open>
  \<open>add64\<close> (the 128-bit version of arith64.hpp) returns the sum limb and writes the carry back;
  \<open>sub64\<close> likewise with the borrow. The C++ out-parameter is the second component.
\<close>

definition add64 :: "u64 \<Rightarrow> u64 \<Rightarrow> byte \<Rightarrow> u64 \<times> byte" where
  "add64 a b carry =
     (let sum = (ucast a :: u128) + ucast b + ucast carry
      in (ucast sum, ucast (drop_bit 64 sum)))"

definition sub64 :: "u64 \<Rightarrow> u64 \<Rightarrow> byte \<Rightarrow> u64 \<times> byte" where
  "sub64 a b borrow =
     (let temp = a - ucast borrow;
          borrow1 = (if a < ucast borrow then 1 else 0);
          result = temp - b;
          borrow2 = (if temp < b then 1 else 0)
      in (result, borrow1 OR borrow2))"

text \<open>The \<open>SECP256K1_NO_INT128\<close> version of \<open>add64\<close>, with two explicit wrap tests.\<close>

definition add64_noint128 :: "u64 \<Rightarrow> u64 \<Rightarrow> byte \<Rightarrow> u64 \<times> byte" where
  "add64_noint128 a b carry =
     (let result = a + b;
          new_carry = (if result < a then 1 else 0 :: byte)
      in if carry \<noteq> 0
         then (let temp = result + 1 in (temp, new_carry OR (if temp < result then 1 else 0)))
         else (result, new_carry))"

lemma uint_add128:
  fixes a b :: u64 and c :: byte
  assumes "uint c \<le> 1"
  shows "uint ((ucast a :: u128) + ucast b + ucast c) = uint a + uint b + uint c"
proof -
  have "uint a + uint b + uint c < 2 ^ 128"
    using uint_lt64 [of a] uint_lt64 [of b] assms by (simp del: uint_lt64)
  then show ?thesis
    by (simp add: uint_word_ariths unsigned_ucast_eq take_bit_eq_mod mod_simps)
qed

lemma add64_spec:
  assumes "add64 a b c = (r, c')" and "uint c \<le> 1"
  shows "uint r + 2 ^ 64 * uint c' = uint a + uint b + uint c" and "uint c' \<le> 1"
proof -
  let ?s = "uint a + uint b + uint c"
  have s: "0 \<le> ?s" "?s < 2 * 2 ^ 64"
    using uint_lt64 [of a] uint_lt64 [of b] assms(2) by (simp_all del: uint_lt64)
  have r: "uint r = ?s mod 2 ^ 64" and c': "uint c' = ?s div 2 ^ 64 mod 256"
    using assms(1) uint_add128 [OF assms(2), of a b]
    by (auto simp: add64_def Let_def unsigned_ucast_eq take_bit_eq_mod uint_drop_bit_div)
  have "?s div 2 ^ 64 \<le> 1" using zdiv_mono1 [of ?s "2 * 2 ^ 64 - 1" "2 ^ 64"] s(2) by simp
  with s c' have "uint c' = ?s div 2 ^ 64" by (simp add: pos_imp_zdiv_nonneg_iff)
  with r \<open>?s div 2 ^ 64 \<le> 1\<close> show "uint r + 2 ^ 64 * uint c' = ?s" "uint c' \<le> 1" by simp_all
qed


lemma uint_flag_or:
  "uint ((if P then 1 else 0 :: byte) OR (if Q then 1 else 0)) = (if P \<or> Q then 1 else 0)"
  by simp

lemma byte_flag: "uint (c :: byte) \<le> 1 \<longleftrightarrow> c = 0 \<or> c = 1"
proof
  assume "uint c \<le> 1"
  then have "uint c = 0 \<or> uint c = 1" using uint_ge_0 [of c] by linarith
  then show "c = 0 \<or> c = 1" by (simp add: word_uint_eq_iff)
qed auto

lemma sub64_spec:
  assumes "sub64 a b c = (r, c')" and "uint c \<le> 1"
  shows "uint r = uint a - uint b - uint c + 2 ^ 64 * uint c'" and "uint c' \<le> 1"
proof -
  have c: "c = 0 \<or> c = 1" using assms(2) by (simp add: byte_flag)
  have r: "r = a - ucast c - b"
    and c': "c' = ((if a < ucast c then 1 else 0) OR (if a - ucast c < b then 1 else 0))"
    using assms(1) by (auto simp: sub64_def Let_def)
  show "uint c' \<le> 1" by (simp only: c' uint_flag_or) simp
  have arith: "(if B \<le> T then T - B else T - B + 2 ^ 64)
      = A - B - C + 2 ^ 64 * (if A < C \<or> T < B then 1 else 0)"
    if "T = (if C \<le> A then A - C else A - C + 2 ^ 64)"
      "0 \<le> A" "A < 2 ^ 64" "0 \<le> B" "B < 2 ^ 64" "C = 0 \<or> C = 1" for A B C T :: int
    using that by auto
  have c1: "uint (ucast c :: u64) = uint c" and c01: "uint c = 0 \<or> uint c = 1"
    using c by auto
  have T: "uint (a - ucast c) = (if uint c \<le> uint a then uint a - uint c else uint a - uint c + 2 ^ 64)"
    using uint_sub_if' [of a "ucast c"] unfolding c1 by simp
  have "uint r = (if uint b \<le> uint (a - ucast c) then uint (a - ucast c) - uint b
      else uint (a - ucast c) - uint b + 2 ^ 64)"
    using uint_sub_if' [of "a - ucast c" b] unfolding r by simp
  also have "\<dots> = uint a - uint b - uint c
      + 2 ^ 64 * (if uint a < uint c \<or> uint (a - ucast c) < uint b then 1 else 0)"
    using c01 by (intro arith [OF T]) simp_all
  finally show "uint r = uint a - uint b - uint c + 2 ^ 64 * uint c'"
    unfolding c' uint_flag_or word_less_def c1 .
qed

lemma add64_noint128_eq:
  assumes "uint c \<le> 1"
  shows "add64_noint128 a b c = add64 a b c"
proof -
  obtain r c' where 1: "add64 a b c = (r, c')" by (cases "add64 a b c")
  note s = add64_spec [OF 1 assms]
  have c: "c = 0 \<or> c = 1" and c': "c' = 0 \<or> c' = 1"
    using assms s(2) by (simp_all add: byte_flag)
  have r: "r = a + b + ucast c"
    using 1 by (auto simp: add64_def Let_def word_uint_eq_iff unsigned_ucast_eq uint_word_ariths
        take_bit_eq_mod mod_simps mod_mod_cancel)
  show ?thesis
    using c c' s(1) uint_lt64 [of a] uint_lt64 [of b] uint_ge_0 [of a] uint_ge_0 [of b]
    unfolding 1 r add64_noint128_def
    by (auto simp: Let_def uint_plus_if' word_less_def split: if_splits simp del: uint_lt64)
qed

text \<open>The loops \<open>for (i < 4) out[i] = add64(a[i], b[i], carry)\<close> and its subtracting twin.\<close>

fun add4 :: "limbs4 \<Rightarrow> limbs4 \<Rightarrow> limbs4 \<times> byte" where
  "add4 (Limbs4 a0 a1 a2 a3) (Limbs4 b0 b1 b2 b3) =
     (let (r0, c) = add64 a0 b0 0; (r1, c) = add64 a1 b1 c;
          (r2, c) = add64 a2 b2 c; (r3, c) = add64 a3 b3 c
      in (Limbs4 r0 r1 r2 r3, c))"

fun sub4 :: "limbs4 \<Rightarrow> limbs4 \<Rightarrow> limbs4 \<times> byte" where
  "sub4 (Limbs4 a0 a1 a2 a3) (Limbs4 b0 b1 b2 b3) =
     (let (r0, c) = sub64 a0 b0 0; (r1, c) = sub64 a1 b1 c;
          (r2, c) = sub64 a2 b2 c; (r3, c) = sub64 a3 b3 c
      in (Limbs4 r0 r1 r2 r3, c))"

lemma add4_spec:
  assumes "add4 a b = (r, c)"
  shows "lval r + 2 ^ 256 * uint c = lval a + lval b" and "uint c \<le> 1"
proof -
  obtain a0 a1 a2 a3 b0 b1 b2 b3 where ab: "a = Limbs4 a0 a1 a2 a3" "b = Limbs4 b0 b1 b2 b3"
    by (cases a; cases b) auto
  obtain r0 c0 where 0: "add64 a0 b0 0 = (r0, c0)" by (cases "add64 a0 b0 0")
  obtain r1 c1 where 1: "add64 a1 b1 c0 = (r1, c1)" by (cases "add64 a1 b1 c0")
  obtain r2 c2 where 2: "add64 a2 b2 c1 = (r2, c2)" by (cases "add64 a2 b2 c1")
  obtain r3 c3 where 3: "add64 a3 b3 c2 = (r3, c3)" by (cases "add64 a3 b3 c2")
  have rc: "r = Limbs4 r0 r1 r2 r3" "c = c3" using assms by (auto simp: ab 0 1 2 3)
  note s0 = add64_spec [OF 0, simplified]
  note s1 = add64_spec [OF 1 s0(2)]
  note s2 = add64_spec [OF 2 s1(2)]
  note s3 = add64_spec [OF 3 s2(2)]
  show "lval r + 2 ^ 256 * uint c = lval a + lval b" "uint c \<le> 1"
    using s0(1) s1(1) s2(1) s3 by (simp_all add: ab rc)
qed

lemma sub4_spec:
  assumes "sub4 a b = (r, c)"
  shows "lval r = lval a - lval b + 2 ^ 256 * uint c" and "uint c \<le> 1"
proof -
  obtain a0 a1 a2 a3 b0 b1 b2 b3 where ab: "a = Limbs4 a0 a1 a2 a3" "b = Limbs4 b0 b1 b2 b3"
    by (cases a; cases b) auto
  obtain r0 c0 where 0: "sub64 a0 b0 0 = (r0, c0)" by (cases "sub64 a0 b0 0")
  obtain r1 c1 where 1: "sub64 a1 b1 c0 = (r1, c1)" by (cases "sub64 a1 b1 c0")
  obtain r2 c2 where 2: "sub64 a2 b2 c1 = (r2, c2)" by (cases "sub64 a2 b2 c1")
  obtain r3 c3 where 3: "sub64 a3 b3 c2 = (r3, c3)" by (cases "sub64 a3 b3 c2")
  have rc: "r = Limbs4 r0 r1 r2 r3" "c = c3" using assms by (auto simp: ab 0 1 2 3)
  note s0 = sub64_spec [OF 0, simplified]
  note s1 = sub64_spec [OF 1 s0(2)]
  note s2 = sub64_spec [OF 2 s1(2)]
  note s3 = sub64_spec [OF 3 s2(2)]
  show "lval r = lval a - lval b + 2 ^ 256 * uint c" "uint c \<le> 1"
    using s0(1) s1(1) s2(1) s3 by (simp_all add: ab rc)
qed

lemma sub4_val:
  "lval (fst (sub4 a b)) = (if lval b \<le> lval a then lval a - lval b else lval a - lval b + 2 ^ 256)"
  "snd (sub4 a b) = (if lval b \<le> lval a then 0 else 1)"
proof -
  obtain r c where rc: "sub4 a b = (r, c)" by (cases "sub4 a b")
  note s = sub4_spec [OF rc]
  have "c = 0 \<or> c = 1" using s(2) by (simp add: byte_flag)
  then show "lval (fst (sub4 a b)) = (if lval b \<le> lval a then lval a - lval b else lval a - lval b + 2 ^ 256)"
    "snd (sub4 a b) = (if lval b \<le> lval a then 0 else 1)"
    using s(1) lval_bound [of r] lval_bound [of a] lval_bound [of b]
      lval_nonneg [of r] lval_nonneg [of a] lval_nonneg [of b]
    by (auto simp: rc)
qed

lemma add4_val:
  "lval (fst (add4 a b)) = (lval a + lval b) mod 2 ^ 256"
  "snd (add4 a b) = (if lval a + lval b < 2 ^ 256 then 0 else 1)"
proof -
  obtain r c where rc: "add4 a b = (r, c)" by (cases "add4 a b")
  note s = add4_spec [OF rc]
  have c: "c = 0 \<or> c = 1" using s(2) by (simp add: byte_flag)
  have "(lval a + lval b) mod 2 ^ 256 = lval r mod 2 ^ 256"
    by (simp add: s(1) [symmetric])
  then show "lval (fst (add4 a b)) = (lval a + lval b) mod 2 ^ 256"
    using lval_bound [of r] by (simp add: rc)
  show "snd (add4 a b) = (if lval a + lval b < 2 ^ 256 then 0 else 1)"
    using c
  proof
    assume "c = 1"
    then show ?thesis using s(1) lval_nonneg [of r] by (simp add: rc del: lval_nonneg)
  next
    assume "c = 0"
    then show ?thesis using s(1) lval_bound [of r] by (simp add: rc)
  qed
qed

section \<open>128-bit accumulators\<close>

text \<open>
  The recurring step \<open>t += v; out = (uint64_t) t; t >>= 64\<close> on an \<open>unsigned __int128\<close>.
\<close>

definition acc_step :: "u128 \<Rightarrow> u128 \<Rightarrow> u64 \<times> u128" where
  "acc_step t v = (ucast (t + v), drop_bit 64 (t + v))"

lemma acc_step_spec:
  assumes "acc_step t v = (r, t')" and "uint t + uint v < 2 ^ 128"
  shows "uint r + 2 ^ 64 * uint t' = uint t + uint v"
proof -
  have "uint (t + v) = uint t + uint v" using assms(2) by (simp add: uint_word_ariths)
  then show ?thesis
    using assms(1) by (auto simp: acc_step_def unsigned_ucast_eq take_bit_eq_mod uint_drop_bit_div)
qed

lemma uint_ucast128 [simp]: "uint (ucast (x :: u64) :: u128) = uint x"
  using uint_lt64 [of x] by (simp add: unsigned_ucast_eq take_bit_eq_mod del: uint_lt64)

lemma uint_mul128: "uint ((ucast (x :: u64) :: u128) * ucast (y :: u64)) = uint x * uint y"
proof -
  have "uint x * uint y \<le> (2 ^ 64 - 1) * (2 ^ 64 - 1)"
    using uint_lt64 [of x] uint_lt64 [of y] by (intro mult_mono) (simp_all del: uint_lt64)
  then show ?thesis by (simp add: uint_word_ariths)
qed

lemma u128_split: "uint (ucast (t :: u128) :: u64) + 2 ^ 64 * uint (drop_bit 64 t) = uint t"
  by (simp add: unsigned_ucast_eq take_bit_eq_mod uint_drop_bit_div)

lemma uint_not64: "uint (NOT (a :: u64)) = 2 ^ 64 - 1 - uint a"
proof -
  have "NOT a = - 1 - a" by (simp add: not_eq_complement)
  moreover have "uint (- 1 :: u64) = 2 ^ 64 - 1"
    by (simp add: unsigned_minus_1_eq_mask mask_eq_exp_minus_1)
  moreover have "uint a \<le> 2 ^ 64 - 1" using uint_lt64 [of a] by (simp del: uint_lt64)
  ultimately show ?thesis using uint_sub_lem [of a "- 1"] by simp
qed

lemma full_mask64: "(0xFFFFFFFFFFFFFFFF :: u64) = - 1"
  by simp

lemma uint_add128_small:
  "uint (x :: u128) + uint y < 2 ^ 128 \<Longrightarrow> uint (x + y) = uint x + uint y"
  by (simp add: uint_word_ariths)

section \<open>Byte encodings of limb arrays\<close>

text \<open>
  The four big-endian loads \<open>limbs[3] = load_be64(p) \<dots> limbs[0] = load_be64(p + 24)\<close> and the
  matching stores.
\<close>

definition load_be_limbs :: "bytes \<Rightarrow> limbs4" where
  "load_be_limbs p = Limbs4 (load_be64 (drop 24 p)) (load_be64 (drop 16 p))
     (load_be64 (drop 8 p)) (load_be64 p)"

fun store_be_limbs :: "limbs4 \<Rightarrow> bytes" where
  "store_be_limbs (Limbs4 a0 a1 a2 a3) =
     store_be64 a3 @ store_be64 a2 @ store_be64 a1 @ store_be64 a0"

lemma length_store_be_limbs [simp, len_simps]: "length (store_be_limbs a) = 32"
  by (cases a) simp

lemma load_be64_take: "8 \<le> length p \<Longrightarrow> load_be64 p = load_be64 (take 8 p)"
  by (simp add: load_be64_def)

lemma be_val_chunks32:
  assumes "length p = 32"
  shows "be_val p = be_val (take 8 p) * 2 ^ 192 + be_val (take 8 (drop 8 p)) * 2 ^ 128
    + be_val (take 8 (drop 16 p)) * 2 ^ 64 + be_val (drop 24 p)"
proof -
  have 1: "be_val q = be_val (take 8 q) * 256 ^ (length q - 8) + be_val (drop 8 q)" for q
    using be_val_append [of "take 8 q" "drop 8 q"] by simp
  have "drop 8 (drop 8 p) = drop 16 p" "drop 8 (drop 16 p) = drop 24 p" by simp_all
  then show ?thesis
    using 1 [of p] 1 [of "drop 8 p"] 1 [of "drop 16 p"] assms by simp
qed

lemma lval_load_be_limbs [val_simps]:
  assumes "length p = 32"
  shows "lval (load_be_limbs p) = be_val p"
proof -
  have "lval (load_be_limbs p) = uint (load_be64 (take 8 (drop 24 p)))
      + 2 ^ 64 * uint (load_be64 (take 8 (drop 16 p)))
      + 2 ^ 128 * uint (load_be64 (take 8 (drop 8 p))) + 2 ^ 192 * uint (load_be64 (take 8 p))"
    using assms by (simp add: load_be_limbs_def load_be64_take [symmetric])
  then show ?thesis
    using assms by (simp add: uint_load_be64 be_val_chunks32)
qed

lemma be_val_store_be_limbs [val_simps]: "be_val (store_be_limbs a) = lval a"
  by (cases a) (simp add: be_val_append be_val_store_be64)

lemma load_store_be_limbs [simp]: "load_be_limbs (store_be_limbs a) = a"
  by (simp add: lval_inj [symmetric] val_simps)

lemma store_load_be_limbs: "length p = 32 \<Longrightarrow> store_be_limbs (load_be_limbs p) = p"
  by (rule be_val_inj) (simp_all add: val_simps)

end
