(* ===== verification/Scalar.thy ===== *)
theory Scalar
  imports Limbs
begin

text \<open>
  \<open>secp256k1::fast::Scalar\<close> (src/src/cpu/src/scalar.cpp): integers modulo the group order \<open>n\<close>,
  kept as four limbs below \<open>n\<close>. Addition, subtraction, the two negations, the reducing and the
  strict byte parsers, the byte and hexadecimal encodings and the predicates. Multiplication is
  in Scalar_Mul, the signed-digit recodings in Scalar_Naf.
\<close>

section \<open>The group order\<close>

definition ORDER :: limbs4 where
  "ORDER = Limbs4 0xBFD25E8CD0364141 0xBAAEDCE6AF48A03B 0xFFFFFFFFFFFFFFFE 0xFFFFFFFFFFFFFFFF"

definition order_n :: int where
  "order_n = 0xFFFFFFFFFFFFFFFFFFFFFFFFFFFFFFFEBAAEDCE6AF48A03BBFD25E8CD0364141"

lemma lval_ORDER: "lval ORDER = order_n"
  by (simp add: ORDER_def order_n_def)

lemma order_n_bounds: "0 < order_n" "order_n < 2 ^ 256" "2 ^ 256 < 2 * order_n"
  by (simp_all add: order_n_def)

definition ORDER_COMPLEMENT_0 :: u64 where "ORDER_COMPLEMENT_0 = 0x402DA1732FC9BEBF"
definition ORDER_COMPLEMENT_1 :: u64 where "ORDER_COMPLEMENT_1 = 0x4551231950B75FC4"
definition ORDER_COMPLEMENT_2 :: u64 where "ORDER_COMPLEMENT_2 = 1"

lemma ORDER_COMPLEMENT_val:
  "lval (Limbs4 ORDER_COMPLEMENT_0 ORDER_COMPLEMENT_1 ORDER_COMPLEMENT_2 0) = 2 ^ 256 - order_n"
  by (simp add: ORDER_COMPLEMENT_0_def ORDER_COMPLEMENT_1_def ORDER_COMPLEMENT_2_def order_n_def)

text \<open>
  \<open>order_overflow\<close>: the branch-free comparison \<open>x \<ge> ORDER\<close>. \<open>yes\<close> and \<open>no\<close> are C++ \<open>int\<close>s;
  a comparison yields 0 or 1 and \<open>~no\<close> is the bitwise complement of the whole \<open>int\<close>.
\<close>

definition int_of_cmp :: "bool \<Rightarrow> u32" where
  "int_of_cmp p = (if p then 1 else 0)"

fun order_overflow :: "limbs4 \<Rightarrow> bool" where
  "order_overflow (Limbs4 a0 a1 a2 a3) =
     (let yes = 0; no = 0;
          no = no OR int_of_cmp (a3 < limb3 ORDER);
          no = no OR int_of_cmp (a2 < limb2 ORDER);
          yes = yes OR (int_of_cmp (a2 > limb2 ORDER) AND NOT no);
          no = no OR int_of_cmp (a1 < limb1 ORDER);
          yes = yes OR (int_of_cmp (a1 > limb1 ORDER) AND NOT no);
          yes = yes OR (int_of_cmp (a0 \<ge> limb0 ORDER) AND NOT no)
      in yes \<noteq> 0)"

lemma order_overflow_iff: "order_overflow a \<longleftrightarrow> ORDER \<le> a"
proof -
  obtain a0 a1 a2 a3 where a: "a = Limbs4 a0 a1 a2 a3" by (cases a)
  have top: "\<not> limb3 ORDER < a3"
    using uint_lt64 [of a3] by (simp add: ORDER_def word_less_def del: uint_lt64)
  have flags: "order_overflow a \<longleftrightarrow>
      (a2 > limb2 ORDER \<and> \<not> a3 < limb3 ORDER \<and> \<not> a2 < limb2 ORDER)
    \<or> (a1 > limb1 ORDER \<and> \<not> a3 < limb3 ORDER \<and> \<not> a2 < limb2 ORDER \<and> \<not> a1 < limb1 ORDER)
    \<or> (a0 \<ge> limb0 ORDER \<and> \<not> a3 < limb3 ORDER \<and> \<not> a2 < limb2 ORDER \<and> \<not> a1 < limb1 ORDER)"
    by (cases "a3 < limb3 ORDER"; cases "a2 < limb2 ORDER"; cases "a1 < limb1 ORDER";
        cases "a2 > limb2 ORDER"; cases "a1 > limb1 ORDER"; cases "a0 \<ge> limb0 ORDER")
      (simp_all add: a int_of_cmp_def)
  have "ORDER \<le> a \<longleftrightarrow> \<not> lval a < lval ORDER" by (simp add: less_eq_limbs4_def not_less)
  also have "\<dots> \<longleftrightarrow> \<not> (a3 < limb3 ORDER \<or> (a3 = limb3 ORDER \<and> (a2 < limb2 ORDER \<or>
      (a2 = limb2 ORDER \<and> (a1 < limb1 ORDER \<or> (a1 = limb1 ORDER \<and> a0 < limb0 ORDER))))))"
    unfolding a by (subst lval_less_lex [symmetric]) (simp add: ORDER_def)
  finally show ?thesis using top flags by auto
qed

lemma order_overflow_val: "order_overflow a \<longleftrightarrow> order_n \<le> lval a"
  by (simp add: order_overflow_iff less_eq_limbs4_def lval_ORDER)

section \<open>The class and its constructors\<close>

datatype scalar = Scalar (limbs: limbs4)

definition sval :: "scalar \<Rightarrow> int" where
  "sval s = lval (limbs s)"

text \<open>The class invariant: the limbs hold a number below the order.\<close>

definition scalar_ok :: "scalar \<Rightarrow> bool" where
  "scalar_ok s \<longleftrightarrow> sval s < order_n"

lemma sval_nonneg [simp]: "0 \<le> sval s"
  by (simp add: sval_def)

lemma sval_inj: "sval a = sval b \<longleftrightarrow> a = b"
  by (cases a; cases b) (simp add: sval_def lval_inj)

lemma scalar_okD [simp]: "scalar_ok s \<Longrightarrow> sval s mod order_n = sval s"
  by (simp add: scalar_ok_def)

definition add_impl :: "limbs4 \<Rightarrow> limbs4 \<Rightarrow> limbs4" where
  "add_impl a b =
     (let (sum, carry) = add4 a b
      in if carry = 0 \<and> \<not> order_overflow sum then sum else fst (sub4 sum ORDER))"

definition sub_impl :: "limbs4 \<Rightarrow> limbs4 \<Rightarrow> limbs4" where
  "sub_impl a b =
     (let (out, borrow) = sub4 a b
      in if borrow \<noteq> 0 then fst (add4 out ORDER) else out)"

definition scalar_zero :: scalar where
  "scalar_zero = Scalar (Limbs4 0 0 0 0)"

definition scalar_make :: "limbs4 \<Rightarrow> bool \<Rightarrow> scalar" where
  "scalar_make l normalized =
     (if \<not> normalized \<and> order_overflow l then Scalar (sub_impl l ORDER) else Scalar l)"

definition scalar_one :: scalar where
  "scalar_one = scalar_make (Limbs4 1 0 0 0) True"

definition scalar_from_uint64 :: "u64 \<Rightarrow> scalar" where
  "scalar_from_uint64 value = scalar_make (Limbs4 value 0 0 0) True"

definition scalar_from_limbs :: "limbs4 \<Rightarrow> scalar" where
  "scalar_from_limbs l = (if order_overflow l then Scalar (sub_impl l ORDER) else Scalar l)"

lemma mod_one_sub:
  fixes x m :: int
  assumes "0 \<le> x" "x < 2 * m"
  shows "x mod m = (if x < m then x else x - m)"
proof (cases "x < m")
  case False
  have "x mod m = (x - m) mod m" by simp
  also have "\<dots> = x - m" using False assms by (intro mod_pos_pos_trivial) auto
  finally show ?thesis using False by simp
qed (use assms in simp)

lemma lval_add_impl:
  assumes "lval a < order_n" and "lval b < order_n"
  shows "lval (add_impl a b) = (lval a + lval b) mod order_n"
proof -
  let ?s = "lval a + lval b"
  have s: "0 \<le> ?s" "?s < 2 * order_n" using assms by simp_all
  note n = order_n_bounds
  have carry: "snd (add4 a b) = 0 \<longleftrightarrow> ?s < 2 ^ 256" and sum: "lval (fst (add4 a b)) = ?s mod 2 ^ 256"
    by (simp_all add: add4_val)
  have m: "?s mod 2 ^ 256 = (if ?s < 2 ^ 256 then ?s else ?s - 2 ^ 256)"
    using s n by (intro mod_one_sub) linarith+
  show ?thesis
    using s n m unfolding add_impl_def mod_one_sub [OF s]
    by (auto simp: case_prod_beta Let_def carry sum order_overflow_val sub4_val lval_ORDER)
qed

lemma lval_sub_impl:
  assumes "lval a < order_n" and "lval b < order_n"
  shows "lval (sub_impl a b) = (lval a - lval b) mod order_n"
proof (cases "lval b \<le> lval a")
  case True
  have "(lval a - lval b) mod order_n = lval a - lval b"
    using True assms lval_nonneg [of b] by (intro mod_pos_pos_trivial) linarith+
  then show ?thesis
    using True by (simp add: sub_impl_def case_prod_beta Let_def sub4_val)
next
  case False
  have "(lval a - lval b) mod order_n = (lval a - lval b + order_n) mod order_n" by simp
  also have "\<dots> = lval a - lval b + order_n"
    using False assms lval_nonneg [of a] by (intro mod_pos_pos_trivial) linarith+
  also have "\<dots> = (lval a - lval b + 2 ^ 256 + order_n) mod 2 ^ 256"
    using False assms order_n_bounds lval_nonneg [of a]
    by (subst mod_one_sub) (simp_all del: lval_nonneg)
  finally show ?thesis
    using False by (simp add: sub_impl_def case_prod_beta Let_def sub4_val add4_val lval_ORDER)
qed

lemma lval_sub_ORDER:
  assumes "order_n \<le> lval a"
  shows "lval (sub_impl a ORDER) = lval a mod order_n"
proof -
  have "lval a mod order_n = lval a - order_n"
    using mod_one_sub [of "lval a" order_n] assms lval_bound [of a] order_n_bounds by simp
  then show ?thesis
    using assms by (simp add: sub_impl_def case_prod_beta Let_def sub4_val lval_ORDER)
qed

lemma sval_from_limbs [val_simps]: "sval (scalar_from_limbs l) = lval l mod order_n"
  by (simp add: scalar_from_limbs_def sval_def order_overflow_val lval_sub_ORDER not_le)

lemma scalar_ok_from_limbs [simp]: "scalar_ok (scalar_from_limbs l)"
  using order_n_bounds by (simp add: scalar_ok_def val_simps)

lemma sval_small [val_simps]:
  "sval scalar_zero = 0" "sval scalar_one = 1" "sval (scalar_from_uint64 v) = uint v"
  by (simp_all add: sval_def scalar_zero_def scalar_one_def scalar_from_uint64_def scalar_make_def)

lemma scalar_ok_small [simp]:
  "scalar_ok scalar_zero" "scalar_ok scalar_one" "scalar_ok (scalar_from_uint64 v)"
  using uint_lt64 [of v] by (simp_all add: scalar_ok_def sval_small order_n_def del: uint_lt64)

section \<open>Arithmetic operators and predicates\<close>

definition scalar_add :: "scalar \<Rightarrow> scalar \<Rightarrow> scalar" where
  "scalar_add a b = scalar_make (add_impl (limbs a) (limbs b)) True"

definition scalar_sub :: "scalar \<Rightarrow> scalar \<Rightarrow> scalar" where
  "scalar_sub a b = scalar_make (sub_impl (limbs a) (limbs b)) True"

lemma sval_add [val_simps]:
  "scalar_ok a \<Longrightarrow> scalar_ok b \<Longrightarrow> sval (scalar_add a b) = (sval a + sval b) mod order_n"
  by (simp add: scalar_add_def scalar_make_def sval_def scalar_ok_def lval_add_impl)

lemma sval_sub [val_simps]:
  "scalar_ok a \<Longrightarrow> scalar_ok b \<Longrightarrow> sval (scalar_sub a b) = (sval a - sval b) mod order_n"
  by (simp add: scalar_sub_def scalar_make_def sval_def scalar_ok_def lval_sub_impl)

lemma scalar_ok_add [simp]: "scalar_ok a \<Longrightarrow> scalar_ok b \<Longrightarrow> scalar_ok (scalar_add a b)"
  using order_n_bounds by (simp add: scalar_ok_def [of "scalar_add a b"] sval_add)

lemma scalar_ok_sub [simp]: "scalar_ok a \<Longrightarrow> scalar_ok b \<Longrightarrow> scalar_ok (scalar_sub a b)"
  using order_n_bounds by (simp add: scalar_ok_def [of "scalar_sub a b"] sval_sub)

fun limbs_or :: "limbs4 \<Rightarrow> u64" where
  "limbs_or (Limbs4 a0 a1 a2 a3) = a0 OR a1 OR a2 OR a3"

definition scalar_is_zero :: "scalar \<Rightarrow> bool" where
  "scalar_is_zero s \<longleftrightarrow> limbs_or (limbs s) = 0"

fun limbs_or_acc :: "limbs4 \<Rightarrow> u64" where
  "limbs_or_acc (Limbs4 a0 a1 a2 a3) =
     (let acc = 0; acc = acc OR a0; acc = acc OR a1; acc = acc OR a2; acc = acc OR a3 in acc)"

definition scalar_is_zero_ct :: "scalar \<Rightarrow> bool" where
  "scalar_is_zero_ct s \<longleftrightarrow> limbs_or_acc (limbs s) = 0"

definition scalar_eq :: "scalar \<Rightarrow> scalar \<Rightarrow> bool" where
  "scalar_eq a b \<longleftrightarrow> limbs a = limbs b"

definition scalar_is_even :: "scalar \<Rightarrow> bool" where
  "scalar_is_even s \<longleftrightarrow> limb0 (limbs s) AND 1 = 0"

lemma lval_eq_0: "lval (Limbs4 a0 a1 a2 a3) = 0 \<longleftrightarrow> a0 = 0 \<and> a1 = 0 \<and> a2 = 0 \<and> a3 = 0"
  using lval_inj [of "Limbs4 a0 a1 a2 a3" "Limbs4 0 0 0 0"] by simp

lemma is_zero_iff [val_simps]: "scalar_is_zero s \<longleftrightarrow> sval s = 0"
  by (cases s; cases "limbs s")
    (simp add: scalar_is_zero_def sval_def lval_eq_0 or_eq_0_iff del: lval.simps)

lemma is_zero_ct_eq [simp]: "scalar_is_zero_ct s = scalar_is_zero s"
  by (cases s; cases "limbs s") (simp add: scalar_is_zero_ct_def scalar_is_zero_def Let_def or.assoc)

lemma is_even_iff: "scalar_is_even s \<longleftrightarrow> even (sval s)"
proof (cases s; cases "limbs s")
  fix l a0 a1 a2 a3
  assume s: "s = Scalar l" "limbs s = Limbs4 a0 a1 a2 a3"
  have "a0 AND 1 = 0 \<longleftrightarrow> even (uint a0)"
    by (simp add: and_one_eq word_uint_eq_iff uint_mod parity_cases even_iff_mod_2_eq_zero)
  then show ?thesis using s by (simp add: scalar_is_even_def sval_def)
qed

text \<open>
  \<open>negate\<close> (constant time): \<open>~limb + ORDER limb\<close> with a running carry, every limb masked by
  \<open>nonzero\<close>; \<open>negate_var\<close> branches on zero instead.
\<close>

fun negate_limbs :: "limbs4 \<Rightarrow> u64 \<Rightarrow> limbs4" where
  "negate_limbs (Limbs4 a0 a1 a2 a3) nonzero =
     (let t = ucast (NOT a0) + ucast (limb0 ORDER) + 1 :: u128;
          r0 = ucast t AND nonzero; t = drop_bit 64 t;
          t = t + (ucast (NOT a1) + ucast (limb1 ORDER));
          r1 = ucast t AND nonzero; t = drop_bit 64 t;
          t = t + (ucast (NOT a2) + ucast (limb2 ORDER));
          r2 = ucast t AND nonzero; t = drop_bit 64 t;
          t = t + (ucast (NOT a3) + ucast (limb3 ORDER));
          r3 = ucast t AND nonzero
      in Limbs4 r0 r1 r2 r3)"

definition scalar_negate :: "scalar \<Rightarrow> scalar" where
  "scalar_negate s =
     (let nonzero = 0xFFFFFFFFFFFFFFFF * (if \<not> scalar_is_zero_ct s then 1 else 0)
      in scalar_make (negate_limbs (limbs s) nonzero) True)"

definition scalar_negate_var :: "scalar \<Rightarrow> scalar" where
  "scalar_negate_var s =
     (if scalar_is_zero s then scalar_zero else scalar_make (sub_impl ORDER (limbs s)) True)"

lemma sval_negate_var [val_simps]:
  assumes "scalar_ok s"
  shows "sval (scalar_negate_var s) = (- sval s) mod order_n"
proof (cases "sval s = 0")
  case True
  then show ?thesis by (simp add: scalar_negate_var_def is_zero_iff sval_small)
next
  case False
  have "(- sval s) mod order_n = (order_n - sval s) mod order_n" by (simp add: mod_diff_left_eq [symmetric])
  also have "\<dots> = order_n - sval s"
    using False assms order_less_le [of 0 "sval s"]
    by (intro mod_pos_pos_trivial) (auto simp: scalar_ok_def)
  finally show ?thesis
    using False assms by (simp add: scalar_negate_var_def is_zero_iff scalar_make_def sval_def
        scalar_ok_def sub_impl_def case_prod_beta Let_def sub4_val lval_ORDER)
qed

lemma negate_limbs_val:
  assumes "lval a \<le> order_n"
  shows "lval (negate_limbs a (- 1)) = order_n - lval a"
proof -
  obtain a0 a1 a2 a3 where a: "a = Limbs4 a0 a1 a2 a3" by (cases a)
  define t0 :: u128 where "t0 = ucast (NOT a0) + ucast (limb0 ORDER) + 1"
  define t1 where "t1 = drop_bit 64 t0 + (ucast (NOT a1) + ucast (limb1 ORDER))"
  define t2 where "t2 = drop_bit 64 t1 + (ucast (NOT a2) + ucast (limb2 ORDER))"
  define t3 where "t3 = drop_bit 64 t2 + (ucast (NOT a3) + ucast (limb3 ORDER))"
  have r: "negate_limbs a (- 1) = Limbs4 (ucast t0) (ucast t1) (ucast t2) (ucast t3)"
    by (simp add: a t0_def t1_def t2_def t3_def Let_def)
  have low: "0 \<le> uint x" "uint x < 2 ^ 64" for x :: u64 by simp_all
  have small: "T + (2 ^ 64 - 1 - X + Y) < 2 ^ 128"
    if "T < 2 ^ 64" "0 \<le> X" "X < 2 ^ 64" "0 \<le> Y" "Y < 2 ^ 64" for T X Y :: int
    using that by simp
  have up: "uint (drop_bit 64 t) \<le> uint t div 2 ^ 64" for t :: u128
    by (simp add: uint_drop_bit_div)
  have pair: "uint (ucast (NOT x) + ucast y :: u128) = 2 ^ 64 - 1 - uint x + uint y" for x y :: u64
  proof -
    have "2 ^ 64 - 1 - uint x + uint y < 2 ^ 128"
      using small [of 0 "uint x" "uint y"] low [of x] low [of y] by simp
    then show ?thesis by (subst uint_add128_small) (simp_all add: uint_not64)
  qed
  have step: "uint (drop_bit 64 t + (ucast (NOT x) + ucast y)) =
      uint (drop_bit 64 t) + (2 ^ 64 - 1 - uint x + uint y)" for t :: u128 and x y :: u64
  proof -
    have "uint t div 2 ^ 64 < 2 ^ 64"
      using uint_lt2p [of t] zdiv_mono1 [of "uint t" "2 ^ 128 - 1" "2 ^ 64"] by simp
    then have "uint (drop_bit 64 t) + (2 ^ 64 - 1 - uint x + uint y) < 2 ^ 128"
      using up [of t] low [of x] low [of y] by (intro small) linarith+
    then show ?thesis by (subst uint_add128_small) (simp_all add: pair)
  qed
  have "2 ^ 64 - 1 - uint a0 + uint (limb0 ORDER) + 1 < 2 ^ 128"
    using small [of 1 "uint a0" "uint (limb0 ORDER)"] low [of a0] low [of "limb0 ORDER"] by simp
  then have e0: "uint t0 = 2 ^ 64 - 1 - uint a0 + uint (limb0 ORDER) + 1"
    unfolding t0_def by (subst uint_add128_small) (simp_all add: pair)
  note e1 = step [of t0 a1 "limb1 ORDER", folded t1_def]
  note e2 = step [of t1 a2 "limb2 ORDER", folded t2_def]
  note e3 = step [of t2 a3 "limb3 ORDER", folded t3_def]
  have eq: "lval (negate_limbs a (- 1)) + 2 ^ 256 * uint (drop_bit 64 t3)
      = 2 ^ 256 * 1 + (order_n - lval a)"
    using u128_split [of t0] u128_split [of t1] u128_split [of t2] u128_split [of t3] e0 e1 e2 e3
    unfolding r by (simp add: a ORDER_def order_n_def)
  have "0 \<le> order_n - lval a" "order_n - lval a < 2 ^ 256"
    using assms order_n_bounds lval_nonneg [of a] by linarith+
  then show ?thesis by (rule residue_unique [OF eq lval_nonneg lval_bound])
qed

lemma negate_limbs_masked: "negate_limbs a 0 = Limbs4 0 0 0 0"
  by (cases a) (simp add: Let_def)

lemma sval_negate [val_simps]:
  assumes "scalar_ok s"
  shows "sval (scalar_negate s) = (- sval s) mod order_n"
proof (cases "sval s = 0")
  case True
  then show ?thesis
    by (simp add: scalar_negate_def is_zero_iff scalar_make_def sval_def negate_limbs_masked)
next
  case False
  have "sval (scalar_negate s) = order_n - sval s"
    using False assms negate_limbs_val [of "limbs s"]
    by (simp add: scalar_negate_def is_zero_iff scalar_make_def sval_def scalar_ok_def full_mask64)
  also have "\<dots> = sval (scalar_negate_var s)"
    using False assms by (simp add: scalar_negate_var_def is_zero_iff scalar_make_def sval_def
        scalar_ok_def sub_impl_def case_prod_beta Let_def sub4_val lval_ORDER)
  finally show ?thesis using assms by (simp add: sval_negate_var)
qed

lemma negate_eq_negate_var: "scalar_ok s \<Longrightarrow> scalar_negate s = scalar_negate_var s"
  by (simp add: sval_inj [symmetric] val_simps)

lemma scalar_ok_negate [simp]: "scalar_ok s \<Longrightarrow> scalar_ok (scalar_negate s)"
  using order_n_bounds by (simp add: scalar_ok_def [of "scalar_negate s"] val_simps)

section \<open>Byte and hexadecimal encodings\<close>

definition scalar_from_bytes :: "bytes \<Rightarrow> scalar" where
  "scalar_from_bytes bytes32 =
     (let l = load_be_limbs bytes32;
          m = 0 - (if order_overflow l then 1 else 0 :: u64);
          (l0, t) = acc_step 0 (ucast (limb0 l) + ucast (ORDER_COMPLEMENT_0 AND m));
          (l1, t) = acc_step t (ucast (limb1 l) + ucast (ORDER_COMPLEMENT_1 AND m));
          (l2, t) = acc_step t (ucast (limb2 l) + ucast (ORDER_COMPLEMENT_2 AND m));
          (l3, t) = acc_step t (ucast (limb3 l))
      in Scalar (Limbs4 l0 l1 l2 l3))"

text \<open>The portable branch: the same addend through \<open>add64\<close>'s carry chain.\<close>

definition scalar_from_bytes_noint128 :: "bytes \<Rightarrow> scalar" where
  "scalar_from_bytes_noint128 bytes32 =
     (let l = load_be_limbs bytes32;
          m = 0 - (if order_overflow l then 1 else 0 :: u64);
          addend = Limbs4 (ORDER_COMPLEMENT_0 AND m) (ORDER_COMPLEMENT_1 AND m)
                     (ORDER_COMPLEMENT_2 AND m) 0
      in Scalar (fst (add4 l addend)))"

text \<open>
  The parsers write their \<open>Scalar& out\<close> only on success (and, for the nonzero variant, also
  when they fail on zero): the result is the returned flag and the new content of \<open>out\<close>.
\<close>

definition parse_bytes_strict :: "bytes \<Rightarrow> scalar \<Rightarrow> bool \<times> scalar" where
  "parse_bytes_strict bytes32 out =
     (let l = load_be_limbs bytes32
      in if order_overflow l then (False, out) else (True, Scalar l))"

definition parse_bytes_strict_nonzero :: "bytes \<Rightarrow> scalar \<Rightarrow> bool \<times> scalar" where
  "parse_bytes_strict_nonzero bytes32 out =
     (let (ok, out') = parse_bytes_strict bytes32 out
      in if \<not> ok then (False, out') else (\<not> scalar_is_zero out', out'))"

definition parse_bytes_strict_le :: "bytes \<Rightarrow> scalar \<Rightarrow> bool \<times> scalar" where
  "parse_bytes_strict_le le32 out =
     (let l = Limbs4 (load_le64 le32) (load_le64 (drop 8 le32)) (load_le64 (drop 16 le32))
                (load_le64 (drop 24 le32))
      in if order_overflow l then (False, out) else (True, Scalar l))"

definition scalar_to_bytes :: "scalar \<Rightarrow> bytes" where
  "scalar_to_bytes s = store_be_limbs (limbs s)"

lemma length_scalar_to_bytes [simp, len_simps]: "length (scalar_to_bytes s) = 32"
  by (simp add: scalar_to_bytes_def)

lemma be_val_to_bytes [val_simps]: "be_val (scalar_to_bytes s) = sval s"
  by (simp add: scalar_to_bytes_def sval_def val_simps)

lemma sval_from_bytes_noint128:
  assumes "length bs = 32"
  shows "sval (scalar_from_bytes_noint128 bs) = be_val bs mod order_n"
proof -
  let ?l = "load_be_limbs bs"
  have v: "lval ?l = be_val bs" using assms by (simp add: val_simps)
  show ?thesis
  proof (cases "order_n \<le> be_val bs")
    case True
    have b: "be_val bs < 2 ^ 256" using be_val_bound [of bs] assms by simp
    have "(be_val bs + (2 ^ 256 - order_n)) mod 2 ^ 256 = be_val bs - order_n"
      using True b order_n_bounds by (subst mod_one_sub) auto
    moreover have "be_val bs mod order_n = be_val bs - order_n"
      using True b order_n_bounds by (subst mod_one_sub) auto
    ultimately show ?thesis
      using True ORDER_COMPLEMENT_val
      by (simp add: scalar_from_bytes_noint128_def order_overflow_val v sval_def add4_val Let_def)
  next
    case False
    then show ?thesis
      using lval_bound [of ?l]
      by (simp add: scalar_from_bytes_noint128_def order_overflow_val v sval_def add4_val Let_def)
  qed
qed

lemma acc_step_add64:
  assumes "acc_step t (ucast x + ucast y) = (r, t')" and "add64 x y c = (r', c')"
    and "uint t = uint c" and "uint c \<le> 1"
  shows "r = r' \<and> uint t' = uint c' \<and> uint c' \<le> 1"
proof -
  have "uint (ucast x + ucast y :: u128) = uint x + uint y"
    using uint_lt64 [of x] uint_lt64 [of y]
    by (subst uint_add128_small) (simp_all del: uint_lt64)
  then have "uint r + 2 ^ 64 * uint t' = uint c + (uint x + uint y)"
    using acc_step_spec [OF assms(1)] assms(3,4) uint_lt64 [of x] uint_lt64 [of y]
    by (simp del: uint_lt64)
  with add64_spec [OF assms(2,4)] have "uint r + 2 ^ 64 * uint t' = uint r' + 2 ^ 64 * uint c'"
    by simp
  then show ?thesis using limb_split add64_spec(2) [OF assms(2,4)] by blast
qed

lemma from_bytes_eq_noint128: "scalar_from_bytes bs = scalar_from_bytes_noint128 bs"
proof -
  obtain a0 a1 a2 a3 where a: "load_be_limbs bs = Limbs4 a0 a1 a2 a3" by (cases "load_be_limbs bs")
  define m :: u64 where "m = 0 - (if order_overflow (load_be_limbs bs) then 1 else 0)"
  obtain r0 t0 where 0: "acc_step 0 (ucast a0 + ucast (ORDER_COMPLEMENT_0 AND m)) = (r0, t0)" by fastforce
  obtain r1 t1 where 1: "acc_step t0 (ucast a1 + ucast (ORDER_COMPLEMENT_1 AND m)) = (r1, t1)" by fastforce
  obtain r2 t2 where 2: "acc_step t1 (ucast a2 + ucast (ORDER_COMPLEMENT_2 AND m)) = (r2, t2)" by fastforce
  obtain r3 t3 where 3: "acc_step t2 (ucast a3 + ucast (0 :: u64)) = (r3, t3)" by fastforce
  obtain s0 c0 where s0: "add64 a0 (ORDER_COMPLEMENT_0 AND m) 0 = (s0, c0)" by fastforce
  obtain s1 c1 where s1: "add64 a1 (ORDER_COMPLEMENT_1 AND m) c0 = (s1, c1)" by fastforce
  obtain s2 c2 where s2: "add64 a2 (ORDER_COMPLEMENT_2 AND m) c1 = (s2, c2)" by fastforce
  obtain s3 c3 where s3: "add64 a3 0 c2 = (s3, c3)" by fastforce
  have e0: "r0 = s0 \<and> uint t0 = uint c0 \<and> uint c0 \<le> 1" by (rule acc_step_add64 [OF 0 s0]) auto
  then have e1: "r1 = s1 \<and> uint t1 = uint c1 \<and> uint c1 \<le> 1" by (intro acc_step_add64 [OF 1 s1]) auto
  then have e2: "r2 = s2 \<and> uint t2 = uint c2 \<and> uint c2 \<le> 1" by (intro acc_step_add64 [OF 2 s2]) auto
  then have e3: "r3 = s3 \<and> uint t3 = uint c3 \<and> uint c3 \<le> 1" by (intro acc_step_add64 [OF 3 s3]) auto
  have "scalar_from_bytes bs = Scalar (Limbs4 r0 r1 r2 r3)"
    unfolding scalar_from_bytes_def a Let_def m_def [symmetric, unfolded a]
    using 0 1 2 3 by simp
  moreover have "scalar_from_bytes_noint128 bs = Scalar (Limbs4 s0 s1 s2 s3)"
    unfolding scalar_from_bytes_noint128_def a Let_def m_def [symmetric, unfolded a]
    using s0 s1 s2 s3 by simp
  ultimately show ?thesis using e0 e1 e2 e3 by simp
qed

lemma sval_from_bytes [val_simps]:
  "length bs = 32 \<Longrightarrow> sval (scalar_from_bytes bs) = be_val bs mod order_n"
  by (simp add: from_bytes_eq_noint128 sval_from_bytes_noint128)

lemma scalar_ok_from_bytes [simp]: "length bs = 32 \<Longrightarrow> scalar_ok (scalar_from_bytes bs)"
  using order_n_bounds by (simp add: scalar_ok_def val_simps)

text \<open>The strict parsers accept exactly the encodings of \<open>[0, n)\<close> (or \<open>[1, n)\<close>).\<close>

lemma parse_bytes_strict_iff:
  assumes "length bs = 32"
  shows "parse_bytes_strict bs out =
    (if be_val bs < order_n then (True, Scalar (load_be_limbs bs)) else (False, out))"
  using assms by (simp add: parse_bytes_strict_def order_overflow_val val_simps Let_def)

lemma parse_bytes_strict_nonzero_iff:
  assumes "length bs = 32"
  shows "parse_bytes_strict_nonzero bs out =
    (if be_val bs < order_n then (be_val bs \<noteq> 0, Scalar (load_be_limbs bs)) else (False, out))"
  using assms
  by (simp add: parse_bytes_strict_nonzero_def parse_bytes_strict_iff is_zero_iff sval_def val_simps)

lemma parse_bytes_strict_nonzero_ok:
  assumes "length bs = 32"
  shows "fst (parse_bytes_strict_nonzero bs out) \<longleftrightarrow> 0 < be_val bs \<and> be_val bs < order_n"
  using assms be_val_nonneg [of bs] by (auto simp: parse_bytes_strict_nonzero_iff less_le)

lemma sval_load [val_simps]: "length bs = 32 \<Longrightarrow> sval (Scalar (load_be_limbs bs)) = be_val bs"
  by (simp add: sval_def val_simps)

lemma parse_to_bytes [simp]:
  assumes "scalar_ok s"
  shows "parse_bytes_strict (scalar_to_bytes s) out = (True, s)"
  using assms by (cases s) (simp add: parse_bytes_strict_iff val_simps scalar_ok_def scalar_to_bytes_def sval_def)

lemma from_bytes_to_bytes [simp]:
  assumes "scalar_ok s"
  shows "scalar_from_bytes (scalar_to_bytes s) = s"
  using assms by (simp add: sval_inj [symmetric] val_simps)

lemma to_bytes_load: "length bs = 32 \<Longrightarrow> scalar_to_bytes (Scalar (load_be_limbs bs)) = bs"
  by (simp add: scalar_to_bytes_def store_load_be_limbs)

text \<open>The little-endian parser agrees with the big-endian one on the reversed bytes.\<close>

lemma parse_bytes_strict_le_rev:
  assumes "length bs = 32"
  shows "parse_bytes_strict_le bs out = parse_bytes_strict (rev bs) out"
proof -
  have le: "load_le64 (drop k bs) = load_be64 (drop (24 - k) (rev bs))" if "k \<le> 24" for k
  proof -
    have "load_le64 (drop k bs) = load_le64 (take 8 (drop k bs))"
      using assms that by (simp add: load_le64_def)
    also have "\<dots> = load_be64 (take 8 (drop (24 - k) (rev bs)))"
      using assms that by (simp add: load_le64_rev rev_take rev_drop drop_take)
    finally show ?thesis using assms that by (simp add: load_be64_take [symmetric])
  qed
  show ?thesis
    using le [of 0] le [of 8] le [of 16] le [of 24]
    by (simp add: parse_bytes_strict_le_def parse_bytes_strict_def load_be_limbs_def)
qed

text \<open>Single bits, as the scalar-multiplication loops read them.\<close>

fun limb_at :: "limbs4 \<Rightarrow> nat \<Rightarrow> u64" where
  "limb_at (Limbs4 a0 a1 a2 a3) i =
     (if i = 0 then a0 else if i = 1 then a1 else if i = 2 then a2 else a3)"

definition scalar_bit :: "scalar \<Rightarrow> nat \<Rightarrow> byte" where
  "scalar_bit s index =
     (if index \<ge> 256 then 0
      else ucast (drop_bit (index mod 64) (limb_at (limbs s) (index div 64)) AND 1))"

lemma lval_bit:
  assumes "i < 256"
  shows "bit (lval l) i \<longleftrightarrow> bit (limb_at l (i div 64)) (i mod 64)"
proof -
  obtain a0 a1 a2 a3 where l: "l = Limbs4 a0 a1 a2 a3" by (cases l)
  have low: "bit (uint (a :: u64) + 2 ^ 64 * y) i =
      (if i < 64 then bit a i else bit y (i - 64))" for a y i
  proof -
    have "uint a + 2 ^ 64 * y = push_bit 64 y OR uint a"
      using or_push_bit_add [of "uint a" 64 y] by simp
    then show ?thesis by (auto simp: bit_simps dest: bit_imp_le_length)
  qed
  have "lval l = uint a0 + 2 ^ 64 * (uint a1 + 2 ^ 64 * (uint a2 + 2 ^ 64 * (uint a3 + 2 ^ 64 * 0)))"
    by (simp add: l)
  then have b: "bit (lval l) i \<longleftrightarrow> (if i < 64 then bit a0 i else if i - 64 < 64 then bit a1 (i - 64)
      else if i - 64 - 64 < 64 then bit a2 (i - 64 - 64)
      else if i - 64 - 64 - 64 < 64 then bit a3 (i - 64 - 64 - 64) else False)"
    by (simp only: low) simp
  consider "i < 64" | "64 \<le> i" "i < 128" | "128 \<le> i" "i < 192" | "192 \<le> i" "i < 256"
    using assms by linarith
  then show ?thesis
  proof cases
    case 1 then show ?thesis unfolding b by (simp add: l)
  next
    case 2
    then have "i div 64 = 1" "i mod 64 = i - 64" by (simp_all add: le_div_geq le_mod_geq)
    moreover have "i - 64 < 64" using 2 by linarith
    ultimately show ?thesis using 2 unfolding b by (simp add: l)
  next
    case 3
    then have "i div 64 = 2" "i mod 64 = i - 128" by (simp_all add: le_div_geq le_mod_geq)
    moreover have "\<not> i - 64 < 64" "i - 128 < 64" using 3 by linarith+
    ultimately show ?thesis using 3 unfolding b by (simp add: l)
  next
    case 4
    then have "i div 64 = 3" "i mod 64 = i - 192" by (simp_all add: le_div_geq le_mod_geq)
    moreover have "\<not> i - 64 < 64" "\<not> i - 128 < 64" "i - 192 < 64" using 4 by linarith+
    ultimately show ?thesis using 4 unfolding b by (simp add: l)
  qed
qed

lemma scalar_bit_spec: "scalar_bit s i = of_bool (bit (sval s) i)"
proof (cases "i < 256")
  case True
  have "ucast (drop_bit k (a :: u64) AND 1) = (of_bool (bit a k) :: byte)" for a k
    by (simp add: and_one_eq bit_iff_odd_drop_bit mod_2_eq_odd)
  then show ?thesis using True by (simp add: scalar_bit_def lval_bit sval_def)
next
  case False
  have "take_bit 256 (sval s) = sval s"
    using lval_bound [of "limbs s"] by (simp add: take_bit_int_eq_self sval_def)
  then have "\<not> bit (sval s) i" using False by (metis bit_take_bit_iff not_less)
  with False show ?thesis by (simp add: scalar_bit_def)
qed

text \<open>Hexadecimal: \<open>to_hex\<close> prints 64 lower-case digits; \<open>from_hex\<close> throws on anything else.\<close>

datatype hex_error = Hex_bad_length | Hex_bad_character

definition hex_chars :: string where
  "hex_chars = ''0123456789abcdef''"

definition scalar_to_hex :: "scalar \<Rightarrow> string" where
  "scalar_to_hex s =
     concat (map (\<lambda>b. [hex_chars ! unat (drop_bit 4 b AND 0xF), hex_chars ! unat (b AND 0xF)])
       (scalar_to_bytes s))"

definition hex_to_nibble :: "char \<Rightarrow> hex_error + byte" where
  "hex_to_nibble c =
     (let v = of_char c :: byte
      in if of_char (CHR ''0'') \<le> v \<and> v \<le> of_char (CHR ''9'') then Inr (v - of_char (CHR ''0''))
         else if of_char (CHR ''a'') \<le> v \<and> v \<le> of_char (CHR ''f'')
           then Inr (v - of_char (CHR ''a'') + 10)
         else if of_char (CHR ''A'') \<le> v \<and> v \<le> of_char (CHR ''F'')
           then Inr (v - of_char (CHR ''A'') + 10)
         else Inl Hex_bad_character)"

fun hex_to_bytes :: "string \<Rightarrow> hex_error + bytes" where
  "hex_to_bytes (c1 # c2 # cs) =
     (case hex_to_nibble c1 of Inl e \<Rightarrow> Inl e | Inr h1 \<Rightarrow>
      case hex_to_nibble c2 of Inl e \<Rightarrow> Inl e | Inr h2 \<Rightarrow>
      case hex_to_bytes cs of Inl e \<Rightarrow> Inl e | Inr bs \<Rightarrow> Inr ((push_bit 4 h1 OR h2) # bs))"
| "hex_to_bytes _ = Inr []"

definition scalar_from_hex :: "string \<Rightarrow> hex_error + scalar" where
  "scalar_from_hex hex =
     (if length hex \<noteq> 64 then Inl Hex_bad_length
      else case hex_to_bytes hex of Inl e \<Rightarrow> Inl e | Inr bs \<Rightarrow> Inr (scalar_from_bytes bs))"

lemma nibble_cases:
  fixes x :: byte
  assumes "x < 16"
  shows "x \<in> {0, 1, 2, 3, 4, 5, 6, 7, 8, 9, 10, 11, 12, 13, 14, 15}"
proof -
  have "unat x < 16" using assms by (simp add: word_less_nat_alt)
  then have "unat x \<in> {0, 1, 2, 3, 4, 5, 6, 7, 8, 9, 10, 11, 12, 13, 14, 15}"
    by (simp only: insert_iff empty_iff) presburger
  then have "x \<in> of_nat ` {0, 1, 2, 3, 4, 5, 6, 7, 8, 9, 10, 11, 12, 13, 14, 15}"
    by (rule image_eqI [rotated]) simp
  then show ?thesis by simp
qed

lemma hex_nibble_roundtrip:
  fixes x :: byte
  assumes "x < 16"
  shows "hex_to_nibble (hex_chars ! unat x) = Inr x"
  using nibble_cases [OF assms] by (auto simp: hex_to_nibble_def hex_chars_def)

lemma and_15_lt: "(x :: byte) AND 0xF < 16"
proof -
  have "x AND 15 = take_bit 4 x" by (simp add: take_bit_eq_mask mask_eq_exp_minus_1)
  then show ?thesis by (simp add: word_less_def uint_mod take_bit_eq_mod)
qed

lemma nibbles_join: "push_bit 4 (drop_bit 4 x AND 0xF) OR (x AND 0xF) = (x :: byte)"
proof -
  have "x AND 15 = take_bit 4 x" for x :: byte by (simp add: take_bit_eq_mask mask_eq_exp_minus_1)
  then show ?thesis
    by (auto intro!: bit_word_eqI simp: bit_simps not_less)
qed

lemma nibbles_join' [simp]: "push_bit 4 (drop_bit 4 x) AND 240 OR x AND 15 = (x :: byte)"
  using nibbles_join [of x] by simp

lemma hex_to_bytes_print:
  "hex_to_bytes (concat (map (\<lambda>b. [hex_chars ! unat (drop_bit 4 b AND 0xF), hex_chars ! unat (b AND 0xF)]) bs))
    = Inr bs"
  by (induction bs) (simp_all add: hex_nibble_roundtrip and_15_lt nibbles_join)

lemma length_scalar_to_hex [simp]: "length (scalar_to_hex s) = 64"
proof -
  have "length (concat (map (\<lambda>b. [f b, g b]) bs)) = 2 * length bs" for f g :: "byte \<Rightarrow> char" and bs
    by (induction bs) auto
  then show ?thesis by (simp add: scalar_to_hex_def)
qed

lemma scalar_hex_roundtrip:
  "scalar_ok s \<Longrightarrow> scalar_from_hex (scalar_to_hex s) = Inr s"
  by (simp add: scalar_from_hex_def) (simp add: scalar_to_hex_def hex_to_bytes_print)

section \<open>Properties\<close>

text \<open>C8: \<open>Scalar::from_bytes\<close> reduces the 256-bit big-endian number modulo the group order, on both
  the 128-bit and the portable path of the conditional subtraction, and the result is canonical.\<close>

theorem from_bytes_correct:
  assumes "length bs = 32"
  shows "sval (scalar_from_bytes bs) = be_val bs mod order_n \<and>
    scalar_from_bytes_noint128 bs = scalar_from_bytes bs \<and> scalar_ok (scalar_from_bytes bs)"
  using assms from_bytes_eq_noint128 [of bs] by (metis sval_from_bytes scalar_ok_from_bytes)

theorem from_bytes_correct_witness:
  "sval (scalar_from_bytes (scalar_to_bytes (Scalar ORDER))) = 0"
  using from_bytes_correct [of "scalar_to_bytes (Scalar ORDER)"]
  by (simp add: be_val_to_bytes sval_def lval_ORDER)

text \<open>C9: the strict parsers accept exactly the 32-byte encodings of a number below the group order
  (nonzero, for the second one), the accepted bytes are the encoding of the parsed scalar, a refused
  input leaves the output untouched, and the little-endian parser is the big-endian one on the
  reversed bytes.\<close>

theorem parse_strict_correct:
  assumes "length bs = 32"
  shows "(fst (parse_bytes_strict bs out) = (be_val bs < order_n)) \<and>
    (fst (parse_bytes_strict_nonzero bs out) = (0 < be_val bs \<and> be_val bs < order_n)) \<and>
    (if be_val bs < order_n then scalar_to_bytes (snd (parse_bytes_strict bs out)) = bs
     else snd (parse_bytes_strict bs out) = out) \<and>
    parse_bytes_strict_le bs out = parse_bytes_strict (rev bs) out"
  using assms parse_bytes_strict_nonzero_ok [OF assms]
  by (simp add: parse_bytes_strict_iff parse_bytes_strict_le_rev to_bytes_load)

theorem parse_strict_correct_witness:
  "\<not> fst (parse_bytes_strict (scalar_to_bytes (Scalar ORDER)) scalar_zero)"
  using parse_strict_correct [of "scalar_to_bytes (Scalar ORDER)" scalar_zero]
  by (simp add: be_val_to_bytes sval_def lval_ORDER)

text \<open>C10: a canonical scalar survives serialisation: the byte form is parsed back by the strict and the
  reducing parser, and the hexadecimal form by \<open>from_hex\<close>; \<open>bit\<close> reads the binary digits of the value.\<close>

theorem scalar_encodings_roundtrip:
  assumes "scalar_ok s"
  shows "parse_bytes_strict (scalar_to_bytes s) out = (True, s) \<and>
    scalar_from_bytes (scalar_to_bytes s) = s \<and> scalar_from_hex (scalar_to_hex s) = Inr s \<and>
    be_val (scalar_to_bytes s) = sval s \<and> scalar_bit s i = of_bool (bit (sval s) i)"
  using assms by (simp add: scalar_hex_roundtrip be_val_to_bytes scalar_bit_spec)

theorem scalar_encodings_roundtrip_witness:
  "scalar_from_hex (scalar_to_hex (scalar_from_uint64 0xC0FFEE)) = Inr (scalar_from_uint64 0xC0FFEE)"
  using scalar_encodings_roundtrip [of "scalar_from_uint64 0xC0FFEE"] by simp

text \<open>C12: the masked, branch-free \<open>negate\<close> and the variable-time \<open>negate_var\<close> agree on canonical scalars,
  zero included, and are negation modulo the group order.\<close>

theorem negate_correct:
  assumes "scalar_ok s"
  shows "scalar_negate s = scalar_negate_var s \<and> sval (scalar_negate s) = (- sval s) mod order_n"
  using assms by (simp add: negate_eq_negate_var sval_negate_var)

theorem negate_correct_witness:
  "sval (scalar_negate scalar_one) = order_n - 1"
  using negate_correct [of scalar_one] zmod_zminus1_eq_if [of 1 order_n]
  by (auto simp: sval_small order_n_def)

end
