(* ===== verification/Scalar_Mul.thy ===== *)
theory Scalar_Mul
  imports Scalar
begin

text \<open>
  \<open>Scalar::operator*\<close> (scalar.cpp, the 128-bit path): a column-by-column schoolbook product into
  eight limbs, then three folds through \<open>NC = 2^256 - n\<close> that bring 512 bits down to 385, 258
  and 256 bits, and a last conditional correction. The result is the product modulo \<open>n\<close>, for
  any operands: the folds never overflow the accumulators.
\<close>

section \<open>The 160-bit accumulator\<close>

text \<open>
  The lambdas \<open>muladd\<close>, \<open>sumadd\<close> and \<open>extract_to\<close> over the captured \<open>c0, c1\<close> (64 bits) and
  \<open>c2\<close> (32 bits). A run of calls between two extractions is a list of operations.
\<close>

type_synonym acc160 = "u64 \<times> u64 \<times> u32"

fun muladd :: "acc160 \<Rightarrow> u64 \<Rightarrow> u64 \<Rightarrow> acc160" where
  "muladd (c0, c1, c2) x y =
     (let p = ucast x * ucast y :: u128;
          tl = ucast p; th = ucast (drop_bit 64 p);
          c0 = c0 + tl;
          th = th + (if c0 < tl then 1 else 0);
          c1 = c1 + th;
          c2 = c2 + (if c1 < th then 1 else 0)
      in (c0, c1, c2))"

fun sumadd :: "acc160 \<Rightarrow> u64 \<Rightarrow> acc160" where
  "sumadd (c0, c1, c2) x =
     (let c0 = c0 + x;
          o' = (if c0 < x then 1 else 0);
          c1 = c1 + o';
          c2 = c2 + (if c1 < o' then 1 else 0)
      in (c0, c1, c2))"

fun extract_to :: "acc160 \<Rightarrow> u64 \<times> acc160" where
  "extract_to (c0, c1, c2) = (c0, (c1, ucast c2, 0))"

datatype acc_op = MulAdd u64 u64 | SumAdd u64

fun acc_run :: "acc160 \<Rightarrow> acc_op list \<Rightarrow> acc160" where
  "acc_run s [] = s"
| "acc_run s (MulAdd x y # ops) = acc_run (muladd s x y) ops"
| "acc_run s (SumAdd x # ops) = acc_run (sumadd s x) ops"

fun aval :: "acc160 \<Rightarrow> int" where
  "aval (c0, c1, c2) = uint c0 + 2 ^ 64 * uint c1 + 2 ^ 128 * uint c2"

fun acc_op_val :: "acc_op \<Rightarrow> int" where
  "acc_op_val (MulAdd x y) = uint x * uint y"
| "acc_op_val (SumAdd x) = uint x"

lemma aval_nonneg [simp]: "0 \<le> aval s"
  by (cases s) simp

lemma word_add_carry:
  fixes a b :: "'a::len word"
  shows "uint (a + b) + 2 ^ LENGTH('a) * (if a + b < b then 1 else 0) = uint a + uint b"
proof (cases "uint a + uint b < 2 ^ LENGTH('a)")
  case True
  then have "uint (a + b) = uint a + uint b" by (simp add: uint_plus_if')
  then show ?thesis by (simp add: word_less_def)
next
  case False
  then have "uint (a + b) = uint a + uint b - 2 ^ LENGTH('a)" by (simp add: uint_plus_if')
  moreover have "uint a < 2 ^ LENGTH('a)" by simp
  ultimately show ?thesis by (simp add: word_less_def)
qed

lemma uint_mul_bound: "uint (x :: u64) * uint (y :: u64) \<le> (2 ^ 64 - 1) * (2 ^ 64 - 1)"
  using uint_lt64 [of x] uint_lt64 [of y] by (intro mult_mono) (simp_all del: uint_lt64)

lemma add_flag32: "uint (c2 :: u32) < 2 ^ 32 - 1 \<Longrightarrow>
    uint (c2 + (if P then 1 else 0)) = uint c2 + (if P then 1 else 0)"
  by (auto simp: uint_plus_if')

lemma add_flag64: "uint (t :: u64) < 2 ^ 64 - 1 \<Longrightarrow>
    uint (t + (if P then 1 else 0)) = uint t + (if P then 1 else 0)"
  by (auto simp: uint_plus_if')

lemma c2_small:
  assumes "aval (c0, c1, c2) < 2 ^ 159"
  shows "uint c2 < 2 ^ 32 - 1"
proof -
  have "C < 2 ^ 32 - 1" if "A + 2 ^ 64 * B + 2 ^ 128 * C < 2 ^ 159" "0 \<le> A" "0 \<le> B" for A B C :: int
    using that by simp
  from this [of "uint c0" "uint c1" "uint c2"] assms show ?thesis by simp
qed

lemma aval_sumadd:
  assumes "aval s < 2 ^ 159"
  shows "aval (sumadd s x) = aval s + uint x"
proof -
  obtain c0 c1 c2 where s: "s = (c0, c1, c2)" by (cases s)
  define cr where "cr = (if c0 + x < x then 1 else 0 :: u64)"
  have cr: "uint cr = (if c0 + x < x then 1 else 0)" by (simp add: cr_def)
  have 2: "uint (c2 + (if P then 1 else 0)) = uint c2 + (if P then 1 else 0)" for P
    using assms unfolding s by (intro add_flag32 c2_small)
  have r: "sumadd s x = (c0 + x, c1 + cr, c2 + (if c1 + cr < cr then 1 else 0))"
    by (simp add: s cr_def Let_def)
  show ?thesis
    using word_add_carry [of c0 x] word_add_carry [of c1 cr]
    unfolding r aval.simps 2 cr by (simp add: s)
qed

lemma aval_muladd:
  assumes "aval s < 2 ^ 159"
  shows "aval (muladd s x y) = aval s + uint x * uint y"
proof -
  obtain c0 c1 c2 where s: "s = (c0, c1, c2)" by (cases s)
  define p :: u128 where "p = ucast x * ucast y"
  define tl :: u64 where "tl = ucast p"
  define hi :: u64 where "hi = ucast (drop_bit 64 p)"
  define th where "th = hi + (if c0 + tl < tl then 1 else 0)"
  have p: "uint p = uint x * uint y" by (simp add: p_def uint_mul128)
  have hi: "uint hi = uint p div 2 ^ 64"
  proof -
    have "uint p div 2 ^ 64 < 2 ^ 64"
      using uint_lt2p [of p] zdiv_mono1 [of "uint p" "2 ^ 128 - 1" "2 ^ 64"] by simp
    then show ?thesis
      by (simp add: hi_def unsigned_ucast_eq take_bit_eq_mod uint_drop_bit_div pos_imp_zdiv_nonneg_iff)
  qed
  have lo: "uint tl + 2 ^ 64 * uint hi = uint x * uint y"
    by (simp add: tl_def hi p [symmetric] unsigned_ucast_eq take_bit_eq_mod)
  have "uint hi < 2 ^ 64 - 1"
    unfolding hi p using zdiv_mono1 [OF uint_mul_bound, of "2 ^ 64" x y] by simp
  then have th: "uint th = uint hi + (if c0 + tl < tl then 1 else 0)"
    unfolding th_def by (rule add_flag64)
  have 2: "uint (c2 + (if P then 1 else 0)) = uint c2 + (if P then 1 else 0)" for P
    using assms unfolding s by (intro add_flag32 c2_small)
  have r: "muladd s x y = (c0 + tl, c1 + th, c2 + (if c1 + th < th then 1 else 0))"
    by (simp add: s th_def hi_def tl_def p_def Let_def)
  show ?thesis
    using word_add_carry [of c0 tl] word_add_carry [of c1 th] th lo
    unfolding r aval.simps 2 by (simp add: s)
qed

lemma aval_run:
  assumes "aval s + 2 ^ 128 * int (length ops) < 2 ^ 159"
  shows "aval (acc_run s ops) = aval s + sum_list (map acc_op_val ops)
    \<and> aval (acc_run s ops) \<le> aval s + 2 ^ 128 * int (length ops)"
  using assms
proof (induction s ops rule: acc_run.induct)
  case (2 s x y ops)
  have e: "aval (muladd s x y) = aval s + uint x * uint y"
    using "2.prems" by (intro aval_muladd) simp
  have "uint x * uint y \<le> 2 ^ 128" using uint_mul_bound [of x y] by simp
  with 2 e show ?case by (simp add: algebra_simps)
next
  case (3 s x ops)
  have e: "aval (sumadd s x) = aval s + uint x"
    using "3.prems" by (intro aval_sumadd) simp
  have "uint x \<le> 2 ^ 128" using uint_lt64 [of x] by (simp del: uint_lt64)
  with 3 e show ?case by (simp add: algebra_simps)
qed simp

text \<open>One column: at most eight operations on an accumulator below \<open>2^68\<close>, then an extraction.\<close>

definition column :: "acc160 \<Rightarrow> acc_op list \<Rightarrow> u64 \<times> acc160" where
  "column s ops = extract_to (acc_run s ops)"

lemma column_spec:
  assumes "column s ops = (r, s')" and "aval s < 2 ^ 68" and "length ops \<le> 8"
  shows "uint r + 2 ^ 64 * aval s' = aval s + sum_list (map acc_op_val ops)"
    and "aval s' < 2 ^ 68"
proof -
  have len: "2 ^ 128 * int (length ops) \<le> 2 ^ 131" using assms(3) by simp
  have run: "aval (acc_run s ops) = aval s + sum_list (map acc_op_val ops)"
    "aval (acc_run s ops) \<le> 2 ^ 68 + 2 ^ 131"
    using aval_run [of s ops] assms(2) len by simp_all
  obtain c0 c1 c2 where c: "acc_run s ops = (c0, c1, c2)" by (cases "acc_run s ops")
  have rs: "r = c0" "s' = (c1, ucast c2, 0)" using assms(1) by (simp_all add: column_def c)
  have u: "uint (ucast c2 :: u64) = uint c2"
    using uint_lt32 [of c2] by (simp add: unsigned_ucast_eq take_bit_eq_mod del: uint_lt32)
  have "aval (c0, c1, c2) = uint r + 2 ^ 64 * aval s'" by (simp add: rs u)
  with run c show "uint r + 2 ^ 64 * aval s' = aval s + sum_list (map acc_op_val ops)" by simp
  have "2 ^ 64 * aval s' \<le> 2 ^ 68 + 2 ^ 131"
    using run(2) \<open>aval (c0, c1, c2) = uint r + 2 ^ 64 * aval s'\<close> uint_ge_0 [of r]
    unfolding c by linarith
  then show "aval s' < 2 ^ 68" by simp
qed

section \<open>The product and its reduction\<close>

definition NC0 :: u64 where "NC0 = 0x402DA1732FC9BEBF"
definition NC1 :: u64 where "NC1 = 0x4551231950B75FC4"

lemma NC_val: "uint NC0 + 2 ^ 64 * uint NC1 + 2 ^ 128 = 2 ^ 256 - order_n"
  by (simp add: NC0_def NC1_def order_n_def)

datatype wide8 = Wide8 u64 u64 u64 u64 u64 u64 u64 u64

fun wval :: "wide8 \<Rightarrow> int" where
  "wval (Wide8 l0 l1 l2 l3 l4 l5 l6 l7) = lval (Limbs4 l0 l1 l2 l3) + 2 ^ 256 * lval (Limbs4 l4 l5 l6 l7)"

fun mul_512 :: "limbs4 \<Rightarrow> limbs4 \<Rightarrow> wide8" where
  "mul_512 (Limbs4 a0 a1 a2 a3) (Limbs4 b0 b1 b2 b3) =
     (let (l0, s) = column (0, 0, 0) [MulAdd a0 b0];
          (l1, s) = column s [MulAdd a0 b1, MulAdd a1 b0];
          (l2, s) = column s [MulAdd a0 b2, MulAdd a1 b1, MulAdd a2 b0];
          (l3, s) = column s [MulAdd a0 b3, MulAdd a1 b2, MulAdd a2 b1, MulAdd a3 b0];
          (l4, s) = column s [MulAdd a1 b3, MulAdd a2 b2, MulAdd a3 b1];
          (l5, s) = column s [MulAdd a2 b3, MulAdd a3 b2];
          (l6, s) = column s [MulAdd a3 b3];
          l7 = fst s
      in Wide8 l0 l1 l2 l3 l4 l5 l6 l7)"

text \<open>\<open>m[0..6] = l[0..3] + l[4..7] * NC\<close>: four low limbs and three high ones.\<close>

fun reduce_512 :: "wide8 \<Rightarrow> limbs4 \<times> u64 \<times> u64 \<times> u64" where
  "reduce_512 (Wide8 l0 l1 l2 l3 l4 l5 l6 l7) =
     (let (m0, s) = column (l0, 0, 0) [MulAdd l4 NC0];
          (m1, s) = column s [SumAdd l1, MulAdd l5 NC0, MulAdd l4 NC1];
          (m2, s) = column s [SumAdd l2, MulAdd l6 NC0, MulAdd l5 NC1, SumAdd l4];
          (m3, s) = column s [SumAdd l3, MulAdd l7 NC0, MulAdd l6 NC1, SumAdd l5];
          (m4, s) = column s [MulAdd l7 NC1, SumAdd l6];
          (m5, s) = column s [SumAdd l7];
          m6 = fst s
      in (Limbs4 m0 m1 m2 m3, m4, m5, m6))"

text \<open>\<open>p[0..4] = m[0..3] + m[4..6] * NC\<close>: four limbs and a 32-bit top.\<close>

fun reduce_385 :: "limbs4 \<times> u64 \<times> u64 \<times> u64 \<Rightarrow> limbs4 \<times> u32" where
  "reduce_385 (Limbs4 m0 m1 m2 m3, m4, m5, m6) =
     (let (p0, s) = column (m0, 0, 0) [MulAdd m4 NC0];
          (p1, s) = column s [SumAdd m1, MulAdd m5 NC0, MulAdd m4 NC1];
          (p2, s) = column s [SumAdd m2, MulAdd m6 NC0, MulAdd m5 NC1, SumAdd m4];
          (p3, s) = column s [SumAdd m3, MulAdd m6 NC1, SumAdd m5];
          p4 = ucast (fst s + m6)
      in (Limbs4 p0 p1 p2 p3, p4))"

text \<open>The last fold, and the same chain again for the conditional correction.\<close>

fun fold_258 :: "limbs4 \<Rightarrow> u128 \<Rightarrow> limbs4 \<times> u128" where
  "fold_258 (Limbs4 p0 p1 p2 p3) k =
     (let (r0, acc) = acc_step 0 (ucast p0 + ucast NC0 * k);
          (r1, acc) = acc_step acc (ucast p1 + ucast NC1 * k);
          (r2, acc) = acc_step acc (ucast p2 + k);
          (r3, acc) = acc_step acc (ucast p3)
      in (Limbs4 r0 r1 r2 r3, acc))"

definition reduce_258 :: "limbs4 \<times> u32 \<Rightarrow> limbs4" where
  "reduce_258 p =
     (let (r, acc) = fold_258 (fst p) (ucast (snd p));
          carry = ucast acc :: u32;
          reduce_count = carry + (if order_overflow r then 1 else 0)
      in if reduce_count \<noteq> 0 then fst (fold_258 r (ucast reduce_count)) else r)"

definition scalar_mul :: "scalar \<Rightarrow> scalar \<Rightarrow> scalar" where
  "scalar_mul a b =
     scalar_make (reduce_258 (reduce_385 (reduce_512 (mul_512 (limbs a) (limbs b))))) True"

text \<open>
  The accumulator left after the last extraction holds less than one limb whenever the number
  being built is known to fit, so its low limb is its value.
\<close>

lemma aval_fst:
  assumes "aval s < 2 ^ 64"
  shows "uint (fst s) = aval s"
proof -
  obtain c0 c1 c2 where s: "s = (c0, c1, c2)" by (cases s)
  have z: "B = 0 \<and> C = 0" if "A + 2 ^ 64 * B + 2 ^ 128 * C < 2 ^ 64" "0 \<le> A" "0 \<le> B" "0 \<le> C"
    for A B C :: int using that by simp
  then show ?thesis using z [of "uint c0" "uint c1" "uint c2"] assms by (simp add: s)
qed

lemma column_start: "aval (x, 0, 0) = uint x" "aval (x, 0, 0) < 2 ^ 68"
  using uint_lt64 [of x] by (simp_all del: uint_lt64)

lemma wval_mul_512: "wval (mul_512 a b) = lval a * lval b"
proof -
  obtain a0 a1 a2 a3 b0 b1 b2 b3 where ab: "a = Limbs4 a0 a1 a2 a3" "b = Limbs4 b0 b1 b2 b3"
    by (cases a; cases b) auto
  obtain l0 s0 where 0: "column (0, 0, 0) [MulAdd a0 b0] = (l0, s0)" by (rule prod.exhaust)
  obtain l1 s1 where 1: "column s0 [MulAdd a0 b1, MulAdd a1 b0] = (l1, s1)" by (rule prod.exhaust)
  obtain l2 s2 where 2: "column s1 [MulAdd a0 b2, MulAdd a1 b1, MulAdd a2 b0] = (l2, s2)" by (rule prod.exhaust)
  obtain l3 s3 where 3: "column s2 [MulAdd a0 b3, MulAdd a1 b2, MulAdd a2 b1, MulAdd a3 b0] = (l3, s3)"
    by (rule prod.exhaust)
  obtain l4 s4 where 4: "column s3 [MulAdd a1 b3, MulAdd a2 b2, MulAdd a3 b1] = (l4, s4)" by (rule prod.exhaust)
  obtain l5 s5 where 5: "column s4 [MulAdd a2 b3, MulAdd a3 b2] = (l5, s5)" by (rule prod.exhaust)
  obtain l6 s6 where 6: "column s5 [MulAdd a3 b3] = (l6, s6)" by (rule prod.exhaust)
  note v0 = column_spec [OF 0 column_start(2)]
  note v1 = column_spec [OF 1 v0(2)]
  note v2 = column_spec [OF 2 v1(2)]
  note v3 = column_spec [OF 3 v2(2)]
  note v4 = column_spec [OF 4 v3(2)]
  note v5 = column_spec [OF 5 v4(2)]
  note v6 = column_spec [OF 6 v5(2)]
  have r: "mul_512 a b = Wide8 l0 l1 l2 l3 l4 l5 l6 (fst s6)"
    by (simp add: ab 0 1 2 3 4 5 6)
  let ?low = "lval (Limbs4 l0 l1 l2 l3) + 2 ^ 256 * (uint l4 + 2 ^ 64 * uint l5 + 2 ^ 128 * uint l6)"
  have total: "?low + 2 ^ 448 * aval s6 = lval a * lval b"
    using v0(1) v1(1) v2(1) v3(1) v4(1) v5(1) v6(1) by (simp add: ab algebra_simps)
  have "lval a * lval b \<le> (2 ^ 256 - 1) * (2 ^ 256 - 1)"
    using lval_bound [of a] lval_bound [of b] by (intro mult_mono) simp_all
  moreover have "0 \<le> ?low" by simp
  ultimately have "2 ^ 448 * aval s6 \<le> (2 ^ 256 - 1) * (2 ^ 256 - 1)" using total by linarith
  then have "aval s6 < 2 ^ 64" by simp
  then have "uint (fst s6) = aval s6" by (rule aval_fst)
  with total show ?thesis unfolding r by simp
qed

lemma NC_less: "2 ^ 256 - order_n < 2 ^ 129" "0 < 2 ^ 256 - order_n"
  by (simp_all add: order_n_def)

lemma reduce_512_spec:
  assumes "reduce_512 (Wide8 l0 l1 l2 l3 l4 l5 l6 l7) = (m, m4, m5, m6)"
  shows "lval m + 2 ^ 256 * lval (Limbs4 m4 m5 m6 0)
    = lval (Limbs4 l0 l1 l2 l3) + (2 ^ 256 - order_n) * lval (Limbs4 l4 l5 l6 l7)"
proof -
  obtain n0 s0 where 0: "column (l0, 0, 0) [MulAdd l4 NC0] = (n0, s0)" by (rule prod.exhaust)
  obtain n1 s1 where 1: "column s0 [SumAdd l1, MulAdd l5 NC0, MulAdd l4 NC1] = (n1, s1)"
    by (rule prod.exhaust)
  obtain n2 s2 where 2: "column s1 [SumAdd l2, MulAdd l6 NC0, MulAdd l5 NC1, SumAdd l4] = (n2, s2)"
    by (rule prod.exhaust)
  obtain n3 s3 where 3: "column s2 [SumAdd l3, MulAdd l7 NC0, MulAdd l6 NC1, SumAdd l5] = (n3, s3)"
    by (rule prod.exhaust)
  obtain n4 s4 where 4: "column s3 [MulAdd l7 NC1, SumAdd l6] = (n4, s4)" by (rule prod.exhaust)
  obtain n5 s5 where 5: "column s4 [SumAdd l7] = (n5, s5)" by (rule prod.exhaust)
  note v0 = column_spec [OF 0 column_start(2)]
  note v1 = column_spec [OF 1 v0(2)]
  note v2 = column_spec [OF 2 v1(2)]
  note v3 = column_spec [OF 3 v2(2)]
  note v4 = column_spec [OF 4 v3(2)]
  note v5 = column_spec [OF 5 v4(2)]
  have r: "m = Limbs4 n0 n1 n2 n3" "m4 = n4" "m5 = n5" "m6 = fst s5"
    using assms by (simp_all add: 0 1 2 3 4 5)
  let ?low = "lval (Limbs4 n0 n1 n2 n3) + 2 ^ 256 * (uint n4 + 2 ^ 64 * uint n5)"
  let ?rhs = "lval (Limbs4 l0 l1 l2 l3) + (2 ^ 256 - order_n) * lval (Limbs4 l4 l5 l6 l7)"
  have total: "?low + 2 ^ 384 * aval s5 = ?rhs"
    unfolding NC_val [symmetric]
    using v0(1) v1(1) v2(1) v3(1) v4(1) v5(1) by (simp add: algebra_simps)
  have "(2 ^ 256 - order_n) * lval (Limbs4 l4 l5 l6 l7) \<le> 2 ^ 129 * 2 ^ 256"
    using NC_less lval_bound [of "Limbs4 l4 l5 l6 l7"] by (intro mult_mono) simp_all
  then have "?rhs \<le> 2 ^ 256 + 2 ^ 129 * 2 ^ 256" using lval_bound [of "Limbs4 l0 l1 l2 l3"] by linarith
  moreover have "0 \<le> ?low" by simp
  ultimately have "2 ^ 384 * aval s5 \<le> 2 ^ 256 + 2 ^ 129 * 2 ^ 256" using total by linarith
  then have "uint (fst s5) = aval s5" by (intro aval_fst) simp
  with total show ?thesis unfolding r by simp
qed

lemma reduce_385_spec:
  assumes "reduce_385 (m, m4, m5, m6) = (p, p4)"
    and "lval (Limbs4 m4 m5 m6 0) \<le> 2 ^ 256 - order_n"
  shows "lval p + 2 ^ 256 * uint p4 = lval m + (2 ^ 256 - order_n) * lval (Limbs4 m4 m5 m6 0)"
    and "uint p4 \<le> 2"
proof -
  obtain m0 m1 m2 m3 where m: "m = Limbs4 m0 m1 m2 m3" by (cases m)
  obtain n0 s0 where 0: "column (m0, 0, 0) [MulAdd m4 NC0] = (n0, s0)" by (rule prod.exhaust)
  obtain n1 s1 where 1: "column s0 [SumAdd m1, MulAdd m5 NC0, MulAdd m4 NC1] = (n1, s1)"
    by (rule prod.exhaust)
  obtain n2 s2 where 2: "column s1 [SumAdd m2, MulAdd m6 NC0, MulAdd m5 NC1, SumAdd m4] = (n2, s2)"
    by (rule prod.exhaust)
  obtain n3 s3 where 3: "column s2 [SumAdd m3, MulAdd m6 NC1, SumAdd m5] = (n3, s3)"
    by (rule prod.exhaust)
  note v0 = column_spec [OF 0 column_start(2)]
  note v1 = column_spec [OF 1 v0(2)]
  note v2 = column_spec [OF 2 v1(2)]
  note v3 = column_spec [OF 3 v2(2)]
  have r: "p = Limbs4 n0 n1 n2 n3" "p4 = ucast (fst s3 + m6)"
    using assms(1) by (simp_all add: m 0 1 2 3)
  let ?rhs = "lval m + (2 ^ 256 - order_n) * lval (Limbs4 m4 m5 m6 0)"
  have total: "lval p + 2 ^ 256 * (aval s3 + uint m6) = ?rhs"
    unfolding NC_val [symmetric] r m
    using v0(1) v1(1) v2(1) v3(1) by (simp add: algebra_simps)
  have "(2 ^ 256 - order_n) * lval (Limbs4 m4 m5 m6 0) \<le> (2 ^ 256 - order_n) * (2 ^ 256 - order_n)"
    using NC_less assms(2) by (intro mult_mono) simp_all
  also have "\<dots> < 2 * 2 ^ 256" by (simp add: order_n_def)
  finally have "?rhs < 3 * 2 ^ 256" using lval_bound [of m] by linarith
  then have "2 ^ 256 * (aval s3 + uint m6) < 3 * 2 ^ 256"
    using total lval_nonneg [of p] by linarith
  then have le: "aval s3 + uint m6 \<le> 2" by simp
  then have "aval s3 \<le> 2" using uint_ge_0 [of m6] by linarith
  then have "aval s3 < 2 ^ 64" by simp
  then have "uint (fst s3) = aval s3" by (rule aval_fst)
  with le have sum: "uint (fst s3 + m6) = aval s3 + uint m6"
    by (simp add: uint_plus_if')
  have "uint p4 = aval s3 + uint m6"
    unfolding r unsigned_ucast_eq sum using le by (simp add: take_bit_eq_mod)
  with total le show "lval p + 2 ^ 256 * uint p4 = ?rhs" "uint p4 \<le> 2" by simp_all
qed

lemma uint_fold_term:
  assumes "uint (k :: u128) < 2 ^ 32"
  shows "uint (ucast (p :: u64) + ucast (c :: u64) * k) = uint p + uint c * uint k"
    and "uint p + uint c * uint k < 2 ^ 97"
proof -
  have "uint c * uint k \<le> 2 ^ 64 * 2 ^ 32"
    using uint_lt64 [of c] assms by (intro mult_mono) (simp_all del: uint_lt64)
  then have b: "uint c * uint k \<le> 2 ^ 96" by simp
  then have m: "uint (ucast c * k) = uint c * uint k" by (simp add: uint_word_ariths)
  show s: "uint p + uint c * uint k < 2 ^ 97" using b uint_lt64 [of p] by (simp del: uint_lt64)
  show "uint (ucast p + ucast c * k) = uint p + uint c * uint k"
    using s by (subst uint_add128_small) (simp_all add: m)
qed

lemma acc_step_small:
  assumes "acc_step t v = (r, t')" and "uint t < 2 ^ 64" and "uint v < 2 ^ 97"
  shows "uint r + 2 ^ 64 * uint t' = uint t + uint v" and "uint t' < 2 ^ 64"
proof -
  show e: "uint r + 2 ^ 64 * uint t' = uint t + uint v"
    using assms(2,3) by (intro acc_step_spec [OF assms(1)]) simp
  have "2 ^ 64 * uint t' < 2 ^ 64 + 2 ^ 97" using e assms(2,3) uint_ge_0 [of r] by linarith
  then show "uint t' < 2 ^ 64" by simp
qed

lemma fold_258_spec:
  assumes "fold_258 p k = (r, acc)" and "uint k < 2 ^ 32"
  shows "lval r + 2 ^ 256 * uint acc = lval p + (2 ^ 256 - order_n) * uint k"
proof -
  obtain p0 p1 p2 p3 where p: "p = Limbs4 p0 p1 p2 p3" by (cases p)
  obtain r0 t0 where 0: "acc_step 0 (ucast p0 + ucast NC0 * k) = (r0, t0)" by (rule prod.exhaust)
  obtain r1 t1 where 1: "acc_step t0 (ucast p1 + ucast NC1 * k) = (r1, t1)" by (rule prod.exhaust)
  obtain r2 t2 where 2: "acc_step t1 (ucast p2 + k) = (r2, t2)" by (rule prod.exhaust)
  obtain r3 t3 where 3: "acc_step t2 (ucast p3) = (r3, t3)" by (rule prod.exhaust)
  have r: "r = Limbs4 r0 r1 r2 r3" "acc = t3" using assms(1) by (simp_all add: p 0 1 2 3)
  note k = uint_fold_term [OF assms(2)]
  have k1: "uint (ucast p2 + k) = uint p2 + uint k" "uint p2 + uint k < 2 ^ 97"
    using k [of p2 1] by simp_all
  have k0: "uint (ucast p3 :: u128) < 2 ^ 97" using k(2) [of p3 0] by simp
  have z: "uint (0 :: u128) < 2 ^ 64" by simp
  note v0 = acc_step_small [OF 0 z, unfolded k(1), OF k(2)]
  note v1 = acc_step_small [OF 1 v0(2), unfolded k(1), OF k(2)]
  note v2 = acc_step_small [OF 2 v1(2), unfolded k1(1), OF k1(2)]
  note v3 = acc_step_small [OF 3 v2(2) k0]
  show ?thesis
    unfolding NC_val [symmetric] using v0(1) v1(1) v2(1) v3(1) by (simp add: r p algebra_simps)
qed

lemma fold_258_bounds:
  assumes "fold_258 p (ucast (p4 :: u32)) = (r, acc)" and "uint p4 \<le> 2"
  shows "lval r + 2 ^ 256 * uint acc = lval p + (2 ^ 256 - order_n) * uint p4" and "uint acc \<le> 1"
    and "0 \<le> lval p + (2 ^ 256 - order_n) * uint p4"
    and "lval p + (2 ^ 256 - order_n) * uint p4 < 2 * order_n"
    and "lval p + (2 ^ 256 - order_n) * uint p4 - 2 ^ 256 < order_n"
proof -
  let ?NC = "2 ^ 256 - order_n" and ?V = "lval p + (2 ^ 256 - order_n) * uint p4"
  have k: "uint (ucast p4 :: u128) = uint p4"
    using assms by (simp add: unsigned_ucast_eq take_bit_eq_mod)
  have "uint (ucast p4 :: u128) < 2 ^ 32" unfolding k using uint_lt32 [of p4] by simp
  from fold_258_spec [OF assms(1) this] show V: "lval r + 2 ^ 256 * uint acc = ?V" unfolding k .
  have NCs: "0 < ?NC" "2 * ?NC < order_n" by (simp_all add: order_n_def)
  have "?NC * uint p4 \<le> ?NC * 2" using assms(2) NCs(1) by (intro mult_left_mono) simp_all
  then have Vb: "?V < 2 ^ 256 + ?NC * 2" using lval_bound [of p] by linarith
  then show "?V - 2 ^ 256 < order_n" using NCs(2) by linarith
  have "?V < 2 * 2 ^ 256" using Vb NCs(2) order_n_bounds(2) by linarith
  then have "2 ^ 256 * uint acc < 2 * 2 ^ 256" using V lval_nonneg [of r] by linarith
  then show "uint acc \<le> 1" by simp
  show "0 \<le> ?V" unfolding V [symmetric] by simp
  show "?V < 2 * order_n" using Vb by (simp add: order_n_def)
qed

lemma reduce_258_spec:
  assumes "uint p4 \<le> 2"
  shows "lval (reduce_258 (p, p4)) = (lval p + (2 ^ 256 - order_n) * uint p4) mod order_n"
proof -
  let ?NC = "2 ^ 256 - order_n" and ?V = "lval p + (2 ^ 256 - order_n) * uint p4"
  obtain r acc where f: "fold_258 p (ucast p4) = (r, acc)" by (rule prod.exhaust)
  note V = fold_258_bounds(1) [OF f assms] and acc = fold_258_bounds(2) [OF f assms]
    and bounds = fold_258_bounds(3-5) [OF f assms]
  define carry :: u32 where "carry = ucast acc"
  have c: "uint carry = uint acc"
    unfolding carry_def unsigned_ucast_eq using acc by (simp add: take_bit_eq_mod)
  define cnt where "cnt = carry + (if order_overflow r then 1 else 0)"
  have res: "reduce_258 (p, p4) = (if cnt \<noteq> 0 then fst (fold_258 r (ucast cnt)) else r)"
    by (simp add: reduce_258_def f cnt_def carry_def Let_def)
  have Vm: "?V mod order_n = (if ?V < order_n then ?V else ?V - order_n)"
    using bounds(1,2) by (rule mod_one_sub)
  show ?thesis
  proof (cases "?V < order_n")
    case True
    then have "2 ^ 256 * uint acc < 2 ^ 256" using V lval_nonneg [of r] order_n_bounds by linarith
    then have "uint acc < 1" by simp
    then have "uint acc = 0" using uint_ge_0 [of acc] by linarith
    then have "carry = 0" "lval r = ?V" using V c by (simp_all add: word_uint_eq_iff)
    then show ?thesis unfolding Vm using True by (simp add: res cnt_def order_overflow_val)
  next
    case False
    have cnt1: "cnt = 1"
    proof (cases "uint acc = 0")
      case True
      then have "carry = 0" "lval r = ?V" using V c by (simp_all add: word_uint_eq_iff)
      then show ?thesis using False by (simp add: cnt_def order_overflow_val)
    next
      case a: False
      then have "uint acc = 1" using acc uint_ge_0 [of acc] by linarith
      then have "carry = 1" "lval r = ?V - 2 ^ 256" using V c by (simp_all add: word_uint_eq_iff)
      then show ?thesis using bounds(3) by (simp add: cnt_def order_overflow_val)
    qed
    obtain r' acc' where f': "fold_258 r 1 = (r', acc')" by (rule prod.exhaust)
    have e: "lval r' + 2 ^ 256 * uint acc' = lval r + ?NC" using fold_258_spec [OF f'] by simp
    have "lval r' + 2 ^ 256 * uint acc' = 2 ^ 256 * (1 - uint acc) + (?V - order_n)"
      unfolding e V [symmetric] by (simp add: algebra_simps)
    moreover have "0 \<le> ?V - order_n" "?V - order_n < 2 ^ 256"
      using False bounds(2) order_n_bounds(2) by linarith+
    ultimately have "lval r' = ?V - order_n" by (rule residue_unique [OF _ lval_nonneg lval_bound])
    then show ?thesis unfolding Vm using False by (simp add: res cnt1 f')
  qed
qed

lemma fold_congruent:
  "(x + (2 ^ 256 - order_n) * y) mod order_n = (x + 2 ^ 256 * y) mod order_n"
proof -
  have "x + 2 ^ 256 * y = x + (2 ^ 256 - order_n) * y + y * order_n" by (simp add: algebra_simps)
  then show ?thesis by (simp only: mod_mult_self1)
qed

lemma high_part_le:
  fixes T :: int
  assumes "m + T * M = L + N * H" and "0 \<le> m" "L < T" "N * H \<le> N * (T - 1)" "0 < N" "0 < T"
  shows "M \<le> N"
proof -
  have "T * M < T * (N + 1)" using assms(1-5) by (simp add: algebra_simps)
  then show ?thesis using assms(6) by simp
qed

lemma reduce_385_mul:
  obtains p p4 where "reduce_385 (reduce_512 (mul_512 a b)) = (p, p4)" "uint p4 \<le> 2"
    "(lval p + (2 ^ 256 - order_n) * uint p4) mod order_n = lval a * lval b mod order_n"
proof -
  define w where "w = mul_512 a b"
  obtain l0 l1 l2 l3 l4 l5 l6 l7 where w: "w = Wide8 l0 l1 l2 l3 l4 l5 l6 l7" by (cases w)
  obtain m m4 m5 m6 where m: "reduce_512 w = (m, m4, m5, m6)" by (rule prod_cases4)
  obtain p p4 where p: "reduce_385 (m, m4, m5, m6) = (p, p4)" by (rule prod.exhaust)
  let ?NC = "2 ^ 256 - order_n" and ?L = "lval (Limbs4 l0 l1 l2 l3)"
    and ?H = "lval (Limbs4 l4 l5 l6 l7)" and ?M = "lval (Limbs4 m4 m5 m6 0)"
  have W: "?L + 2 ^ 256 * ?H = lval a * lval b"
    using wval_mul_512 [of a b] unfolding w_def [symmetric] w by simp
  have M: "lval m + 2 ^ 256 * ?M = ?L + ?NC * ?H"
    using reduce_512_spec [OF m [unfolded w]] by simp
  have "?NC * ?H \<le> ?NC * (2 ^ 256 - 1)"
    using lval_bound [of "Limbs4 l4 l5 l6 l7"] order_n_bounds(2) by (intro mult_left_mono) linarith+
  then have hi: "?M \<le> ?NC"
    using NC_less(2) by (intro high_part_le [OF M lval_nonneg lval_bound]) simp_all
  note P = reduce_385_spec [OF p hi]
  have "(lval p + ?NC * uint p4) mod order_n = (lval p + 2 ^ 256 * uint p4) mod order_n"
    by (rule fold_congruent)
  also have "\<dots> = (lval m + 2 ^ 256 * ?M) mod order_n" unfolding P(1) by (rule fold_congruent)
  also have "\<dots> = (?L + 2 ^ 256 * ?H) mod order_n" unfolding M by (rule fold_congruent)
  finally show ?thesis using that [of p p4] m p P(2) unfolding W w_def by simp
qed

lemma sval_mul [val_simps]: "sval (scalar_mul a b) = sval a * sval b mod order_n"
proof -
  obtain p p4 where "reduce_385 (reduce_512 (mul_512 (limbs a) (limbs b))) = (p, p4)" "uint p4 \<le> 2"
    "(lval p + (2 ^ 256 - order_n) * uint p4) mod order_n = lval (limbs a) * lval (limbs b) mod order_n"
    by (rule reduce_385_mul)
  then show ?thesis by (simp add: scalar_mul_def scalar_make_def sval_def reduce_258_spec)
qed

lemma scalar_ok_mul [simp]: "scalar_ok (scalar_mul a b)"
  using order_n_bounds by (simp add: scalar_ok_def sval_mul)

section \<open>Properties\<close>

text \<open>C2: \<open>Scalar::operator*\<close> computes the product modulo the group order and returns a canonical
  scalar, whatever the operands: the 512-bit schoolbook product, the folds to 385 and 258 bits and
  the final correction never lose a carry.\<close>

theorem scalar_mul_correct:
  "sval (scalar_mul a b) = (sval a * sval b) mod order_n \<and> scalar_ok (scalar_mul a b)"
  by (simp add: sval_mul)

text \<open>C11: on canonical scalars the operators compute sum, difference, negation and product modulo the group order and stay
  canonical, and so form a commutative ring with \<open>ZERO\<close> and \<open>ONE\<close> as its units.\<close>

theorem scalar_ring:
  assumes "scalar_ok a" "scalar_ok b" "scalar_ok c"
  shows "sval (scalar_add a b) = (sval a + sval b) mod order_n \<and> sval (scalar_sub a b) = (sval a - sval b) mod order_n \<and>
    sval (scalar_negate a) = (- sval a) mod order_n \<and> sval (scalar_mul a b) = (sval a * sval b) mod order_n \<and>
    scalar_ok (scalar_add a b) \<and> scalar_ok (scalar_sub a b) \<and> scalar_ok (scalar_negate a) \<and> scalar_ok (scalar_mul a b) \<and>
    scalar_add (scalar_add a b) c = scalar_add a (scalar_add b c) \<and> scalar_add a b = scalar_add b a \<and>
    scalar_add a scalar_zero = a \<and> scalar_add a (scalar_negate a) = scalar_zero \<and>
    scalar_sub a b = scalar_add a (scalar_negate b) \<and>
    scalar_mul (scalar_mul a b) c = scalar_mul a (scalar_mul b c) \<and> scalar_mul a b = scalar_mul b a \<and> scalar_mul a scalar_one = a \<and>
    scalar_mul a (scalar_add b c) = scalar_add (scalar_mul a b) (scalar_mul a c)"
  using assms
  by (simp add: sval_mul sval_add sval_sub sval_negate sval_small mod_simps distrib_left ac_simps flip: sval_inj)

theorem scalar_ring_witness:
  "scalar_mul (scalar_from_uint64 5) (scalar_add (scalar_from_uint64 6) (scalar_from_uint64 7)) =
     scalar_add (scalar_mul (scalar_from_uint64 5) (scalar_from_uint64 6))
       (scalar_mul (scalar_from_uint64 5) (scalar_from_uint64 7))"
  using scalar_ring [of "scalar_from_uint64 5" "scalar_from_uint64 6" "scalar_from_uint64 7"] by simp

end
