(* ===== verification/Scalar_Naf.thy ===== *)
theory Scalar_Naf
  imports Scalar
begin

text \<open>
  The signed-digit recodings of \<open>scalar.cpp\<close>: \<open>to_naf_into\<close>, \<open>to_wnaf_into\<close> and the two wrappers
  that copy the digits into a vector. The loops are partial functions (a width outside 2 to 8 would
  make the inner loop run forever, which is why the source returns early); for the widths the code
  accepts they return, and their digits are the windowed non-adjacent form of the scalar.
\<close>

unbundle bit_operations_syntax

section \<open>The code\<close>

text \<open>The in-place right shift by one bit that ends each iteration.\<close>

fun limbs_shr1 :: "limbs4 \<Rightarrow> limbs4" where
  "limbs_shr1 (Limbs4 a0 a1 a2 a3) =
     (let r3 = drop_bit 1 a3 OR push_bit 63 0; c = a3 AND 1;
          r2 = drop_bit 1 a2 OR push_bit 63 c; c = a2 AND 1;
          r1 = drop_bit 1 a1 OR push_bit 63 c; c = a1 AND 1;
          r0 = drop_bit 1 a0 OR push_bit 63 c
      in Limbs4 r0 r1 r2 r3)"

definition scalar_shr1 :: "scalar \<Rightarrow> scalar" where
  "scalar_shr1 k = Scalar (limbs_shr1 (limbs k))"

text \<open>One iteration of \<open>to_naf_into\<close>: the digit written and the next \<open>k\<close>.\<close>

definition naf_step :: "scalar \<Rightarrow> byte \<times> scalar" where
  "naf_step k =
     (if limb0 (limbs k) AND 1 \<noteq> 0 then
        (let low_bits = ucast (limb0 (limbs k) AND 0x3) :: byte
         in if low_bits = 1 \<or> low_bits = 2
            then (1, scalar_shr1 (scalar_sub k scalar_one))
            else (-1, scalar_shr1 (scalar_add k scalar_one)))
      else (0, scalar_shr1 k))"

partial_function (option) to_naf_into :: "scalar \<Rightarrow> byte list option" where
  "to_naf_into k =
     (if scalar_is_zero k then Some []
      else case naf_step k of (d, k') \<Rightarrow>
        Option.bind (to_naf_into k') (\<lambda>ds. Some (d # ds)))"

text \<open>
  One iteration of \<open>to_wnaf_into\<close>. \<open>window_size\<close> is the 32-bit \<open>1U << width\<close>; the digit is a C++
  \<open>int\<close> of at most \<open>width\<close> bits, stored as an \<open>int8_t\<close>.
\<close>

definition wnaf_step :: "nat \<Rightarrow> scalar \<Rightarrow> byte \<times> scalar" where
  "wnaf_step width k =
     (let window_size = push_bit width 1 :: u32;
          window_mask = ucast (window_size - 1) :: u64;
          window_half = uint (drop_bit 1 window_size)
      in if limb0 (limbs k) AND 1 \<noteq> 0 then
           (let digit = uint (limb0 (limbs k) AND window_mask)
            in if window_half \<le> digit then
                 (let digit = digit - uint window_size
                  in (word_of_int digit,
                      scalar_shr1 (scalar_add k (scalar_from_uint64 (word_of_int (- digit))))))
               else (word_of_int digit,
                     scalar_shr1 (scalar_sub k (scalar_from_uint64 (word_of_int digit)))))
         else (0, scalar_shr1 k))"

partial_function (option) to_wnaf_loop :: "nat \<Rightarrow> scalar \<Rightarrow> byte list option" where
  "to_wnaf_loop width k =
     (if scalar_is_zero k then Some []
      else case wnaf_step width k of (d, k') \<Rightarrow>
        Option.bind (to_wnaf_loop width k') (\<lambda>ds. Some (d # ds)))"

definition to_wnaf_into :: "scalar \<Rightarrow> nat \<Rightarrow> byte list option" where
  "to_wnaf_into k width = (if width < 2 \<or> width > 8 then Some [] else to_wnaf_loop width k)"

text \<open>\<open>to_wnaf\<close> throws \<open>std::invalid_argument\<close> on a bad width (on the desktop platforms).\<close>

datatype wnaf_error = Invalid_Wnaf_Width

definition to_wnaf :: "scalar \<Rightarrow> nat \<Rightarrow> (wnaf_error + byte list) option" where
  "to_wnaf k width =
     (if width < 2 \<or> width > 8 then Some (Inl Invalid_Wnaf_Width)
      else map_option Inr (to_wnaf_into k width))"

section \<open>Halving\<close>

lemma word_and_1_64: "(b :: u64) AND 1 = of_bool (odd (uint b))"
  by (transfer, simp add: and_one_eq mod2_eq_if)

lemma uint_shr1_or:
  "uint (drop_bit 1 (a :: u64) OR push_bit 63 (b AND 1)) = uint a div 2 + 2 ^ 63 * (uint b mod 2)"
proof (cases "odd (uint b)")
  case True
  have a: "uint a div 2 < 2 ^ 63" using uint_lt64 [of a] by (simp del: uint_lt64)
  have "push_bit 63 1 OR uint a div 2 = 1 * 2 ^ 63 + uint a div 2"
    by (rule or_push_bit_add) (use a in simp_all)
  then have "uint a div 2 OR 9223372036854775808 = 9223372036854775808 + uint a div 2"
    by (simp add: or.commute)
  with True show ?thesis by (simp add: word_and_1_64 uint_or uint_drop_bit_div mod2_eq_if)
qed (simp add: word_and_1_64 uint_drop_bit_div)

lemma half_split:
  assumes "S = T * 2"
  shows "T * (B mod 2) + S * (B div 2) = T * (B :: int)"
  unfolding assms by (metis mult.assoc distrib_left mod_mult_div_eq)

lemma lval_shr1_carry:
  "lval (Limbs4 (drop_bit 1 a0 OR push_bit 63 (a1 AND 1)) (drop_bit 1 a1 OR push_bit 63 (a2 AND 1))
      (drop_bit 1 a2 OR push_bit 63 (a3 AND 1)) (drop_bit 1 a3 OR push_bit 63 (c AND 1)))
    = (lval (Limbs4 a0 a1 a2 a3) + 2 ^ 256 * (uint c mod 2)) div 2"
proof -
  let ?r = "Limbs4 (drop_bit 1 a0 OR push_bit 63 (a1 AND 1)) (drop_bit 1 a1 OR push_bit 63 (a2 AND 1))
      (drop_bit 1 a2 OR push_bit 63 (a3 AND 1)) (drop_bit 1 a3 OR push_bit 63 (c AND 1))"
  have "lval ?r = (uint a0 div 2 + (2 ^ 63 * (uint a1 mod 2) + 2 ^ 64 * (uint a1 div 2)))
      + (2 ^ 127 * (uint a2 mod 2) + 2 ^ 128 * (uint a2 div 2))
      + (2 ^ 191 * (uint a3 mod 2) + 2 ^ 192 * (uint a3 div 2)) + 2 ^ 255 * (uint c mod 2)"
    unfolding lval.simps uint_shr1_or by simp
  also have "\<dots> = uint a0 div 2 + 2 ^ 63 * uint a1 + 2 ^ 127 * uint a2 + 2 ^ 191 * uint a3
      + 2 ^ 255 * (uint c mod 2)"
    by (subst half_split, simp)+ (simp only: add.assoc)
  also have "\<dots> = (uint a0 + (2 ^ 63 * uint a1 + 2 ^ 127 * uint a2 + 2 ^ 191 * uint a3
      + 2 ^ 255 * (uint c mod 2)) * 2) div 2"
    by (subst div_mult_self1) simp_all
  finally show ?thesis by (simp add: distrib_right)
qed

lemma lval_shr1 [val_simps]: "lval (limbs_shr1 a) = lval a div 2"
  using lval_shr1_carry [of _ _ _ _ 0] by (cases a) (simp add: Let_def del: lval.simps)

lemma sval_shr1 [val_simps]: "sval (scalar_shr1 k) = sval k div 2"
  by (simp add: scalar_shr1_def sval_def val_simps)

lemma scalar_ok_shr1: "sval k < 2 * order_n \<Longrightarrow> scalar_ok (scalar_shr1 k)"
  by (simp add: scalar_ok_def val_simps)

lemma lval_mod_pow:
  assumes "w \<le> 64"
  shows "lval a mod 2 ^ w = uint (limb0 a) mod 2 ^ w"
proof -
  obtain a0 a1 a2 a3 where a: "a = Limbs4 a0 a1 a2 a3" by (cases a)
  have "(2 :: int) ^ w dvd 2 ^ 64" using assms by (rule le_imp_power_dvd)
  then obtain c :: int where c: "2 ^ 64 = 2 ^ w * c" by (rule dvdE)
  have "lval a = uint a0 + 2 ^ 64 * (uint a1 + 2 ^ 64 * uint a2 + 2 ^ 128 * uint a3)"
    by (simp add: a algebra_simps)
  also have "\<dots> = uint a0 + 2 ^ w * (c * (uint a1 + 2 ^ 64 * uint a2 + 2 ^ 128 * uint a3))"
    unfolding c by (simp only: mult.assoc)
  finally show ?thesis by (simp only: a limbs4.sel mod_mult_self2)
qed

section \<open>One step\<close>

text \<open>The admissible digits of width \<open>w\<close>: zero, or odd and below half the window in absolute value.\<close>

definition naf_digit :: "nat \<Rightarrow> byte \<Rightarrow> bool" where
  "naf_digit w d \<longleftrightarrow> d = 0 \<or> odd (sint d) \<and> \<bar>sint d\<bar> < 2 ^ (w - 1)"

text \<open>
  What an iteration on \<open>k \<noteq> 0\<close> promises: it peels off a digit, leaves a canonical scalar, halves the
  power-of-two bound, and a nonzero digit clears the next \<open>w - 1\<close> bits.
\<close>

definition step_ok :: "nat \<Rightarrow> scalar \<Rightarrow> byte \<times> scalar \<Rightarrow> bool" where
  "step_ok w k r \<longleftrightarrow> (case r of (d, k') \<Rightarrow>
     scalar_ok k' \<and> 2 * sval k' + sint d = sval k \<and> naf_digit w d \<and>
     (d = 0 \<longleftrightarrow> even (sval k)) \<and> (d \<noteq> 0 \<longrightarrow> 2 ^ (w - 1) dvd sval k') \<and>
     (\<forall>m. sval k \<le> 2 ^ Suc m \<longrightarrow> sval k' \<le> 2 ^ m) \<and> (sval k = 1 \<longrightarrow> sval k' = 0))"

lemma power_multiple_le:
  fixes c :: int
  assumes "k < c * 2 ^ w" and "2 ^ m < c * 2 ^ w" and "k \<le> 2 ^ m" and "c * 2 ^ w < k + 2 ^ w" and "w \<le> m"
  shows False
proof -
  have e: "(2 :: int) ^ m = 2 ^ (m - w) * 2 ^ w" using assms(5) by (simp flip: power_add)
  have "2 ^ (m - w) * 2 ^ w < c * 2 ^ w" "c * 2 ^ w < (2 ^ (m - w) + 1) * 2 ^ w"
    using assms(2-4) unfolding e by (simp_all add: algebra_simps)
  then show False by simp
qed

lemma order_low_bits: "order_n mod 256 = 65"
  by (simp add: order_n_def)

lemma no_wrap:
  assumes "2 \<le> w" "w \<le> 8" "0 \<le> k" "k < order_n" "2 ^ (w - 1) \<le> k mod 2 ^ w" "odd k"
  shows "k - k mod 2 ^ w + 2 ^ w < order_n"
proof -
  have d: "k - k mod 2 ^ w + 2 ^ w = 2 ^ w * (k div 2 ^ w + 1)"
    by (simp add: algebra_simps minus_mod_eq_mult_div)
  have w: "w = 2 \<or> w = 3 \<or> w = 4 \<or> w = 5 \<or> w = 6 \<or> w = 7 \<or> w = 8" using assms(1,2) by arith
  have "k div 2 ^ w < order_n div 2 ^ w"
  proof (rule ccontr)
    assume "\<not> ?thesis"
    then have "order_n div 2 ^ w \<le> k div 2 ^ w" by simp
    moreover have "k div 2 ^ w \<le> order_n div 2 ^ w" using assms(4) by (intro zdiv_mono1) simp_all
    ultimately have "order_n div 2 ^ w = k div 2 ^ w" by simp
    then have "k mod 2 ^ w < order_n mod 2 ^ w"
      using assms(4) mod_mult_div_eq [of k "2 ^ w"] mod_mult_div_eq [of order_n "2 ^ w"]
      by (metis add_less_cancel_right)
    moreover have "order_n mod 2 ^ w \<le> 2 ^ (w - 1) + 1"
      using w by (auto simp: order_n_def)
    ultimately have "k mod 2 ^ w = 2 ^ (w - 1)" using assms(5) by linarith
    moreover have "odd (k mod 2 ^ w)" using assms(1,6) by (simp add: dvd_mod_iff)
    ultimately show False using assms(1) by simp
  qed
  then have "2 ^ w * (k div 2 ^ w + 1) \<le> 2 ^ w * (order_n div 2 ^ w)" by (intro mult_left_mono) simp_all
  also have "\<dots> < order_n"
    using w mult_div_mod_eq [of "2 ^ w" order_n] by (auto simp: order_n_def)
  finally show ?thesis unfolding d .
qed

lemma window_consts:
  assumes "2 \<le> w" "w \<le> 8"
  shows "(ucast (push_bit w 1 - 1 :: u32) :: u64) = mask w"
    and "uint (drop_bit 1 (push_bit w 1 :: u32)) = 2 ^ (w - 1)"
    and "uint (push_bit w 1 :: u32) = 2 ^ w"
proof -
  have w: "w = 2 \<or> w = 3 \<or> w = 4 \<or> w = 5 \<or> w = 6 \<or> w = 7 \<or> w = 8" using assms by arith
  show "(ucast (push_bit w 1 - 1 :: u32) :: u64) = mask w"
    and "uint (drop_bit 1 (push_bit w 1 :: u32)) = 2 ^ (w - 1)"
    and "uint (push_bit w 1 :: u32) = 2 ^ w"
    using w by (auto simp: mask_numeral)
qed

lemma limb0_odd: "limb0 (limbs k) AND 1 \<noteq> 0 \<longleftrightarrow> odd (sval k)"
  using is_even_iff [of k] lval_mod_pow [of 1 "limbs k"]
  by (simp add: word_and_1_64 sval_def even_iff_mod_2_eq_zero)

lemma uint_and_mask64: "uint (a AND mask w :: u64) = uint a mod 2 ^ w"
proof -
  have "uint (a AND mask w) = take_bit w (uint a)"
    unfolding take_bit_eq_mask [symmetric] by (rule unsigned_take_bit_eq)
  then show ?thesis by (simp only: take_bit_eq_mod)
qed

lemma wnaf_step_eq:
  assumes "2 \<le> w" "w \<le> 8"
  shows "wnaf_step w k =
    (let r = sval k mod 2 ^ w
     in if even (sval k) then (0, scalar_shr1 k)
        else if 2 ^ (w - 1) \<le> r
        then (word_of_int (r - 2 ^ w), scalar_shr1 (scalar_add k (scalar_from_uint64 (word_of_int (2 ^ w - r)))))
        else (word_of_int r, scalar_shr1 (scalar_sub k (scalar_from_uint64 (word_of_int r)))))"
proof -
  have m: "uint (limb0 (limbs k) AND mask w) = sval k mod 2 ^ w"
    using assms(2) by (simp add: uint_and_mask64 lval_mod_pow sval_def)
  show ?thesis unfolding wnaf_step_def Let_def window_consts [OF assms] limb0_odd m by simp
qed

lemma pow_half:
  assumes "2 \<le> w" "w \<le> 8"
  shows "(2 :: int) ^ w = 2 * 2 ^ (w - 1)" "2 \<le> (2 :: int) ^ (w - 1)" "(2 :: int) ^ (w - 1) \<le> 128"
proof -
  have w: "w = 2 \<or> w = 3 \<or> w = 4 \<or> w = 5 \<or> w = 6 \<or> w = 7 \<or> w = 8" using assms by arith
  then show "(2 :: int) ^ w = 2 * 2 ^ (w - 1)" "2 \<le> (2 :: int) ^ (w - 1)" "(2 :: int) ^ (w - 1) \<le> 128"
    by auto
qed

lemma sint_byte: "- 128 \<le> d \<Longrightarrow> d < 128 \<Longrightarrow> sint (word_of_int d :: byte) = d"
  by (simp add: sint_sbintrunc' signed_take_bit_int_eq_self)

lemma uint_word64: "0 \<le> d \<Longrightarrow> d < 256 \<Longrightarrow> uint (word_of_int d :: u64) = d"
  by (simp add: uint_word_of_int)

lemma word_byte_0: "(d :: byte) = 0 \<longleftrightarrow> sint d = 0"
  by (simp add: signed_eq_0_iff)

lemma wnaf_step_ok:
  assumes "2 \<le> w" "w \<le> 8" "scalar_ok k" "sval k \<noteq> 0"
  shows "step_ok w k (wnaf_step w k)"
proof -
  define K where "K = sval k"
  define r where "r = K mod 2 ^ w"
  define h where "h = (2 :: int) ^ (w - 1)"
  note ph = pow_half [OF assms(1,2), folded h_def]
  have K: "0 < K" "K < order_n"
    using assms(3,4) sval_nonneg [of k] unfolding K_def scalar_ok_def by linarith+
  have r: "0 \<le> r" "r < 2 * h" unfolding r_def ph(1) using ph(2) by simp_all
  have r2: "K mod (2 * h) = r" unfolding r_def ph(1) ..
  have rK: "r \<le> K" unfolding r_def using K(1) by (intro zmod_le_nonneg_dividend) simp
  have Kr: "K - r = 2 ^ w * (K div 2 ^ w)" by (simp add: r_def minus_mod_eq_mult_div)
  have small: "K \<le> 2 ^ m \<Longrightarrow> m < w \<Longrightarrow> odd K \<Longrightarrow> r = K \<and> K < h" for m
  proof -
    assume a: "K \<le> 2 ^ m" "m < w" "odd K"
    have "(2 :: int) ^ m \<le> h" unfolding h_def using a(2) by (intro power_increasing) simp_all
    moreover have "even h" unfolding h_def using assms(1) by simp
    ultimately have "K < h" using a by (metis order.order_iff_strict order.trans)
    then show ?thesis using K(1) ph by (simp add: r_def mod_pos_pos_trivial)
  qed
  show ?thesis
  proof (cases "even K")
    case True
    then have s: "wnaf_step w k = (0, scalar_shr1 k)"
      by (simp add: wnaf_step_eq [OF assms(1,2)] K_def Let_def)
    have k': "sval (scalar_shr1 k) = K div 2" by (simp add: val_simps K_def)
    show ?thesis
      using K True unfolding s
      by (auto simp: step_ok_def naf_digit_def k' scalar_ok_def simp flip: K_def)
  next
    case False
    show ?thesis
    proof (cases "h \<le> r")
      case True
      define d where "d = r - 2 * h"
      define k' where "k' = scalar_shr1 (scalar_add k (scalar_from_uint64 (word_of_int (- d))))"
      have s: "wnaf_step w k = (word_of_int d, k')"
        unfolding wnaf_step_eq [OF assms(1,2)] Let_def K_def [symmetric] r_def [symmetric]
          h_def [symmetric] k'_def d_def ph(1) r2 using False True by simp
      have "odd r" using False assms(1) by (simp add: r_def dvd_mod_iff)
      moreover have "even h" unfolding h_def using assms(1) by simp
      ultimately have rh: "h < r" using True by (metis order.order_iff_strict)
      have dv: "- h < d" "d < 0" "odd d" using rh r \<open>odd r\<close> by (simp_all add: d_def)
      have sd: "sint (word_of_int d :: byte) = d" using dv ph by (intro sint_byte) simp_all
      have ud: "uint (word_of_int (- d) :: u64) = - d" using dv ph by (intro uint_word64) simp_all
      have "K - d < order_n"
        using no_wrap [of w K, folded r_def h_def, unfolded ph(1)] assms(1,2) K True False
        unfolding d_def by simp
      then have kv: "sval (scalar_add k (scalar_from_uint64 (word_of_int (- d)))) = K - d"
        unfolding sval_add [OF assms(3) scalar_ok_small(3)] sval_small ud K_def [symmetric]
        using dv K(1) by simp
      then have k': "sval k' = (K - d) div 2" by (simp add: k'_def val_simps)
      have Kd: "K - d = 2 ^ w * (K div 2 ^ w + 1)" using Kr ph(1) by (simp add: d_def algebra_simps)
      then have kd: "sval k' = h * (K div 2 ^ w + 1)" unfolding k' ph(1) by simp
      have bound: "sval k' \<le> 2 ^ m" if "K \<le> 2 ^ Suc m" for m
      proof (rule ccontr)
        assume n: "\<not> sval k' \<le> 2 ^ m"
        have wm: "w \<le> Suc m" using small [OF that] False True rh by (cases "Suc m < w") auto
        have "K - d < K + 2 ^ w" using dv(1) ph(1,2) by simp
        moreover have "2 ^ Suc m < K - d" using n unfolding kd Kd ph(1) by (simp add: algebra_simps)
        ultimately show False
          using power_multiple_le [of K "K div 2 ^ w + 1" w "Suc m"] that wm dv(2) Kd
          by (simp add: mult.commute)
      qed
      have "K \<noteq> 1" using small [of 0] assms(1) rh False by auto
      moreover have "2 * sval k' + d = K" unfolding kd using Kd ph(1) by (simp add: algebra_simps)
      moreover have "scalar_ok k'"
        unfolding scalar_ok_def using \<open>K - d < order_n\<close> k' order_n_bounds(1) dv K by simp
      moreover have "naf_digit w (word_of_int d)"
        using dv by (simp add: naf_digit_def sd h_def)
      moreover have "(word_of_int d :: byte) \<noteq> 0" using dv(2) by (simp only: word_byte_0 sd)
      moreover have "h dvd sval k'" unfolding kd by simp
      ultimately show ?thesis
        unfolding s step_ok_def prod.case sd K_def [symmetric] h_def [symmetric]
        using bound False by simp
    next
      case hr: False
      define k' where "k' = scalar_shr1 (scalar_sub k (scalar_from_uint64 (word_of_int r)))"
      have s: "wnaf_step w k = (word_of_int r, k')"
        unfolding wnaf_step_eq [OF assms(1,2)] Let_def K_def [symmetric] r_def [symmetric]
          h_def [symmetric] k'_def using False hr by simp
      have "odd r" using False assms(1) by (simp add: r_def dvd_mod_iff)
      have sd: "sint (word_of_int r :: byte) = r" using r hr ph by (intro sint_byte) simp_all
      have ud: "uint (word_of_int r :: u64) = r" using r hr ph by (intro uint_word64) simp_all
      have kv: "sval (scalar_sub k (scalar_from_uint64 (word_of_int r))) = K - r"
        using assms(3) rK r(1) K by (simp add: val_simps ud flip: K_def)
      then have k': "sval k' = (K - r) div 2" by (simp add: k'_def val_simps)
      then have kd: "sval k' = h * (K div 2 ^ w)" unfolding Kr ph(1) by simp
      have "2 * sval k' + r = K" unfolding kd using Kr ph(1) by (simp add: algebra_simps)
      moreover have "scalar_ok k'"
        unfolding scalar_ok_def using kv k' rK r K by simp
      moreover have "naf_digit w (word_of_int r)"
        unfolding naf_digit_def sd h_def [symmetric] using \<open>odd r\<close> r hr by simp
      moreover have "r \<noteq> 0" using \<open>odd r\<close> by auto
      then have "(word_of_int r :: byte) \<noteq> 0" by (simp only: word_byte_0 sd not_False_eq_True)
      moreover have "h dvd sval k'" unfolding kd by simp
      moreover have "sval k' = 0" if "K = 1" using small [of 0] assms(1) that k' by simp
      moreover have "sval k' \<le> 2 ^ m" if "K \<le> 2 ^ Suc m" for m using that k' r by simp
      ultimately show ?thesis
        unfolding s step_ok_def prod.case sd K_def [symmetric] h_def [symmetric]
        using False by simp
    qed
  qed
qed

lemma naf_step_eq: "naf_step k = wnaf_step 2 k"
proof -
  have m: "uint (limb0 (limbs k) AND 0x3) = sval k mod 4"
    using uint_and_mask64 [of "limb0 (limbs k)" 2] lval_mod_pow [of 2 "limbs k"]
    by (simp add: mask_numeral sval_def)
  then have b: "uint (ucast (limb0 (limbs k) AND 0x3) :: byte) = sval k mod 4"
    by (simp add: unsigned_ucast_eq take_bit_eq_mod)
  show ?thesis
  proof (cases "even (sval k)")
    case False
    then have "sval k mod 4 = 1 \<or> sval k mod 4 = 3" by presburger
    then show ?thesis
      unfolding naf_step_def wnaf_step_eq [of 2, simplified] Let_def limb0_odd
      using b False
      by (elim disjE) (simp_all add: word_uint_eq_iff [of "ucast _"] scalar_one_def scalar_from_uint64_def)
  qed (simp add: naf_step_def wnaf_step_eq [of 2, simplified] Let_def limb0_odd)
qed

section \<open>The recoding loops\<close>

fun digits_val :: "byte list \<Rightarrow> int" where
  "digits_val [] = 0"
| "digits_val (d # ds) = sint d + 2 * digits_val ds"

text \<open>The windowed non-adjacent form: admissible digits, any nonzero one followed by \<open>w - 1\<close> zeros.\<close>

fun wnaf_form :: "nat \<Rightarrow> byte list \<Rightarrow> bool" where
  "wnaf_form w [] \<longleftrightarrow> True"
| "wnaf_form w (d # ds) \<longleftrightarrow>
     naf_digit w d \<and> (d \<noteq> 0 \<longrightarrow> list_all (\<lambda>e. e = 0) (take (w - 1) ds)) \<and> wnaf_form w ds"

definition recodes :: "nat \<Rightarrow> scalar \<Rightarrow> byte list \<Rightarrow> bool" where
  "recodes w k ds \<longleftrightarrow> digits_val ds = sval k \<and> wnaf_form w ds \<and>
     (\<forall>j. 2 ^ j dvd sval k \<longrightarrow> list_all (\<lambda>e. e = 0) (take j ds))"

lemma recodes_step:
  assumes "step_ok w k (d, k')" "recodes w k' ds"
  shows "recodes w k (d # ds)"
proof -
  have s: "2 * sval k' + sint d = sval k" "naf_digit w d" "d = 0 \<longleftrightarrow> even (sval k)"
      "d \<noteq> 0 \<longrightarrow> 2 ^ (w - 1) dvd sval k'"
    using assms(1) by (auto simp: step_ok_def)
  have "list_all (\<lambda>e. e = 0) (take j (d # ds))" if j: "2 ^ j dvd sval k" for j
  proof (cases j)
    case (Suc i)
    have "even (sval k)" using j Suc by (metis dvd_mult_left power_Suc)
    then have "d = 0" using s(3) by simp
    then have "2 * 2 ^ i dvd 2 * sval k'" using s(1) j Suc by simp
    then have "2 ^ i dvd sval k'" by simp
    then show ?thesis using assms(2) \<open>d = 0\<close> by (simp add: recodes_def Suc)
  qed simp
  then show ?thesis using assms(2) s by (simp add: recodes_def)
qed

lemma to_wnaf_loop_zero [simp]: "sval k = 0 \<Longrightarrow> to_wnaf_loop w k = Some []"
  by (simp add: to_wnaf_loop.simps is_zero_iff)

lemma to_wnaf_loop_step:
  "sval k \<noteq> 0 \<Longrightarrow> to_wnaf_loop w k =
     Option.bind (to_wnaf_loop w (snd (wnaf_step w k))) (\<lambda>ds. Some (fst (wnaf_step w k) # ds))"
  by (subst to_wnaf_loop.simps) (simp add: is_zero_iff case_prod_beta)

lemma to_wnaf_loop_ok:
  assumes "2 \<le> w" "w \<le> 8" "scalar_ok k" "sval k \<le> 2 ^ m"
  shows "\<exists>ds. to_wnaf_loop w k = Some ds \<and> length ds \<le> m + 1 \<and> recodes w k ds"
  using assms(3,4)
proof (induction m arbitrary: k)
  case 0
  show ?case
  proof (cases "sval k = 0")
    case False
    then have 1: "sval k = 1" using 0(2) sval_nonneg [of k] unfolding power_0 by linarith
    obtain d k' where st: "wnaf_step w k = (d, k')" by (rule prod.exhaust)
    have so: "step_ok w k (d, k')" using wnaf_step_ok [OF assms(1,2) 0(1) False] st by simp
    then have k': "sval k' = 0" using 1 by (simp add: step_ok_def)
    then have "recodes w k' []" by (simp add: recodes_def)
    from recodes_step [OF so this] show ?thesis using k' by (simp add: to_wnaf_loop_step [OF False] st)
  qed (simp add: recodes_def)
next
  case (Suc m)
  show ?case
  proof (cases "sval k = 0")
    case False
    obtain d k' where st: "wnaf_step w k = (d, k')" by (rule prod.exhaust)
    have so: "step_ok w k (d, k')" using wnaf_step_ok [OF assms(1,2) Suc(2) False] st by simp
    then obtain ds where "to_wnaf_loop w k' = Some ds" "length ds \<le> m + 1" "recodes w k' ds"
      using Suc.IH [of k'] Suc.prems by (auto simp: step_ok_def)
    with recodes_step [OF so] show ?thesis by (simp add: to_wnaf_loop_step [OF False] st)
  qed (simp add: recodes_def)
qed

lemma to_naf_into_step:
  "sval k \<noteq> 0 \<Longrightarrow> to_naf_into k =
     Option.bind (to_naf_into (snd (wnaf_step 2 k))) (\<lambda>ds. Some (fst (wnaf_step 2 k) # ds))"
  by (subst to_naf_into.simps) (simp add: is_zero_iff naf_step_eq case_prod_beta)

lemma to_naf_into_eq: "to_wnaf_loop 2 k = Some ds \<Longrightarrow> to_naf_into k = Some ds"
proof (induction ds arbitrary: k)
  case Nil
  have "sval k = 0"
  proof (rule ccontr)
    assume "sval k \<noteq> 0"
    then show False using Nil by (auto simp: to_wnaf_loop_step bind_eq_Some_conv)
  qed
  then show ?case by (simp add: to_naf_into.simps is_zero_iff)
next
  case (Cons d ds)
  have k: "sval k \<noteq> 0" using Cons.prems by auto
  then have "to_wnaf_loop 2 (snd (wnaf_step 2 k)) = Some ds" "fst (wnaf_step 2 k) = d"
    using Cons.prems by (auto simp: to_wnaf_loop_step bind_eq_Some_conv)
  then show ?case using Cons.IH by (simp add: to_naf_into_step [OF k])
qed

lemma to_wnaf_recodes:
  assumes "2 \<le> w" "w \<le> 8" "scalar_ok k"
  obtains ds where "to_wnaf_loop w k = Some ds" "length ds \<le> 257" "recodes w k ds"
  using to_wnaf_loop_ok [OF assms, of 256] lval_bound [of "limbs k"] by (auto simp: sval_def)

section \<open>Properties\<close>

text \<open>C7: \<open>to_wnaf\<close> terminates for every canonical scalar and every width the code accepts; the digits
  it returns fit the 257-byte buffer, sum to the scalar with weights \<open>2^i\<close>, and are in windowed
  non-adjacent form (each zero or odd and below half the window, a nonzero digit followed by at
  least \<open>w - 1\<close> zeros). In particular the additive corrections never wrap modulo the group order.\<close>

theorem to_wnaf_correct:
  assumes "scalar_ok k" "2 \<le> w" "w \<le> 8"
  shows "\<exists>ds. to_wnaf k w = Some (Inr ds) \<and> length ds \<le> 257 \<and>
           digits_val ds = sval k \<and> wnaf_form w ds"
proof -
  obtain ds where "to_wnaf_loop w k = Some ds" "length ds \<le> 257" "recodes w k ds"
    using assms by (metis to_wnaf_recodes)
  then show ?thesis using assms by (auto simp: to_wnaf_def to_wnaf_into_def recodes_def)
qed

theorem to_wnaf_correct_witness:
  "\<exists>ds. to_wnaf (scalar_from_uint64 0xDEADBEEFCAFE) 5 = Some (Inr ds) \<and> length ds \<le> 257 \<and>
     digits_val ds = 0xDEADBEEFCAFE \<and> wnaf_form 5 ds"
  using to_wnaf_correct [of "scalar_from_uint64 0xDEADBEEFCAFE" 5] by (simp add: sval_small)

text \<open>\<open>to_naf_into\<close> and \<open>to_wnaf_into\<close> at width 2 write the same digits for every canonical scalar,
  and both return: the separate NAF loop, with its test on the low two bits, is the width-2 case.\<close>

theorem naf_is_wnaf2:
  assumes "scalar_ok k"
  shows "\<exists>ds. to_naf_into k = Some ds \<and> to_wnaf_into k 2 = Some ds \<and> digits_val ds = sval k \<and>
           length ds \<le> 257"
proof -
  obtain ds where "to_wnaf_loop 2 k = Some ds" "length ds \<le> 257" "recodes 2 k ds"
    using to_wnaf_recodes [of 2 k] assms by auto
  then show ?thesis by (auto simp: to_naf_into_eq to_wnaf_into_def recodes_def)
qed

theorem naf_is_wnaf2_witness:
  "\<exists>ds. to_naf_into (scalar_from_uint64 27) = Some ds \<and> to_wnaf_into (scalar_from_uint64 27) 2 = Some ds \<and>
     digits_val ds = 27 \<and> length ds \<le> 257"
  using naf_is_wnaf2 [of "scalar_from_uint64 27"] by (simp add: sval_small)

end
