(* ===== verification/Block_Hash.thy ===== *)
theory Block_Hash
  imports Prelude
begin

text \<open>
  The buffering discipline that \<open>SHA256\<close> (sha256.hpp), \<open>SHA512\<close> (sha512.hpp) and the private
  \<open>RIPEMD160\<close> of bip32.cpp share: a chaining state, a block buffer whose stale bytes stay in place, the
  fill level and the number of bytes absorbed. The operations are written once over the block size
  and the compression function; each hash instantiates them.

  The locale \<open>block_absorber\<close> proves that a context built by any sequence of \<open>update\<close> calls represents
  the concatenation of the data, and \<open>md_hash\<close> that \<open>finalize\<close> then yields the Merkle-Damgard
  digest of that concatenation.
\<close>

section \<open>The operations\<close>

record 's hash_ctx =
  hash_state :: 's
  hash_buf :: bytes
  buf_len :: nat
  total :: u64

text \<open>The loop \<open>while (len >= B) { compress(ptr); ptr += B; len -= B; }\<close>, with the data left over.\<close>

function absorb_blocks :: "nat \<Rightarrow> ('s \<Rightarrow> bytes \<Rightarrow> 's) \<Rightarrow> 's \<Rightarrow> bytes \<Rightarrow> 's \<times> bytes" where
  "absorb_blocks B f s data =
     (if 0 < B \<and> B \<le> length data then absorb_blocks B f (f s (take B data)) (drop B data)
      else (s, data))"
  by pat_completeness auto
termination by (relation "measure (\<lambda>(B, f, s, data). length data)") auto

declare absorb_blocks.simps [simp del]

text \<open>The part of \<open>update\<close> after the buffer has been flushed (or was empty).\<close>

definition update_blocks ::
  "nat \<Rightarrow> ('s \<Rightarrow> bytes \<Rightarrow> 's) \<Rightarrow> 's hash_ctx \<Rightarrow> bytes \<Rightarrow> 's hash_ctx" where
  "update_blocks B f ctx data =
     (let (s, rest) = absorb_blocks B f (hash_state ctx) data;
          ctx = ctx\<lparr>hash_state := s\<rparr>
      in if length rest > 0
         then ctx\<lparr>hash_buf := memcpy_at (hash_buf ctx) 0 rest, buf_len := length rest\<rparr>
         else ctx)"

definition block_update ::
  "nat \<Rightarrow> ('s \<Rightarrow> bytes \<Rightarrow> 's) \<Rightarrow> 's hash_ctx \<Rightarrow> bytes \<Rightarrow> 's hash_ctx" where
  "block_update B f ctx data =
     (let ctx = ctx\<lparr>total := total ctx + of_nat (length data)\<rparr>
      in if buf_len ctx > 0 then
           (let fill = B - buf_len ctx
            in if length data < fill
               then ctx\<lparr>hash_buf := memcpy_at (hash_buf ctx) (buf_len ctx) data,
                        buf_len := buf_len ctx + length data\<rparr>
               else (let buf = memcpy_at (hash_buf ctx) (buf_len ctx) (take fill data);
                         ctx = ctx\<lparr>hash_buf := buf, hash_state := f (hash_state ctx) buf, buf_len := 0\<rparr>
                     in update_blocks B f ctx (drop fill data)))
         else update_blocks B f ctx data)"

text \<open>
  The in-place padding of the two SHA-2 classes: \<open>P\<close> is the offset of the length field (56 or 112)
  and \<open>lenf\<close> the bytes written there for the 64-bit bit count.
\<close>

definition block_pad ::
  "nat \<Rightarrow> nat \<Rightarrow> ('s \<Rightarrow> bytes \<Rightarrow> 's) \<Rightarrow> (u64 \<Rightarrow> bytes) \<Rightarrow> 's hash_ctx \<Rightarrow> 's hash_ctx" where
  "block_pad B P f lenf ctx =
     (let bits = total ctx * 8;
          ctx = (if B \<le> buf_len ctx then ctx\<lparr>buf_len := 0\<rparr> else ctx);
          pos = buf_len ctx;
          ctx = ctx\<lparr>buf_len := pos + 1, hash_buf := (hash_buf ctx)[pos := 0x80]\<rparr>;
          ctx = (if P < buf_len ctx then
                   (let ctx = (if buf_len ctx < B
                               then ctx\<lparr>hash_buf := memset_at (hash_buf ctx) (buf_len ctx) 0 (B - buf_len ctx)\<rparr>
                               else ctx)
                    in ctx\<lparr>hash_state := f (hash_state ctx) (hash_buf ctx), buf_len := 0\<rparr>)
                 else ctx);
          ctx = ctx\<lparr>hash_buf := memset_at (hash_buf ctx) (buf_len ctx) 0 (P - buf_len ctx)\<rparr>;
          ctx = ctx\<lparr>hash_buf := memcpy_at (hash_buf ctx) P (lenf bits)\<rparr>
      in ctx\<lparr>hash_state := f (hash_state ctx) (hash_buf ctx)\<rparr>)"

section \<open>What a context stands for\<close>

text \<open>
  The reference: run the compression function over the full blocks of a message. \<open>represents\<close> relates
  a context to the message absorbed so far.
\<close>

definition md_blocks :: "nat \<Rightarrow> ('s \<Rightarrow> bytes \<Rightarrow> 's) \<Rightarrow> 's \<Rightarrow> bytes \<Rightarrow> 's" where
  "md_blocks B f iv m = fst (absorb_blocks B f iv m)"

definition represents ::
  "nat \<Rightarrow> ('s \<Rightarrow> bytes \<Rightarrow> 's) \<Rightarrow> 's \<Rightarrow> 's hash_ctx \<Rightarrow> bytes \<Rightarrow> bool" where
  "represents B f iv ctx m \<longleftrightarrow>
     length (hash_buf ctx) = B \<and> buf_len ctx < B \<and> total ctx = of_nat (length m) \<and>
     absorb_blocks B f iv m = (hash_state ctx, take (buf_len ctx) (hash_buf ctx))"

text \<open>Merkle-Damgard padding: \<open>0x80\<close>, zeros up to offset \<open>P\<close> modulo \<open>B\<close>, then the length field.\<close>

definition md_pad :: "nat \<Rightarrow> nat \<Rightarrow> (u64 \<Rightarrow> bytes) \<Rightarrow> bytes \<Rightarrow> bytes" where
  "md_pad B P lenf m =
     m @ [0x80] @ replicate ((P + B - (length m + 1) mod B) mod B) 0 @ lenf (of_nat (length m) * 8)"

locale block_absorber =
  fixes B :: nat and f :: "'s \<Rightarrow> bytes \<Rightarrow> 's"
  assumes B_pos: "0 < B"
begin

lemma absorb_short [simp]: "length d < B \<Longrightarrow> absorb_blocks B f s d = (s, d)"
  by (subst absorb_blocks.simps) simp

lemma absorb_block [simp]:
  "length b = B \<Longrightarrow> absorb_blocks B f s (b @ d) = absorb_blocks B f (f s b) d"
  using B_pos by (subst absorb_blocks.simps) simp

lemma absorb_one [simp]: "length b = B \<Longrightarrow> absorb_blocks B f s b = (f s b, [])"
  using B_pos by (subst absorb_blocks.simps) simp

lemma absorb_append:
  "absorb_blocks B f s m = (s', r) \<Longrightarrow> absorb_blocks B f s (m @ d) = absorb_blocks B f s' (r @ d)"
proof (induction B f s m rule: absorb_blocks.induct)
  case (1 B f s m)
  show ?case
  proof (cases "0 < B \<and> B \<le> length m")
    case True
    then have "absorb_blocks B f (f s (take B m)) (drop B m) = (s', r)"
      using 1(2) by (subst (asm) absorb_blocks.simps) simp
    with 1(1) True have "absorb_blocks B f (f s (take B m)) (drop B m @ d) = absorb_blocks B f s' (r @ d)"
      by simp
    with True show ?thesis by (subst absorb_blocks.simps) simp
  next
    case False
    then have "absorb_blocks B f s m = (s, m)" by (subst absorb_blocks.simps) auto
    then show ?thesis using 1(2) by simp
  qed
qed

lemma absorb_rest:
  "absorb_blocks B f s m = (s', r) \<Longrightarrow> length r = length m mod B"
proof (induction B f s m rule: absorb_blocks.induct)
  case (1 B f s m)
  show ?case
  proof (cases "0 < B \<and> B \<le> length m")
    case True
    then have "absorb_blocks B f (f s (take B m)) (drop B m) = (s', r)"
      using 1(2) by (subst (asm) absorb_blocks.simps) simp
    with 1(1) True have "length r = (length m - B) mod B" by simp
    with True show ?thesis by (simp add: le_mod_geq)
  next
    case False
    then have "absorb_blocks B f s m = (s, m)" by (subst absorb_blocks.simps) auto
    then show ?thesis using 1(2) False by auto
  qed
qed

lemma rest_short: "absorb_blocks B f s m = (s', r) \<Longrightarrow> length r < B"
  using B_pos by (simp add: absorb_rest [of s m s' r])

lemma represents_init:
  "\<lbrakk>length (hash_buf ctx) = B; buf_len ctx = 0; total ctx = 0; hash_state ctx = iv\<rbrakk>
    \<Longrightarrow> represents B f iv ctx []"
  using B_pos by (simp add: represents_def)

lemma update_blocks_spec:
  assumes "length (hash_buf ctx) = B" "buf_len ctx = 0"
    and "absorb_blocks B f iv m = (hash_state ctx, [])"
    and "total ctx = of_nat (length m + length data)"
  shows "represents B f iv (update_blocks B f ctx data) (m @ data)"
proof -
  obtain s r where a: "absorb_blocks B f (hash_state ctx) data = (s, r)" by (rule prod.exhaust)
  have r: "length r < B" by (rule rest_short [OF a])
  have "absorb_blocks B f iv (m @ data) = (s, r)" using absorb_append [OF assms(3)] a by simp
  then show ?thesis
    using r assms B_pos
    by (cases "r = []") (simp_all add: represents_def update_blocks_def a memcpy_at_def Let_def)
qed

theorem update_represents:
  assumes "represents B f iv ctx m"
  shows "represents B f iv (block_update B f ctx data) (m @ data)"
proof -
  let ?r = "take (buf_len ctx) (hash_buf ctx)"
  have c: "length (hash_buf ctx) = B" "buf_len ctx < B" "total ctx = of_nat (length m)"
      "absorb_blocks B f iv m = (hash_state ctx, ?r)"
    using assms by (auto simp: represents_def)
  have app: "absorb_blocks B f iv (m @ d) = absorb_blocks B f (hash_state ctx) (?r @ d)" for d
    by (rule absorb_append [OF c(4)])
  consider "buf_len ctx = 0" | "0 < buf_len ctx" "length data < B - buf_len ctx"
    | "0 < buf_len ctx" "B - buf_len ctx \<le> length data" by linarith
  then show ?thesis
  proof cases
    case 1
    then show ?thesis using c by (simp add: block_update_def Let_def update_blocks_spec)
  next
    case 2
    let ?buf = "memcpy_at (hash_buf ctx) (buf_len ctx) data"
    have "take (buf_len ctx + length data) ?buf = ?r @ data" "length ?buf = B"
      using 2 c by (simp_all add: memcpy_at_def)
    then show ?thesis using 2 c app [of data] by (simp add: block_update_def represents_def Let_def)
  next
    case 3
    let ?fill = "B - buf_len ctx"
    let ?buf = "memcpy_at (hash_buf ctx) (buf_len ctx) (take ?fill data)"
    have buf: "?buf = ?r @ take ?fill data" "length ?buf = B" using 3 c by (simp_all add: memcpy_at_def)
    have "absorb_blocks B f iv (m @ take ?fill data) = (f (hash_state ctx) ?buf, [])"
      using app [of "take ?fill data"] buf by simp
    then have "represents B f iv (block_update B f ctx data) ((m @ take ?fill data) @ drop ?fill data)"
      using 3 c buf(2) by (simp add: block_update_def Let_def del: append_assoc append_take_drop_id)
        (rule update_blocks_spec, simp_all)
    then show ?thesis by simp
  qed
qed

lemma fold_update_represents:
  "represents B f iv ctx m \<Longrightarrow>
     represents B f iv (fold (\<lambda>d c. block_update B f c d) ds ctx) (m @ concat ds)"
proof (induction ds arbitrary: ctx m)
  case (Cons d ds)
  from Cons.IH [OF update_represents [OF Cons.prems]] show ?case by simp
qed simp

end

section \<open>Finalisation\<close>

lemma pad_zeros:
  fixes n :: nat
  assumes "l < B" "P < B" "l = n mod B"
  shows "(P + B - (n + 1) mod B) mod B = (if l + 1 \<le> P then P - (l + 1) else P + (B - (l + 1)))"
proof (cases "l + 1 = B")
  case True
  then have "(n + 1) mod B = 0" using assms by (simp add: mod_Suc)
  then show ?thesis using True assms by simp
next
  case False
  then have n: "(n + 1) mod B = l + 1" using assms by (simp add: mod_Suc)
  show ?thesis
  proof (cases "l + 1 \<le> P")
    case True
    then have "P + B - (l + 1) = (P - (l + 1)) + B" by simp
    then have "(P + B - (l + 1)) mod B = (P - (l + 1)) mod B" by simp
    then show ?thesis unfolding n using True assms(2) by simp
  next
    case l: False
    then have "P + B - (l + 1) < B" using assms False by simp
    then show ?thesis unfolding n using l assms(1) by simp
  qed
qed

locale md_hash = block_absorber B f for B :: nat and f :: "'s \<Rightarrow> bytes \<Rightarrow> 's" +
  fixes P :: nat and lenf :: "u64 \<Rightarrow> bytes"
  assumes P_less: "P < B" and length_lenf: "\<And>x. length (lenf x) = B - P"
begin

theorem pad_spec:
  assumes "represents B f iv ctx m"
  shows "hash_state (block_pad B P f lenf ctx) = md_blocks B f iv (md_pad B P lenf m)"
proof -
  define l where "l = buf_len ctx"
  define r where "r = take l (hash_buf ctx)"
  define bits where "bits = (of_nat (length m) * 8 :: u64)"
  have c: "length (hash_buf ctx) = B" "l < B" "total ctx * 8 = bits"
      "absorb_blocks B f iv m = (hash_state ctx, r)"
    using assms by (simp_all add: represents_def l_def r_def bits_def)
  have lr: "length r = l" using c by (simp add: r_def)
  have lm: "l = length m mod B" using absorb_rest [OF c(4)] lr by simp
  define pad where "pad = md_pad B P lenf m"
  have pad: "pad = m @ ([0x80] @ replicate (if l + 1 \<le> P then P - (l + 1) else P + (B - (l + 1))) 0 @ lenf bits)"
    by (simp add: pad_def md_pad_def bits_def pad_zeros [OF c(2) P_less lm, simplified])
  define buf1 where "buf1 = (hash_buf ctx)[l := 0x80]"
  have buf1: "take (l + 1) buf1 = r @ [0x80]" "length buf1 = B"
    using c(1,2) by (simp_all add: buf1_def r_def take_Suc_conv_app_nth)
  show ?thesis
  proof (cases "l + 1 \<le> P")
    case True
    define buf2 where "buf2 = memcpy_at (memset_at buf1 (l + 1) 0 (P - (l + 1))) P (lenf bits)"
    have "take P (memset_at buf1 (l + 1) 0 (P - (l + 1))) = take (l + 1) buf1 @ replicate (P - (l + 1)) 0"
      using True buf1 P_less take_memset_at [of "l + 1" buf1 "P - (l + 1)" 0] by simp
    then have "buf2 = r @ [0x80] @ replicate (P - (l + 1)) 0 @ lenf bits"
      using True buf1 P_less
      by (simp add: buf2_def memcpy_at_tail length_memset_at length_lenf)
    moreover from this have "length buf2 = B" using True lr P_less by (simp add: length_lenf)
    ultimately have "absorb_blocks B f iv pad = (f (hash_state ctx) buf2, [])"
      unfolding pad absorb_append [OF c(4)] using True by simp
    moreover have "hash_state (block_pad B P f lenf ctx) = f (hash_state ctx) buf2"
      using True c(1-3) P_less by (simp add: block_pad_def Let_def buf1_def buf2_def flip: l_def)
    ultimately show ?thesis by (simp add: md_blocks_def flip: pad_def)
  next
    case False
    define buf2 where "buf2 = memset_at buf1 (l + 1) 0 (B - (l + 1))"
    have buf2: "buf2 = r @ [0x80] @ replicate (B - (l + 1)) 0"
      using c(2) buf1 by (simp add: buf2_def memset_at_tail)
    have lb2: "length buf2 = B" using c(2) lr by (simp add: buf2)
    have e: "(if l + 1 < B then memset_at buf1 (l + 1) 0 (B - (l + 1)) else buf1) = buf2"
      using buf1 c(2) by (auto simp: buf2_def memset_at_tail)
    define buf3 where "buf3 = memcpy_at (memset_at buf2 0 0 P) P (lenf bits)"
    have buf3: "buf3 = replicate P 0 @ lenf bits" "length buf3 = B"
      using P_less lb2 by (simp_all add: buf3_def memset_at_def memcpy_at_def length_lenf)
    have "r @ ([0x80] @ replicate (P + (B - (l + 1))) 0 @ lenf bits) = buf2 @ buf3"
      by (simp add: buf2 buf3(1) replicate_add add.commute [of P])
    then have "absorb_blocks B f iv pad = (f (f (hash_state ctx) buf2) buf3, [])"
      unfolding pad absorb_append [OF c(4)] using False lb2 buf3(2) by simp
    moreover have "hash_state (block_pad B P f lenf ctx) = f (f (hash_state ctx) buf2) buf3"
      using False c(1-3) e [symmetric] by (simp add: block_pad_def Let_def buf3_def flip: l_def buf1_def)
    ultimately show ?thesis by (simp add: md_blocks_def flip: pad_def)
  qed
qed

end

end
