(* ===== verification/Sha256.thy ===== *)
theory Sha256
  imports Block_Hash
begin

text \<open>
  SHA-256: the portable compression function of hash_accel.cpp, the streaming class of sha256.hpp with
  its midstates, the tagged hashes of tagged_hash.hpp, and the fixed-size single-block routines of
  hash_accel.cpp. The reference \<open>sha256_spec\<close> is the Merkle-Damgard iteration over the padded message;
  everything else is shown equal to it. The dispatch is modelled on the portable branch (the SHA-NI
  and ARM branches are intrinsics).
\<close>

unbundle bit_operations_syntax

section \<open>Compression\<close>

definition SHA256_K :: "u32 list" where
  "SHA256_K = [
     0x428A2F98, 0x71374491, 0xB5C0FBCF, 0xE9B5DBA5, 0x3956C25B, 0x59F111F1,
     0x923F82A4, 0xAB1C5ED5, 0xD807AA98, 0x12835B01, 0x243185BE, 0x550C7DC3,
     0x72BE5D74, 0x80DEB1FE, 0x9BDC06A7, 0xC19BF174, 0xE49B69C1, 0xEFBE4786,
     0x0FC19DC6, 0x240CA1CC, 0x2DE92C6F, 0x4A7484AA, 0x5CB0A9DC, 0x76F988DA,
     0x983E5152, 0xA831C66D, 0xB00327C8, 0xBF597FC7, 0xC6E00BF3, 0xD5A79147,
     0x06CA6351, 0x14292967, 0x27B70A85, 0x2E1B2138, 0x4D2C6DFC, 0x53380D13,
     0x650A7354, 0x766A0ABB, 0x81C2C92E, 0x92722C85, 0xA2BFE8A1, 0xA81A664B,
     0xC24B8B70, 0xC76C51A3, 0xD192E819, 0xD6990624, 0xF40E3585, 0x106AA070,
     0x19A4C116, 0x1E376C08, 0x2748774C, 0x34B0BCB5, 0x391C0CB3, 0x4ED8AA4A,
     0x5B9CCA4F, 0x682E6FF3, 0x748F82EE, 0x78A5636F, 0x84C87814, 0x8CC70208,
     0x90BEFFFA, 0xA4506CEB, 0xBEF9A3F7, 0xC67178F2]"

definition SHA256_IV :: "u32 list" where
  "SHA256_IV = [0x6A09E667, 0xBB67AE85, 0x3C6EF372, 0xA54FF53A,
     0x510E527F, 0x9B05688C, 0x1F83D9AB, 0x5BE0CD19]"

definition rotr32 :: "u32 \<Rightarrow> nat \<Rightarrow> u32" where
  "rotr32 x n = drop_bit n x OR push_bit (32 - n) x"

definition rotl32 :: "u32 \<Rightarrow> nat \<Rightarrow> u32" where
  "rotl32 x n = push_bit n x OR drop_bit (32 - n) x"

text \<open>The message schedule \<open>w[0..63]\<close>, each word appended to those before it.\<close>

definition sha256_expand :: "u32 list \<Rightarrow> nat \<Rightarrow> u32 list" where
  "sha256_expand w i =
     (let s0 = rotr32 (w ! (i - 15)) 7 XOR rotr32 (w ! (i - 15)) 18 XOR drop_bit 3 (w ! (i - 15));
          s1 = rotr32 (w ! (i - 2)) 17 XOR rotr32 (w ! (i - 2)) 19 XOR drop_bit 10 (w ! (i - 2))
      in w @ [w ! (i - 16) + s0 + w ! (i - 7) + s1])"

definition sha256_schedule :: "bytes \<Rightarrow> u32 list" where
  "sha256_schedule block =
     foldl sha256_expand (map (\<lambda>i. load_be32 (drop (i * 4) block)) [0..<16]) [16..<64]"

type_synonym regs8 = "u32 \<times> u32 \<times> u32 \<times> u32 \<times> u32 \<times> u32 \<times> u32 \<times> u32"

fun sha256_round :: "u32 list \<Rightarrow> regs8 \<Rightarrow> nat \<Rightarrow> regs8" where
  "sha256_round w (a, b, c, d, e, f, g, h) i =
     (let S1 = rotr32 e 6 XOR rotr32 e 11 XOR rotr32 e 25;
          ch = (e AND f) XOR (NOT e AND g);
          temp1 = h + S1 + ch + SHA256_K ! i + w ! i;
          S0 = rotr32 a 2 XOR rotr32 a 13 XOR rotr32 a 22;
          maj = (a AND b) XOR (a AND c) XOR (b AND c);
          temp2 = S0 + maj
      in (temp1 + temp2, a, b, c, d + temp1, e, f, g))"

definition sha256_compress :: "u32 list \<Rightarrow> bytes \<Rightarrow> u32 list" where
  "sha256_compress state block =
     (let w = sha256_schedule block;
          (a, b, c, d, e, f, g, h) = foldl (sha256_round w)
            (state ! 0, state ! 1, state ! 2, state ! 3, state ! 4, state ! 5, state ! 6, state ! 7) [0..<64]
      in [state ! 0 + a, state ! 1 + b, state ! 2 + c, state ! 3 + d,
          state ! 4 + e, state ! 5 + f, state ! 6 + g, state ! 7 + h])"

lemma length_sha256_compress [simp, len_simps]: "length (sha256_compress s b) = 8"
  by (simp add: sha256_compress_def case_prod_beta Let_def)

text \<open>\<open>sha256_compress_dispatch\<close> on a machine without the SHA extensions.\<close>

definition sha256_compress_dispatch :: "u32 list \<Rightarrow> bytes \<Rightarrow> u32 list" where
  "sha256_compress_dispatch state block = sha256_compress state block"

section \<open>The streaming class\<close>

type_synonym sha256_ctx = "u32 list hash_ctx"

definition sha256_reset :: "sha256_ctx \<Rightarrow> sha256_ctx" where
  "sha256_reset ctx =
     ctx\<lparr>hash_state := [0x6A09E667, 0xBB67AE85, 0x3C6EF372, 0xA54FF53A,
           0x510E527F, 0x9B05688C, 0x1F83D9AB, 0x5BE0CD19], total := 0, buf_len := 0\<rparr>"

definition sha256_init :: sha256_ctx where
  "sha256_init = sha256_reset
     \<lparr>hash_state = replicate 8 0, hash_buf = replicate 64 0, buf_len = 0, total = 0\<rparr>"

definition sha256_update :: "sha256_ctx \<Rightarrow> bytes \<Rightarrow> sha256_ctx" where
  "sha256_update = block_update 64 sha256_compress_dispatch"

definition sha256_pad :: "sha256_ctx \<Rightarrow> sha256_ctx" where
  "sha256_pad = block_pad 64 56 sha256_compress_dispatch store_be64"

definition words_be :: "u32 list \<Rightarrow> bytes" where
  "words_be ws = concat (map store_be32 ws)"

definition sha256_finalize :: "sha256_ctx \<Rightarrow> bytes" where
  "sha256_finalize ctx = words_be (hash_state (sha256_pad ctx))"

definition sha256_hash :: "bytes \<Rightarrow> bytes" where
  "sha256_hash data = sha256_finalize (sha256_update sha256_init data)"

definition sha256_hash256 :: "bytes \<Rightarrow> bytes" where
  "sha256_hash256 data = (let h1 = sha256_hash data in sha256_hash h1)"

text \<open>Midstates: state and byte count only. The assertion on \<open>buf_len\<close> is the caller's obligation.\<close>

record sha256_midstate =
  mid_state :: "u32 list"
  mid_total :: u64

definition capture_midstate :: "sha256_ctx \<Rightarrow> sha256_midstate" where
  "capture_midstate ctx = \<lparr>mid_state = hash_state ctx, mid_total = total ctx\<rparr>"

definition from_midstate :: "sha256_midstate \<Rightarrow> sha256_ctx" where
  "from_midstate m = sha256_init\<lparr>hash_state := mid_state m, total := mid_total m\<rparr>"

section \<open>Tagged hashes\<close>

definition make_tag_midstate :: "bytes \<Rightarrow> sha256_ctx" where
  "make_tag_midstate tag =
     (let tag_hash = sha256_hash tag
      in sha256_update (sha256_update sha256_init tag_hash) tag_hash)"

definition cached_tagged_hash :: "sha256_ctx \<Rightarrow> bytes \<Rightarrow> bytes" where
  "cached_tagged_hash midstate data = sha256_finalize (sha256_update midstate data)"

section \<open>Single-block routines\<close>

text \<open>
  The 64-byte local \<open>block\<close> is uninitialised before the writes below; its old content is a parameter
  of the model's block builder and drops out because every byte is overwritten.
\<close>

definition sha256_33_block :: "bytes \<Rightarrow> bytes \<Rightarrow> bytes" where
  "sha256_33_block block pubkey33 =
     (let block = memcpy_at block 0 (take 33 pubkey33);
          block = block[33 := 0x80];
          block = memset_at block 34 0 22;
          block = memcpy_at block 56 [0, 0, 0, 0];
          block = memcpy_at block 60 [0, 0, 0x01, 0x08]
      in block)"

definition sha256_32_block :: "bytes \<Rightarrow> bytes \<Rightarrow> bytes" where
  "sha256_32_block block in32 =
     (let block = memcpy_at block 0 (take 32 in32);
          block = block[32 := 0x80];
          block = memset_at block 33 0 23;
          block = memcpy_at block 56 [0, 0, 0, 0];
          block = memcpy_at block 60 [0, 0, 0x01, 0x00]
      in block)"

definition sha256_33 :: "bytes \<Rightarrow> bytes" where
  "sha256_33 pubkey33 =
     words_be (sha256_compress SHA256_IV (sha256_33_block (replicate 64 0) pubkey33))"

definition sha256_32 :: "bytes \<Rightarrow> bytes" where
  "sha256_32 in32 = words_be (sha256_compress SHA256_IV (sha256_32_block (replicate 64 0) in32))"

definition accel_sha256 :: "bytes \<Rightarrow> bytes" where
  "accel_sha256 data = sha256_finalize (sha256_update sha256_init data)"

definition sha256d :: "bytes \<Rightarrow> bytes" where
  "sha256d data = (let h1 = accel_sha256 data in sha256_32 h1)"

text \<open>The batch loops over concatenated inputs: element \<open>i\<close> reads at \<open>i * 33\<close>.\<close>

definition sha256_33_batch :: "bytes \<Rightarrow> nat \<Rightarrow> bytes" where
  "sha256_33_batch pubkeys count = concat (map (\<lambda>i. sha256_33 (drop (i * 33) pubkeys)) [0..<count])"

section \<open>The reference\<close>

definition sha256_spec :: "bytes \<Rightarrow> bytes" where
  "sha256_spec m = words_be (md_blocks 64 sha256_compress SHA256_IV (md_pad 64 56 store_be64 m))"

interpretation sha256: md_hash 64 sha256_compress 56 store_be64
  by unfold_locales simp_all

definition sha256_absorbed :: "sha256_ctx \<Rightarrow> bytes \<Rightarrow> bool" where
  "sha256_absorbed ctx m \<longleftrightarrow> represents 64 sha256_compress SHA256_IV ctx m"

lemma dispatch_eq: "sha256_compress_dispatch = sha256_compress"
  by (intro ext) (simp add: sha256_compress_dispatch_def)

lemma absorbed_init [simp]: "sha256_absorbed sha256_init []"
  unfolding sha256_absorbed_def
  by (rule sha256.represents_init) (simp_all add: sha256_init_def sha256_reset_def SHA256_IV_def)

lemma absorbed_update: "sha256_absorbed ctx m \<Longrightarrow> sha256_absorbed (sha256_update ctx d) (m @ d)"
  unfolding sha256_absorbed_def sha256_update_def dispatch_eq by (rule sha256.update_represents)

lemma absorbed_fold:
  "sha256_absorbed ctx m \<Longrightarrow> sha256_absorbed (fold (\<lambda>d c. sha256_update c d) ds ctx) (m @ concat ds)"
  unfolding sha256_absorbed_def sha256_update_def dispatch_eq by (rule sha256.fold_update_represents)

lemma finalize_absorbed: "sha256_absorbed ctx m \<Longrightarrow> sha256_finalize ctx = sha256_spec m"
  unfolding sha256_absorbed_def
  by (simp add: sha256_finalize_def sha256_pad_def dispatch_eq sha256.pad_spec sha256_spec_def)

lemma sha256_hash_spec: "sha256_hash m = sha256_spec m"
  using finalize_absorbed [OF absorbed_update [OF absorbed_init]] by (simp add: sha256_hash_def)

section \<open>Midstates and tagged hashes\<close>

lemma midstate_represents:
  assumes "sha256_absorbed ctx m" "buf_len ctx = 0"
  shows "sha256_absorbed (from_midstate (capture_midstate ctx)) m"
  using assms
  by (simp add: sha256_absorbed_def represents_def from_midstate_def capture_midstate_def
      sha256_init_def sha256_reset_def)

lemma length_sha256_state: "length (hash_state (sha256_pad ctx)) = 8"
  by (simp add: sha256_pad_def block_pad_def dispatch_eq Let_def)

lemma length_words_be [len_simps]: "length (words_be ws) = 4 * length ws"
  by (induction ws) (simp_all add: words_be_def)

lemma length_sha256_finalize [simp, len_simps]: "length (sha256_finalize ctx) = 32"
  by (simp add: sha256_finalize_def length_words_be length_sha256_state)

lemma length_sha256_hash [simp, len_simps]: "length (sha256_hash m) = 32"
  by (simp add: sha256_hash_def)

lemma length_sha256_spec [simp, len_simps]: "length (sha256_spec m) = 32"
  by (simp flip: sha256_hash_spec)

lemma absorbed_tag:
  "sha256_absorbed (make_tag_midstate tag) (sha256_spec tag @ sha256_spec tag)"
  using absorbed_update [OF absorbed_update [OF absorbed_init], of "sha256_hash tag" "sha256_hash tag"]
  by (simp add: make_tag_midstate_def Let_def sha256_hash_spec)

lemma absorbed_buf_len: "sha256_absorbed ctx m \<Longrightarrow> buf_len ctx = length m mod 64"
  using sha256.absorb_rest [of SHA256_IV m "hash_state ctx" "take (buf_len ctx) (hash_buf ctx)"]
  by (auto simp: sha256_absorbed_def represents_def)

section \<open>Single blocks\<close>

lemma md_blocks_single:
  "length b = 64 \<Longrightarrow> md_blocks 64 sha256_compress iv b = sha256_compress iv b"
  by (simp add: md_blocks_def)

lemma md_pad_one_block:
  assumes "length d = n" "n < 56"
  shows "md_pad 64 56 lenf d = d @ [0x80] @ replicate (55 - n) 0 @ lenf (of_nat n * 8)"
  using assms pad_zeros [of n 64 56 n] by (simp add: md_pad_def)

lemma sha256_33_block_pad:
  assumes "length block = 64" "33 \<le> length d"
  shows "sha256_33_block block d = md_pad 64 56 store_be64 (take 33 d)"
  using assms last_block_layout [of block 64 "take 33 d" 56 "[0, 0, 0, 0, 0, 0, 1, 8]" "0x80"]
    memcpy_at_seq [of 56 "[0, 0, 0, 0]" "memset_at ((memcpy_at block 0 (take 33 d))[33 := 0x80]) 34 0 22"
      "[0, 0, 1, 8]"]
  by (simp add: sha256_33_block_def md_pad_one_block [of _ 33] length_memset_at length_memcpy_at store_be64_def)

lemma sha256_32_block_pad:
  assumes "length block = 64" "32 \<le> length d"
  shows "sha256_32_block block d = md_pad 64 56 store_be64 (take 32 d)"
  using assms last_block_layout [of block 64 "take 32 d" 56 "[0, 0, 0, 0, 0, 0, 1, 0]" "0x80"]
    memcpy_at_seq [of 56 "[0, 0, 0, 0]" "memset_at ((memcpy_at block 0 (take 32 d))[32 := 0x80]) 33 0 23"
      "[0, 0, 1, 0]"]
  by (simp add: sha256_32_block_def md_pad_one_block [of _ 32] length_memset_at length_memcpy_at store_be64_def)

lemma sha256_33_spec: "33 \<le> length d \<Longrightarrow> sha256_33 d = sha256_spec (take 33 d)"
  by (simp add: sha256_33_def sha256_33_block_pad sha256_spec_def md_blocks_single md_pad_def)

lemma sha256_32_spec: "32 \<le> length d \<Longrightarrow> sha256_32 d = sha256_spec (take 32 d)"
  by (simp add: sha256_32_def sha256_32_block_pad sha256_spec_def md_blocks_single md_pad_def)

section \<open>Properties\<close>

text \<open>C14: streaming is faithful: however the data is cut into \<open>update\<close> calls, \<open>finalize\<close> returns the
  one-shot \<open>hash\<close> of the concatenation, which is the Merkle-Damgard iteration of the compression
  function over the padded message.\<close>

theorem sha256_streaming:
  "sha256_finalize (fold (\<lambda>d c. sha256_update c d) ds sha256_init) = sha256_hash (concat ds) \<and>
   sha256_hash (concat ds) = sha256_spec (concat ds) \<and> length (sha256_hash (concat ds)) = 32"
  using finalize_absorbed [OF absorbed_fold [OF absorbed_init]] by (simp add: sha256_hash_spec)

text \<open>a midstate captured at a block boundary (the asserted precondition) loses nothing: hashing any
  further chunks from the restored context gives the same digest as continuing the original one.\<close>

theorem midstate_faithful:
  assumes "sha256_absorbed ctx m" "buf_len ctx = 0"
  shows "sha256_finalize (fold (\<lambda>d c. sha256_update c d) ds (from_midstate (capture_midstate ctx)))
    = sha256_finalize (fold (\<lambda>d c. sha256_update c d) ds ctx)"
  using finalize_absorbed [OF absorbed_fold [OF assms(1)]]
    finalize_absorbed [OF absorbed_fold [OF midstate_represents [OF assms]]] by simp

theorem midstate_faithful_witness:
  "sha256_finalize (fold (\<lambda>d c. sha256_update c d) [[1, 2], [3]]
     (from_midstate (capture_midstate (make_tag_midstate [0x54]))))
   = sha256_finalize (fold (\<lambda>d c. sha256_update c d) [[1, 2], [3]] (make_tag_midstate [0x54]))"
  by (rule midstate_faithful [OF absorbed_tag])
    (use absorbed_buf_len [OF absorbed_tag] in simp)

text \<open>the cached tagged hash is the BIP-340 tagged hash
  \<open>SHA256(SHA256(tag) || SHA256(tag) || data)\<close>, and the tag midstate sits on a block boundary.\<close>

theorem tagged_hash_correct:
  "cached_tagged_hash (make_tag_midstate tag) data
     = sha256_hash (sha256_hash tag @ sha256_hash tag @ data) \<and>
   buf_len (make_tag_midstate tag) = 0"
  using finalize_absorbed [OF absorbed_update [OF absorbed_tag]] absorbed_buf_len [OF absorbed_tag]
  by (simp add: cached_tagged_hash_def sha256_hash_spec)

text \<open>the hand-laid single-block routines agree with the streaming class on the 33 and 32 bytes they
  read, whatever was in the uninitialised block, and \<open>sha256d\<close> is the double hash.\<close>

theorem sha256_single_block:
  assumes "33 \<le> length d"
  shows "sha256_33 d = sha256_hash (take 33 d) \<and> sha256_32 d = sha256_hash (take 32 d) \<and>
    sha256d m = sha256_hash256 m \<and>
    (length block = 64 \<longrightarrow> sha256_33_block block d = sha256_33_block (replicate 64 0) d)"
  using assms
  by (simp add: sha256_33_spec sha256_32_spec sha256_hash_spec sha256_hash256_def sha256d_def
      accel_sha256_def flip: sha256_hash_def) (simp add: sha256_33_block_pad sha256_hash_spec)

theorem sha256_single_block_witness:
  "sha256_33 (replicate 33 7) = sha256_hash (replicate 33 7)"
  using sha256_single_block [of "replicate 33 7" "[]" "[]"] by simp

end
