(* ===== verification/Ripemd160.thy ===== *)
theory Ripemd160
  imports Sha256
begin

text \<open>
  RIPEMD-160, which the repository implements twice: the fixed-size and one-shot routines of
  hash_accel.cpp, and the private streaming class of bip32.cpp with its byte-by-byte padding loop. Both
  are modelled as written and proved equal to one Merkle-Damgard reference; HASH160 follows.
\<close>

section \<open>The routines of hash\_accel.cpp\<close>

definition RIPEMD160_IV :: "u32 list" where
  "RIPEMD160_IV = [0x67452301, 0xEFCDAB89, 0x98BADCFE, 0x10325476, 0xC3D2E1F0]"

definition rmd_f :: "nat \<Rightarrow> u32 \<Rightarrow> u32 \<Rightarrow> u32 \<Rightarrow> u32" where
  "rmd_f j x y z =
     (if j < 16 then x XOR y XOR z
      else if j < 32 then (x AND y) OR (NOT x AND z)
      else if j < 48 then (x OR NOT y) XOR z
      else if j < 64 then (x AND z) OR (y AND NOT z)
      else x XOR (y OR NOT z))"

definition rmd_rl :: "nat list" where
  "rmd_rl = [
     0,1,2,3,4,5,6,7,8,9,10,11,12,13,14,15,
     7,4,13,1,10,6,15,3,12,0,9,5,2,14,11,8,
     3,10,14,4,9,15,8,1,2,7,0,6,13,11,5,12,
     1,9,11,10,0,8,12,4,13,3,7,15,14,5,6,2,
     4,0,5,9,7,12,2,10,14,1,3,8,11,6,15,13]"

definition rmd_rr :: "nat list" where
  "rmd_rr = [
     5,14,7,0,9,2,11,4,13,6,15,8,1,10,3,12,
     6,11,3,7,0,13,5,10,14,15,8,12,4,9,1,2,
     15,5,1,3,7,14,6,9,11,8,12,2,10,0,4,13,
     8,6,4,1,3,11,15,0,5,12,2,13,9,7,10,14,
     12,15,10,4,1,5,8,7,6,2,13,14,0,3,9,11]"

definition rmd_sl :: "nat list" where
  "rmd_sl = [
     11,14,15,12,5,8,7,9,11,13,14,15,6,7,9,8,
     7,6,8,13,11,9,7,15,7,12,15,9,11,7,13,12,
     11,13,6,7,14,9,13,15,14,8,13,6,5,12,7,5,
     11,12,14,15,14,15,9,8,9,14,5,6,8,6,5,12,
     9,15,5,11,6,8,13,12,5,12,13,14,11,8,5,6]"

definition rmd_sr :: "nat list" where
  "rmd_sr = [
     8,9,9,11,13,15,15,5,7,7,8,11,14,14,12,6,
     9,13,15,7,12,8,9,11,7,7,12,7,6,15,13,11,
     9,7,15,11,8,6,6,14,12,13,5,14,13,13,7,5,
     15,5,8,11,14,14,6,14,6,9,12,9,12,5,15,8,
     8,5,12,9,12,5,14,6,8,13,6,5,15,13,11,11]"

definition rmd_KL :: "u32 list" where
  "rmd_KL = [0, 0x5A827999, 0x6ED9EBA1, 0x8F1BBCDC, 0xA953FD4E]"

definition rmd_KR :: "u32 list" where
  "rmd_KR = [0x50A28BE6, 0x5C4DD124, 0x6D703EF3, 0x7A6D76E9, 0]"

type_synonym regs5 = "u32 \<times> u32 \<times> u32 \<times> u32 \<times> u32"

text \<open>One iteration on one line; \<open>fj\<close> is \<open>j\<close> on the left and \<open>79 - j\<close> on the right.\<close>

fun rmd_line :: "nat \<Rightarrow> u32 \<Rightarrow> u32 \<Rightarrow> nat \<Rightarrow> regs5 \<Rightarrow> regs5" where
  "rmd_line fj x k s (a, b, c, d, e) =
     (let t = a + rmd_f fj b c d + x + k;
          t = rotl32 t s + e
      in (e, t, b, rotl32 c 10, d))"

definition rmd_round :: "u32 list \<Rightarrow> regs5 \<times> regs5 \<Rightarrow> nat \<Rightarrow> regs5 \<times> regs5" where
  "rmd_round X r j =
     (rmd_line j (X ! (rmd_rl ! j)) (rmd_KL ! (j div 16)) (rmd_sl ! j) (fst r),
      rmd_line (79 - j) (X ! (rmd_rr ! j)) (rmd_KR ! (j div 16)) (rmd_sr ! j) (snd r))"

fun rmd_join :: "u32 list \<Rightarrow> regs5 \<times> regs5 \<Rightarrow> u32 list" where
  "rmd_join state ((al, bl, cl, dl, el), (ar, br, cr, dr, er)) =
     [state ! 1 + cl + dr, state ! 2 + dl + er, state ! 3 + el + ar,
      state ! 4 + al + br, state ! 0 + bl + cr]"

definition rmd_words :: "bytes \<Rightarrow> u32 list" where
  "rmd_words block = map (\<lambda>i. load_le32 (drop (i * 4) block)) [0..<16]"

definition ripemd160_compress :: "u32 list \<Rightarrow> bytes \<Rightarrow> u32 list" where
  "ripemd160_compress state block =
     (let X = rmd_words block;
          r = (state ! 0, state ! 1, state ! 2, state ! 3, state ! 4)
      in rmd_join state (foldl (rmd_round X) (r, r) [0..<80]))"

definition words_le :: "u32 list \<Rightarrow> bytes" where
  "words_le ws = concat (map store_le32 ws)"

definition ripemd160_32_block :: "bytes \<Rightarrow> bytes \<Rightarrow> bytes" where
  "ripemd160_32_block block in32 =
     (let block = memcpy_at block 0 (take 32 in32);
          block = block[32 := 0x80];
          block = memset_at block 33 0 23;
          block = memcpy_at block 56 [0x00, 0x01, 0, 0];
          block = memcpy_at block 60 [0, 0, 0, 0]
      in block)"

definition ripemd160_32 :: "bytes \<Rightarrow> bytes" where
  "ripemd160_32 in32 =
     words_le (ripemd160_compress RIPEMD160_IV (ripemd160_32_block (replicate 64 0) in32))"

definition scalar_hash160_33 :: "bytes \<Rightarrow> bytes" where
  "scalar_hash160_33 pubkey33 = (let sha_out = sha256_33 pubkey33 in ripemd160_32 sha_out)"

text \<open>The one-shot \<open>ripemd160\<close>: one block up to 55 bytes, else full blocks and a 64- or 128-byte tail.\<close>

definition accel_ripemd160 :: "bytes \<Rightarrow> bytes" where
  "accel_ripemd160 data =
     (let len = length data;
          bits = of_nat len * 8 :: u64
      in if len \<le> 55 then
           (let block = memcpy_at (replicate 64 0) 0 data;
                block = block[len := 0x80];
                block = memset_at block (len + 1) 0 (55 - len);
                block = memcpy_at block 56 (store_le64 bits)
            in words_le (ripemd160_compress RIPEMD160_IV block))
         else
           (let (state, ptr) = absorb_blocks 64 ripemd160_compress RIPEMD160_IV data;
                remaining = length ptr;
                block = memcpy_at (replicate 128 0) 0 ptr;
                block = block[remaining := 0x80];
                pad_len = (if remaining < 56 then 64 else 128);
                block = memset_at block (remaining + 1) 0 (pad_len - remaining - 1 - 8);
                block = memcpy_at block (pad_len - 8) (store_le64 bits);
                state = ripemd160_compress state (take 64 block);
                state = (if pad_len = 128 then ripemd160_compress state (drop 64 block) else state)
            in words_le state))"

definition accel_hash160 :: "bytes \<Rightarrow> bytes" where
  "accel_hash160 data = (let sha_out = accel_sha256 data in ripemd160_32 sha_out)"

definition hash160_33_batch :: "bytes \<Rightarrow> nat \<Rightarrow> bytes" where
  "hash160_33_batch pubkeys count =
     concat (map (\<lambda>i. scalar_hash160_33 (drop (i * 33) pubkeys)) [0..<count])"

section \<open>The streaming class of bip32.cpp\<close>

definition bip32_rmd_f :: "nat \<Rightarrow> u32 \<Rightarrow> u32 \<Rightarrow> u32 \<Rightarrow> u32" where
  "bip32_rmd_f j x y z =
     (if j < 16 then x XOR y XOR z
      else if j < 32 then (x AND y) OR (NOT x AND z)
      else if j < 48 then (x OR NOT y) XOR z
      else if j < 64 then (x AND z) OR (y AND NOT z)
      else x XOR (y OR NOT z))"

definition K_left :: "nat \<Rightarrow> u32" where
  "K_left j =
     (if j < 16 then 0x00000000 else if j < 32 then 0x5A827999 else if j < 48 then 0x6ED9EBA1
      else if j < 64 then 0x8F1BBCDC else 0xA953FD4E)"

definition K_right :: "nat \<Rightarrow> u32" where
  "K_right j =
     (if j < 16 then 0x50A28BE6 else if j < 32 then 0x5C4DD124 else if j < 48 then 0x6D703EF3
      else if j < 64 then 0x7A6D76E9 else 0x00000000)"

definition bip32_rmd_round :: "u32 list \<Rightarrow> regs5 \<times> regs5 \<Rightarrow> nat \<Rightarrow> regs5 \<times> regs5" where
  "bip32_rmd_round X r j =
     (case r of ((al, bl, cl, dl, el), (ar, br, cr, dr, er)) \<Rightarrow>
       (let tl = rotl32 (al + bip32_rmd_f j bl cl dl + X ! (rmd_rl ! j) + K_left j) (rmd_sl ! j) + el;
            tr = rotl32 (ar + bip32_rmd_f (79 - j) br cr dr + X ! (rmd_rr ! j) + K_right j) (rmd_sr ! j) + er
        in ((el, tl, bl, rotl32 cl 10, dl), (er, tr, br, rotl32 cr 10, dr))))"

definition bip32_rmd_compress :: "u32 list \<Rightarrow> bytes \<Rightarrow> u32 list" where
  "bip32_rmd_compress h block =
     (let X = rmd_words block;
          r = (h ! 0, h ! 1, h ! 2, h ! 3, h ! 4)
      in rmd_join h (foldl (bip32_rmd_round X) (r, r) [0..<80]))"

type_synonym rmd_ctx = "u32 list hash_ctx"

definition rmd_init :: rmd_ctx where
  "rmd_init = \<lparr>hash_state = [0x67452301, 0xEFCDAB89, 0x98BADCFE, 0x10325476, 0xC3D2E1F0],
     hash_buf = replicate 64 0, buf_len = 0, total = 0\<rparr>"

definition rmd_update :: "rmd_ctx \<Rightarrow> bytes \<Rightarrow> rmd_ctx" where
  "rmd_update = block_update 64 bip32_rmd_compress"

text \<open>
  \<open>while (buf_len_ != 56) update(&z, 1)\<close>. Each call moves \<open>buf_len\<close> on by one modulo 64, so 64 units of
  fuel are enough (\<open>rmd_pad_loop_spec\<close> shows the loop has stopped by itself).
\<close>

fun rmd_pad_loop :: "nat \<Rightarrow> rmd_ctx \<Rightarrow> rmd_ctx" where
  "rmd_pad_loop 0 ctx = ctx"
| "rmd_pad_loop (Suc n) ctx = (if buf_len ctx \<noteq> 56 then rmd_pad_loop n (rmd_update ctx [0]) else ctx)"

definition rmd_finalize :: "rmd_ctx \<Rightarrow> bytes" where
  "rmd_finalize ctx =
     (let bit_len = total ctx * 8;
          ctx = rmd_update ctx [0x80];
          ctx = rmd_pad_loop 64 ctx;
          ctx = rmd_update ctx (store_le64 bit_len)
      in words_le (hash_state ctx))"

definition rmd_hash :: "bytes \<Rightarrow> bytes" where
  "rmd_hash data = rmd_finalize (rmd_update rmd_init data)"

definition bip32_hash160 :: "bytes \<Rightarrow> bytes" where
  "bip32_hash160 data = (let sha = sha256_hash data in rmd_hash sha)"

section \<open>The reference and the two implementations\<close>

definition ripemd160_spec :: "bytes \<Rightarrow> bytes" where
  "ripemd160_spec m =
     words_le (md_blocks 64 ripemd160_compress RIPEMD160_IV (md_pad 64 56 store_le64 m))"

interpretation ripemd160: md_hash 64 ripemd160_compress 56 store_le64
  by unfold_locales simp_all

lemma div16_cases:
  "j < 80 \<Longrightarrow> rmd_KL ! (j div 16) = K_left j \<and> rmd_KR ! (j div 16) = K_right j"
proof -
  assume j: "j < 80"
  have d: "j div 16 = (if j < 16 then 0 else if j < 32 then 1 else if j < 48 then 2 else if j < 64 then 3 else 4)"
    using j by auto
  show ?thesis unfolding d by (simp add: rmd_KL_def rmd_KR_def K_left_def K_right_def)
qed

lemma rmd_round_eq: "j < 80 \<Longrightarrow> bip32_rmd_round X r j = rmd_round X r j"
  by (cases r) (auto simp: bip32_rmd_round_def rmd_round_def div16_cases bip32_rmd_f_def rmd_f_def Let_def
      split: prod.split)

lemma rmd_compress_eq: "bip32_rmd_compress = ripemd160_compress"
proof (intro ext)
  fix h block
  have "foldl (bip32_rmd_round X) r js = foldl (rmd_round X) r js" if "\<forall>j\<in>set js. j < 80" for X r js
    using that by (induction js arbitrary: r) (simp_all add: rmd_round_eq)
  then show "bip32_rmd_compress h block = ripemd160_compress h block"
    by (simp add: bip32_rmd_compress_def ripemd160_compress_def)
qed

lemma length_ripemd160_compress [simp]: "length (ripemd160_compress h b) = 5"
  by (cases "foldl (rmd_round (rmd_words b)) ((h ! 0, h ! 1, h ! 2, h ! 3, h ! 4),
    (h ! 0, h ! 1, h ! 2, h ! 3, h ! 4)) [0..<80]" rule: prod.exhaust)
    (auto simp: ripemd160_compress_def split_paired_all Let_def)

definition rmd_absorbed :: "rmd_ctx \<Rightarrow> bytes \<Rightarrow> bool" where
  "rmd_absorbed ctx m \<longleftrightarrow> represents 64 ripemd160_compress RIPEMD160_IV ctx m"

lemma rmd_absorbed_init: "rmd_absorbed rmd_init []"
  unfolding rmd_absorbed_def
  by (rule ripemd160.represents_init) (simp_all add: rmd_init_def RIPEMD160_IV_def)

lemma rmd_absorbed_update: "rmd_absorbed ctx m \<Longrightarrow> rmd_absorbed (rmd_update ctx d) (m @ d)"
  unfolding rmd_absorbed_def rmd_update_def rmd_compress_eq by (rule ripemd160.update_represents)

lemma rmd_absorbed_fold:
  "rmd_absorbed ctx m \<Longrightarrow> rmd_absorbed (fold (\<lambda>d c. rmd_update c d) ds ctx) (m @ concat ds)"
  unfolding rmd_absorbed_def rmd_update_def rmd_compress_eq by (rule ripemd160.fold_update_represents)

lemma rmd_absorbed_len: "rmd_absorbed ctx m \<Longrightarrow> buf_len ctx = length m mod 64"
  using ripemd160.absorb_rest [of RIPEMD160_IV m "hash_state ctx" "take (buf_len ctx) (hash_buf ctx)"]
  by (auto simp: rmd_absorbed_def represents_def)

lemma zeros_step:
  fixes l :: nat
  assumes "l mod 64 \<noteq> 56"
  shows "(56 + 64 - l mod 64) mod 64 = Suc ((56 + 64 - Suc l mod 64) mod 64)"
proof (cases "l mod 64 = 63")
  case True
  then have "Suc l mod 64 = 0" by (simp add: mod_Suc)
  then show ?thesis using True by simp
next
  case False
  then have s: "Suc l mod 64 = Suc (l mod 64)" by (simp add: mod_Suc)
  define k where "k = l mod 64"
  have "k < 64" "k \<noteq> 63" "k \<noteq> 56" using False assms by (simp_all add: k_def)
  then have "(120 - k) mod 64 = Suc ((119 - k) mod 64)"
  proof (cases "k < 56")
    case True
    then have "120 - k = (56 - k) + 64" "119 - k = (55 - k) + 64" by simp_all
    then have "(120 - k) mod 64 = (56 - k) mod 64" "(119 - k) mod 64 = (55 - k) mod 64"
      by (simp_all only: mod_add_self2)
    then show ?thesis using True by simp
  qed (use \<open>k \<noteq> 56\<close> in simp)
  then show ?thesis unfolding s by (simp add: k_def)
qed

lemma rmd_pad_loop_spec:
  assumes "rmd_absorbed ctx m" "(56 + 64 - length m mod 64) mod 64 \<le> n"
  shows "rmd_absorbed (rmd_pad_loop n ctx) (m @ replicate ((56 + 64 - length m mod 64) mod 64) 0) \<and>
    buf_len (rmd_pad_loop n ctx) = 56"
  using assms
proof (induction n arbitrary: ctx m)
  case 0
  have "length m mod 64 = 56"
  proof (rule ccontr)
    assume "length m mod 64 \<noteq> 56"
    then show False using zeros_step [of "length m"] 0(2) by simp
  qed
  then show ?case using 0 rmd_absorbed_len [OF 0(1)] by simp
next
  case (Suc n)
  show ?case
  proof (cases "length m mod 64 = 56")
    case True
    then show ?thesis using Suc.prems rmd_absorbed_len [OF Suc.prems(1)] by simp
  next
    case False
    let ?z = "(56 + 64 - Suc (length m) mod 64) mod 64"
    note z = zeros_step [OF False]
    have "?z \<le> n" using Suc.prems(2) unfolding z by simp
    with Suc.IH [OF rmd_absorbed_update [OF Suc.prems(1), of "[0]"]]
    have "rmd_absorbed (rmd_pad_loop n (rmd_update ctx [0])) ((m @ [0]) @ replicate ?z 0) \<and>
        buf_len (rmd_pad_loop n (rmd_update ctx [0])) = 56" by simp
    moreover have "(m @ [0]) @ replicate ?z 0 = m @ replicate ((56 + 64 - length m mod 64) mod 64) 0"
      unfolding z by simp
    moreover have "buf_len ctx \<noteq> 56" using False rmd_absorbed_len [OF Suc.prems(1)] by simp
    ultimately show ?thesis by simp
  qed
qed

lemma rmd_finalize_absorbed:
  assumes "rmd_absorbed ctx m"
  shows "rmd_finalize ctx = ripemd160_spec m"
proof -
  let ?z = "(56 + 64 - length (m @ [0x80]) mod 64) mod 64"
  define c1 where "c1 = rmd_pad_loop 64 (rmd_update ctx [0x80])"
  have "?z \<le> 64" by (simp add: less_imp_le)
  then have "rmd_absorbed c1 ((m @ [0x80]) @ replicate ?z 0)"
    using rmd_pad_loop_spec [OF rmd_absorbed_update [OF assms]] unfolding c1_def by blast
  then have "rmd_absorbed (rmd_update c1 (store_le64 (of_nat (length m) * 8)))
      (((m @ [0x80]) @ replicate ?z 0) @ store_le64 (of_nat (length m) * 8))"
    by (rule rmd_absorbed_update)
  then have "rmd_absorbed (rmd_update c1 (store_le64 (of_nat (length m) * 8))) (md_pad 64 56 store_le64 m)"
    by (simp add: md_pad_def)
  moreover have "total ctx = of_nat (length m)" using assms by (simp add: rmd_absorbed_def represents_def)
  ultimately show ?thesis
    by (simp add: rmd_finalize_def Let_def c1_def rmd_absorbed_def represents_def ripemd160_spec_def
        md_blocks_def)
qed

lemma rmd_hash_spec: "rmd_hash m = ripemd160_spec m"
  using rmd_finalize_absorbed [OF rmd_absorbed_update [OF rmd_absorbed_init]] by (simp add: rmd_hash_def)

lemma ripemd160_32_block_pad:
  assumes "length block = 64" "32 \<le> length d"
  shows "ripemd160_32_block block d = md_pad 64 56 store_le64 (take 32 d)"
  using assms last_block_layout [of block 64 "take 32 d" 56 "[0, 1, 0, 0, 0, 0, 0, 0]" "0x80"]
    memcpy_at_seq [of 56 "[0, 1, 0, 0]" "memset_at ((memcpy_at block 0 (take 32 d))[32 := 0x80]) 33 0 23"
      "[0, 0, 0, 0]"]
  by (simp add: ripemd160_32_block_def md_pad_one_block [of _ 32] length_memset_at length_memcpy_at store_le64_def)

lemma ripemd160_32_spec: "32 \<le> length d \<Longrightarrow> ripemd160_32 d = ripemd160_spec (take 32 d)"
  by (simp add: ripemd160_32_def ripemd160_32_block_pad ripemd160_spec_def md_pad_def md_blocks_def)

lemma accel_ripemd160_spec: "accel_ripemd160 d = ripemd160_spec d"
proof (cases "length d \<le> 55")
  case True
  let ?lf = "store_le64 (of_nat (length d) * 8)"
  have "memcpy_at (memset_at ((memcpy_at (replicate 64 0) 0 d)[length d := 0x80]) (length d + 1) 0
      (55 - length d)) 56 ?lf = md_pad 64 56 store_le64 d"
    using True last_block_layout [of "replicate 64 0" 64 d 56 ?lf "0x80"]
    by (simp add: md_pad_one_block [of d "length d"])
  moreover have "length (md_pad 64 56 store_le64 d) = 64"
    using True by (simp add: md_pad_one_block [of d "length d"])
  ultimately show ?thesis
    using True by (simp add: accel_ripemd160_def Let_def ripemd160_spec_def md_blocks_def)
next
  case False
  let ?lf = "store_le64 (of_nat (length d) * 8)"
  obtain st r where a: "absorb_blocks 64 ripemd160_compress RIPEMD160_IV d = (st, r)"
    by (rule prod.exhaust)
  have r: "length r = length d mod 64" "length r < 64"
    using ripemd160.absorb_rest [OF a] by simp_all
  have pad: "absorb_blocks 64 ripemd160_compress RIPEMD160_IV (md_pad 64 56 store_le64 d) =
      absorb_blocks 64 ripemd160_compress st
        (r @ [0x80] @ replicate (if length r + 1 \<le> 56 then 56 - (length r + 1) else 56 + (64 - (length r + 1))) 0 @ ?lf)"
    unfolding md_pad_def ripemd160.absorb_append [OF a]
    using pad_zeros [OF r(2) _ r(1), of 56] by simp
  show ?thesis
  proof (cases "length r < 56")
    case True
    let ?b = "r @ [0x80] @ replicate (55 - length r) 0 @ ?lf"
    define block where "block = memcpy_at (memset_at ((memcpy_at (replicate 128 0) 0 r)[length r := 0x80])
      (length r + 1) 0 (55 - length r)) 56 ?lf"
    let ?b1 = "(memcpy_at (replicate 128 0) 0 r)[length r := 0x80]"
    have 1: "take (length r + 1) ?b1 = r @ [0x80]" "length ?b1 = 128"
      using r(2) by (simp_all add: memcpy_at_def list_update_append upd_conv_take_nth_drop)
    have 2: "take 56 (memset_at ?b1 (length r + 1) 0 (55 - length r)) = r @ [0x80] @ replicate (55 - length r) 0"
      using True 1 take_memset_at [of "length r + 1" ?b1 "55 - length r" 0] by simp
    have tb: "take 64 block = ?b"
      using 1 2 take_memcpy_at [of 56 "memset_at ?b1 (length r + 1) 0 (55 - length r)" ?lf] True
      by (simp add: block_def length_memset_at)
    then show ?thesis
      using True False a pad tb [unfolded block_def]
      by (simp add: accel_ripemd160_def Let_def ripemd160_spec_def md_blocks_def)
  next
    case big: False
    define block where "block = memcpy_at (memset_at ((memcpy_at (replicate 128 0) 0 r)[length r := 0x80])
      (length r + 1) 0 (119 - length r)) 120 ?lf"
    have b: "block = r @ [0x80] @ replicate (119 - length r) 0 @ ?lf"
      unfolding block_def using r(2) last_block_layout [of "replicate 128 0" 128 r 120 ?lf "0x80"] by simp
    have "take 64 block @ drop 64 block = block" "length (take 64 block) = 64" "length (drop 64 block) = 64"
      using r(2) by (simp_all add: b)
    then have "absorb_blocks 64 ripemd160_compress st block =
        (ripemd160_compress (ripemd160_compress st (take 64 block)) (drop 64 block), [])"
      by (metis ripemd160.absorb_block ripemd160.absorb_one)
    moreover have "56 + (64 - (length r + 1)) = 119 - length r" using r(2) by simp
    ultimately show ?thesis
      using big False a pad r(2) b [unfolded block_def]
      by (simp add: accel_ripemd160_def Let_def ripemd160_spec_def md_blocks_def b)
  qed
qed

lemma length_words_le: "length (words_le ws) = 4 * length ws"
  by (induction ws) (simp_all add: words_le_def)

lemma length_md_ripemd: "length (md_blocks 64 ripemd160_compress h b) = (if 64 \<le> length b then 5 else length h)"
proof -
  have "length (fst (absorb_blocks 64 ripemd160_compress h b)) = (if 64 \<le> length b then 5 else length h)"
  proof (induction "64 :: nat" ripemd160_compress h b rule: absorb_blocks.induct)
    case (1 h b)
    then show ?case by (subst absorb_blocks.simps) simp
  qed
  then show ?thesis by (simp add: md_blocks_def)
qed

lemma length_ripemd160_spec [simp, len_simps]: "length (ripemd160_spec m) = 20"
  by (simp add: ripemd160_spec_def length_words_le length_md_ripemd RIPEMD160_IV_def)

lemma accel_hash160_spec: "accel_hash160 m = ripemd160_spec (sha256_spec m)"
  by (simp add: accel_hash160_def accel_sha256_def ripemd160_32_spec sha256_hash_spec flip: sha256_hash_def)

lemma scalar_hash160_33_spec:
  "33 \<le> length d \<Longrightarrow> scalar_hash160_33 d = ripemd160_spec (sha256_spec (take 33 d))"
  by (simp add: scalar_hash160_33_def ripemd160_32_spec sha256_33_spec)

lemma bip32_hash160_spec: "bip32_hash160 m = ripemd160_spec (sha256_spec m)"
  by (simp add: bip32_hash160_def rmd_hash_spec sha256_hash_spec)

section \<open>Properties\<close>

text \<open>C18: the two RIPEMD-160 implementations agree on every message: the one-shot routine with its 64- or
  128-byte tail and the streaming class with its byte-wise padding loop, fed in any chunks, both give
  the Merkle-Damgard digest; so do the fixed 32-byte routine and the two compression functions.\<close>

theorem ripemd160_implementations_agree:
  "accel_ripemd160 (concat ds) = rmd_finalize (fold (\<lambda>d c. rmd_update c d) ds rmd_init) \<and>
   rmd_hash m = accel_ripemd160 m \<and> accel_ripemd160 m = ripemd160_spec m \<and>
   bip32_rmd_compress h b = ripemd160_compress h b \<and>
   (length d = 32 \<longrightarrow> ripemd160_32 d = accel_ripemd160 d)"
  using rmd_finalize_absorbed [OF rmd_absorbed_fold [OF rmd_absorbed_init]]
  by (simp add: accel_ripemd160_spec rmd_hash_spec rmd_compress_eq ripemd160_32_spec)

theorem ripemd160_implementations_agree_witness:
  "ripemd160_32 (replicate 32 1) = accel_ripemd160 (replicate 32 1) \<and>
   accel_ripemd160 [1, 2, 3] = rmd_finalize (rmd_update (rmd_update rmd_init [1]) [2, 3])"
  using ripemd160_implementations_agree [of "[[1], [2, 3]]" "[]" "[]" "[]" "replicate 32 1"] by simp

text \<open>HASH160 is the same in hash\_accel.cpp and bip32.cpp, the fixed 33-byte version is it on the
  key it reads, and the batch writes at slot \<open>i\<close> the 20-byte hash of key \<open>i\<close>.\<close>

theorem hash160_correct:
  assumes "33 * count \<le> length keys" "i < count"
  shows "accel_hash160 m = bip32_hash160 m \<and>
    scalar_hash160_33 (drop (i * 33) keys) = accel_hash160 (take 33 (drop (i * 33) keys)) \<and>
    take 20 (drop (i * 20) (hash160_33_batch keys count)) = accel_hash160 (take 33 (drop (i * 33) keys))"
proof -
  have key: "33 \<le> length (drop (j * 33) keys)" if "j < count" for j
    using assms(1) that mult_le_mono2 [of "Suc j" count 33] by simp
  have "take 20 (drop (i * 20) (hash160_33_batch keys count)) = scalar_hash160_33 (drop (i * 33) keys)"
    unfolding hash160_33_batch_def
    by (rule nth_slice) (use key assms(2) in \<open>simp_all add: scalar_hash160_33_spec\<close>)
  then show ?thesis
    using key [OF assms(2)] by (simp add: accel_hash160_spec bip32_hash160_spec scalar_hash160_33_spec)
qed

theorem hash160_correct_witness:
  "take 20 (drop 20 (hash160_33_batch (replicate 66 2) 2)) = bip32_hash160 (replicate 33 2)"
  using hash160_correct [of 2 "replicate 66 2" 1 "replicate 33 2"] by simp

end
