(* ===== verification/Sha512.thy ===== *)
theory Sha512
  imports Block_Hash
begin

text \<open>
  SHA-512 (sha512.hpp): the compression function and the streaming class, an instance of the shared
  buffering discipline with 128-byte blocks. The length field is 16 bytes of which the code writes the
  upper 8 as zero, so the digest is the standard one for messages below \<open>2^61\<close> bytes.
\<close>

unbundle bit_operations_syntax

section \<open>Compression\<close>

definition SHA512_K :: "u64 list" where
  "SHA512_K = [
     0x428A2F98D728AE22, 0x7137449123EF65CD, 0xB5C0FBCFEC4D3B2F, 0xE9B5DBA58189DBBC,
     0x3956C25BF348B538, 0x59F111F1B605D019, 0x923F82A4AF194F9B, 0xAB1C5ED5DA6D8118,
     0xD807AA98A3030242, 0x12835B0145706FBE, 0x243185BE4EE4B28C, 0x550C7DC3D5FFB4E2,
     0x72BE5D74F27B896F, 0x80DEB1FE3B1696B1, 0x9BDC06A725C71235, 0xC19BF174CF692694,
     0xE49B69C19EF14AD2, 0xEFBE4786384F25E3, 0x0FC19DC68B8CD5B5, 0x240CA1CC77AC9C65,
     0x2DE92C6F592B0275, 0x4A7484AA6EA6E483, 0x5CB0A9DCBD41FBD4, 0x76F988DA831153B5,
     0x983E5152EE66DFAB, 0xA831C66D2DB43210, 0xB00327C898FB213F, 0xBF597FC7BEEF0EE4,
     0xC6E00BF33DA88FC2, 0xD5A79147930AA725, 0x06CA6351E003826F, 0x142929670A0E6E70,
     0x27B70A8546D22FFC, 0x2E1B21385C26C926, 0x4D2C6DFC5AC42AED, 0x53380D139D95B3DF,
     0x650A73548BAF63DE, 0x766A0ABB3C77B2A8, 0x81C2C92E47EDAEE6, 0x92722C851482353B,
     0xA2BFE8A14CF10364, 0xA81A664BBC423001, 0xC24B8B70D0F89791, 0xC76C51A30654BE30,
     0xD192E819D6EF5218, 0xD69906245565A910, 0xF40E35855771202A, 0x106AA07032BBD1B8,
     0x19A4C116B8D2D0C8, 0x1E376C085141AB53, 0x2748774CDF8EEB99, 0x34B0BCB5E19B48A8,
     0x391C0CB3C5C95A63, 0x4ED8AA4AE3418ACB, 0x5B9CCA4F7763E373, 0x682E6FF3D6B2B8A3,
     0x748F82EE5DEFB2FC, 0x78A5636F43172F60, 0x84C87814A1F0AB72, 0x8CC702081A6439EC,
     0x90BEFFFA23631E28, 0xA4506CEBDE82BDE9, 0xBEF9A3F7B2C67915, 0xC67178F2E372532B,
     0xCA273ECEEA26619C, 0xD186B8C721C0C207, 0xEADA7DD6CDE0EB1E, 0xF57D4F7FEE6ED178,
     0x06F067AA72176FBA, 0x0A637DC5A2C898A6, 0x113F9804BEF90DAE, 0x1B710B35131C471B,
     0x28DB77F523047D84, 0x32CAAB7B40C72493, 0x3C9EBE0A15C9BEBC, 0x431D67C49C100D4C,
     0x4CC5D4BECB3E42B6, 0x597F299CFC657E2A, 0x5FCB6FAB3AD6FAEC, 0x6C44198C4A475817]"

definition rotr64 :: "u64 \<Rightarrow> nat \<Rightarrow> u64" where
  "rotr64 x n = drop_bit n x OR push_bit (64 - n) x"

definition ch64 :: "u64 \<Rightarrow> u64 \<Rightarrow> u64 \<Rightarrow> u64" where
  "ch64 x y z = (x AND y) XOR (NOT x AND z)"

definition maj64 :: "u64 \<Rightarrow> u64 \<Rightarrow> u64 \<Rightarrow> u64" where
  "maj64 x y z = (x AND y) XOR (x AND z) XOR (y AND z)"

definition big_Sigma0 :: "u64 \<Rightarrow> u64" where
  "big_Sigma0 x = rotr64 x 28 XOR rotr64 x 34 XOR rotr64 x 39"

definition big_Sigma1 :: "u64 \<Rightarrow> u64" where
  "big_Sigma1 x = rotr64 x 14 XOR rotr64 x 18 XOR rotr64 x 41"

definition small_sigma0 :: "u64 \<Rightarrow> u64" where
  "small_sigma0 x = rotr64 x 1 XOR rotr64 x 8 XOR drop_bit 7 x"

definition small_sigma1 :: "u64 \<Rightarrow> u64" where
  "small_sigma1 x = rotr64 x 19 XOR rotr64 x 61 XOR drop_bit 6 x"

definition sha512_expand :: "u64 list \<Rightarrow> nat \<Rightarrow> u64 list" where
  "sha512_expand W i =
     W @ [small_sigma1 (W ! (i - 2)) + W ! (i - 7) + small_sigma0 (W ! (i - 15)) + W ! (i - 16)]"

definition sha512_schedule :: "bytes \<Rightarrow> u64 list" where
  "sha512_schedule block =
     foldl sha512_expand (map (\<lambda>i. load_be64 (drop (i * 8) block)) [0..<16]) [16..<80]"

type_synonym regs8_64 = "u64 \<times> u64 \<times> u64 \<times> u64 \<times> u64 \<times> u64 \<times> u64 \<times> u64"

fun sha512_round :: "u64 list \<Rightarrow> regs8_64 \<Rightarrow> nat \<Rightarrow> regs8_64" where
  "sha512_round W (a, b, c, d, e, f, g, h) i =
     (let t1 = h + big_Sigma1 e + ch64 e f g + SHA512_K ! i + W ! i;
          t2 = big_Sigma0 a + maj64 a b c
      in (t1 + t2, a, b, c, d + t1, e, f, g))"

definition sha512_compress :: "u64 list \<Rightarrow> bytes \<Rightarrow> u64 list" where
  "sha512_compress state block =
     (let W = sha512_schedule block;
          (a, b, c, d, e, f, g, h) = foldl (sha512_round W)
            (state ! 0, state ! 1, state ! 2, state ! 3, state ! 4, state ! 5, state ! 6, state ! 7) [0..<80]
      in [state ! 0 + a, state ! 1 + b, state ! 2 + c, state ! 3 + d,
          state ! 4 + e, state ! 5 + f, state ! 6 + g, state ! 7 + h])"

lemma length_sha512_compress [simp, len_simps]: "length (sha512_compress s b) = 8"
  by (simp add: sha512_compress_def case_prod_beta Let_def)

section \<open>The streaming class\<close>

type_synonym sha512_ctx = "u64 list hash_ctx"

definition SHA512_IV :: "u64 list" where
  "SHA512_IV =
     [0x6A09E667F3BCC908, 0xBB67AE8584CAA73B, 0x3C6EF372FE94F82B, 0xA54FF53A5F1D36F1,
      0x510E527FADE682D1, 0x9B05688C2B3E6C1F, 0x1F83D9ABFB41BD6B, 0x5BE0CD19137E2179]"

definition sha512_reset :: "sha512_ctx \<Rightarrow> sha512_ctx" where
  "sha512_reset ctx = ctx\<lparr>hash_state := SHA512_IV, total := 0, buf_len := 0\<rparr>"

definition sha512_init :: sha512_ctx where
  "sha512_init = sha512_reset
     \<lparr>hash_state = replicate 8 0, hash_buf = replicate 128 0, buf_len = 0, total = 0\<rparr>"

definition sha512_update :: "sha512_ctx \<Rightarrow> bytes \<Rightarrow> sha512_ctx" where
  "sha512_update = block_update 128 sha512_compress"

definition sha512_length_field :: "u64 \<Rightarrow> bytes" where
  "sha512_length_field bit_len = replicate 8 0 @ store_be64 bit_len"

definition sha512_pad :: "sha512_ctx \<Rightarrow> sha512_ctx" where
  "sha512_pad = block_pad 128 112 sha512_compress sha512_length_field"

definition sha512_finalize :: "sha512_ctx \<Rightarrow> bytes" where
  "sha512_finalize ctx = concat (map store_be64 (hash_state (sha512_pad ctx)))"

definition sha512_hash :: "bytes \<Rightarrow> bytes" where
  "sha512_hash data = sha512_finalize (sha512_update sha512_init data)"

section \<open>The reference\<close>

definition sha512_spec :: "bytes \<Rightarrow> bytes" where
  "sha512_spec m =
     concat (map store_be64 (md_blocks 128 sha512_compress SHA512_IV (md_pad 128 112 sha512_length_field m)))"

interpretation sha512: md_hash 128 sha512_compress 112 sha512_length_field
  by unfold_locales (simp_all add: sha512_length_field_def)

definition sha512_absorbed :: "sha512_ctx \<Rightarrow> bytes \<Rightarrow> bool" where
  "sha512_absorbed ctx m \<longleftrightarrow> represents 128 sha512_compress SHA512_IV ctx m"

lemma sha512_absorbed_init [simp]: "sha512_absorbed sha512_init []"
  unfolding sha512_absorbed_def
  by (rule sha512.represents_init) (simp_all add: sha512_init_def sha512_reset_def)

lemma sha512_absorbed_update:
  "sha512_absorbed ctx m \<Longrightarrow> sha512_absorbed (sha512_update ctx d) (m @ d)"
  unfolding sha512_absorbed_def sha512_update_def by (rule sha512.update_represents)

lemma sha512_absorbed_fold:
  "sha512_absorbed ctx m \<Longrightarrow> sha512_absorbed (fold (\<lambda>d c. sha512_update c d) ds ctx) (m @ concat ds)"
  unfolding sha512_absorbed_def sha512_update_def by (rule sha512.fold_update_represents)

lemma sha512_finalize_absorbed: "sha512_absorbed ctx m \<Longrightarrow> sha512_finalize ctx = sha512_spec m"
  unfolding sha512_absorbed_def
  by (simp add: sha512_finalize_def sha512_pad_def sha512.pad_spec sha512_spec_def)

lemma sha512_hash_spec: "sha512_hash m = sha512_spec m"
  using sha512_finalize_absorbed [OF sha512_absorbed_update [OF sha512_absorbed_init]]
  by (simp add: sha512_hash_def)

lemma length_concat_be64: "length (concat (map store_be64 ws)) = 8 * length ws"
  by (induction ws) simp_all

lemma length_sha512_finalize [simp, len_simps]: "length (sha512_finalize ctx) = 64"
  by (simp add: sha512_finalize_def length_concat_be64 sha512_pad_def block_pad_def Let_def)

lemma length_sha512_hash [simp, len_simps]: "length (sha512_hash m) = 64"
  by (simp add: sha512_hash_def)

lemma length_sha512_spec [simp, len_simps]: "length (sha512_spec m) = 64"
  by (simp flip: sha512_hash_spec)

section \<open>Properties\<close>

text \<open>SHA-512 streaming is faithful: any sequence of \<open>update\<close> calls followed by \<open>finalize\<close> gives the
  one-shot hash of the concatenated data, the Merkle-Damgard iteration over 128-byte blocks.\<close>

theorem sha512_streaming:
  "sha512_finalize (fold (\<lambda>d c. sha512_update c d) ds sha512_init) = sha512_hash (concat ds) \<and>
   sha512_hash (concat ds) = sha512_spec (concat ds) \<and> length (sha512_hash (concat ds)) = 64"
  using sha512_finalize_absorbed [OF sha512_absorbed_fold [OF sha512_absorbed_init]]
  by (simp add: sha512_hash_spec)

end
