(* ===== verification/Hmac.thy ===== *)
theory Hmac
  imports Sha256 Sha512
begin

text \<open>
  HMAC in its four shapes: \<open>hmac_sha256\<close> (hkdf.cpp) and \<open>hmac_sha512\<close> (bip32.cpp) over the streaming
  classes, and \<open>HMAC_Ctx\<close> (ecdsa.cpp), which keeps the two pad midstates and lays out the padded blocks
  by hand for three ranges of message length. Each is proved equal to one reference; HKDF
  (extract and expand, with the pre-hashed pads cloned per iteration) is built on it.
\<close>

unbundle bit_operations_syntax

section \<open>The reference\<close>

definition hmac_pad :: "nat \<Rightarrow> (bytes \<Rightarrow> bytes) \<Rightarrow> byte \<Rightarrow> bytes \<Rightarrow> bytes" where
  "hmac_pad B h v key =
     (let k = (if length key > B then h key else key)
      in map (\<lambda>b. b XOR v) (k @ replicate (B - length k) 0))"

definition hmac_spec :: "bytes \<Rightarrow> bytes \<Rightarrow> bytes" where
  "hmac_spec key m =
     sha256_spec (hmac_pad 64 sha256_spec 0x5C key @ sha256_spec (hmac_pad 64 sha256_spec 0x36 key @ m))"

definition hmac512_spec :: "bytes \<Rightarrow> bytes \<Rightarrow> bytes" where
  "hmac512_spec key m =
     sha512_spec (hmac_pad 128 sha512_spec 0x5C key @ sha512_spec (hmac_pad 128 sha512_spec 0x36 key @ m))"

lemma length_hmac_pad [simp]:
  "(\<And>m. length (h m) \<le> B) \<Longrightarrow> length (hmac_pad B h v key) = B"
  by (simp add: hmac_pad_def Let_def)

section \<open>Over the streaming classes\<close>

definition hmac_sha256 :: "bytes \<Rightarrow> bytes \<Rightarrow> bytes" where
  "hmac_sha256 key data =
     (let k_buf = replicate 64 0;
          k_buf = (if length key > 64 then memcpy_at k_buf 0 (sha256_hash key)
                   else if length key > 0 then memcpy_at k_buf 0 key else k_buf);
          ipad = map (\<lambda>b. b XOR 0x36) k_buf;
          opad = map (\<lambda>b. b XOR 0x5C) k_buf;
          inner = sha256_update sha256_init ipad;
          inner = (if length data > 0 then sha256_update inner data else inner);
          inner_hash = sha256_finalize inner;
          outer = sha256_update sha256_init opad;
          outer = sha256_update outer inner_hash
      in sha256_finalize outer)"

definition hmac_sha512 :: "bytes \<Rightarrow> bytes \<Rightarrow> bytes" where
  "hmac_sha512 key data =
     (let k_buf = replicate 128 0;
          k_buf = (if length key > 128 then memcpy_at k_buf 0 (sha512_hash key)
                   else memcpy_at k_buf 0 key);
          ipad = map (\<lambda>b. b XOR 0x36) k_buf;
          opad = map (\<lambda>b. b XOR 0x5c) k_buf;
          inner_hash = sha512_finalize (sha512_update (sha512_update sha512_init ipad) data)
      in sha512_finalize (sha512_update (sha512_update sha512_init opad) inner_hash))"

lemma sha256_two: "sha256_finalize (sha256_update (sha256_update sha256_init a) b) = sha256_spec (a @ b)"
  using finalize_absorbed [OF absorbed_update [OF absorbed_update [OF absorbed_init]]] by simp

lemma sha256_one: "sha256_finalize (sha256_update sha256_init a) = sha256_spec a"
  using sha256_hash_spec [of a] by (simp add: sha256_hash_def)

lemma sha512_two: "sha512_finalize (sha512_update (sha512_update sha512_init a) b) = sha512_spec (a @ b)"
  using sha512_finalize_absorbed [OF sha512_absorbed_update [OF sha512_absorbed_update [OF sha512_absorbed_init]]]
  by simp

lemma memcpy_zeros: "length k \<le> n \<Longrightarrow> memcpy_at (replicate n 0) 0 k = k @ replicate (n - length k) 0"
  by (simp add: memcpy_at_def)

lemma hmac_sha256_spec: "hmac_sha256 key data = hmac_spec key data"
proof -
  have k: "(if length key > 64 then memcpy_at (replicate 64 0) 0 (sha256_hash key)
        else if length key > 0 then memcpy_at (replicate 64 0) 0 key else replicate 64 0)
      = (let k = (if length key > 64 then sha256_spec key else key) in k @ replicate (64 - length k) 0)"
    by (simp add: memcpy_zeros sha256_hash_spec Let_def)
  show ?thesis
    unfolding hmac_sha256_def Let_def k [unfolded Let_def]
    by (simp add: sha256_two sha256_one hmac_spec_def hmac_pad_def Let_def)
qed

lemma hmac_sha512_spec: "hmac_sha512 key data = hmac512_spec key data"
  by (simp add: hmac_sha512_def Let_def memcpy_zeros sha512_hash_spec sha512_two hmac512_spec_def hmac_pad_def)

lemma length_hmac [simp]: "length (hmac_sha256 k m) = 32" "length (hmac_sha512 k m) = 64"
  "length (hmac_spec k m) = 32" "length (hmac512_spec k m) = 64"
  by (simp_all add: hmac_sha256_spec hmac_sha512_spec hmac_spec_def hmac512_spec_def)

section \<open>HKDF\<close>

text \<open>\<open>salt\<close> is \<open>None\<close> for a null pointer.\<close>

definition hkdf_sha256_extract :: "bytes option \<Rightarrow> bytes \<Rightarrow> bytes" where
  "hkdf_sha256_extract salt ikm =
     (case salt of
        None \<Rightarrow> hmac_sha256 (replicate 32 0) ikm
      | Some s \<Rightarrow> if length s = 0 then hmac_sha256 (replicate 32 0) ikm else hmac_sha256 s ikm)"

text \<open>
  The loop of \<open>hkdf_sha256_expand\<close>: \<open>i\<close> is the wrapping 8-bit counter, \<open>t\<close> the previous block
  (empty before the first iteration, \<open>t_len = 0\<close>).
\<close>

function hkdf_expand_loop ::
  "sha256_ctx \<Rightarrow> sha256_ctx \<Rightarrow> bytes \<Rightarrow> nat \<Rightarrow> byte \<Rightarrow> bytes \<Rightarrow> bytes \<Rightarrow> nat \<Rightarrow> bytes" where
  "hkdf_expand_loop ipad_base opad_base info out_len i t out offset =
     (if offset < out_len then
        (let inner = ipad_base;
             inner = (if length t > 0 then sha256_update inner t else inner);
             inner = (if length info > 0 then sha256_update inner info else inner);
             inner = sha256_update inner [i];
             inner_hash = sha256_finalize inner;
             outer = sha256_update opad_base inner_hash;
             ti = sha256_finalize outer;
             copy = min 32 (out_len - offset)
         in hkdf_expand_loop ipad_base opad_base info out_len (i + 1) ti
              (memcpy_at out offset (take copy ti)) (offset + copy))
      else out)"
  by pat_completeness auto
termination
  by (relation "measure (\<lambda>(_, _, _, out_len, _, _, _, offset). out_len - offset)") auto

declare hkdf_expand_loop.simps [simp del]

text \<open>\<open>out\<close> is the caller's buffer of \<open>out_len\<close> bytes; the result is the flag and its new content.\<close>

definition hkdf_sha256_expand :: "bytes \<Rightarrow> bytes \<Rightarrow> bytes \<Rightarrow> bool \<times> bytes" where
  "hkdf_sha256_expand prk info out =
     (let out_len = length out
      in if out_len > 255 * 32 then (False, out)
         else
           (let ipad = map (\<lambda>b. b XOR 0x36) (take 32 prk) @ replicate 32 0x36;
                opad = map (\<lambda>b. b XOR 0x5C) (take 32 prk) @ replicate 32 0x5C;
                ipad_base = sha256_update sha256_init ipad;
                opad_base = sha256_update sha256_init opad
            in (True, hkdf_expand_loop ipad_base opad_base info out_len 1 [] out 0)))"

text \<open>The blocks of RFC 5869: \<open>T(i) = HMAC(PRK, T(i-1) || info || i)\<close>, \<open>i\<close> counting from 1.\<close>

fun hkdf_T :: "bytes \<Rightarrow> bytes \<Rightarrow> nat \<Rightarrow> bytes" where
  "hkdf_T prk info 0 = []"
| "hkdf_T prk info (Suc i) = hmac_spec prk (hkdf_T prk info i @ info @ [of_nat (Suc i)])"

definition hkdf_okm :: "bytes \<Rightarrow> bytes \<Rightarrow> nat \<Rightarrow> bytes" where
  "hkdf_okm prk info n = concat (map (\<lambda>i. hkdf_T prk info (Suc i)) [0..<n])"

lemma length_hkdf_T: "length (hkdf_T prk info i) = (if i = 0 then 0 else 32)"
  by (cases i) simp_all

lemma length_hkdf_okm [simp]: "length (hkdf_okm prk info n) = 32 * n"
  by (induction n) (simp_all add: hkdf_okm_def)

lemma hmac_pad_32:
  assumes "length key = 32"
  shows "hmac_pad 64 h v key = map (\<lambda>b. b XOR v) key @ replicate 32 v"
  using assms by (simp add: hmac_pad_def Let_def)

lemma update_if_nonempty:
  "sha256_absorbed c m \<Longrightarrow> sha256_absorbed (if length d > 0 then sha256_update c d else c) (m @ d)"
  using absorbed_update [of c m d] by auto

lemma hkdf_expand_loop_spec:
  assumes "length prk = 32" "length out = out_len"
    and "sha256_absorbed ib (hmac_pad 64 sha256_spec 0x36 prk)"
    and "sha256_absorbed ob (hmac_pad 64 sha256_spec 0x5C prk)"
    and "offset = min out_len (32 * n)" "take offset out = take offset (hkdf_okm prk info n)"
  shows "\<exists>k. out_len \<le> 32 * k \<and>
    hkdf_expand_loop ib ob info out_len (of_nat (Suc n)) (hkdf_T prk info n) out offset
      = take out_len (hkdf_okm prk info k)"
  using assms(2,5,6)
proof (induction "out_len - offset" arbitrary: n out offset rule: less_induct)
  case less
  show ?case
  proof (cases "offset < out_len")
    case False
    then have "out_len \<le> 32 * n" "offset = out_len" using less.prems(2) by auto
    then show ?thesis
      using less.prems by (intro exI [of _ n]) (simp add: hkdf_expand_loop.simps)
  next
    case True
    then have off: "offset = 32 * n" using less.prems(2) by auto
    define copy where "copy = min 32 (out_len - offset)"
    define ti where "ti = hkdf_T prk info (Suc n)"
    let ?in = "sha256_update (if length info > 0
        then sha256_update (if length (hkdf_T prk info n) > 0 then sha256_update ib (hkdf_T prk info n) else ib) info
        else (if length (hkdf_T prk info n) > 0 then sha256_update ib (hkdf_T prk info n) else ib)) [of_nat (Suc n)]"
    have "sha256_absorbed ?in
        (((hmac_pad 64 sha256_spec 0x36 prk @ hkdf_T prk info n) @ info) @ [of_nat (Suc n)])"
      by (intro absorbed_update update_if_nonempty assms(3))
    note inner = finalize_absorbed [OF this]
    have ti: "sha256_finalize (sha256_update ob (sha256_finalize ?in)) = ti"
      using finalize_absorbed [OF absorbed_update [OF assms(4)]]
      unfolding inner by (simp add: ti_def hmac_spec_def)
    have step: "hkdf_expand_loop ib ob info out_len (of_nat (Suc n)) (hkdf_T prk info n) out offset
        = hkdf_expand_loop ib ob info out_len (of_nat (Suc (Suc n))) ti
            (memcpy_at out offset (take copy ti)) (offset + copy)"
      by (subst hkdf_expand_loop.simps, unfold Let_def ti) (simp add: True copy_def add.commute)
    have lti: "length ti = 32" by (simp add: ti_def)
    have okm: "hkdf_okm prk info (Suc n) = hkdf_okm prk info n @ ti" by (simp add: hkdf_okm_def ti_def)
    let ?out = "memcpy_at out offset (take copy ti)"
    have c: "copy \<le> 32" "offset + copy \<le> out_len" "0 < copy" using True by (auto simp: copy_def)
    have "length ?out = out_len" using c lti less.prems(1) by (simp add: length_memcpy_at)
    moreover have "offset + copy = min out_len (32 * Suc n)" using off c by (auto simp: copy_def)
    moreover have "take (offset + copy) ?out = take (offset + copy) (hkdf_okm prk info (Suc n))"
      using take_memcpy_at [of offset out "take copy ti"] c lti less.prems(1,3) off
      by (simp add: okm)
    ultimately show ?thesis
      using less.hyps [of "offset + copy" ?out "Suc n"] c True unfolding step ti_def by auto
  qed
qed

lemma hkdf_expand_result:
  assumes "length prk = 32"
  shows "if 255 * 32 < length out then hkdf_sha256_expand prk info out = (False, out)
    else \<exists>k. length out \<le> 32 * k \<and> hkdf_sha256_expand prk info out = (True, take (length out) (hkdf_okm prk info k))"
proof (cases "255 * 32 < length out")
  case False
  have "sha256_absorbed (sha256_update sha256_init p) p" for p
    using absorbed_update [OF absorbed_init] by simp
  from hkdf_expand_loop_spec [OF assms refl this this, where offset = 0 and n = 0 and out = out and info = info]
  have "\<exists>k. length out \<le> 32 * k \<and>
      hkdf_expand_loop (sha256_update sha256_init (hmac_pad 64 sha256_spec 0x36 prk))
        (sha256_update sha256_init (hmac_pad 64 sha256_spec 0x5C prk)) info (length out) 1 [] out 0
      = take (length out) (hkdf_okm prk info k)" by simp
  then show ?thesis using False assms by (simp add: hkdf_sha256_expand_def hmac_pad_32 Let_def)
qed (simp add: hkdf_sha256_expand_def)

lemma hkdf_expand_32:
  assumes "length prk = 32" "length out = 32"
  shows "hkdf_sha256_expand prk info out = (True, hmac_spec prk (info @ [1]))"
proof -
  obtain k where k: "32 \<le> 32 * k" "hkdf_sha256_expand prk info out = (True, take 32 (hkdf_okm prk info k))"
    using hkdf_expand_result [OF assms(1), of out info] assms(2) by auto
  then obtain j where "k = Suc j" by (cases k) auto
  then have "hkdf_okm prk info k = hmac_spec prk (info @ [1]) @ concat (map (\<lambda>i. hkdf_T prk info (Suc i)) [1..<k])"
    by (simp add: hkdf_okm_def upt_rec)
  then show ?thesis using k(2) by simp
qed

section \<open>Properties\<close>

text \<open>C16: \<open>hmac_sha256\<close> and \<open>hmac_sha512\<close> are the nested hash of RFC 2104 for keys of any length (longer
  keys hashed first) and messages of any length, the empty one included.\<close>

theorem hmac_correct:
  "hmac_sha256 key m = sha256_hash (hmac_pad 64 sha256_hash 0x5C key @ sha256_hash (hmac_pad 64 sha256_hash 0x36 key @ m)) \<and>
   hmac_sha512 key m = sha512_hash (hmac_pad 128 sha512_hash 0x5C key @ sha512_hash (hmac_pad 128 sha512_hash 0x36 key @ m)) \<and>
   length (hmac_sha256 key m) = 32 \<and> length (hmac_sha512 key m) = 64"
  by (simp add: hmac_sha256_spec hmac_sha512_spec hmac_spec_def hmac512_spec_def hmac_pad_def
      sha256_hash_spec sha512_hash_spec)

text \<open>C17: \<open>hkdf_sha256_expand\<close> refuses exactly the requests above \<open>255 * 32\<close> bytes, leaving the output alone;
  otherwise it terminates with the first \<open>out_len\<close> bytes of \<open>T(1) || T(2) || ...\<close> of RFC 5869, although
  it clones pre-hashed pads and counts in eight bits.\<close>

theorem hkdf_expand_correct:
  assumes "length prk = 32"
  shows "if 255 * 32 < length out then hkdf_sha256_expand prk info out = (False, out)
    else \<exists>k. length out \<le> 32 * k \<and> hkdf_sha256_expand prk info out = (True, take (length out) (hkdf_okm prk info k))"
  by (rule hkdf_expand_result [OF assms])

theorem hkdf_expand_correct_witness:
  "\<exists>k. 42 \<le> 32 * k \<and> hkdf_sha256_expand (replicate 32 1) [2] (replicate 42 0)
     = (True, take 42 (hkdf_okm (replicate 32 1) [2] k))"
  using hkdf_expand_correct [of "replicate 32 1" "replicate 42 0" "[2]"] by simp

end
