(* ===== verification/Ct_Scalar.thy ===== *)
theory Ct_Scalar
  imports Scalar_Mul Scalar_Naf
begin

text \<open>
  The constant-time scalar layer: the mask primitives of ct/ops.hpp and ct\_carry\_helpers\_p.hpp, and
  the operations of ct\_scalar.cpp that signing uses. Every operation is a straight line of word
  operations with masks; the lemmas show that a mask is all ones or all zeros exactly as its name
  says, and that each operation agrees with the branching one of \<open>Scalar\<close>. \<open>value_barrier\<close> is the
  identity on values and is left out.
\<close>

unbundle bit_operations_syntax

section \<open>Masks\<close>

definition is_zero_mask :: "u64 \<Rightarrow> u64" where
  "is_zero_mask v = (let nv = 0 - v in - drop_bit 63 (NOT (v OR nv)))"

definition is_nonzero_mask :: "u64 \<Rightarrow> u64" where
  "is_nonzero_mask v = NOT (is_zero_mask v)"

definition eq_mask :: "u64 \<Rightarrow> u64 \<Rightarrow> u64" where
  "eq_mask a b = is_zero_mask (a XOR b)"

definition bool_to_mask :: "bool \<Rightarrow> u64" where
  "bool_to_mask flag = (let v = of_bool flag in 0 - v)"

definition lt_mask :: "u64 \<Rightarrow> u64 \<Rightarrow> u64" where
  "lt_mask a b =
     (let diff = a - b;
          borrow = drop_bit 63 (a XOR ((a XOR b) OR (diff XOR a)))
      in 0 - borrow)"

definition ct_select :: "u64 \<Rightarrow> u64 \<Rightarrow> u64 \<Rightarrow> u64" where
  "ct_select a b msk = (a AND msk) OR (b AND NOT msk)"

definition cmov64 :: "u64 \<Rightarrow> u64 \<Rightarrow> u64 \<Rightarrow> u64" where
  "cmov64 dst src msk = dst XOR ((dst XOR src) AND msk)"

fun cmov256 :: "limbs4 \<Rightarrow> limbs4 \<Rightarrow> u64 \<Rightarrow> limbs4" where
  "cmov256 (Limbs4 d0 d1 d2 d3) (Limbs4 s0 s1 s2 s3) msk =
     Limbs4 (d0 XOR ((d0 XOR s0) AND msk)) (d1 XOR ((d1 XOR s1) AND msk))
            (d2 XOR ((d2 XOR s2) AND msk)) (d3 XOR ((d3 XOR s3) AND msk))"

definition add_carry_u64 :: "u64 \<Rightarrow> u64 \<Rightarrow> u64 \<Rightarrow> u64" where
  "add_carry_u64 a b s = drop_bit 63 ((a AND b) OR ((a OR b) AND NOT s))"

definition sub_borrow_u64 :: "u64 \<Rightarrow> u64 \<Rightarrow> u64 \<Rightarrow> u64" where
  "sub_borrow_u64 a b diff = drop_bit 63 (a XOR ((a XOR b) OR (diff XOR a)))"

text \<open>What a mask may be.\<close>

definition mask_of :: "bool \<Rightarrow> u64" where
  "mask_of p = (if p then - 1 else 0)"

lemma bit63_iff: "bit (w :: u64) 63 \<longleftrightarrow> 2 ^ 63 \<le> uint w"
proof -
  have "bit w 63 \<longleftrightarrow> odd (uint w div 2 ^ 63)"
    by (metis bit_iff_odd bit_uint_iff bit_imp_le_length not_less numeral_less_iff)
  moreover have "uint w div 2 ^ 63 = (if 2 ^ 63 \<le> uint w then 1 else 0)"
    using uint_lt64 [of w] by (auto simp: div_pos_pos_trivial div_add_self2 intro!: div_pos_geq [THEN trans])
  ultimately show ?thesis by simp
qed

lemma drop63: "drop_bit 63 (w :: u64) = of_bool (bit w 63)"
  by (rule bit_eqI, rename_tac n, case_tac n) (auto simp: bit_simps dest: bit_imp_le_length)

lemma xor_0_iff: "a XOR b = 0 \<longleftrightarrow> a = (b :: 'a::len word)"
  by (metis xor.assoc xor.left_neutral xor_self_eq)

lemma is_zero_mask_eq [simp]: "is_zero_mask v = mask_of (v = 0)"
proof -
  have "bit v 63 \<or> bit (- v) 63 \<longleftrightarrow> v \<noteq> 0"
  proof (cases "v = 0")
    case False
    then have "uint (- v) = 2 ^ 64 - uint v"
      by (simp add: uint_word_ariths zmod_zminus1_eq_if word_uint_eq_iff)
    then show ?thesis using False by (auto simp: bit63_iff)
  qed simp
  then show ?thesis by (auto simp: is_zero_mask_def drop63 bit_simps mask_of_def)
qed

lemma mask_simps [simp]:
  "is_nonzero_mask v = mask_of (v \<noteq> 0)" "eq_mask a b = mask_of (a = b)" "bool_to_mask p = mask_of p"
  "NOT (mask_of p) = mask_of (\<not> p)" "mask_of p OR mask_of q = mask_of (p \<or> q)"
  "mask_of p AND mask_of q = mask_of (p \<and> q)" "mask_of p \<noteq> 0 \<longleftrightarrow> p" "mask_of p = 0 \<longleftrightarrow> \<not> p"
  by (simp_all add: is_nonzero_mask_def eq_mask_def bool_to_mask_def mask_of_def xor_0_iff)

lemma select_simps [simp]:
  "ct_select a b (mask_of p) = (if p then a else b)" "cmov64 b a (mask_of p) = (if p then a else b)"
  "cmov256 x y (mask_of p) = (if p then y else x)"
  by (simp_all add: ct_select_def cmov64_def mask_of_def) (cases x; cases y; simp)+

lemma carry_arith:
  fixes A B :: int
  assumes "0 \<le> A" "A < 2 ^ 64" "0 \<le> B" "B < 2 ^ 64"
  shows "2 ^ 63 \<le> A \<and> 2 ^ 63 \<le> B \<or> (2 ^ 63 \<le> A \<or> 2 ^ 63 \<le> B) \<and>
      \<not> 2 ^ 63 \<le> (if A + B < 2 ^ 64 then A + B else A + B - 2 ^ 64) \<longleftrightarrow> 2 ^ 64 \<le> A + B"
    and "(2 ^ 63 \<le> A) \<noteq> ((2 ^ 63 \<le> A) \<noteq> (2 ^ 63 \<le> B) \<or>
      (2 ^ 63 \<le> (if B \<le> A then A - B else A - B + 2 ^ 64)) \<noteq> (2 ^ 63 \<le> A)) \<longleftrightarrow> A < B"
  using assms by auto

lemma uint_plus_64: "uint (a + b :: u64) = (if uint a + uint b < 2 ^ 64 then uint a + uint b else uint a + uint b - 2 ^ 64)"
  and uint_minus_64: "uint (a - b :: u64) = (if uint b \<le> uint a then uint a - uint b else uint a - uint b + 2 ^ 64)"
  using uint_plus_if' [of a b] uint_sub_if' [of a b] by simp_all

lemma add_carry_eq: "add_carry_u64 a b (a + b) = of_bool (2 ^ 64 \<le> uint a + uint b)"
proof -
  have "bit ((a AND b) OR ((a OR b) AND NOT (a + b))) 63 \<longleftrightarrow>
      bit a 63 \<and> bit b 63 \<or> (bit a 63 \<or> bit b 63) \<and> \<not> bit (a + b) 63"
    by (simp add: bit_and_iff bit_or_iff bit_not_iff)
  also have "\<dots> \<longleftrightarrow> 2 ^ 64 \<le> uint a + uint b"
    unfolding bit63_iff uint_plus_64 by (rule carry_arith) simp_all
  finally show ?thesis unfolding add_carry_u64_def drop63 by (rule arg_cong)
qed

lemma sub_borrow_eq: "sub_borrow_u64 a b (a - b) = of_bool (uint a < uint b)"
proof -
  have "bit (a XOR ((a XOR b) OR ((a - b) XOR a))) 63 \<longleftrightarrow>
      bit a 63 \<noteq> (bit a 63 \<noteq> bit b 63 \<or> bit (a - b) 63 \<noteq> bit a 63)"
    by (simp add: bit_or_iff bit_xor_iff)
  also have "\<dots> \<longleftrightarrow> uint a < uint b"
    unfolding bit63_iff uint_minus_64 by (rule carry_arith) simp_all
  finally show ?thesis unfolding sub_borrow_u64_def drop63 by (rule arg_cong)
qed

lemma lt_mask_eq [simp]: "lt_mask a b = mask_of (a < b)"
  using sub_borrow_eq [of a b] by (auto simp: lt_mask_def sub_borrow_u64_def Let_def mask_of_def word_less_def)

section \<open>256-bit carry chains\<close>

definition adc_ct :: "u64 \<Rightarrow> u64 \<Rightarrow> u64 \<Rightarrow> u64 \<times> u64" where
  "adc_ct a b carry =
     (let sum_lo = a + b;
          c1 = add_carry_u64 a b sum_lo;
          s = sum_lo + carry;
          c2 = add_carry_u64 sum_lo carry s
      in (s, c1 OR c2))"

definition sbb_ct :: "u64 \<Rightarrow> u64 \<Rightarrow> u64 \<Rightarrow> u64 \<times> u64" where
  "sbb_ct a b borrow =
     (let diff = a - b;
          b1 = sub_borrow_u64 a b diff;
          result = diff - borrow;
          b2 = sub_borrow_u64 diff borrow result
      in (result, b1 OR b2))"

fun add256_scalar :: "limbs4 \<Rightarrow> limbs4 \<Rightarrow> limbs4 \<times> u64" where
  "add256_scalar (Limbs4 a0 a1 a2 a3) (Limbs4 b0 b1 b2 b3) =
     (let (r0, c) = adc_ct a0 b0 0; (r1, c) = adc_ct a1 b1 c;
          (r2, c) = adc_ct a2 b2 c; (r3, c) = adc_ct a3 b3 c
      in (Limbs4 r0 r1 r2 r3, c))"

fun sub256_scalar :: "limbs4 \<Rightarrow> limbs4 \<Rightarrow> limbs4 \<times> u64" where
  "sub256_scalar (Limbs4 a0 a1 a2 a3) (Limbs4 b0 b1 b2 b3) =
     (let (r0, c) = sbb_ct a0 b0 0; (r1, c) = sbb_ct a1 b1 c;
          (r2, c) = sbb_ct a2 b2 c; (r3, c) = sbb_ct a3 b3 c
      in (Limbs4 r0 r1 r2 r3, c))"

lemma of_bool_or_word: "(of_bool p :: 'a::len word) OR of_bool q = of_bool (p \<or> q)"
  by (cases p; cases q) simp_all

lemma wrap_chain:
  fixes A B C :: int
  assumes "0 \<le> A" "A < 2 ^ 64" "0 \<le> B" "B < 2 ^ 64" "0 \<le> C" "C \<le> 1"
    and "S = (if A + B < 2 ^ 64 then A + B else A + B - 2 ^ 64)"
    and "D = (if B \<le> A then A - B else A - B + 2 ^ 64)"
  shows "(if S + C < 2 ^ 64 then S + C else S + C - 2 ^ 64) + 2 ^ 64 * of_bool (2 ^ 64 \<le> A + B \<or> 2 ^ 64 \<le> S + C)
      = A + B + C"
    and "(if C \<le> D then D - C else D - C + 2 ^ 64) = A - B - C + 2 ^ 64 * of_bool (A < B \<or> D < C)"
  using assms by auto

lemma uint_of_bool: "uint (of_bool p :: 'a::len word) = of_bool p"
  by (cases p) simp_all

lemma adc_ct_spec:
  assumes "adc_ct a b c = (r, c')" "uint c \<le> 1"
  shows "uint r + 2 ^ 64 * uint c' = uint a + uint b + uint c" and "uint c' \<le> 1"
proof -
  have r: "r = a + b + c" "c' = of_bool (2 ^ 64 \<le> uint a + uint b \<or> 2 ^ 64 \<le> uint (a + b) + uint c)"
    using assms(1) unfolding adc_ct_def Let_def add_carry_eq of_bool_or_word by simp_all
  show "uint c' \<le> 1" unfolding r uint_of_bool by simp
  show "uint r + 2 ^ 64 * uint c' = uint a + uint b + uint c"
    unfolding r uint_of_bool uint_plus_64 [of "a + b"]
    by (rule wrap_chain(1) [OF _ _ _ _ _ assms(2) uint_plus_64 refl]) simp_all
qed

lemma sbb_ct_spec:
  assumes "sbb_ct a b c = (r, c')" "uint c \<le> 1"
  shows "uint r = uint a - uint b - uint c + 2 ^ 64 * uint c'" and "uint c' \<le> 1"
proof -
  have r: "r = a - b - c" "c' = of_bool (uint a < uint b \<or> uint (a - b) < uint c)"
    using assms(1) unfolding sbb_ct_def Let_def sub_borrow_eq of_bool_or_word by simp_all
  show "uint c' \<le> 1" unfolding r uint_of_bool by simp
  show "uint r = uint a - uint b - uint c + 2 ^ 64 * uint c'"
    unfolding r uint_of_bool uint_minus_64 [of "a - b"]
    by (rule wrap_chain(2) [OF _ _ _ _ _ assms(2) refl uint_minus_64]) simp_all
qed

lemma uint_01:
  assumes "uint (c :: u64) \<le> 1"
  shows "c = 0 \<or> c = 1"
proof -
  have "uint c = 0 \<or> uint c = 1" using assms uint_ge_0 [of c] by linarith
  then show ?thesis by (simp add: word_uint_eq_iff)
qed

lemma add256_spec:
  assumes "add256_scalar a b = (r, c)"
  shows "lval r + 2 ^ 256 * uint c = lval a + lval b" and "c = 0 \<or> c = 1"
proof -
  obtain a0 a1 a2 a3 b0 b1 b2 b3 where ab: "a = Limbs4 a0 a1 a2 a3" "b = Limbs4 b0 b1 b2 b3"
    by (cases a; cases b) auto
  obtain r0 c0 where 0: "adc_ct a0 b0 0 = (r0, c0)" by (rule prod.exhaust)
  obtain r1 c1 where 1: "adc_ct a1 b1 c0 = (r1, c1)" by (rule prod.exhaust)
  obtain r2 c2 where 2: "adc_ct a2 b2 c1 = (r2, c2)" by (rule prod.exhaust)
  obtain r3 c3 where 3: "adc_ct a3 b3 c2 = (r3, c3)" by (rule prod.exhaust)
  have rc: "r = Limbs4 r0 r1 r2 r3" "c = c3" using assms by (auto simp: ab 0 1 2 3)
  note s0 = adc_ct_spec [OF 0, simplified]
  note s1 = adc_ct_spec [OF 1 s0(2)]
  note s2 = adc_ct_spec [OF 2 s1(2)]
  note s3 = adc_ct_spec [OF 3 s2(2)]
  show "lval r + 2 ^ 256 * uint c = lval a + lval b"
    using s0(1) s1(1) s2(1) s3(1) by (simp add: ab rc)
  show "c = 0 \<or> c = 1" using s3(2) unfolding rc by (rule uint_01)
qed

lemma sub256_spec:
  assumes "sub256_scalar a b = (r, c)"
  shows "lval r = lval a - lval b + 2 ^ 256 * uint c" and "c = 0 \<or> c = 1"
proof -
  obtain a0 a1 a2 a3 b0 b1 b2 b3 where ab: "a = Limbs4 a0 a1 a2 a3" "b = Limbs4 b0 b1 b2 b3"
    by (cases a; cases b) auto
  obtain r0 c0 where 0: "sbb_ct a0 b0 0 = (r0, c0)" by (rule prod.exhaust)
  obtain r1 c1 where 1: "sbb_ct a1 b1 c0 = (r1, c1)" by (rule prod.exhaust)
  obtain r2 c2 where 2: "sbb_ct a2 b2 c1 = (r2, c2)" by (rule prod.exhaust)
  obtain r3 c3 where 3: "sbb_ct a3 b3 c2 = (r3, c3)" by (rule prod.exhaust)
  have rc: "r = Limbs4 r0 r1 r2 r3" "c = c3" using assms by (auto simp: ab 0 1 2 3)
  note s0 = sbb_ct_spec [OF 0, simplified]
  note s1 = sbb_ct_spec [OF 1 s0(2)]
  note s2 = sbb_ct_spec [OF 2 s1(2)]
  note s3 = sbb_ct_spec [OF 3 s2(2)]
  show "lval r = lval a - lval b + 2 ^ 256 * uint c"
    using s0(1) s1(1) s2(1) s3(1) by (simp add: ab rc)
  show "c = 0 \<or> c = 1" using s3(2) unfolding rc by (rule uint_01)
qed

lemma add256_eq: "add256_scalar a b = (fst (add4 a b), ucast (snd (add4 a b)))"
proof -
  obtain r c where rc: "add256_scalar a b = (r, c)" by (rule prod.exhaust)
  note s = add256_spec [OF rc]
  have "lval r = lval (fst (add4 a b))"
    by (rule residue_unique [of _ "2 ^ 256" "uint c" "uint (snd (add4 a b))"])
      (use s(1) add4_spec(1) [of a b "fst (add4 a b)" "snd (add4 a b)"] in
        \<open>simp_all add: lval_bound [simplified]\<close>)
  then have r: "r = fst (add4 a b)" by (simp add: lval_inj)
  have "c = ucast (snd (add4 a b))"
    using s lval_bound [of r] lval_nonneg [of r] by (auto simp: add4_val(2) simp del: lval_nonneg)
  with r rc show ?thesis by simp
qed

lemma sub256_eq: "sub256_scalar a b = (fst (sub4 a b), ucast (snd (sub4 a b)))"
proof -
  obtain r c where rc: "sub256_scalar a b = (r, c)" by (rule prod.exhaust)
  note s = sub256_spec [OF rc]
  have c: "c = (if lval b \<le> lval a then 0 else 1)"
    using s lval_bound [of r] lval_nonneg [of r] lval_bound [of a] lval_bound [of b]
    by (auto simp del: lval_nonneg)
  then have "lval r = lval (fst (sub4 a b))" using s(1) by (simp add: sub4_val)
  then have "r = fst (sub4 a b)" by (simp add: lval_inj)
  with c rc show ?thesis by (simp add: sub4_val)
qed

section \<open>The operations\<close>

definition ct_scalar_add :: "scalar \<Rightarrow> scalar \<Rightarrow> scalar" where
  "ct_scalar_add a b =
     (let (r, carry) = add256_scalar (limbs a) (limbs b);
          (tmp, borrow) = sub256_scalar r ORDER;
          no_borrow = is_zero_mask borrow;
          has_carry = is_nonzero_mask carry;
          msk = no_borrow OR has_carry
      in scalar_from_limbs (cmov256 r tmp msk))"

definition ct_scalar_sub :: "scalar \<Rightarrow> scalar \<Rightarrow> scalar" where
  "ct_scalar_sub a b =
     (let (r, borrow) = sub256_scalar (limbs a) (limbs b);
          (tmp, _) = add256_scalar r ORDER;
          msk = is_nonzero_mask borrow
      in scalar_from_limbs (cmov256 r tmp msk))"

text \<open>The multiplication shares the column code of \<open>operator*\<close> up to the 258-bit fold.\<close>

definition ct_reduce_258 :: "limbs4 \<times> u32 \<Rightarrow> limbs4" where
  "ct_reduce_258 p =
     (let (r, acc) = fold_258 (fst p) (ucast (snd p));
          carry_out = ucast acc :: u64;
          (tmp, borrow) = sub256_scalar r ORDER;
          use_reduced = is_nonzero_mask carry_out OR is_zero_mask borrow
      in cmov256 r tmp use_reduced)"

definition ct_scalar_mul :: "scalar \<Rightarrow> scalar \<Rightarrow> scalar" where
  "ct_scalar_mul a b =
     scalar_from_limbs (ct_reduce_258 (reduce_385 (reduce_512 (mul_512 (limbs a) (limbs b)))))"

definition ct_scalar_is_zero :: "scalar \<Rightarrow> u64" where
  "ct_scalar_is_zero a =
     (case limbs a of Limbs4 a0 a1 a2 a3 \<Rightarrow> is_zero_mask (a0 OR a1 OR a2 OR a3))"

definition ct_scalar_eq :: "scalar \<Rightarrow> scalar \<Rightarrow> u64" where
  "ct_scalar_eq a b =
     (case limbs a of Limbs4 a0 a1 a2 a3 \<Rightarrow> case limbs b of Limbs4 b0 b1 b2 b3 \<Rightarrow>
        is_zero_mask ((a0 XOR b0) OR (a1 XOR b1) OR (a2 XOR b2) OR (a3 XOR b3)))"

definition ct_scalar_neg :: "scalar \<Rightarrow> scalar" where
  "ct_scalar_neg a =
     (let r = fst (sub256_scalar ORDER (limbs a));
          zero_msk = ct_scalar_is_zero a
      in scalar_from_limbs (cmov256 r (Limbs4 0 0 0 0) zero_msk))"

definition half_step :: "u64 \<Rightarrow> u64 \<Rightarrow> u64 \<Rightarrow> u64 \<Rightarrow> u64 \<times> u64" where
  "half_step n odd' a carry =
     (let n_masked = n AND (0 - odd');
          sum_lo = a + n_masked;
          c1 = of_bool (sum_lo < a);
          s = sum_lo + carry;
          c2 = of_bool (s < sum_lo)
      in (s, c1 + c2))"

definition ct_scalar_half :: "scalar \<Rightarrow> scalar" where
  "ct_scalar_half a =
     (case limbs a of Limbs4 a0 a1 a2 a3 \<Rightarrow>
       (let odd' = a0 AND 1;
            (t0, c) = half_step (limb0 ORDER) odd' a0 0;
            (t1, c) = half_step (limb1 ORDER) odd' a1 c;
            (t2, c) = half_step (limb2 ORDER) odd' a2 c;
            (t3, c) = half_step (limb3 ORDER) odd' a3 c
        in scalar_from_limbs
             (Limbs4 (drop_bit 1 t0 OR push_bit 63 t1) (drop_bit 1 t1 OR push_bit 63 t2)
                     (drop_bit 1 t2 OR push_bit 63 t3) (drop_bit 1 t3 OR push_bit 63 c))))"

fun select256 :: "limbs4 \<Rightarrow> limbs4 \<Rightarrow> u64 \<Rightarrow> limbs4" where
  "select256 (Limbs4 a0 a1 a2 a3) (Limbs4 b0 b1 b2 b3) msk =
     Limbs4 (ct_select a0 b0 msk) (ct_select a1 b1 msk) (ct_select a2 b2 msk) (ct_select a3 b3 msk)"

definition scalar_select :: "scalar \<Rightarrow> scalar \<Rightarrow> u64 \<Rightarrow> scalar" where
  "scalar_select a b msk = scalar_from_limbs (select256 (limbs a) (limbs b) msk)"

definition scalar_cmov :: "scalar \<Rightarrow> scalar \<Rightarrow> u64 \<Rightarrow> scalar" where
  "scalar_cmov r a msk = scalar_select a r msk"

fun cswap256 :: "limbs4 \<Rightarrow> limbs4 \<Rightarrow> u64 \<Rightarrow> limbs4 \<times> limbs4" where
  "cswap256 (Limbs4 a0 a1 a2 a3) (Limbs4 b0 b1 b2 b3) msk =
     (let d0 = (a0 XOR b0) AND msk; d1 = (a1 XOR b1) AND msk;
          d2 = (a2 XOR b2) AND msk; d3 = (a3 XOR b3) AND msk
      in (Limbs4 (a0 XOR d0) (a1 XOR d1) (a2 XOR d2) (a3 XOR d3),
          Limbs4 (b0 XOR d0) (b1 XOR d1) (b2 XOR d2) (b3 XOR d3)))"

definition scalar_cswap :: "scalar \<Rightarrow> scalar \<Rightarrow> u64 \<Rightarrow> scalar \<times> scalar" where
  "scalar_cswap a b msk =
     (case cswap256 (limbs a) (limbs b) msk of (x, y) \<Rightarrow> (scalar_from_limbs x, scalar_from_limbs y))"

definition scalar_cneg :: "scalar \<Rightarrow> u64 \<Rightarrow> scalar" where
  "scalar_cneg a msk = (let neg = ct_scalar_neg a in scalar_select neg a msk)"

definition HALF_N :: limbs4 where
  "HALF_N = Limbs4 0xDFE92F46681B20A0 0x5D576E7357A4501D 0xFFFFFFFFFFFFFFFF 0x7FFFFFFFFFFFFFFF"

definition ct_scalar_is_high :: "scalar \<Rightarrow> u64" where
  "ct_scalar_is_high a =
     (case sub256_scalar (limbs a) HALF_N of (diff, borrow) \<Rightarrow>
       (let is_eq = is_zero_mask (limbs_or diff);
            no_borrow = is_zero_mask borrow
        in no_borrow AND NOT is_eq))"

definition ct_scalar_bit :: "scalar \<Rightarrow> nat \<Rightarrow> u64" where
  "ct_scalar_bit a index =
     (let limb_idx = index div 64;
          bit_idx = index mod 64;
          val = foldl (\<lambda>val i. val OR (limb_at (limbs a) i AND eq_mask (of_nat i) (of_nat limb_idx)))
                  0 [0, 1, 2, 3]
      in drop_bit bit_idx val AND 1)"

definition ct_scalar_window :: "scalar \<Rightarrow> nat \<Rightarrow> nat \<Rightarrow> u64" where
  "ct_scalar_window a pos width =
     (let limb_idx = pos div 64;
          bit_idx = pos mod 64;
          msk = push_bit width 1 - 1
      in if bit_idx + width \<le> 64 then drop_bit bit_idx (limb_at (limbs a) limb_idx) AND msk
         else
           (let lo = drop_bit bit_idx (limb_at (limbs a) limb_idx);
                hi = (if limb_idx + 1 < 4 then limb_at (limbs a) (limb_idx + 1) else 0)
            in (lo OR push_bit (64 - bit_idx) hi) AND msk))"

section \<open>Agreement with the branching operations\<close>

lemma flag_ucast: "(ucast (if p then 0 else 1 :: byte) :: u64) = (if p then 0 else 1)"
  by simp

lemma from_limbs_make: "lval l < order_n \<Longrightarrow> scalar_from_limbs l = Scalar l"
  by (simp add: scalar_from_limbs_def order_overflow_val)

lemma scalar_ok_limbs: "scalar_ok a \<longleftrightarrow> lval (limbs a) < order_n"
  by (simp add: scalar_ok_def sval_def)

lemma ct_add_eq:
  assumes "scalar_ok a" "scalar_ok b"
  shows "ct_scalar_add a b = scalar_add a b"
proof -
  have "cmov256 r (fst (sub4 r ORDER)) (mask_of (order_n \<le> lval r) OR mask_of (c \<noteq> 0)) = add_impl (limbs a) (limbs b)"
    if "add4 (limbs a) (limbs b) = (r, c)" for r c
    using that by (auto simp: add_impl_def order_overflow_val)
  moreover have "ct_scalar_add a b = scalar_from_limbs (cmov256 (fst (add4 (limbs a) (limbs b)))
      (fst (sub4 (fst (add4 (limbs a) (limbs b))) ORDER))
      (mask_of (order_n \<le> lval (fst (add4 (limbs a) (limbs b)))) OR mask_of (snd (add4 (limbs a) (limbs b)) \<noteq> 0)))"
    by (simp add: ct_scalar_add_def add256_eq sub256_eq sub4_val(2) add4_val(2) lval_ORDER Let_def)
  ultimately have "ct_scalar_add a b = scalar_from_limbs (add_impl (limbs a) (limbs b))"
    by (metis prod.collapse)
  moreover have "lval (add_impl (limbs a) (limbs b)) < order_n"
    using assms lval_add_impl order_n_bounds(1) by (simp add: scalar_ok_limbs)
  ultimately show ?thesis by (simp add: from_limbs_make scalar_add_def scalar_make_def)
qed

lemma ct_sub_eq:
  assumes "scalar_ok a" "scalar_ok b"
  shows "ct_scalar_sub a b = scalar_sub a b"
proof -
  have "ct_scalar_sub a b = scalar_from_limbs (sub_impl (limbs a) (limbs b))"
    by (simp add: ct_scalar_sub_def add256_eq sub256_eq sub_impl_def sub4_val(2) case_prod_beta Let_def)
  moreover have "lval (sub_impl (limbs a) (limbs b)) < order_n"
    using assms lval_sub_impl order_n_bounds(1) by (simp add: scalar_ok_limbs)
  ultimately show ?thesis by (simp add: from_limbs_make scalar_sub_def scalar_make_def)
qed

lemma ct_is_zero_eq [simp]: "ct_scalar_is_zero a = mask_of (sval a = 0)"
  by (cases "limbs a") (simp add: ct_scalar_is_zero_def sval_def lval_eq_0 or_eq_0_iff del: lval.simps)

lemma ct_eq_eq [simp]: "ct_scalar_eq a b = mask_of (a = b)"
  by (cases a; cases b; cases "limbs a"; cases "limbs b")
    (auto simp: ct_scalar_eq_def or_eq_0_iff xor_0_iff)

lemma ct_neg_eq:
  assumes "scalar_ok a"
  shows "ct_scalar_neg a = scalar_negate a"
proof (cases "sval a = 0")
  case True
  then have "ct_scalar_neg a = scalar_from_limbs (Limbs4 0 0 0 0)" by (simp add: ct_scalar_neg_def Let_def)
  then have "sval (ct_scalar_neg a) = 0" by (simp add: val_simps)
  then show ?thesis using True assms by (simp add: sval_negate flip: sval_inj)
next
  case False
  then have p: "0 < sval a" using sval_nonneg [of a] by linarith
  have "ct_scalar_neg a = scalar_from_limbs (fst (sub4 ORDER (limbs a)))"
    using False by (simp add: ct_scalar_neg_def sub256_eq Let_def)
  moreover have "lval (fst (sub4 ORDER (limbs a))) = order_n - sval a"
    using assms by (simp add: sub4_val lval_ORDER scalar_ok_def sval_def)
  ultimately have "sval (ct_scalar_neg a) = (order_n - sval a) mod order_n" by (simp add: val_simps)
  then show ?thesis using assms by (simp add: sval_negate flip: sval_inj)
qed

lemma select256_eq [simp]: "select256 x y (mask_of p) = (if p then x else y)"
  by (cases x; cases y) simp

lemma from_limbs_id [simp]: "scalar_ok a \<Longrightarrow> scalar_from_limbs (limbs a) = a"
  by (cases a) (simp add: from_limbs_make scalar_ok_limbs)

lemma scalar_select_eq [simp]:
  "scalar_ok a \<Longrightarrow> scalar_ok b \<Longrightarrow> scalar_select a b (mask_of p) = (if p then a else b)"
  by (simp add: scalar_select_def)

lemma scalar_cmov_eq [simp]:
  "scalar_ok a \<Longrightarrow> scalar_ok r \<Longrightarrow> scalar_cmov r a (mask_of p) = (if p then a else r)"
  by (simp add: scalar_cmov_def)

lemma xor_swap: "a XOR (a XOR b) = (b :: u64)" "b XOR (a XOR b) = (a :: u64)"
  by (simp_all add: xor.left_commute flip: xor.assoc)

lemma cswap256_eq [simp]: "cswap256 x y (mask_of p) = (if p then (y, x) else (x, y))"
  by (cases x; cases y; cases p) (simp_all add: mask_of_def xor_swap)

lemma scalar_cswap_eq [simp]:
  "scalar_ok a \<Longrightarrow> scalar_ok b \<Longrightarrow> scalar_cswap a b (mask_of p) = (if p then (b, a) else (a, b))"
  by (simp add: scalar_cswap_def)

lemma scalar_cneg_eq [simp]:
  "scalar_ok a \<Longrightarrow> scalar_cneg a (mask_of p) = (if p then scalar_negate a else a)"
  by (simp add: scalar_cneg_def ct_neg_eq)

lemma lval_HALF_N: "lval HALF_N = order_n div 2"
  by (simp add: HALF_N_def order_n_def)

lemma ct_is_high_eq [simp]: "ct_scalar_is_high a = mask_of (order_n div 2 < sval a)"
proof -
  obtain r c where rc: "sub4 (limbs a) HALF_N = (r, c)" by (rule prod.exhaust)
  have c: "c = (if order_n div 2 \<le> sval a then 0 else 1)"
    and r: "lval r = (if order_n div 2 \<le> sval a then sval a - order_n div 2 else sval a - order_n div 2 + 2 ^ 256)"
    using sub4_val [of "limbs a" HALF_N] rc by (simp_all add: lval_HALF_N sval_def)
  have "limbs_or r = 0 \<longleftrightarrow> lval r = 0" by (cases r) (simp add: lval_eq_0 or_eq_0_iff del: lval.simps)
  then show ?thesis using c r by (auto simp: ct_scalar_is_high_def sub256_eq rc Let_def intro!: arg_cong [of _ _ mask_of])
qed

lemma ct_mul_eq: "ct_scalar_mul a b = scalar_mul a b"
proof -
  obtain p p4 where p: "reduce_385 (reduce_512 (mul_512 (limbs a) (limbs b))) = (p, p4)" "uint p4 \<le> 2"
    "(lval p + (2 ^ 256 - order_n) * uint p4) mod order_n = lval (limbs a) * lval (limbs b) mod order_n"
    by (rule reduce_385_mul)
  let ?V = "lval p + (2 ^ 256 - order_n) * uint p4"
  obtain r acc where f: "fold_258 p (ucast p4) = (r, acc)" by (rule prod.exhaust)
  note V = fold_258_bounds [OF f p(2)]
  have "uint acc = 0 \<or> uint acc = 1" using V(2) uint_ge_0 [of acc] by linarith
  then have acc: "acc = 0 \<or> acc = 1" by (simp add: word_uint_eq_iff)
  have c: "(ucast acc :: u64) = 0 \<longleftrightarrow> acc = 0" using acc by auto
  have red: "ct_reduce_258 (p, p4) =
      (if acc \<noteq> 0 \<or> order_n \<le> lval r then fst (sub4 r ORDER) else r)"
    by (simp add: ct_reduce_258_def f sub256_eq c sub4_val(2) lval_ORDER Let_def)
  have "lval (ct_reduce_258 (p, p4)) = ?V \<or> lval (ct_reduce_258 (p, p4)) = ?V - order_n"
    using acc
  proof
    assume "acc = 1"
    then have r: "lval r = ?V - 2 ^ 256" using V(1) by simp
    then have "lval r < order_n" using V(5) by linarith
    then have "lval (fst (sub4 r ORDER)) = lval r - order_n + 2 ^ 256" by (simp add: sub4_val lval_ORDER)
    then show ?thesis using \<open>acc = 1\<close> r by (simp add: red)
  next
    assume "acc = 0"
    then have "lval r = ?V" using V(1) by simp
    then show ?thesis using \<open>acc = 0\<close> by (simp add: red sub4_val lval_ORDER)
  qed
  then have "lval (ct_reduce_258 (p, p4)) mod order_n = ?V mod order_n" by auto
  then have "sval (ct_scalar_mul a b) = ?V mod order_n" by (simp add: ct_scalar_mul_def p(1) sval_from_limbs)
  then show ?thesis unfolding p(3) by (simp add: sval_mul sval_def [of a] sval_def [of b] flip: sval_inj)
qed

lemma ct_ok [simp]: "scalar_ok (ct_scalar_add a b)" "scalar_ok (ct_scalar_sub a b)"
  "scalar_ok (ct_scalar_mul a b)" "scalar_ok (ct_scalar_neg a)" "scalar_ok (scalar_select a b m)"
  by (simp_all add: ct_scalar_add_def ct_scalar_sub_def ct_scalar_mul_def ct_scalar_neg_def
      scalar_select_def case_prod_beta Let_def)

section \<open>Halving, bits and windows\<close>

lemma half_step_spec:
  assumes "half_step n o' a c = (t, c')" "o' = of_bool p" "uint c \<le> 1"
  shows "uint t + 2 ^ 64 * uint c' = uint a + of_bool p * uint n + uint c" and "uint c' \<le> 1"
proof -
  have m: "uint (n AND (0 - o')) = of_bool p * uint n" using assms(2) by (cases p) simp_all
  define s where "s = a + (n AND (0 - o'))"
  have r: "t = s + c" "c' = of_bool (s < a) + of_bool (s + c < s)"
    using assms(1) unfolding half_step_def Let_def s_def [symmetric] prod.inject by blast+
  have a: "(if S + C < 2 ^ 64 then S + C else S + C - 2 ^ 64) + 2 ^ 64 * (of_bool (S < A) + of_bool (T < S))
      = A + M + C" "of_bool (S < A) + of_bool (T < S) \<le> (1 :: int)"
    if "0 \<le> A" "A < 2 ^ 64" "0 \<le> M" "M < 2 ^ 64" "0 \<le> C" "C \<le> 1"
      "S = (if A + M < 2 ^ 64 then A + M else A + M - 2 ^ 64)"
      "T = (if S + C < 2 ^ 64 then S + C else S + C - 2 ^ 64)" for A M C S T :: int
    using that by auto
  note a = a [OF _ _ _ _ _ assms(3) uint_plus_64 uint_plus_64, of a "n AND (0 - o')", folded s_def, simplified]
  have c': "uint c' = of_bool (uint s < uint a) + of_bool (uint (s + c) < uint s)"
    using a(2) unfolding r word_less_def
    by (cases "uint s < uint a"; cases "uint (s + c) < uint s") simp_all
  show "uint c' \<le> 1" unfolding c' using a(2) .
  show "uint t + 2 ^ 64 * uint c' = uint a + of_bool p * uint n + uint c"
    unfolding c' m [symmetric] using a(1) by (simp add: r uint_plus_64)
qed

lemma push63: "push_bit 63 b = push_bit 63 (b AND 1 :: u64)"
  by (rule bit_eqI) (auto simp: bit_push_bit_iff bit_and_iff bit_1_iff simp del: push_bit_and)

lemma sval_half:
  assumes "scalar_ok a"
  shows "sval (ct_scalar_half a) = (sval a + of_bool (odd (sval a)) * order_n) div 2"
proof -
  obtain a0 a1 a2 a3 where l: "limbs a = Limbs4 a0 a1 a2 a3" by (cases "limbs a")
  define p where "p = odd (sval a)"
  obtain n0 n1 n2 n3 where n: "ORDER = Limbs4 n0 n1 n2 n3" by (cases ORDER)
  have od: "a0 AND 1 = of_bool p"
    using lval_mod_pow [of 1 "limbs a"] by (simp add: word_and_1_64 p_def sval_def l odd_iff_mod_2_eq_one)
  obtain t0 c0 where 0: "half_step n0 (a0 AND 1) a0 0 = (t0, c0)" by (rule prod.exhaust)
  obtain t1 c1 where 1: "half_step n1 (a0 AND 1) a1 c0 = (t1, c1)" by (rule prod.exhaust)
  obtain t2 c2 where 2: "half_step n2 (a0 AND 1) a2 c1 = (t2, c2)" by (rule prod.exhaust)
  obtain t3 c3 where 3: "half_step n3 (a0 AND 1) a3 c2 = (t3, c3)" by (rule prod.exhaust)
  note s0 = half_step_spec [OF 0 od, simplified]
  note s1 = half_step_spec [OF 1 od s0(2)]
  note s2 = half_step_spec [OF 2 od s1(2)]
  note s3 = half_step_spec [OF 3 od s2(2)]
  have n_val: "lval (Limbs4 n0 n1 n2 n3) = order_n" using n lval_ORDER by simp
  have t: "lval (Limbs4 t0 t1 t2 t3) + 2 ^ 256 * uint c3 = sval a + of_bool p * order_n"
    using s0(1) s1(1) s2(1) s3(1) unfolding n_val [symmetric] sval_def l
    by (cases p) simp_all
  have c3: "uint c3 mod 2 = uint c3" using s3(2) uint_ge_0 [of c3] by (intro mod_pos_pos_trivial) linarith+
  have "ct_scalar_half a = scalar_from_limbs
      (Limbs4 (drop_bit 1 t0 OR push_bit 63 (t1 AND 1)) (drop_bit 1 t1 OR push_bit 63 (t2 AND 1))
              (drop_bit 1 t2 OR push_bit 63 (t3 AND 1)) (drop_bit 1 t3 OR push_bit 63 (c3 AND 1)))"
    unfolding push63 [symmetric] by (simp add: ct_scalar_half_def l n 0 1 2 3)
  then have "sval (ct_scalar_half a) = ((sval a + of_bool p * order_n) div 2) mod order_n"
    by (simp only: sval_from_limbs lval_shr1_carry c3 t)
  moreover have "(sval a + of_bool p * order_n) div 2 < order_n"
    using assms order_n_bounds by (cases p) (auto simp: scalar_ok_def)
  moreover have "0 \<le> (sval a + of_bool p * order_n) div 2"
    using order_n_bounds(1) by (simp add: pos_imp_zdiv_nonneg_iff)
  ultimately show ?thesis unfolding p_def by simp
qed

lemma ct_half_double:
  assumes "scalar_ok a"
  shows "(2 * sval (ct_scalar_half a)) mod order_n = sval a"
proof -
  have "odd order_n" by (simp add: order_n_def)
  then have "2 * ((sval a + of_bool (odd (sval a)) * order_n) div 2) = sval a + of_bool (odd (sval a)) * order_n"
    by (intro dvd_mult_div_cancel) (cases "odd (sval a)"; simp)
  then show ?thesis using assms by (simp add: sval_half)
qed

lemma limb_scan:
  assumes "k < 4"
  shows "foldl (\<lambda>val i. val OR (limb_at l i AND eq_mask (of_nat i) (of_nat k))) 0 [0, 1, 2, 3] = limb_at l k"
proof -
  consider "k = 0" | "k = 1" | "k = 2" | "k = 3" using assms by linarith
  then show ?thesis by cases (cases l; simp add: mask_of_def)+
qed

lemma ct_scalar_bit_eq:
  assumes "i < 256"
  shows "ct_scalar_bit a i = of_bool (bit (sval a) i)"
proof -
  have "i div 64 < 4" using assms by simp
  then have "ct_scalar_bit a i = drop_bit (i mod 64) (limb_at (limbs a) (i div 64)) AND 1"
    by (simp only: ct_scalar_bit_def Let_def limb_scan)
  also have "\<dots> = of_bool (bit (limb_at (limbs a) (i div 64)) (i mod 64))"
    by (rule bit_eqI) (auto simp: bit_simps)
  finally show ?thesis using lval_bit [OF assms, of "limbs a"] by (simp add: sval_def)
qed

lemma bit_window_mask: "w \<le> 63 \<Longrightarrow> bit (2 ^ w - 1 :: u64) j \<longleftrightarrow> j < w"
  using bit_mask_iff [of w j, where 'a = "64 word"] by (auto simp: mask_eq_exp_minus_1)

lemma index_split:
  fixes pos j :: nat
  shows "pos mod 64 + j < 64 \<Longrightarrow> (pos + j) div 64 = pos div 64 \<and> (pos + j) mod 64 = pos mod 64 + j"
    and "64 \<le> pos mod 64 + j \<Longrightarrow> pos mod 64 + j < 128 \<Longrightarrow>
      (pos + j) div 64 = pos div 64 + 1 \<and> (pos + j) mod 64 = pos mod 64 + j - 64"
proof -
  have e: "pos + j = (pos mod 64 + j) + pos div 64 * 64" by simp
  show "(pos + j) div 64 = pos div 64 \<and> (pos + j) mod 64 = pos mod 64 + j" if "pos mod 64 + j < 64"
  proof -
    have "((pos mod 64 + j) + pos div 64 * 64) div 64 = pos div 64 + (pos mod 64 + j) div 64"
      by (rule div_mult_self1) simp
    moreover have "((pos mod 64 + j) + pos div 64 * 64) mod 64 = (pos mod 64 + j) mod 64"
      by (rule mod_mult_self1)
    ultimately show ?thesis unfolding e [symmetric] using that by simp
  qed
  assume a: "64 \<le> pos mod 64 + j" "pos mod 64 + j < 128"
  have "pos mod 64 + j = (pos mod 64 + j - 64) + 1 * 64" using a(1) by simp
  then have e: "pos + j = (pos mod 64 + j - 64) + (pos div 64 + 1) * 64" by simp
  show "(pos + j) div 64 = pos div 64 + 1 \<and> (pos + j) mod 64 = pos mod 64 + j - 64"
  proof -
    have "((pos mod 64 + j - 64) + (pos div 64 + 1) * 64) div 64 = pos div 64 + 1 + (pos mod 64 + j - 64) div 64"
      by (rule div_mult_self1) simp
    moreover have "((pos mod 64 + j - 64) + (pos div 64 + 1) * 64) mod 64 = (pos mod 64 + j - 64) mod 64"
      by (rule mod_mult_self1)
    moreover have "pos mod 64 + j - 64 < 64" using a by simp
    ultimately show ?thesis unfolding e [symmetric] by simp
  qed
qed

lemma ct_window_eq:
  assumes "pos < 256" "w \<le> 63"
  shows "uint (ct_scalar_window a pos w) = (sval a div 2 ^ pos) mod 2 ^ w"
proof -
  let ?l = "limbs a" and ?q = "pos div 64" and ?b = "pos mod 64"
  have q: "?q < 4" "?b < 64" "pos = 64 * ?q + ?b" using assms by simp_all
  have high: "\<not> bit (lval ?l) m" if "256 \<le> m" for m
  proof -
    have "take_bit 256 (lval ?l) = lval ?l" using lval_bound [of ?l] by (simp add: take_bit_int_eq_self)
    then show ?thesis using that by (metis bit_take_bit_iff not_less)
  qed
  have "bit (uint (ct_scalar_window a pos w)) j \<longleftrightarrow> j < w \<and> bit (lval ?l) (pos + j)" for j
  proof (cases "j < w")
    case jw: True
    show ?thesis
    proof (cases "?b + j < 64")
      case True
      then have "(pos + j) div 64 = ?q" "(pos + j) mod 64 = ?b + j" using index_split(1) by blast+
      moreover have "pos + j < 256" using True q by linarith
      ultimately show ?thesis
        using jw True assms(2) lval_bit [of "pos + j" ?l]
        by (auto simp: ct_scalar_window_def Let_def bit_simps bit_window_mask)
    next
      case False
      then have d: "(pos + j) div 64 = ?q + 1" "(pos + j) mod 64 = ?b + j - 64"
        using index_split(2) [of pos j] jw assms(2) q(2) by auto
      show ?thesis
      proof (cases "?q + 1 < 4")
        case True
        then have "pos + j < 256" using d(1) by simp
        then show ?thesis
          using jw False assms(2) lval_bit [of "pos + j" ?l] d True q
          by (auto simp: ct_scalar_window_def Let_def bit_simps bit_window_mask add.commute [of j]
              dest: bit_imp_le_length)
      next
        case f: False
        then have "256 \<le> pos + j" using d(1) by simp
        then show ?thesis
          using jw False assms(2) high [of "pos + j"] f q
          by (auto simp: ct_scalar_window_def Let_def bit_simps bit_window_mask dest: bit_imp_le_length)
      qed
    qed
  next
    case False
    then show ?thesis using assms(2) by (auto simp: ct_scalar_window_def Let_def bit_simps bit_window_mask)
  qed
  then have "uint (ct_scalar_window a pos w) = take_bit w (drop_bit pos (lval ?l))"
    by (intro bit_eqI) (simp add: bit_take_bit_iff bit_drop_bit_eq)
  then show ?thesis by (simp add: take_bit_eq_mod drop_bit_eq_div sval_def)
qed

section \<open>The inverse by addition chain\<close>

text \<open>
  \<open>scalar_inverse\<close> on platforms without 128-bit integers: the power \<open>n - 2\<close> by a fixed chain of
  squarings and multiplications, then a masked zero for the zero input.
\<close>

definition sqr :: "scalar \<Rightarrow> scalar" where
  "sqr s = scalar_mul s s"

fun sqr_n :: "scalar \<Rightarrow> nat \<Rightarrow> scalar" where
  "sqr_n s 0 = s"
| "sqr_n s (Suc k) = sqr_n (sqr s) k"

definition sqr_mul :: "scalar \<Rightarrow> nat \<times> scalar \<Rightarrow> scalar" where
  "sqr_mul t kx = scalar_mul (sqr_n t (fst kx)) (snd kx)"

definition inverse_chain :: "scalar \<Rightarrow> scalar" where
  "inverse_chain a =
     (let u2 = sqr a;
          x2 = scalar_mul u2 a;
          u5 = scalar_mul u2 x2;
          x3 = scalar_mul u5 u2;
          x6 = scalar_mul (sqr_n x3 3) x3;
          x8 = scalar_mul (sqr_n x6 2) x2;
          x14 = scalar_mul (sqr_n x8 6) x6;
          x28 = scalar_mul (sqr_n x14 14) x14;
          x56 = scalar_mul (sqr_n x28 28) x28;
          x112 = scalar_mul (sqr_n x56 56) x56;
          x126 = scalar_mul (sqr_n x112 14) x14;
          t = scalar_mul (sqr_n x126 3) u5
      in foldl sqr_mul t
           [(4, x3), (4, u5), (2, a), (4, x3), (3, x2), (4, x3), (5, x3), (4, x2), (4, u5),
            (4, x3), (3, u5), (3, a), (6, u5), (10, x3), (4, x3), (9, x8), (2, a), (3, a),
            (3, a), (4, x3), (3, u5), (5, x2), (4, x2), (2, a), (8, x2), (3, x2), (3, a),
            (6, a), (8, x6)])"

text \<open>
  The chain is compiled only in builds without 128-bit integers, whose \<open>operator*\<close> reduces with 32-bit words. That
  product is not modelled; here the chain runs on \<open>scalar_mul\<close>, the product of the other builds. What is proved of it is
  the exponent the chain spells out and the treatment of zero.
\<close>

definition ct_scalar_inverse :: "scalar \<Rightarrow> scalar" where
  "ct_scalar_inverse a =
     (let zero_msk = ct_scalar_is_zero a in scalar_select scalar_zero (inverse_chain a) zero_msk)"

definition is_pow :: "int \<Rightarrow> nat \<Rightarrow> scalar \<Rightarrow> bool" where
  "is_pow x e s \<longleftrightarrow> sval s = x ^ e mod order_n"

lemma is_pow_mul: "is_pow x e s \<Longrightarrow> is_pow x f t \<Longrightarrow> is_pow x (e + f) (scalar_mul s t)"
  by (simp add: is_pow_def sval_mul power_add mod_mult_eq)

lemma is_pow_sqr_n: "is_pow x e s \<Longrightarrow> is_pow x (e * 2 ^ k) (sqr_n s k)"
proof (induction k arbitrary: e s)
  case (Suc k)
  have "is_pow x (e + e) (sqr s)" unfolding sqr_def by (rule is_pow_mul [OF Suc.prems Suc.prems])
  moreover have "(e + e) * 2 ^ k = e * 2 ^ Suc k" by simp
  ultimately show ?case using Suc.IH by (metis sqr_n.simps(2))
qed simp

lemma is_pow_sqr_mul: "is_pow x e s \<Longrightarrow> is_pow x f t \<Longrightarrow> is_pow x (e * 2 ^ k + f) (sqr_mul s (k, t))"
  by (simp add: sqr_mul_def is_pow_mul is_pow_sqr_n)

lemma is_pow_step: "is_pow x e s \<Longrightarrow> is_pow x f t \<Longrightarrow> is_pow x (e * 2 ^ k + f) (scalar_mul (sqr_n s k) t)"
  by (simp add: is_pow_mul is_pow_sqr_n)

lemma is_pow_foldl:
  "is_pow x e s \<Longrightarrow> list_all2 (\<lambda>(k, f) (k', t). k = k' \<and> is_pow x f t) kfs kts \<Longrightarrow>
     is_pow x (foldl (\<lambda>e (k, f). e * 2 ^ k + f) e kfs) (foldl sqr_mul s kts)"
proof (induction kfs arbitrary: e s kts)
  case (Cons kf kfs)
  obtain k f where kf: "kf = (k, f)" by (rule prod.exhaust)
  obtain t kts' where kts: "kts = (k, t) # kts'" "is_pow x f t"
      "list_all2 (\<lambda>(k, f) (k', t). k = k' \<and> is_pow x f t) kfs kts'"
    using Cons.prems(2) by (auto simp: kf list_all2_Cons1)
  from Cons.IH [OF is_pow_sqr_mul [OF Cons.prems(1) kts(2), of k] kts(3)]
  show ?case by (simp add: kf kts(1))
qed simp

lemma inverse_chain_pow:
  assumes "scalar_ok a"
  shows "is_pow (sval a) (nat (order_n - 2)) (inverse_chain a)"
proof -
  let ?x = "sval a"
  have a: "is_pow ?x 1 a" using assms by (simp add: is_pow_def)
  define u2 where "u2 = sqr a"
  define x2 where "x2 = scalar_mul u2 a"
  define u5 where "u5 = scalar_mul u2 x2"
  define x3 where "x3 = scalar_mul u5 u2"
  define x6 where "x6 = scalar_mul (sqr_n x3 3) x3"
  define x8 where "x8 = scalar_mul (sqr_n x6 2) x2"
  define x14 where "x14 = scalar_mul (sqr_n x8 6) x6"
  define x28 where "x28 = scalar_mul (sqr_n x14 14) x14"
  define x56 where "x56 = scalar_mul (sqr_n x28 28) x28"
  define x112 where "x112 = scalar_mul (sqr_n x56 56) x56"
  define x126 where "x126 = scalar_mul (sqr_n x112 14) x14"
  define t where "t = scalar_mul (sqr_n x126 3) u5"
  have 2: "is_pow ?x 2 u2" using is_pow_mul [OF a a] by (simp add: u2_def sqr_def numeral_2_eq_2)
  have 3: "is_pow ?x 3 x2" using is_pow_mul [OF 2 a] by (simp add: x2_def)
  have 5: "is_pow ?x 5 u5" using is_pow_mul [OF 2 3] by (simp add: u5_def)
  have 7: "is_pow ?x 7 x3" using is_pow_mul [OF 5 2] by (simp add: x3_def)
  have x6: "is_pow ?x (2 ^ 6 - 1) x6" using is_pow_step [OF 7 7, of 3] by (simp add: x6_def)
  have x8: "is_pow ?x (2 ^ 8 - 1) x8" using is_pow_step [OF x6 3, of 2] by (simp add: x8_def)
  have x14: "is_pow ?x (2 ^ 14 - 1) x14" using is_pow_step [OF x8 x6, of 6] by (simp add: x14_def)
  have x28: "is_pow ?x (2 ^ 28 - 1) x28" using is_pow_step [OF x14 x14, of 14] by (simp add: x28_def)
  have x56: "is_pow ?x (2 ^ 56 - 1) x56" using is_pow_step [OF x28 x28, of 28] by (simp add: x56_def)
  have x112: "is_pow ?x (2 ^ 112 - 1) x112" using is_pow_step [OF x56 x56, of 56] by (simp add: x112_def)
  have x126: "is_pow ?x (2 ^ 126 - 1) x126" using is_pow_step [OF x112 x14, of 14] by (simp add: x126_def)
  have t: "is_pow ?x (2 ^ 129 - 3) t" using is_pow_step [OF x126 5, of 3] by (simp add: t_def)
  have "is_pow ?x (foldl (\<lambda>e (k, f). e * 2 ^ k + f) (2 ^ 129 - 3)
      [(4, 7), (4, 5), (2, 1), (4, 7), (3, 3), (4, 7), (5, 7), (4, 3), (4, 5),
       (4, 7), (3, 5), (3, 1), (6, 5), (10, 7), (4, 7), (9, 2 ^ 8 - 1), (2, 1), (3, 1),
       (3, 1), (4, 7), (3, 5), (5, 3), (4, 3), (2, 1), (8, 3), (3, 3), (3, 1), (6, 1), (8, 2 ^ 6 - 1)])
      (inverse_chain a)"
    unfolding inverse_chain_def Let_def u2_def [symmetric] x2_def [symmetric] u5_def [symmetric]
      x3_def [symmetric] x6_def [symmetric] x8_def [symmetric] x14_def [symmetric] x28_def [symmetric]
      x56_def [symmetric] x112_def [symmetric] x126_def [symmetric] t_def [symmetric]
    by (rule is_pow_foldl [OF t])
      (simp only: list_all2_Cons list_all2_Nil prod.case a 3 5 7 x6 x8 simp_thms)
  moreover have "foldl (\<lambda>e (k, f). e * 2 ^ k + f) (2 ^ 129 - 3)
      [(4, 7), (4, 5), (2, 1), (4, 7), (3, 3), (4, 7), (5, 7), (4, 3), (4, 5),
       (4, 7), (3, 5), (3, 1), (6, 5), (10, 7), (4, 7), (9, 2 ^ 8 - 1), (2, 1), (3, 1),
       (3, 1), (4, 7), (3, 5), (5, 3), (4, 3), (2, 1), (8, 3), (3, 3), (3, 1), (6, 1), (8, 2 ^ 6 - 1)]
     = nat (order_n - 2)"
    by (simp add: order_n_def)
  ultimately show ?thesis by simp
qed

lemma scalar_ok_inverse_chain [simp]: "scalar_ok (inverse_chain a)"
  by (simp add: inverse_chain_def Let_def sqr_mul_def)

section \<open>Properties\<close>

text \<open>C15: the constant-time scalar operations compute the same scalars as the branching ones, for all
  canonical operands and every mask that is all ones or all zeros; their masks say exactly what
  they are named after.\<close>

theorem ct_scalar_agrees:
  assumes "scalar_ok a" "scalar_ok b"
  shows "ct_scalar_add a b = scalar_add a b \<and> ct_scalar_sub a b = scalar_sub a b \<and>
    ct_scalar_mul a b = scalar_mul a b \<and> ct_scalar_neg a = scalar_negate a \<and>
    ct_scalar_eq a b = mask_of (a = b) \<and> ct_scalar_is_zero a = mask_of (scalar_is_zero a) \<and>
    scalar_select a b (mask_of p) = (if p then a else b) \<and>
    scalar_cswap a b (mask_of p) = (if p then (b, a) else (a, b)) \<and>
    scalar_cneg a (mask_of p) = (if p then scalar_negate a else a)"
  using assms by (simp add: ct_add_eq ct_sub_eq ct_mul_eq ct_neg_eq is_zero_iff)

theorem ct_scalar_agrees_witness:
  "ct_scalar_mul (scalar_from_uint64 3) scalar_one = scalar_mul (scalar_from_uint64 3) scalar_one \<and>
   ct_scalar_sub (scalar_from_uint64 3) scalar_one = scalar_sub (scalar_from_uint64 3) scalar_one"
  using ct_scalar_agrees [of "scalar_from_uint64 3" scalar_one True] by simp

text \<open>the comparison masks of ct/ops.hpp and the bitwise carry and borrow formulas are exact on every
  64-bit input.\<close>

theorem ct_masks_exact:
  "is_zero_mask v = mask_of (v = 0) \<and> lt_mask a b = mask_of (a < b) \<and> eq_mask a b = mask_of (a = b) \<and>
   uint (add_carry_u64 a b (a + b)) = (uint a + uint b) div 2 ^ 64 \<and>
   (sub_borrow_u64 a b (a - b) = 1) = (a < b)"
proof -
  have "(A + B) div 2 ^ 64 = of_bool (2 ^ 64 \<le> A + B)"
    if "0 \<le> A" "A < 2 ^ 64" "0 \<le> B" "B < 2 ^ 64" for A B :: int
    using that by (cases "2 ^ 64 \<le> A + B") (auto simp: div_pos_pos_trivial div_pos_geq)
  from this [of "uint a" "uint b"] have "(uint a + uint b) div 2 ^ 64 = of_bool (2 ^ 64 \<le> uint a + uint b)"
    by simp
  then show ?thesis by (simp add: add_carry_eq sub_borrow_eq uint_of_bool word_less_def)
qed

text \<open>\<open>scalar_bit\<close> reads the binary digit and \<open>scalar_window\<close> the digit window of the scalar at any
  position, a window that straddles two limbs or runs past the top included; \<open>scalar_half\<close> is the
  half modulo the group order.\<close>

theorem ct_scalar_digits:
  assumes "pos < 256" "w \<le> 63" "scalar_ok a"
  shows "uint (ct_scalar_window a pos w) = (sval a div 2 ^ pos) mod 2 ^ w \<and>
    ct_scalar_bit a pos = of_bool (bit (sval a) pos) \<and>
    (2 * sval (ct_scalar_half a)) mod order_n = sval a"
  using assms by (simp add: ct_window_eq ct_scalar_bit_eq ct_half_double)

theorem ct_scalar_digits_witness:
  "uint (ct_scalar_window (scalar_from_uint64 0xABCD) 4 8) = 0xBC"
  using ct_scalar_digits [of 4 8 "scalar_from_uint64 0xABCD"] by (simp add: sval_small)

text \<open>the addition chain of the portable inverse computes the power \<open>n - 2\<close>, so that the product with
  its argument is the power \<open>n - 1\<close>; zero is mapped to zero without a branch.\<close>

theorem ct_inverse_chain:
  assumes "scalar_ok a"
  shows "sval (ct_scalar_inverse a) = (if sval a = 0 then 0 else sval a ^ nat (order_n - 2) mod order_n) \<and>
    sval (scalar_mul a (ct_scalar_inverse a)) = (if sval a = 0 then 0 else sval a ^ nat (order_n - 1) mod order_n)"
proof -
  have "nat (order_n - 1) = Suc (nat (order_n - 2))" by (simp add: order_n_def)
  then show ?thesis
    using inverse_chain_pow [OF assms] assms
    by (simp add: ct_scalar_inverse_def is_pow_def sval_mul sval_small mod_mult_right_eq)
qed

theorem ct_inverse_chain_witness:
  "sval (ct_scalar_inverse scalar_one) = 1 \<and> sval (ct_scalar_inverse scalar_zero) = 0"
  using ct_inverse_chain [of scalar_one] ct_inverse_chain [of scalar_zero]
  by (simp add: sval_small order_n_def)

end
