(* ===== verification/Rfc6979.thy ===== *)
theory Rfc6979
  imports Hmac Ct_Scalar
begin

text \<open>
  Deterministic nonces (ecdsa.cpp): the midstate HMAC context with its three hand-padded message
  ranges, and the three nonce functions built on it (plain RFC 6979, hedged with auxiliary randomness,
  and the libsecp256k1-compatible keydata layout). The HMAC helpers are proved equal to
  \<open>hmac_sha256\<close> on the lengths they accept and to return zeros on the others; each nonce function is
  proved equal to the HMAC-DRBG of the RFC over that HMAC, with a result that is canonical or zero.
\<close>

section \<open>HMAC with cached pad midstates\<close>

record hmac_ctx =
  inner_mid :: "u32 list"
  outer_mid :: "u32 list"

definition init_key32 :: "bytes \<Rightarrow> hmac_ctx" where
  "init_key32 key =
     (let pad = map (\<lambda>b. b XOR 0x36) (take 32 key) @ replicate 32 0x36;
          inner = sha256_compress_dispatch SHA256_IV pad;
          pad = map (\<lambda>b. b XOR 0x5c) (take 32 key) @ replicate 32 0x5c;
          outer = sha256_compress_dispatch SHA256_IV pad
      in \<lparr>inner_mid = inner, outer_mid = outer\<rparr>)"

text \<open>The key argument is only asserted to be zero; the shared copy is what is used.\<close>

definition init_zero_key32 :: "bytes \<Rightarrow> hmac_ctx" where
  "init_zero_key32 key = init_key32 (replicate 32 0)"

definition write_be_len :: "bytes \<Rightarrow> u64 \<Rightarrow> bytes" where
  "write_be_len block bits = memcpy_at block 56 (store_be64 bits)"

text \<open>The tail shared by the three functions: pad \<open>rest\<close> in \<open>block\<close>, finish the inner and outer hash.\<close>

definition hmac_last_block :: "bytes \<Rightarrow> bytes \<Rightarrow> u64 \<Rightarrow> bytes" where
  "hmac_last_block block rest bits =
     (let rem = length rest;
          block = memcpy_at block 0 rest;
          block = block[rem := 0x80];
          block = memset_at block (rem + 1) 0 (55 - rem)
      in write_be_len block bits)"

definition hmac_outer :: "hmac_ctx \<Rightarrow> bytes \<Rightarrow> u32 list \<Rightarrow> bytes" where
  "hmac_outer ctx block st =
     (let ihash = words_be st;
          block = memcpy_at block 0 ihash;
          block = block[32 := 0x80];
          block = memset_at block 33 0 23;
          block = memcpy_at block 56 [0, 0, 0, 0];
          block = memcpy_at block 60 [0, 0, 0x03, 0x00]
      in words_be (sha256_compress_dispatch (outer_mid ctx) block))"

definition compute_short :: "hmac_ctx \<Rightarrow> bytes \<Rightarrow> bytes" where
  "compute_short ctx msg =
     (let msg_len = length msg
      in if msg_len > 55 then replicate 32 0
         else
           (let block = hmac_last_block (replicate 64 0) msg (of_nat (64 + msg_len) * 8);
                st = sha256_compress_dispatch (inner_mid ctx) block
            in hmac_outer ctx block st))"

definition compute_two_block :: "hmac_ctx \<Rightarrow> bytes \<Rightarrow> bytes" where
  "compute_two_block ctx msg =
     (let msg_len = length msg
      in if msg_len \<le> 64 \<or> msg_len > 119 then replicate 32 0
         else
           (let st = sha256_compress_dispatch (inner_mid ctx) (take 64 msg);
                block = hmac_last_block (replicate 64 0) (drop 64 msg) (of_nat (64 + msg_len) * 8);
                st = sha256_compress_dispatch st block
            in hmac_outer ctx block st))"

definition compute_three_block :: "hmac_ctx \<Rightarrow> bytes \<Rightarrow> bytes" where
  "compute_three_block ctx msg =
     (let msg_len = length msg
      in if msg_len < 128 \<or> msg_len > 183 then replicate 32 0
         else
           (let st = sha256_compress_dispatch (inner_mid ctx) (take 64 msg);
                st = sha256_compress_dispatch st (take 64 (drop 64 msg));
                block = hmac_last_block (replicate 64 0) (drop 128 msg) (of_nat (64 + msg_len) * 8);
                st = sha256_compress_dispatch st block
            in hmac_outer ctx block st))"

section \<open>The HMAC helpers compute HMAC\<close>

lemma hmac_last_block_eq:
  assumes "length block = 64" "length r \<le> 55"
  shows "hmac_last_block block r bits = r @ [0x80] @ replicate (55 - length r) 0 @ store_be64 bits"
  using assms last_block_layout [of block 64 r 56 "store_be64 bits" "0x80"]
  by (simp add: hmac_last_block_def write_be_len_def)

text \<open>The digest of a prefix of whole blocks, already absorbed into \<open>st\<close>, and a short rest.\<close>

lemma spec_from_mid:
  assumes "absorb_blocks 64 sha256_compress SHA256_IV pre = (st, [])" "length r \<le> 55"
  shows "sha256_spec (pre @ r) = words_be (sha256_compress st
    (r @ [0x80] @ replicate (55 - length r) 0 @ store_be64 (of_nat (length pre + length r) * 8)))"
proof -
  have "length pre mod 64 = 0" using sha256.absorb_rest [OF assms(1)] by simp
  then have m: "length (pre @ r) mod 64 = length r"
    using assms(2) mod_add_left_eq [of "length pre" 64 "length r"] by simp
  have z: "(56 + 64 - (length (pre @ r) + 1) mod 64) mod 64 = 55 - length r"
    using pad_zeros [OF _ _ m [symmetric], of 56] assms(2) by simp
  have "md_pad 64 56 store_be64 (pre @ r) = pre @ (r @ [0x80] @ replicate (55 - length r) 0 @
      store_be64 (of_nat (length pre + length r) * 8))"
    unfolding md_pad_def z by simp
  then show ?thesis
    using assms(2) by (simp add: sha256_spec_def md_blocks_def sha256.absorb_append [OF assms(1)])
qed

lemma hmac_outer_eq:
  assumes "length block = 64" "length st = 8"
    and "absorb_blocks 64 sha256_compress SHA256_IV opad = (outer_mid ctx, [])" "length opad = 64"
  shows "hmac_outer ctx block st = sha256_spec (opad @ words_be st)"
proof -
  have l: "length (words_be st) = 32" using assms(2) by (simp add: length_words_be)
  have "memcpy_at (memcpy_at (memset_at ((memcpy_at block 0 (words_be st))[32 := 0x80]) 33 0 23) 56 [0, 0, 0, 0])
      60 [0, 0, 3, 0] = words_be st @ [0x80] @ replicate 23 0 @ [0, 0, 0, 0, 0, 0, 3, 0]"
    using assms(1) l last_block_layout [of block 64 "words_be st" 56 "[0, 0, 0, 0, 0, 0, 3, 0]" "0x80"]
      memcpy_at_seq [of 56 "[0, 0, 0, 0]" "memset_at ((memcpy_at block 0 (words_be st))[32 := 0x80]) 33 0 23"
        "[0, 0, 3, 0]"]
    by (simp add: length_memset_at length_memcpy_at)
  moreover have "store_be64 768 = [0, 0, 0, 0, 0, 0, 3, 0]" by (simp add: store_be64_def)
  ultimately show ?thesis
    using spec_from_mid [OF assms(3), of "words_be st"] l assms(4)
    by (simp add: hmac_outer_def Let_def dispatch_eq)
qed

lemma init_mids:
  assumes key: "length key = 32"
  shows
  "absorb_blocks 64 sha256_compress SHA256_IV (hmac_pad 64 sha256_spec 0x36 key) = (inner_mid (init_key32 key), [])"
  "absorb_blocks 64 sha256_compress SHA256_IV (hmac_pad 64 sha256_spec 0x5C key) = (outer_mid (init_key32 key), [])"
  using key by (simp_all add: hmac_pad_32 init_key32_def dispatch_eq Let_def)

lemma pads_length: "length key = 32 \<Longrightarrow> length (hmac_pad 64 sha256_spec v key) = 64"  by (simp add: hmac_pad_32)

lemma hmac_tail:
  assumes key: "length key = 32"
    and "absorb_blocks 64 sha256_compress SHA256_IV (hmac_pad 64 sha256_spec 0x36 key @ m) = (st, [])"
    and "length r \<le> 55"
  shows "hmac_outer (init_key32 key) (hmac_last_block (replicate 64 0) r (of_nat (64 + length (m @ r)) * 8))
      (sha256_compress st (hmac_last_block (replicate 64 0) r (of_nat (64 + length (m @ r)) * 8)))
    = hmac_spec key (m @ r)"
proof -
  let ?b = "hmac_last_block (replicate 64 0) r (of_nat (64 + length (m @ r)) * 8)"
  have b: "?b = r @ [0x80] @ replicate (55 - length r) 0 @ store_be64 (of_nat (64 + length (m @ r)) * 8)"
    by (rule hmac_last_block_eq) (use assms(3) in simp_all)
  have lb: "length ?b = 64" unfolding b using assms(3) by simp
  have "words_be (sha256_compress st ?b) = sha256_spec (hmac_pad 64 sha256_spec 0x36 key @ m @ r)"
    using spec_from_mid [OF assms(2,3)] unfolding b by (simp add: pads_length [OF key] add.assoc)
  then show ?thesis
    using hmac_outer_eq [OF lb length_sha256_compress init_mids(2) [OF key] pads_length [OF key]] by (simp add: hmac_spec_def)
qed

lemma compute_short_eq: "length key = 32 \<Longrightarrow> length msg \<le> 55 \<Longrightarrow> compute_short (init_key32 key) msg = hmac_spec key msg"
  using hmac_tail [of key "[]" "inner_mid (init_key32 key)" msg] init_mids(1) [of key]
  by (simp add: compute_short_def Let_def dispatch_eq)

lemma compute_two_block_eq:
  assumes key: "length key = 32" and "64 < length msg" "length msg \<le> 119"
  shows "compute_two_block (init_key32 key) msg = hmac_spec key msg"
proof -
  have "absorb_blocks 64 sha256_compress SHA256_IV (hmac_pad 64 sha256_spec 0x36 key @ take 64 msg)
      = (sha256_compress (inner_mid (init_key32 key)) (take 64 msg), [])"
    using assms sha256.absorb_append [OF init_mids(1) [OF key], of "take 64 msg"] by simp
  from hmac_tail [OF key this, of "drop 64 msg"] show ?thesis
    using assms by (simp add: compute_two_block_def Let_def dispatch_eq)
qed

lemma compute_three_block_eq:
  assumes key: "length key = 32" and "128 \<le> length msg" "length msg \<le> 183"
  shows "compute_three_block (init_key32 key) msg = hmac_spec key msg"
proof -
  have "absorb_blocks 64 sha256_compress SHA256_IV
        (hmac_pad 64 sha256_spec 0x36 key @ (take 64 msg @ take 64 (drop 64 msg)))
      = (sha256_compress (sha256_compress (inner_mid (init_key32 key)) (take 64 msg)) (take 64 (drop 64 msg)), [])"
    using assms sha256.absorb_append [OF init_mids(1) [OF key], of "take 64 msg @ take 64 (drop 64 msg)"] by simp
  from hmac_tail [OF key this, of "drop 128 msg"]
  have "hmac_outer (init_key32 key) (hmac_last_block (replicate 64 0) (drop 128 msg) (of_nat (64 + length msg) * 8))
      (sha256_compress (sha256_compress (sha256_compress (inner_mid (init_key32 key)) (take 64 msg))
          (take 64 (drop 64 msg)))
        (hmac_last_block (replicate 64 0) (drop 128 msg) (of_nat (64 + length msg) * 8)))
      = hmac_spec key ((take 64 msg @ take 64 (drop 64 msg)) @ drop 128 msg)"
    using assms by simp
  moreover have "(take 64 msg @ take 64 (drop 64 msg)) @ drop 128 msg = msg"
    using append_take_drop_id [of 64 msg] append_take_drop_id [of 64 "drop 64 msg"] by simp
  ultimately show ?thesis using assms by (simp add: compute_three_block_def Let_def dispatch_eq)
qed

section \<open>The nonce functions\<close>

text \<open>
  Step h, the same in all three functions: two candidates are always generated, and a mask built from
  the first parse selects. \<open>V\<close> is overwritten in place, the scalars start as zero.
\<close>

definition nonce_candidates :: "hmac_ctx \<Rightarrow> bytes \<Rightarrow> scalar" where
  "nonce_candidates hmac V =
     (let V = compute_short hmac V;
          (ok1, cand1) = parse_bytes_strict_nonzero V scalar_zero;
          buf33 = memcpy_at (replicate 33 0) 0 V;
          buf33 = buf33[32 := 0x00];
          K = compute_short hmac buf33;
          hmac = init_key32 K;
          V = compute_short hmac V;
          V = compute_short hmac V;
          (ok2, cand2) = parse_bytes_strict_nonzero V scalar_zero;
          mask1 = - of_bool ok1 :: u64
      in scalar_select cand1 cand2 mask1)"

definition fill_buf97 :: "bytes \<Rightarrow> bytes \<Rightarrow> byte \<Rightarrow> bytes \<Rightarrow> bytes \<Rightarrow> bytes" where
  "fill_buf97 buf V sep x_bytes msg_hash =
     (let buf = memcpy_at buf 0 V;
          buf = buf[32 := sep];
          buf = memcpy_at buf 33 x_bytes
      in memcpy_at buf 65 msg_hash)"

definition rfc6979_nonce :: "scalar \<Rightarrow> bytes \<Rightarrow> scalar" where
  "rfc6979_nonce private_key msg_hash =
     (let x_bytes = scalar_to_bytes private_key;
          V = replicate 32 0x01;
          K = replicate 32 0x00;
          hmac = init_zero_key32 K;
          buf97 = fill_buf97 (replicate 97 0) V 0x00 x_bytes msg_hash;
          K = compute_two_block hmac buf97;
          hmac = init_key32 K;
          V = compute_short hmac V;
          buf97 = fill_buf97 buf97 V 0x01 x_bytes msg_hash;
          K = compute_two_block hmac buf97;
          hmac = init_key32 K;
          V = compute_short hmac V
      in nonce_candidates hmac V)"

definition rfc6979_nonce_hedged :: "scalar \<Rightarrow> bytes \<Rightarrow> bytes \<Rightarrow> scalar" where
  "rfc6979_nonce_hedged private_key msg_hash aux_rand =
     (let x_bytes = scalar_to_bytes private_key;
          V = replicate 32 0x01;
          K = replicate 32 0x00;
          hmac = init_zero_key32 K;
          buf129 = memcpy_at (fill_buf97 (replicate 129 0) V 0x00 x_bytes msg_hash) 97 aux_rand;
          K = compute_three_block hmac buf129;
          hmac = init_key32 K;
          V = compute_short hmac V;
          buf129 = memcpy_at (fill_buf97 buf129 V 0x01 x_bytes msg_hash) 97 aux_rand;
          K = compute_three_block hmac buf129;
          hmac = init_key32 K;
          V = compute_short hmac V
      in nonce_candidates hmac V)"

text \<open>The compatible layout: \<open>ndata32\<close> and \<open>algo16\<close> are nullable pointers.\<close>

definition kAlgo16Ecdsa :: bytes where
  "kAlgo16Ecdsa = [0x45, 0x43, 0x44, 0x53, 0x41, 0, 0, 0, 0, 0, 0, 0, 0, 0, 0, 0]"

definition fill_buf145 ::
  "bytes \<Rightarrow> bytes \<Rightarrow> byte \<Rightarrow> bytes \<Rightarrow> bytes \<Rightarrow> bytes option \<Rightarrow> bytes \<Rightarrow> bytes" where
  "fill_buf145 buf V sep x_bytes msg_hash ndata32 tag16 =
     (let buf = fill_buf97 buf V sep x_bytes msg_hash
      in case ndata32 of
           None \<Rightarrow> memcpy_at buf 97 tag16
         | Some nd \<Rightarrow> memcpy_at (memcpy_at buf 97 nd) (97 + 32) tag16)"

definition rfc6979_nonce_libsecp_compat ::
  "scalar \<Rightarrow> bytes \<Rightarrow> bytes option \<Rightarrow> bytes option \<Rightarrow> scalar" where
  "rfc6979_nonce_libsecp_compat private_key msg_hash ndata32 algo16 =
     (let tag16 = (case algo16 of Some t \<Rightarrow> t | None \<Rightarrow> kAlgo16Ecdsa);
          x_bytes = scalar_to_bytes private_key;
          V = replicate 32 0x01;
          K = replicate 32 0x00;
          kdata_len = 64 + (if ndata32 \<noteq> None then 32 else 0) + 16;
          msg_len = 33 + kdata_len;
          hmac = init_zero_key32 K;
          buf = fill_buf145 (replicate 145 0) V 0x00 x_bytes msg_hash ndata32 tag16;
          K = (if ndata32 \<noteq> None then compute_three_block hmac (take msg_len buf)
               else compute_two_block hmac (take msg_len buf));
          hmac = init_key32 K;
          V = compute_short hmac V;
          buf = fill_buf145 buf V 0x01 x_bytes msg_hash ndata32 tag16;
          K = (if ndata32 \<noteq> None then compute_three_block hmac (take msg_len buf)
               else compute_two_block hmac (take msg_len buf));
          hmac = init_key32 K;
          V = compute_short hmac V
      in nonce_candidates hmac V)"

section \<open>The reference generator\<close>

text \<open>RFC 6979 steps b to h over any key data, with at most two candidates and zero when both fail.\<close>

definition drbg_candidate :: "bytes \<Rightarrow> bool" where
  "drbg_candidate T \<longleftrightarrow> 0 < be_val T \<and> be_val T < order_n"

definition drbg_spec :: "bytes \<Rightarrow> int" where
  "drbg_spec keydata =
     (let V0 = replicate 32 1;
          K1 = hmac_spec (replicate 32 0) (V0 @ [0] @ keydata);
          V1 = hmac_spec K1 V0;
          K2 = hmac_spec K1 (V1 @ [1] @ keydata);
          V2 = hmac_spec K2 V1;
          T1 = hmac_spec K2 V2;
          K3 = hmac_spec K2 (T1 @ [0]);
          T2 = hmac_spec K3 (hmac_spec K3 T1)
      in if drbg_candidate T1 then be_val T1 else if drbg_candidate T2 then be_val T2 else 0)"

lemma parse_nonzero_pair:
  assumes "length T = 32"
  shows "parse_bytes_strict_nonzero T scalar_zero = (drbg_candidate T, snd (parse_bytes_strict_nonzero T scalar_zero))"
    and "sval (snd (parse_bytes_strict_nonzero T scalar_zero)) = (if drbg_candidate T then be_val T else 0)"
    and "scalar_ok (snd (parse_bytes_strict_nonzero T scalar_zero))"
  using assms parse_bytes_strict_nonzero_ok [OF assms, of scalar_zero] be_val_nonneg [of T] order_n_bounds(1)
  by (auto simp: parse_bytes_strict_nonzero_iff drbg_candidate_def sval_load sval_small scalar_ok_def prod_eq_iff
      simp del: be_val_nonneg)

lemma fill_buf97_eq:
  assumes "length V = 32" "length x = 32" "length h = 32" "97 \<le> length buf"
  shows "fill_buf97 buf V sep x h = V @ [sep] @ x @ h @ drop 97 buf"
  using assms by (simp add: fill_buf97_def memcpy_at_def list_update_append upd_conv_take_nth_drop)

lemma nonce_candidates_eq:
  assumes "length K = 32" "length V = 32"
  shows "sval (nonce_candidates (init_key32 K) V) =
      (let T1 = hmac_spec K V; K3 = hmac_spec K (T1 @ [0]); T2 = hmac_spec K3 (hmac_spec K3 T1)
       in if drbg_candidate T1 then be_val T1 else if drbg_candidate T2 then be_val T2 else 0)"
    and "scalar_ok (nonce_candidates (init_key32 K) V)"
proof -
  define T1 where "T1 = hmac_spec K V"
  define K3 where "K3 = hmac_spec K (T1 @ [0])"
  define T2 where "T2 = hmac_spec K3 (hmac_spec K3 T1)"
  have l: "length T1 = 32" "length K3 = 32" "length T2 = 32" by (simp_all add: T1_def K3_def T2_def)
  have b33: "(memcpy_at (replicate 33 0) 0 T1)[32 := 0] = T1 @ [0]"
    using l by (simp add: memcpy_at_def list_update_append)
  have c: "compute_short (init_key32 K) V = T1" "compute_short (init_key32 K) (T1 @ [0]) = K3"
      "compute_short (init_key32 K3) (compute_short (init_key32 K3) T1) = T2"
    using assms l by (simp_all add: compute_short_eq T1_def K3_def T2_def)
  have m: "- of_bool p = mask_of p" for p by (simp add: mask_of_def)
  have r: "nonce_candidates (init_key32 K) V =
      (if drbg_candidate T1 then snd (parse_bytes_strict_nonzero T1 scalar_zero)
       else snd (parse_bytes_strict_nonzero T2 scalar_zero))"
    unfolding nonce_candidates_def Let_def c b33
    by (subst (1 2) parse_nonzero_pair(1)) (simp_all add: l m parse_nonzero_pair(3))
  show "scalar_ok (nonce_candidates (init_key32 K) V)" unfolding r by (simp add: parse_nonzero_pair(3) l)
  show "sval (nonce_candidates (init_key32 K) V) =
      (let T1 = hmac_spec K V; K3 = hmac_spec K (T1 @ [0]); T2 = hmac_spec K3 (hmac_spec K3 T1)
       in if drbg_candidate T1 then be_val T1 else if drbg_candidate T2 then be_val T2 else 0)"
    unfolding r Let_def T1_def [symmetric] K3_def [symmetric] T2_def [symmetric]
    by (simp add: parse_nonzero_pair(2) l)
qed

text \<open>The steps c to g common to the three functions, over an arbitrary HMAC of the key data.\<close>

lemma drbg_steps:
  assumes "length x = 32"
    and K1: "K1 = hmac_spec (replicate 32 0) (replicate 32 1 @ [0] @ kd)"
    and V1: "V1 = compute_short (init_key32 K1) (replicate 32 1)"
    and K2: "K2 = hmac_spec K1 (V1 @ [1] @ kd)"
    and V2: "V2 = compute_short (init_key32 K2) V1"
  shows "sval (nonce_candidates (init_key32 K2) V2) = drbg_spec kd"
    and "scalar_ok (nonce_candidates (init_key32 K2) V2)"
proof -
  have l: "length K1 = 32" "length K2 = 32" unfolding K1 K2 by simp_all
  have v1: "V1 = hmac_spec K1 (replicate 32 1)" unfolding V1 using l by (simp add: compute_short_eq)
  then have "length V1 = 32" by simp
  then have v2: "V2 = hmac_spec K2 V1" unfolding V2 using l by (simp add: compute_short_eq)
  then have "length V2 = 32" by simp
  note c = nonce_candidates_eq [OF l(2) this]
  show "scalar_ok (nonce_candidates (init_key32 K2) V2)" by (rule c(2))
  show "sval (nonce_candidates (init_key32 K2) V2) = drbg_spec kd"
    unfolding c(1) drbg_spec_def Let_def by (simp add: v2 v1 K2 K1)
qed

lemma length_compute_short [simp]: "length (compute_short h m) = 32"
  by (simp add: compute_short_def hmac_outer_def length_words_be dispatch_eq Let_def)

lemma zero_key: "init_zero_key32 k = init_key32 (replicate 32 0)"
  by (simp add: init_zero_key32_def)

lemma rfc6979_nonce_spec:
  assumes "length h = 32"
  shows "sval (rfc6979_nonce d h) = drbg_spec (scalar_to_bytes d @ h) \<and> scalar_ok (rfc6979_nonce d h)"
proof -
  let ?x = "scalar_to_bytes d"
  define K1 where "K1 = hmac_spec (replicate 32 0) (replicate 32 1 @ [0] @ ?x @ h)"
  define V1 where "V1 = compute_short (init_key32 K1) (replicate 32 1)"
  define K2 where "K2 = hmac_spec K1 (V1 @ [1] @ ?x @ h)"
  define V2 where "V2 = compute_short (init_key32 K2) V1"
  have 1: "compute_two_block (init_zero_key32 (replicate 32 0)) (fill_buf97 (replicate 97 0) (replicate 32 1) 0 ?x h) = K1"
    using assms by (simp add: fill_buf97_eq zero_key compute_two_block_eq K1_def)
  have lV1: "length V1 = 32" by (simp add: V1_def)
  have lK1: "length K1 = 32" by (simp add: K1_def)
  have 2: "compute_two_block (init_key32 K1)
      (fill_buf97 (fill_buf97 (replicate 97 0) (replicate 32 1) 0 ?x h) V1 1 ?x h) = K2"
    using assms lV1 lK1 by (simp add: fill_buf97_eq compute_two_block_eq K2_def)
  have "rfc6979_nonce d h = nonce_candidates (init_key32 K2) V2"
    unfolding rfc6979_nonce_def Let_def 1 V1_def [symmetric] 2 V2_def [symmetric] ..
  then show ?thesis
    using drbg_steps [OF length_scalar_to_bytes K1_def V1_def K2_def V2_def] by simp
qed

lemma rfc6979_nonce_hedged_spec:
  assumes "length h = 32" "length aux = 32"
  shows "sval (rfc6979_nonce_hedged d h aux) = drbg_spec (scalar_to_bytes d @ h @ aux) \<and>
    scalar_ok (rfc6979_nonce_hedged d h aux)"
proof -
  let ?x = "scalar_to_bytes d"
  let ?b1 = "memcpy_at (fill_buf97 (replicate 129 0) (replicate 32 1) 0 ?x h) 97 aux"
  define K1 where "K1 = hmac_spec (replicate 32 0) (replicate 32 1 @ [0] @ ?x @ h @ aux)"
  define V1 where "V1 = compute_short (init_key32 K1) (replicate 32 1)"
  define K2 where "K2 = hmac_spec K1 (V1 @ [1] @ ?x @ h @ aux)"
  define V2 where "V2 = compute_short (init_key32 K2) V1"
  have b1: "?b1 = replicate 32 1 @ [0] @ ?x @ h @ aux"
    using assms by (simp add: fill_buf97_eq memcpy_at_def)
  have 1: "compute_three_block (init_zero_key32 (replicate 32 0)) ?b1 = K1"
    unfolding b1 using assms by (simp add: zero_key compute_three_block_eq K1_def)
  have lV1: "length V1 = 32" by (simp add: V1_def)
  have lK1: "length K1 = 32" by (simp add: K1_def)
  have b2: "memcpy_at (fill_buf97 ?b1 V1 1 ?x h) 97 aux = V1 @ [1] @ ?x @ h @ aux"
    unfolding b1 using assms lV1 by (simp add: fill_buf97_eq memcpy_at_def)
  have 2: "compute_three_block (init_key32 K1) (memcpy_at (fill_buf97 ?b1 V1 1 ?x h) 97 aux) = K2"
    unfolding b2 using assms lV1 lK1 by (simp add: compute_three_block_eq K2_def)
  have "rfc6979_nonce_hedged d h aux = nonce_candidates (init_key32 K2) V2"
    unfolding rfc6979_nonce_hedged_def Let_def 1 V1_def [symmetric] 2 V2_def [symmetric] ..
  then show ?thesis
    using drbg_steps [OF length_scalar_to_bytes K1_def V1_def K2_def V2_def] by simp
qed

definition compat_keydata :: "scalar \<Rightarrow> bytes \<Rightarrow> bytes option \<Rightarrow> bytes option \<Rightarrow> bytes" where
  "compat_keydata d h nd algo =
     scalar_to_bytes d @ h @ (case nd of None \<Rightarrow> [] | Some n \<Rightarrow> n)
       @ (case algo of None \<Rightarrow> kAlgo16Ecdsa | Some t \<Rightarrow> t)"

lemma rfc6979_nonce_compat_spec:
  assumes "length h = 32" "\<And>n. nd = Some n \<Longrightarrow> length n = 32" "\<And>t. algo = Some t \<Longrightarrow> length t = 16"
  shows "sval (rfc6979_nonce_libsecp_compat d h nd algo) = drbg_spec (compat_keydata d h nd algo) \<and>
    scalar_ok (rfc6979_nonce_libsecp_compat d h nd algo)"
proof -
  let ?x = "scalar_to_bytes d" and ?kd = "compat_keydata d h nd algo"
  define tag where "tag = (case algo of Some t \<Rightarrow> t | None \<Rightarrow> kAlgo16Ecdsa)"
  define n where "n = 33 + (64 + (if nd \<noteq> None then 32 else 0) + 16 :: nat)"
  define hm where "hm ctx buf = (if nd \<noteq> None then compute_three_block ctx (take n buf)
      else compute_two_block ctx (take n buf))" for ctx buf
  have tag: "length tag = 16" using assms(3) by (auto simp: tag_def kAlgo16Ecdsa_def split: option.split)
  have fill: "take n (fill_buf145 buf V s ?x h nd tag) = V @ [s] @ ?kd \<and>
      length (fill_buf145 buf V s ?x h nd tag) = 145"
    if "length V = 32" "length buf = 145" for buf V s
    using that assms tag
    by (cases nd; cases algo) (simp_all add: fill_buf145_def fill_buf97_eq memcpy_at_def n_def compat_keydata_def
        tag_def kAlgo16Ecdsa_def)
  have lkd: "length ?kd = (if nd \<noteq> None then 112 else 80)"
    using assms tag by (cases nd; cases algo) (simp_all add: compat_keydata_def kAlgo16Ecdsa_def)
  have hm: "hm (init_key32 K) (fill_buf145 buf V s ?x h nd tag) = hmac_spec K (V @ [s] @ ?kd)"
    if "length K = 32" "length V = 32" "length buf = 145" for K V s buf
    using that fill [OF that(2,3), of s] lkd
    by (cases nd) (simp_all add: hm_def compute_three_block_eq compute_two_block_eq)
  define b1 where "b1 = fill_buf145 (replicate 145 0) (replicate 32 1) 0 ?x h nd tag"
  define K1 where "K1 = hmac_spec (replicate 32 0) (replicate 32 1 @ [0] @ ?kd)"
  define V1 where "V1 = compute_short (init_key32 K1) (replicate 32 1)"
  define K2 where "K2 = hmac_spec K1 (V1 @ [1] @ ?kd)"
  define V2 where "V2 = compute_short (init_key32 K2) V1"
  have 1: "hm (init_zero_key32 (replicate 32 0)) b1 = K1"
    unfolding zero_key b1_def K1_def by (rule hm) simp_all
  have "length b1 = 145" using fill [of "replicate 32 1" "replicate 145 0" 0] by (simp add: b1_def)
  then have 2: "hm (init_key32 K1) (fill_buf145 b1 V1 1 ?x h nd tag) = K2"
    unfolding K2_def by (intro hm) (simp_all add: K1_def V1_def)
  have "rfc6979_nonce_libsecp_compat d h nd algo = nonce_candidates (init_key32 K2) V2"
    unfolding rfc6979_nonce_libsecp_compat_def Let_def tag_def [symmetric] n_def [symmetric]
      hm_def [symmetric] b1_def [symmetric] 1 V1_def [symmetric] 2 V2_def [symmetric] ..
  then show ?thesis
    using drbg_steps [OF length_scalar_to_bytes K1_def V1_def K2_def V2_def] by simp
qed

lemma drbg_spec_range: "0 \<le> drbg_spec kd \<and> drbg_spec kd < order_n"
  using order_n_bounds(1) by (simp add: drbg_spec_def Let_def drbg_candidate_def)

section \<open>Properties\<close>

text \<open>the midstate HMAC helpers equal \<open>hmac_sha256\<close> for every 32-byte key on the message lengths they
  support (0-55, 65-119 and 128-183), and return 32 zero bytes on every other length: no message is
  hashed wrongly and no length makes the padding size wrap.\<close>

theorem hmac_helpers_correct:
  assumes "length key = 32"
  shows "compute_short (init_key32 key) m = (if length m \<le> 55 then hmac_sha256 key m else replicate 32 0) \<and>
    compute_two_block (init_key32 key) m =
      (if 64 < length m \<and> length m \<le> 119 then hmac_sha256 key m else replicate 32 0) \<and>
    compute_three_block (init_key32 key) m =
      (if 128 \<le> length m \<and> length m \<le> 183 then hmac_sha256 key m else replicate 32 0)"
  using assms
  by (auto simp: compute_short_eq compute_two_block_eq compute_three_block_eq hmac_sha256_spec)
    (simp_all add: compute_short_def compute_two_block_def compute_three_block_def)

theorem hmac_helpers_correct_witness:
  "compute_two_block (init_key32 (replicate 32 7)) (replicate 97 1) = hmac_sha256 (replicate 32 7) (replicate 97 1) \<and>
   compute_two_block (init_key32 (replicate 32 7)) (replicate 64 1) = replicate 32 0"
  using hmac_helpers_correct [of "replicate 32 7" "replicate 97 1"]
    hmac_helpers_correct [of "replicate 32 7" "replicate 64 1"] by simp

text \<open>C13: the three nonce functions are the RFC 6979 generator (cut off after two candidates) over their
  key data: private key and hash, plus the auxiliary randomness, or plus the optional extra data and
  the 16-byte algorithm tag. The nonce is canonical; it is zero only if both candidates fail.\<close>

theorem rfc6979_nonces_correct:
  assumes "length h = 32" "length aux = 32"
  shows "sval (rfc6979_nonce d h) = drbg_spec (scalar_to_bytes d @ h) \<and> scalar_ok (rfc6979_nonce d h) \<and>
    sval (rfc6979_nonce_hedged d h aux) = drbg_spec (scalar_to_bytes d @ h @ aux) \<and>
    scalar_ok (rfc6979_nonce_hedged d h aux) \<and>
    sval (rfc6979_nonce_libsecp_compat d h (Some aux) None)
      = drbg_spec (scalar_to_bytes d @ h @ aux @ kAlgo16Ecdsa) \<and>
    sval (rfc6979_nonce_libsecp_compat d h None None) = drbg_spec (scalar_to_bytes d @ h @ kAlgo16Ecdsa)"
  using assms rfc6979_nonce_spec [OF assms(1), of d] rfc6979_nonce_hedged_spec [OF assms, of d]
    rfc6979_nonce_compat_spec [OF assms(1), of "Some aux" None d] rfc6979_nonce_compat_spec [OF assms(1), of None None d]
  by (simp add: compat_keydata_def)

theorem rfc6979_nonces_correct_witness:
  "sval (rfc6979_nonce scalar_one (replicate 32 3)) = drbg_spec (scalar_to_bytes scalar_one @ replicate 32 3)"
  using rfc6979_nonces_correct [of "replicate 32 3" "replicate 32 0" scalar_one] by simp

end
