(* ===== verification/Keccak256.thy ===== *)
theory Keccak256
  imports Block_Hash
begin

text \<open>
  Keccak-256 as Ethereum uses it (keccak256.cpp): the permutation with its in-place theta, rho-pi, chi
  and iota steps, and the absorbing state with its own copy loop (a different one from the SHA
  classes). Lanes are read with \<open>memcpy\<close>; the model is that of a little-endian host.
\<close>

unbundle bit_operations_syntax

section \<open>The permutation\<close>

definition KECCAK_RC :: "u64 list" where
  "KECCAK_RC = [
     0x0000000000000001, 0x0000000000008082, 0x800000000000808A, 0x8000000080008000,
     0x000000000000808B, 0x0000000080000001, 0x8000000080008081, 0x8000000000008009,
     0x000000000000008A, 0x0000000000000088, 0x0000000080008009, 0x000000008000000A,
     0x000000008000808B, 0x800000000000008B, 0x8000000000008089, 0x8000000000008003,
     0x8000000000008002, 0x8000000000000080, 0x000000000000800A, 0x800000008000000A,
     0x8000000080008081, 0x8000000000008080, 0x0000000080000001, 0x8000000080008008]"

definition KECCAK_ROT :: "nat list" where
  "KECCAK_ROT = [
      0,  1, 62, 28, 27,
     36, 44,  6, 55, 20,
      3, 10, 43, 25, 39,
     41, 45, 15, 21,  8,
     18,  2, 61, 56, 14]"

definition rotl64 :: "u64 \<Rightarrow> nat \<Rightarrow> u64" where
  "rotl64 x n = push_bit (n mod 64) x OR drop_bit ((64 - n) mod 64) x"

definition grid :: "(nat \<times> nat) list" where
  "grid = concat (map (\<lambda>x. map (\<lambda>y. (x, y)) [0..<5]) [0..<5])"

definition keccak_theta :: "u64 list \<Rightarrow> u64 list" where
  "keccak_theta state =
     (let C = map (\<lambda>x. state ! x XOR state ! (x + 5) XOR state ! (x + 10) XOR state ! (x + 15)
                         XOR state ! (x + 20)) [0..<5];
          D = map (\<lambda>x. C ! ((x + 4) mod 5) XOR rotl64 (C ! ((x + 1) mod 5)) 1) [0..<5]
      in foldl (\<lambda>st (x, y). st[x + 5 * y := st ! (x + 5 * y) XOR D ! x]) state grid)"

definition keccak_rho_pi :: "u64 list \<Rightarrow> u64 list" where
  "keccak_rho_pi state =
     foldl (\<lambda>B (x, y). B[y + 5 * ((2 * x + 3 * y) mod 5) :=
               rotl64 (state ! (x + 5 * y)) (KECCAK_ROT ! (x + 5 * y))]) (replicate 25 0) grid"

definition keccak_chi :: "u64 list \<Rightarrow> u64 list \<Rightarrow> u64 list" where
  "keccak_chi B state =
     foldl (\<lambda>st (x, y). st[x + 5 * y :=
               B ! (x + 5 * y) XOR (NOT (B ! ((x + 1) mod 5 + 5 * y)) AND B ! ((x + 2) mod 5 + 5 * y))]) state grid"

definition keccak_round :: "u64 list \<Rightarrow> nat \<Rightarrow> u64 list" where
  "keccak_round state round =
     (let state = keccak_theta state;
          B = keccak_rho_pi state;
          state = keccak_chi B state
      in state[0 := state ! 0 XOR KECCAK_RC ! round])"

definition keccak_f1600 :: "u64 list \<Rightarrow> u64 list" where
  "keccak_f1600 state = foldl keccak_round state [0..<24]"

section \<open>The absorbing state\<close>

record keccak_ctx =
  kstate :: "u64 list"
  kbuf :: bytes
  buf_pos :: nat

definition keccak_init :: keccak_ctx where
  "keccak_init = \<lparr>kstate = replicate 25 0, kbuf = replicate 136 0, buf_pos = 0\<rparr>"

text \<open>XOR the 17 lanes of the buffer into the state and permute.\<close>

definition keccak_absorb :: "u64 list \<Rightarrow> bytes \<Rightarrow> u64 list" where
  "keccak_absorb state buf =
     keccak_f1600 (foldl (\<lambda>st i. st[i := st ! i XOR load_le64 (drop (i * 8) buf)]) state [0..<136 div 8])"

text \<open>
  One turn of the loop of \<open>update\<close>: copy a piece that fits the buffer, absorb the buffer when it is full.
\<close>

definition keccak_chunk :: "keccak_ctx \<Rightarrow> bytes \<Rightarrow> keccak_ctx" where
  "keccak_chunk ctx piece =
     (let ctx = ctx\<lparr>kbuf := memcpy_at (kbuf ctx) (buf_pos ctx) piece,
                    buf_pos := buf_pos ctx + length piece\<rparr>
      in if buf_pos ctx = 136
         then ctx\<lparr>kstate := keccak_absorb (kstate ctx) (kbuf ctx), buf_pos := 0\<rparr> else ctx)"

text \<open>
  The loop only makes progress while \<open>buf_pos < RATE\<close>, which every operation keeps
  (\<open>keccak_absorbed\<close> below); the model stops where the code would spin.
\<close>

function keccak_update :: "keccak_ctx \<Rightarrow> bytes \<Rightarrow> keccak_ctx" where
  "keccak_update ctx data =
     (if 0 < length data \<and> buf_pos ctx < 136 then
        (let space = 136 - buf_pos ctx;
             to_copy = (if length data < space then length data else space)
         in keccak_update (keccak_chunk ctx (take to_copy data)) (drop to_copy data))
      else ctx)"
  by pat_completeness auto
termination by (relation "measure (\<lambda>(ctx, data). length data)") (auto split: if_splits)

declare keccak_update.simps [simp del]

definition keccak_finalize :: "keccak_ctx \<Rightarrow> bytes" where
  "keccak_finalize ctx =
     (let buf = (kbuf ctx)[buf_pos ctx := 0x01];
          buf = memset_at buf (buf_pos ctx + 1) 0 (136 - buf_pos ctx - 1);
          buf = buf[136 - 1 := buf ! (136 - 1) OR 0x80];
          state = keccak_absorb (kstate ctx) buf
      in concat (map (\<lambda>i. store_le64 (state ! i)) [0..<4]))"

definition keccak256 :: "bytes \<Rightarrow> bytes" where
  "keccak256 data = keccak_finalize (keccak_update keccak_init data)"

section \<open>The sponge reference\<close>

definition keccak_pad :: "nat \<Rightarrow> bytes" where
  "keccak_pad n =
     (let z = 136 - n mod 136 in if z = 1 then [0x81] else [0x01] @ replicate (z - 2) 0 @ [0x80])"

definition keccak_spec :: "bytes \<Rightarrow> bytes" where
  "keccak_spec m =
     concat (map (\<lambda>i. store_le64 (fst (absorb_blocks 136 keccak_absorb (replicate 25 0) (m @ keccak_pad (length m))) ! i))
       [0..<4])"

interpretation keccak: block_absorber 136 keccak_absorb
  by unfold_locales simp

definition keccak_absorbed :: "keccak_ctx \<Rightarrow> bytes \<Rightarrow> bool" where
  "keccak_absorbed ctx m \<longleftrightarrow> length (kbuf ctx) = 136 \<and> buf_pos ctx < 136 \<and>
     absorb_blocks 136 keccak_absorb (replicate 25 0) m = (kstate ctx, take (buf_pos ctx) (kbuf ctx))"

lemma keccak_absorbed_init: "keccak_absorbed keccak_init []"
  by (simp add: keccak_absorbed_def keccak_init_def)

lemma keccak_absorbed_chunk:
  assumes "keccak_absorbed ctx m" "buf_pos ctx + length piece \<le> 136"
  shows "keccak_absorbed (keccak_chunk ctx piece) (m @ piece)"
proof -
  let ?r = "take (buf_pos ctx) (kbuf ctx)" and ?b = "memcpy_at (kbuf ctx) (buf_pos ctx) piece"
  have c: "length (kbuf ctx) = 136" "buf_pos ctx < 136"
      "absorb_blocks 136 keccak_absorb (replicate 25 0) m = (kstate ctx, ?r)"
    using assms(1) by (auto simp: keccak_absorbed_def)
  note app = keccak.absorb_append [OF c(3), of piece]
  have b: "take (buf_pos ctx + length piece) ?b = ?r @ piece" "length ?b = 136"
    using assms(2) c(1) by (simp_all add: memcpy_at_def)
  show ?thesis
  proof (cases "buf_pos ctx + length piece = 136")
    case True
    then have "?b = ?r @ piece" using b by simp
    then show ?thesis using True b(2) app by (simp add: keccak_absorbed_def keccak_chunk_def)
  next
    case False
    then have "length (?r @ piece) < 136" using assms(2) c(1,2) by simp
    then show ?thesis using False assms(2) b app by (simp add: keccak_absorbed_def keccak_chunk_def)
  qed
qed

lemma keccak_absorbed_update:
  "keccak_absorbed ctx m \<Longrightarrow> keccak_absorbed (keccak_update ctx data) (m @ data)"
proof (induction "length data" arbitrary: ctx data m rule: less_induct)
  case less
  show ?case
  proof (cases "data = []")
    case True
    then show ?thesis using less.prems by (simp add: keccak_update.simps)
  next
    case False
    define n where "n = (if length data < 136 - buf_pos ctx then length data else 136 - buf_pos ctx)"
    have p: "buf_pos ctx < 136" using less.prems by (simp add: keccak_absorbed_def)
    then have n: "buf_pos ctx + length (take n data) \<le> 136" "length (drop n data) < length data"
      using False by (auto simp: n_def)
    have "keccak_update ctx data = keccak_update (keccak_chunk ctx (take n data)) (drop n data)"
      using False p by (subst keccak_update.simps) (simp add: n_def Let_def)
    then show ?thesis
      using less.hyps [OF n(2) keccak_absorbed_chunk [OF less.prems n(1)]] by simp
  qed
qed

lemma keccak_absorbed_fold:
  "keccak_absorbed ctx m \<Longrightarrow> keccak_absorbed (fold (\<lambda>d c. keccak_update c d) ds ctx) (m @ concat ds)"
proof (induction ds arbitrary: ctx m)
  case (Cons d ds)
  from Cons.IH [OF keccak_absorbed_update [OF Cons.prems]] show ?case by simp
qed simp

lemma keccak_finalize_absorbed:
  assumes "keccak_absorbed ctx m"
  shows "keccak_finalize ctx = keccak_spec m"
proof -
  define p where "p = buf_pos ctx"
  let ?r = "take p (kbuf ctx)"
  have c: "length (kbuf ctx) = 136" "p < 136"
      "absorb_blocks 136 keccak_absorb (replicate 25 0) m = (kstate ctx, ?r)"
    using assms by (auto simp: keccak_absorbed_def p_def)
  have p: "p = length m mod 136" using keccak.absorb_rest [OF c(3)] c(1,2) by simp
  define b where "b = memset_at ((kbuf ctx)[p := 0x01]) (p + 1) 0 (136 - p - 1)"
  have b: "b = ?r @ [0x01] @ replicate (135 - p) 0"
    using c(1,2) by (simp add: b_def memset_at_tail take_Suc_conv_app_nth)
  have "b[135 := b ! 135 OR 0x80] = ?r @ keccak_pad (length m)"
  proof (cases "p = 135")
    case True
    then show ?thesis using c(1) b p [symmetric] by (simp add: keccak_pad_def Let_def nth_append list_update_append)
  next
    case False
    then have "135 - p = Suc (134 - p)" using c(2) by linarith
    then have r: "replicate (135 - p) 0 = replicate (134 - p) 0 @ [0 :: byte]"
      by (simp only: replicate_append_same replicate_Suc)
    have b': "b = (?r @ [0x01] @ replicate (134 - p) 0) @ [0]" unfolding b r by simp
    have l: "length (?r @ [0x01] @ replicate (134 - p) (0 :: byte)) = 135" using c(1,2) False by simp
    have "b ! 135 = 0" "b[135 := 0x80] = ?r @ [0x01] @ replicate (134 - p) 0 @ [0x80]"
      unfolding b' l [symmetric] list_update_length nth_append_length by simp_all
    then show ?thesis using False c(2) p [symmetric] by (simp add: keccak_pad_def Let_def)
  qed
  moreover have "length (?r @ keccak_pad (length m)) = 136"
    using c(1,2) p [symmetric] by (simp add: keccak_pad_def Let_def) linarith
  ultimately have "absorb_blocks 136 keccak_absorb (replicate 25 0) (m @ keccak_pad (length m))
      = (keccak_absorb (kstate ctx) (b[135 := b ! 135 OR 0x80]), [])"
    using keccak.absorb_append [OF c(3)] by simp
  then show ?thesis by (simp add: keccak_finalize_def keccak_spec_def Let_def b_def p_def)
qed

lemma keccak256_spec: "keccak256 m = keccak_spec m"
  using keccak_finalize_absorbed [OF keccak_absorbed_update [OF keccak_absorbed_init]]
  by (simp add: keccak256_def)

lemma length_keccak256 [simp, len_simps]: "length (keccak256 m) = 32"
  by (simp add: keccak256_def keccak_finalize_def Let_def length_concat numeral_eq_Suc)

section \<open>Properties\<close>

text \<open>C19: Keccak streaming is faithful: any chunking of the input gives the one-shot digest, which is the
  sponge over the input with the original Keccak padding (\<open>0x01\<close>, zeros, \<open>0x80\<close> in the last byte, merged
  to \<open>0x81\<close> when one byte is left).\<close>

theorem keccak_streaming:
  "keccak_finalize (fold (\<lambda>d c. keccak_update c d) ds keccak_init) = keccak256 (concat ds) \<and>
   keccak256 (concat ds) = keccak_spec (concat ds) \<and> length (keccak256 (concat ds)) = 32"
  using keccak_finalize_absorbed [OF keccak_absorbed_fold [OF keccak_absorbed_init]]
  using length_keccak256 [of "concat ds"] by (simp add: keccak256_spec)

end
