(* ===== verification/Field.thy ===== *)
theory Field
  imports Scalar
begin

text \<open>
  \<open>secp256k1::fast::FieldElement\<close> (src/src/cpu/src/field.cpp), the portable 64-bit code: integers
  modulo the field prime \<open>p = 2^256 - 2^32 - 977\<close> in four limbs. The branch-free addition and
  subtraction, the schoolbook product into eight limbs with the special-form reduction (in its
  128-bit and its 64-bit version), normalisation, negation, the parsers and printers.
\<close>

section \<open>The prime\<close>

definition PRIME :: limbs4 where
  "PRIME = Limbs4 0xFFFFFFFEFFFFFC2F 0xFFFFFFFFFFFFFFFF 0xFFFFFFFFFFFFFFFF 0xFFFFFFFFFFFFFFFF"

definition MOD_ADJUST :: u64 where
  "MOD_ADJUST = 0x1000003D1"

definition prime_p :: int where
  "prime_p = 0xFFFFFFFFFFFFFFFFFFFFFFFFFFFFFFFFFFFFFFFFFFFFFFFFFFFFFFFEFFFFFC2F"

lemma lval_PRIME: "lval PRIME = prime_p"
  by (simp add: PRIME_def prime_p_def)

lemma prime_p_bounds: "0 < prime_p" "prime_p < 2 ^ 256" "2 ^ 256 < 2 * prime_p"
  by (simp_all add: prime_p_def)

lemma prime_p_fold: "2 ^ 256 = prime_p + uint MOD_ADJUST"
  by (simp add: prime_p_def MOD_ADJUST_def)

lemma mod_p_fold: "(x + 2 ^ 256 * y) mod prime_p = (x + uint MOD_ADJUST * y) mod prime_p"
proof -
  have "x + 2 ^ 256 * y = x + uint MOD_ADJUST * y + prime_p * y"
    unfolding prime_p_fold by (simp add: distrib_right)
  then show ?thesis by (simp only: mod_mult_self2)
qed

section \<open>Sums and differences\<close>

fun limbs_and :: "limbs4 \<Rightarrow> u64 \<Rightarrow> limbs4" where
  "limbs_and (Limbs4 a0 a1 a2 a3) m = Limbs4 (a0 AND m) (a1 AND m) (a2 AND m) (a3 AND m)"

text \<open>\<open>s[i] ^= (s[i] ^ r[i]) & mask\<close> for every limb.\<close>

fun xor_select :: "limbs4 \<Rightarrow> limbs4 \<Rightarrow> u64 \<Rightarrow> limbs4" where
  "xor_select (Limbs4 s0 s1 s2 s3) (Limbs4 r0 r1 r2 r3) m =
     Limbs4 (s0 XOR (s0 XOR r0) AND m) (s1 XOR (s1 XOR r1) AND m)
            (s2 XOR (s2 XOR r2) AND m) (s3 XOR (s3 XOR r3) AND m)"

text \<open>\<open>out[i] = (out[i] & ~mask) | (reduced[i] & mask)\<close> for every limb.\<close>

fun or_select :: "limbs4 \<Rightarrow> limbs4 \<Rightarrow> u64 \<Rightarrow> limbs4" where
  "or_select (Limbs4 s0 s1 s2 s3) (Limbs4 r0 r1 r2 r3) m =
     Limbs4 (s0 AND NOT m OR r0 AND m) (s1 AND NOT m OR r1 AND m)
            (s2 AND NOT m OR r2 AND m) (s3 AND NOT m OR r3 AND m)"

definition fe_sub_impl :: "limbs4 \<Rightarrow> limbs4 \<Rightarrow> limbs4" where
  "fe_sub_impl a b =
     (let (out, borrow) = sub4 a b;
          m = 0 - ucast borrow :: u64
      in fst (add4 out (limbs_and PRIME m)))"

definition fe_add_impl :: "limbs4 \<Rightarrow> limbs4 \<Rightarrow> limbs4" where
  "fe_add_impl a b =
     (let (s, c1) = add4 a b;
          (r, c2) = add4 s (Limbs4 MOD_ADJUST 0 0 0);
          use_reduced = ucast (c1 OR c2) :: u64;
          m = 0 - use_reduced
      in xor_select s r m)"

text \<open>\<open>ge\<close>: the borrow of the discarded difference.\<close>

definition limbs_ge :: "limbs4 \<Rightarrow> limbs4 \<Rightarrow> bool" where
  "limbs_ge a b \<longleftrightarrow> snd (sub4 a b) = 0"

definition fe_normalize :: "limbs4 \<Rightarrow> limbs4" where
  "fe_normalize value =
     (let (reduced, borrow) = sub4 value PRIME;
          m = 0 - ucast (1 - (ucast borrow :: u32)) :: u64
      in xor_select value reduced m)"

lemma fe_select_simps [simp]:
  "xor_select s r 0 = s" "xor_select s r (- 1) = r" "or_select s r 0 = s" "or_select s r (- 1) = r"
  "limbs_and s (- 1) = s" "limbs_and s 0 = Limbs4 0 0 0 0"
  by (cases s; cases r; simp add: xor.assoc [symmetric])+

lemma limbs_ge_iff: "limbs_ge a b \<longleftrightarrow> lval b \<le> lval a"
  by (simp add: limbs_ge_def sub4_val)

lemma lval_normalize [val_simps]: "lval (fe_normalize a) = lval a mod prime_p"
proof -
  have m: "lval a mod prime_p = (if lval a < prime_p then lval a else lval a - prime_p)"
    using lval_bound [of a] prime_p_bounds by (intro mod_one_sub) simp_all
  show ?thesis
    by (simp add: fe_normalize_def case_prod_beta Let_def sub4_val lval_PRIME m)
qed

lemma lval_fe_sub_impl:
  assumes "lval a < prime_p" and "lval b < prime_p"
  shows "lval (fe_sub_impl a b) = (lval a - lval b) mod prime_p"
proof (cases "lval b \<le> lval a")
  case True
  have "(lval a - lval b) mod prime_p = lval a - lval b"
    using True assms lval_nonneg [of b] by (intro mod_pos_pos_trivial) linarith+
  moreover have "lval a - lval b < 2 ^ 256" "0 \<le> lval a - lval b"
    using True lval_bound [of a] lval_nonneg [of b] by linarith+
  ultimately show ?thesis
    using True by (simp add: fe_sub_impl_def case_prod_beta Let_def sub4_val add4_val)
next
  case False
  have "(lval a - lval b) mod prime_p = (lval a - lval b + prime_p) mod prime_p" by simp
  also have "\<dots> = lval a - lval b + prime_p"
    using False assms lval_nonneg [of a] by (intro mod_pos_pos_trivial) linarith+
  also have "\<dots> = (lval a - lval b + 2 ^ 256 + prime_p) mod 2 ^ 256"
    using False assms prime_p_bounds lval_nonneg [of a]
    by (subst mod_one_sub) (simp_all del: lval_nonneg)
  finally show ?thesis
    using False by (simp add: fe_sub_impl_def case_prod_beta Let_def sub4_val add4_val lval_PRIME)
qed

lemma lval_fe_add_impl:
  assumes "lval a < prime_p" and "lval b < prime_p"
  shows "lval (fe_add_impl a b) = (lval a + lval b) mod prime_p"
proof -
  let ?s = "lval a + lval b" and ?K = "uint MOD_ADJUST"
  have s: "0 \<le> ?s" "?s < 2 * prime_p" using assms by simp_all
  note n = prime_p_bounds and f = prime_p_fold
  have K: "0 < ?K" "?K < 2 ^ 256" by (simp_all add: MOD_ADJUST_def)
  have m: "?s mod 2 ^ 256 = (if ?s < 2 ^ 256 then ?s else ?s - 2 ^ 256)"
    using s n by (intro mod_one_sub) linarith+
  have k: "lval (Limbs4 MOD_ADJUST 0 0 0) = ?K" by simp
  show ?thesis
  proof (cases "?s < 2 ^ 256")
    case True
    have r: "(?s + ?K) mod 2 ^ 256 = (if ?s + ?K < 2 ^ 256 then ?s + ?K else ?s + ?K - 2 ^ 256)"
      using True s K by (intro mod_one_sub) linarith+
    show ?thesis
      using True f r K s unfolding mod_one_sub [OF s] fe_add_impl_def
      by (auto simp: case_prod_beta Let_def add4_val m k simp del: lval.simps)
  next
    case False
    have "?s - 2 ^ 256 + ?K < 2 ^ 256" "0 \<le> ?s - 2 ^ 256" using False s f n by linarith+
    moreover have "?s mod 2 ^ 256 = ?s - 2 ^ 256" using m False by simp
    ultimately show ?thesis
      using False f s K unfolding mod_one_sub [OF s] fe_add_impl_def
      by (auto simp: case_prod_beta Let_def add4_val k simp del: lval.simps)
  qed
qed


section \<open>Words as a number\<close>

text \<open>The arrays of the product and its reduction are lists of 64-bit words, least significant first.\<close>

fun words_val :: "u64 list \<Rightarrow> int" where
  "words_val [] = 0"
| "words_val (w # ws) = uint w + 2 ^ 64 * words_val ws"

lemma words_val_nonneg [simp]: "0 \<le> words_val ws"
  by (induction ws) auto

lemma words_val_bound: "words_val ws < 2 ^ (64 * length ws)"
proof (induction ws)
  case (Cons w ws)
  then have "uint w + 2 ^ 64 * (words_val ws + 1) \<le> 2 ^ 64 - 1 + 2 ^ 64 * 2 ^ (64 * length ws)"
    using uint_lt64 [of w] by (intro add_mono mult_left_mono) (simp_all del: uint_lt64)
  moreover have "(2 :: int) ^ (64 * length (w # ws)) = 2 ^ 64 * 2 ^ (64 * length ws)"
    by (simp add: power_add)
  ultimately show ?case by simp
qed simp

lemma words_val_update:
  "i < length ws \<Longrightarrow> words_val (ws[i := w]) = words_val ws + 2 ^ (64 * i) * (uint w - uint (ws ! i))"
proof (induction ws arbitrary: i)
  case (Cons v ws)
  show ?case
  proof (cases i)
    case (Suc j)
    then have "words_val (ws[j := w]) = words_val ws + 2 ^ (64 * j) * (uint w - uint (ws ! j))"
      using Cons by simp
    from arg_cong [OF this, of "\<lambda>x. 2 ^ 64 * x"] show ?thesis
      using Suc by (simp add: algebra_simps power_add)
  qed simp
qed simp

lemma words_val_append: "words_val (xs @ ys) = words_val xs + 2 ^ (64 * length xs) * words_val ys"
  by (induction xs) (simp_all add: algebra_simps power_add)

lemma words_val_zeros [simp]: "words_val (replicate n 0) = 0"
  by (induction n) auto

text \<open>Two words are equal modulo the array's size when a carry out of the top is dropped.\<close>

lemma mod_size_eq:
  assumes "words_val ws mod 2 ^ (64 * length ws) = v mod 2 ^ (64 * length ws)"
    "0 \<le> v" "v < 2 ^ (64 * length ws)"
  shows "words_val ws = v"
  using assms words_val_bound [of ws] by simp

section \<open>The product\<close>

text \<open>\<open>mul64\<close> with 128-bit integers, and from 32-bit halves: low and high word of the product.\<close>

definition mul64 :: "u64 \<Rightarrow> u64 \<Rightarrow> u64 \<times> u64" where
  "mul64 a b = (let product = ucast a * ucast b :: u128 in (ucast product, ucast (drop_bit 64 product)))"

definition mul64_noint128 :: "u64 \<Rightarrow> u64 \<Rightarrow> u64 \<times> u64" where
  "mul64_noint128 a b =
     (let a_lo = a AND 0xFFFFFFFF; a_hi = drop_bit 32 a;
          b_lo = b AND 0xFFFFFFFF; b_hi = drop_bit 32 b;
          p0 = a_lo * b_lo; p1 = a_lo * b_hi; p2 = a_hi * b_lo; p3 = a_hi * b_hi;
          carry = drop_bit 32 (drop_bit 32 p0 + (p1 AND 0xFFFFFFFF) + (p2 AND 0xFFFFFFFF));
          lo = p0 + push_bit 32 p1 + push_bit 32 p2;
          hi = p3 + drop_bit 32 p1 + drop_bit 32 p2 + carry
      in (lo, hi))"

text \<open>The carry loop of \<open>add_into\<close>; a carry out of the last word is dropped.\<close>

function carry_into :: "u64 list \<Rightarrow> nat \<Rightarrow> byte \<Rightarrow> u64 list" where
  "carry_into arr index carry =
     (if carry \<noteq> 0 \<and> index < length arr then
        (let (s, carry) = add64 (arr ! index) 0 carry in carry_into (arr[index := s]) (index + 1) carry)
      else arr)"
  by pat_completeness auto
termination by (relation "measure (\<lambda>(arr, index, carry). length arr - index)") auto

declare carry_into.simps [simp del]

definition add_into :: "u64 list \<Rightarrow> nat \<Rightarrow> u64 \<Rightarrow> u64 list" where
  "add_into arr index value =
     (let (s, carry) = add64 (arr ! index) value 0 in carry_into (arr[index := s]) (index + 1) carry)"

definition mul_add_to :: "u64 list \<Rightarrow> nat \<Rightarrow> u64 \<Rightarrow> u64 \<Rightarrow> u64 list" where
  "mul_add_to acc index a b =
     (let (lo, hi) = mul64 a b in add_into (add_into acc index lo) (index + 1) hi)"

fun limb_list :: "limbs4 \<Rightarrow> u64 list" where
  "limb_list (Limbs4 a0 a1 a2 a3) = [a0, a1, a2, a3]"

definition mul_wide :: "limbs4 \<Rightarrow> limbs4 \<Rightarrow> u64 list" where
  "mul_wide a b =
     fold (\<lambda>i prod. fold (\<lambda>j prod. mul_add_to prod (i + j) (limb_list a ! i) (limb_list b ! j)) [0..<4] prod)
       [0..<4] (replicate 8 0)"

lemma mul64_spec: "mul64 a b = (lo, hi) \<Longrightarrow> uint lo + 2 ^ 64 * uint hi = uint a * uint b"
proof -
  assume "mul64 a b = (lo, hi)"
  then have l: "lo = ucast (ucast a * ucast b :: u128)" and h: "hi = ucast (drop_bit 64 (ucast a * ucast b :: u128))"
    by (auto simp: mul64_def Let_def)
  have "uint (ucast (drop_bit 64 t) :: u64) = uint (drop_bit 64 t)" for t :: u128
  proof -
    have "uint t div 2 ^ 64 < 2 ^ 64"
      using uint_lt2p [of t] zdiv_mono1 [of "uint t" "2 ^ 128 - 1" "2 ^ 64"] by simp
    then show ?thesis
      by (simp add: unsigned_ucast_eq take_bit_eq_mod uint_drop_bit_div pos_imp_zdiv_nonneg_iff)
  qed
  then show ?thesis using u128_split [of "ucast a * ucast b"] by (simp add: l h uint_mul128)
qed

lemma words_val_step:
  assumes "i < length arr" "uint s + 2 ^ 64 * c = uint (arr ! i) + v"
  shows "words_val (arr[i := s]) + 2 ^ (64 * (i + 1)) * c = words_val arr + 2 ^ (64 * i) * v"
  using assms(1) arg_cong [OF assms(2), of "\<lambda>x. 2 ^ (64 * i) * x"]
  by (simp add: words_val_update power_add algebra_simps)

lemma carry_into_length [simp, len_simps]: "length (carry_into arr i c) = length arr"
proof (induction arr i c rule: carry_into.induct)
  case (1 arr i c)
  then show ?case by (subst carry_into.simps) (auto split: prod.splits)
qed

lemma carry_into_spec:
  assumes "uint c \<le> 1" "i \<le> length arr"
  shows "words_val (carry_into arr i c) mod 2 ^ (64 * length arr)
      = (words_val arr + 2 ^ (64 * i) * uint c) mod 2 ^ (64 * length arr)"
  using assms
proof (induction arr i c rule: carry_into.induct)
  case (1 arr i c)
  obtain s c' where 2: "add64 (arr ! i) 0 c = (s, c')" by fastforce
  note s = add64_spec [OF 2 "1.prems"(1)]
  show ?case
  proof (cases "c \<noteq> 0 \<and> i < length arr")
    case True
    have "words_val (arr[i := s]) + 2 ^ (64 * (i + 1)) * uint c' = words_val arr + 2 ^ (64 * i) * uint c"
      using True s(1) by (intro words_val_step) auto
    then show ?thesis
      using True "1.IH" [OF True 2 [symmetric] refl] s(2) 2 by (subst carry_into.simps) simp
  next
    case False
    then have "words_val arr + 2 ^ (64 * i) * uint c
        = words_val arr + 2 ^ (64 * length arr) * (if c = 0 then 0 else uint c)"
      using "1.prems" by auto
    moreover have "carry_into arr i c = arr" using False by (subst carry_into.simps) auto
    ultimately show ?thesis by simp
  qed
qed

lemma add_into_spec:
  assumes "i < length arr"
  shows "words_val (add_into arr i v) mod 2 ^ (64 * length arr)
      = (words_val arr + 2 ^ (64 * i) * uint v) mod 2 ^ (64 * length arr)"
    "length (add_into arr i v) = length arr"
proof -
  obtain s c where 1: "add64 (arr ! i) v 0 = (s, c)" by fastforce
  note s = add64_spec [OF 1, simplified]
  have "words_val (arr[i := s]) + 2 ^ (64 * (i + 1)) * uint c = words_val arr + 2 ^ (64 * i) * uint v"
    using assms s(1) by (intro words_val_step) auto
  then show "words_val (add_into arr i v) mod 2 ^ (64 * length arr)
      = (words_val arr + 2 ^ (64 * i) * uint v) mod 2 ^ (64 * length arr)"
    "length (add_into arr i v) = length arr"
    using carry_into_spec [of c "i + 1" "arr[i := s]"] assms s(2) by (simp_all add: add_into_def 1)
qed

lemma mul_add_to_spec:
  assumes "i + 1 < length arr"
  shows "words_val (mul_add_to arr i a b) mod 2 ^ (64 * length arr)
      = (words_val arr + 2 ^ (64 * i) * (uint a * uint b)) mod 2 ^ (64 * length arr)"
    "length (mul_add_to arr i a b) = length arr"
proof -
  let ?M = "(2 :: int) ^ (64 * length arr)"
  obtain lo hi where m: "mul64 a b = (lo, hi)" by fastforce
  have "words_val (add_into (add_into arr i lo) (i + 1) hi) mod ?M
      = (words_val (add_into arr i lo) mod ?M + 2 ^ (64 * (i + 1)) * uint hi) mod ?M"
    using add_into_spec [of "i + 1" "add_into arr i lo" hi] add_into_spec(2) [of i arr lo] assms
    by (simp add: mod_simps)
  also have "\<dots> = (words_val arr + 2 ^ (64 * i) * (uint lo + 2 ^ 64 * uint hi)) mod ?M"
    using add_into_spec(1) [of i arr lo] assms by (simp add: mod_simps power_add algebra_simps)
  finally show "words_val (mul_add_to arr i a b) mod ?M
      = (words_val arr + 2 ^ (64 * i) * (uint a * uint b)) mod ?M"
    using mul64_spec [OF m] by (simp add: mul_add_to_def m)
  show "length (mul_add_to arr i a b) = length arr"
    using assms add_into_spec(2) [of i arr lo] by (simp add: mul_add_to_def m add_into_spec(2))
qed


lemma fold_mul_add:
  assumes "length arr = 8" "\<forall>(i, a, b) \<in> set ops. i < 7"
  shows "words_val (fold (\<lambda>(i, a, b) prod. mul_add_to prod i a b) ops arr) mod 2 ^ 512
      = (words_val arr + (\<Sum>(i, a, b) \<leftarrow> ops. 2 ^ (64 * i) * (uint a * uint b))) mod 2 ^ 512 \<and>
    length (fold (\<lambda>(i, a, b) prod. mul_add_to prod i a b) ops arr) = 8"
  using assms
proof (induction ops arbitrary: arr)
  case (Cons op ops)
  obtain i a b where op: "op = (i, a, b)" by (cases op) auto
  let ?S = "\<Sum>(i, a, b) \<leftarrow> ops. 2 ^ (64 * i) * (uint a * uint b)"
  have i: "i + 1 < length arr" using Cons.prems op by auto
  note m = mul_add_to_spec [OF i, of a b, unfolded Cons.prems(1)]
  have "words_val (fold (\<lambda>(i, a, b) prod. mul_add_to prod i a b) ops (mul_add_to arr i a b)) mod 2 ^ 512
      = (words_val (mul_add_to arr i a b) mod 2 ^ 512 + ?S) mod 2 ^ 512"
    using Cons.IH [of "mul_add_to arr i a b"] Cons.prems m(2) by (simp add: mod_add_left_eq)
  also have "\<dots> = (words_val arr + 2 ^ (64 * i) * (uint a * uint b) + ?S) mod 2 ^ 512"
    using m(1) by (simp add: mod_add_left_eq)
  finally show ?case
    using Cons.IH [of "mul_add_to arr i a b"] Cons.prems m(2) by (simp add: op add.assoc)
qed simp

lemma mul_wide_ops:
  "mul_wide a b = fold (\<lambda>(i, x, y) prod. mul_add_to prod i x y)
     (concat (map (\<lambda>i. map (\<lambda>j. (i + j, limb_list a ! i, limb_list b ! j)) [0..<4]) [0..<4])) (replicate 8 0)"
  by (simp add: mul_wide_def upt_rec numeral_eq_Suc)

lemma mul_wide_spec: "words_val (mul_wide a b) = lval a * lval b" "length (mul_wide a b) = 8"
proof -
  obtain a0 a1 a2 a3 b0 b1 b2 b3 where ab: "a = Limbs4 a0 a1 a2 a3" "b = Limbs4 b0 b1 b2 b3"
    by (cases a; cases b) auto
  define ops where "ops = concat (map (\<lambda>i. map (\<lambda>j. (i + j, limb_list a ! i, limb_list b ! j)) [0..<4]) [0..<4])"
  have r: "mul_wide a b = fold (\<lambda>(i, x, y) prod. mul_add_to prod i x y) ops (replicate 8 0)"
    by (simp only: mul_wide_ops ops_def)
  have "\<forall>(i, a, b) \<in> set ops. i < 7" by (auto simp: ops_def)
  note f = fold_mul_add [of "replicate 8 0", OF _ this, folded r]
  have "(\<Sum>(i, x, y) \<leftarrow> ops. 2 ^ (64 * i) * (uint x * uint y)) = lval a * lval b"
    unfolding ops_def by (simp add: ab upt_rec numeral_eq_Suc) (simp add: algebra_simps)
  then have eq: "words_val (mul_wide a b) mod 2 ^ 512 = (lval a * lval b) mod 2 ^ 512" and l: "length (mul_wide a b) = 8"
    using f by simp_all
  have "lval a * lval b < 2 ^ 256 * 2 ^ 256"
    using lval_bound [of a] lval_bound [of b] by (intro mult_strict_mono') simp_all
  then have "lval a * lval b < 2 ^ 512" by simp
  then show "words_val (mul_wide a b) = lval a * lval b"
    using eq l by (intro mod_size_eq) simp_all
  show "length (mul_wide a b) = 8" by (rule l)
qed


section \<open>Reduction\<close>

text \<open>
  One high limb: \<open>hi * 977\<close> from \<open>mul64\<close>, \<open>hi << 32\<close> cut to 64 bits and \<open>hi >> 32\<close>, added at
  positions \<open>i\<close> and \<open>i + 1\<close> through 128-bit sums; the carry then runs through the remaining words.
\<close>

function carry_words :: "u64 list \<Rightarrow> nat \<Rightarrow> u64 \<Rightarrow> u64 list" where
  "carry_words result j carry =
     (if j < length result then
        (let acc2 = ucast (result ! j) + ucast carry :: u128
         in carry_words (result[j := ucast acc2]) (j + 1) (ucast (drop_bit 64 acc2)))
      else result)"
  by pat_completeness auto
termination by (relation "measure (\<lambda>(result, j, carry). length result - j)") auto

declare carry_words.simps [simp del]

definition reduce_limb :: "nat \<Rightarrow> u64 \<Rightarrow> u64 list \<Rightarrow> u64 list" where
  "reduce_limb i hi_limb result =
     (if hi_limb = 0 then result
      else
        (let (lo977, hi977) = mul64 hi_limb 977;
             acc = ucast (result ! i) + ucast lo977 + ucast (push_bit 32 hi_limb) :: u128;
             result = result[i := ucast acc];
             carry = ucast (drop_bit 64 acc) :: u64;
             acc = ucast (result ! (i + 1)) + ucast hi977 + ucast (drop_bit 32 hi_limb) + ucast carry :: u128;
             result = result[i + 1 := ucast acc];
             carry = ucast (drop_bit 64 acc)
         in carry_words result (i + 2) carry))"

text \<open>One of the two passes that fold the fifth word; \<open>break\<close> leaves it zero.\<close>

definition fold_overflow :: "u64 list \<Rightarrow> u64 list" where
  "fold_overflow result =
     (let overflow = result ! 4;
          result = result[4 := 0]
      in if overflow = 0 then result
         else
           (let term = ucast overflow * 0x1000003D1 :: u128;
                acc0 = ucast (result ! 0) + ucast (ucast term :: u64) :: u128;
                result = result[0 := ucast acc0];
                acc1 = ucast (result ! 1) + ucast (ucast (drop_bit 64 term) :: u64)
                         + ucast (ucast (drop_bit 64 acc0) :: u64) :: u128;
                result = result[1 := ucast acc1];
                carry = ucast (drop_bit 64 acc1) :: u64
            in if carry \<noteq> 0 then
                 (let acc2 = ucast (result ! 2) + ucast carry :: u128;
                      result = result[2 := ucast acc2];
                      carry2 = ucast (drop_bit 64 acc2) :: u64
                  in if carry2 \<noteq> 0 then
                       (let acc3 = ucast (result ! 3) + ucast carry2 :: u128;
                            result = result[3 := ucast acc3];
                            carry3 = ucast (drop_bit 64 acc3) :: u64
                        in if carry3 \<noteq> 0 then result[4 := result ! 4 + carry3] else result)
                     else result)
               else result))"

definition limbs_of :: "u64 list \<Rightarrow> limbs4" where
  "limbs_of r = Limbs4 (r ! 0) (r ! 1) (r ! 2) (r ! 3)"

definition fe_reduce :: "u64 list \<Rightarrow> limbs4" where
  "fe_reduce t =
     (let result = [t ! 0, t ! 1, t ! 2, t ! 3, 0];
          result = fold (\<lambda>i. reduce_limb i (t ! (4 + i))) [0..<4] result;
          result = fold_overflow (fold_overflow result);
          out = limbs_of result;
          (reduced, borrow) = sub4 out PRIME;
          m = 0 - ucast (1 - (ucast borrow :: u32)) :: u64
      in or_select out reduced m)"

lemma uint_carry128: "uint (ucast (drop_bit 64 t) :: u64) = uint (drop_bit 64 (t :: u128))"
proof -
  have "uint t div 2 ^ 64 < 2 ^ 64"
    using uint_lt2p [of t] zdiv_mono1 [of "uint t" "2 ^ 128 - 1" "2 ^ 64"] by simp
  then show ?thesis
    by (simp add: unsigned_ucast_eq take_bit_eq_mod uint_drop_bit_div pos_imp_zdiv_nonneg_iff)
qed

lemma u128_words: "uint (ucast t :: u64) + 2 ^ 64 * uint (ucast (drop_bit 64 t) :: u64) = uint (t :: u128)"
  using u128_split [of t] by (simp add: uint_carry128)

lemma uint_sum128:
  fixes a b c d :: u64
  shows "uint (ucast a + ucast b :: u128) = uint a + uint b"
    "uint (ucast a + ucast b + ucast c :: u128) = uint a + uint b + uint c"
    "uint (ucast a + ucast b + ucast c + ucast d :: u128) = uint a + uint b + uint c + uint d"
proof -
  note lt = uint_lt64 [of a] uint_lt64 [of b] uint_lt64 [of c] uint_lt64 [of d]
  show 1: "uint (ucast a + ucast b :: u128) = uint a + uint b"
    using lt by (subst uint_add128_small) (simp_all del: uint_lt64)
  show 2: "uint (ucast a + ucast b + ucast c :: u128) = uint a + uint b + uint c"
    using lt by (subst uint_add128_small) (simp_all add: 1 del: uint_lt64)
  show "uint (ucast a + ucast b + ucast c + ucast d :: u128) = uint a + uint b + uint c + uint d"
    using lt by (subst uint_add128_small) (simp_all add: 2 del: uint_lt64)
qed

lemma length_carry_words [simp, len_simps]: "length (carry_words r j c) = length r"
proof (induction r j c rule: carry_words.induct)
  case (1 r j c)
  then show ?case by (subst carry_words.simps) (simp add: Let_def)
qed

lemma carry_words_spec:
  "j \<le> length r \<Longrightarrow> words_val (carry_words r j c) mod 2 ^ (64 * length r)
     = (words_val r + 2 ^ (64 * j) * uint c) mod 2 ^ (64 * length r)"
proof (induction r j c rule: carry_words.induct)
  case (1 r j c)
  let ?t = "ucast (r ! j) + ucast c :: u128"
  show ?case
  proof (cases "j < length r")
    case True
    have "words_val (r[j := ucast ?t]) + 2 ^ (64 * (j + 1)) * uint (ucast (drop_bit 64 ?t) :: u64)
        = words_val r + 2 ^ (64 * j) * uint c"
      by (intro words_val_step) (simp_all only: True u128_words uint_sum128)
    then show ?thesis
      using True "1.IH" [OF True refl] by (subst carry_words.simps) (simp add: Let_def)
  next
    case False
    then show ?thesis using "1.prems" by (subst carry_words.simps) simp
  qed
qed

lemma shift32_split: "uint (push_bit 32 (x :: u64)) + 2 ^ 64 * uint (drop_bit 32 x) = 2 ^ 32 * uint x"
proof -
  have "uint (push_bit 32 x) = (uint x * 2 ^ 32) mod 2 ^ 64"
    unfolding unsigned_push_bit_eq take_bit_eq_mod by (simp add: push_bit_eq_mult)
  also have "\<dots> = (uint x mod 2 ^ 32) * 2 ^ 32"
    using mult_mod_right [of "2 ^ 32" "uint x" "2 ^ 32"] by (simp add: mult.commute)
  finally have l: "uint (push_bit 32 x) = uint x mod 2 ^ 32 * 2 ^ 32" .
  have "m * 2 ^ 32 + 2 ^ 64 * q = 2 ^ 32 * (2 ^ 32 * q + m)" for m q :: int by simp
  from this [of "uint x mod 2 ^ 32" "uint x div 2 ^ 32"] show ?thesis
    unfolding l uint_drop_bit_div by (simp only: mult_div_mod_eq)
qed


lemma reduce_limb_spec:
  assumes "length r = 5" "i < 4"
  shows "words_val (reduce_limb i h r) mod 2 ^ 320
      = (words_val r + 2 ^ (64 * i) * (uint MOD_ADJUST * uint h)) mod 2 ^ 320" (is "?V mod _ = _")
    "length (reduce_limb i h r) = 5"
proof -
  obtain lo hi where m: "mul64 h 977 = (lo, hi)" by fastforce
  define acc where "acc = (ucast (r ! i) + ucast lo + ucast (push_bit 32 h) :: u128)"
  define r1 where "r1 = r[i := ucast acc]"
  define c1 :: u64 where "c1 = ucast (drop_bit 64 acc)"
  define acc' where "acc' = (ucast (r1 ! (i + 1)) + ucast hi + ucast (drop_bit 32 h) + ucast c1 :: u128)"
  define r2 where "r2 = r1[i + 1 := ucast acc']"
  define c2 :: u64 where "c2 = ucast (drop_bit 64 acc')"
  have len: "length r1 = 5" "length r2 = 5" using assms(1) by (simp_all add: r1_def r2_def)
  have e: "reduce_limb i h r = (if h = 0 then r else carry_words r2 (i + 2) c2)"
    unfolding reduce_limb_def m acc_def r1_def c1_def acc'_def r2_def c2_def by (simp only: Let_def prod.case)
  show "length (reduce_limb i h r) = 5" using assms(1) len by (simp add: e)
  have 1: "words_val r1 + 2 ^ (64 * (i + 1)) * uint c1
      = words_val r + 2 ^ (64 * i) * (uint lo + uint (push_bit 32 h))"
  proof -
    have "uint (ucast acc :: u64) + 2 ^ 64 * uint c1 = uint (r ! i) + (uint lo + uint (push_bit 32 h))"
      unfolding c1_def u128_words unfolding acc_def uint_sum128 by (rule add.assoc)
    then show ?thesis unfolding r1_def using assms by (intro words_val_step) simp_all
  qed
  have 2: "words_val r2 + 2 ^ (64 * (i + 1 + 1)) * uint c2
      = words_val r1 + 2 ^ (64 * (i + 1)) * (uint hi + uint (drop_bit 32 h) + uint c1)"
  proof -
    have "uint (ucast acc' :: u64) + 2 ^ 64 * uint c2
        = uint (r1 ! (i + 1)) + (uint hi + uint (drop_bit 32 h) + uint c1)"
      unfolding c2_def u128_words unfolding acc'_def uint_sum128 by (simp only: add.assoc)
    then show ?thesis unfolding r2_def using assms len by (intro words_val_step) simp_all
  qed
  have "uint MOD_ADJUST * uint h = uint lo + uint (push_bit 32 h) + 2 ^ 64 * (uint hi + uint (drop_bit 32 h))"
    using mul64_spec [OF m] shift32_split [of h] by (simp add: MOD_ADJUST_def)
  from arg_cong [OF this, of "\<lambda>x. 2 ^ (64 * i) * x"]
  have tot: "words_val r2 + 2 ^ (64 * (i + 2)) * uint c2 = words_val r + 2 ^ (64 * i) * (uint MOD_ADJUST * uint h)"
    using 1 2 by (simp add: power_add algebra_simps)
  show "?V mod 2 ^ 320 = (words_val r + 2 ^ (64 * i) * (uint MOD_ADJUST * uint h)) mod 2 ^ 320"
  proof (cases "h = 0")
    case False
    have "i + 2 \<le> length r2" using assms len by simp
    from carry_words_spec [OF this, of c2] show ?thesis
      using False len unfolding e tot [symmetric] by simp
  qed (simp add: reduce_limb_def)
qed

lemma list5_conv: "length r = 5 \<longleftrightarrow> (\<exists>a b c d e. r = [a, b, c, d, e])"
  by (auto simp: numeral_eq_Suc length_Suc_conv)

text \<open>The nested carry tests of \<open>fold_overflow\<close> are the plain carry run.\<close>

lemma carry_words_5:
  "carry_words [r0, r1, r2, r3, 0] 2 c =
     (if c \<noteq> 0 then
        (let acc2 = ucast r2 + ucast c :: u128; c2 = ucast (drop_bit 64 acc2) :: u64
         in if c2 \<noteq> 0 then
              (let acc3 = ucast r3 + ucast c2 :: u128; c3 = ucast (drop_bit 64 acc3) :: u64
               in [r0, r1, ucast acc2, ucast acc3, c3])
            else [r0, r1, ucast acc2, r3, 0])
      else [r0, r1, r2, r3, 0])"
proof -
  have z: "ucast (ucast x :: u128) = (x :: u64)" "drop_bit 64 (ucast (x :: u64) :: u128) = 0" for x :: u64
  proof -
    show "ucast (ucast x :: u128) = (x :: u64)"
      by (auto intro!: bit_word_eqI simp: bit_simps dest: bit_imp_le_length)
    show "drop_bit 64 (ucast (x :: u64) :: u128) = 0"
      by (simp add: word_uint_eq_iff uint_drop_bit_div)
  qed
  show ?thesis
    by (simp add: carry_words.simps [of _ 2] carry_words.simps [of _ 3] carry_words.simps [of _ 4]
        carry_words.simps [of _ 5] Let_def z)
qed

lemma fold_overflow_carry:
  "fold_overflow [r0, r1, r2, r3, r4] =
     (if r4 = 0 then [r0, r1, r2, r3, 0]
      else
        (let tm = ucast r4 * 0x1000003D1 :: u128;
             acc0 = ucast r0 + ucast (ucast tm :: u64) :: u128;
             acc1 = ucast r1 + ucast (ucast (drop_bit 64 tm) :: u64)
                      + ucast (ucast (drop_bit 64 acc0) :: u64) :: u128
         in carry_words [ucast acc0, ucast acc1, r2, r3, 0] 2 (ucast (drop_bit 64 acc1))))"
  unfolding carry_words_5 fold_overflow_def by (simp add: Let_def cong: if_cong)

lemma fold_overflow_spec:
  assumes "length r = 5" "words_val r < 2 ^ 300"
  shows "words_val (fold_overflow r) = words_val r mod 2 ^ 256 + uint MOD_ADJUST * (words_val r div 2 ^ 256)"
    "length (fold_overflow r) = 5"
proof -
  obtain r0 r1 r2 r3 r4 where r: "r = [r0, r1, r2, r3, r4]" using assms(1) by (auto simp: list5_conv)
  define tm where "tm = (ucast r4 * 0x1000003D1 :: u128)"
  define acc0 where "acc0 = (ucast r0 + ucast (ucast tm :: u64) :: u128)"
  define acc1 where "acc1 = (ucast r1 + ucast (ucast (drop_bit 64 tm) :: u64)
      + ucast (ucast (drop_bit 64 acc0) :: u64) :: u128)"
  define c :: u64 where "c = ucast (drop_bit 64 acc1)"
  have e: "fold_overflow r = (if r4 = 0 then [r0, r1, r2, r3, 0]
      else carry_words [ucast acc0, ucast acc1, r2, r3, 0] 2 c)"
    unfolding r fold_overflow_carry Let_def c_def acc1_def acc0_def tm_def ..
  let ?low = "words_val [r0, r1, r2, r3]"
  have low: "?low < 2 ^ 256" "words_val r = ?low + 2 ^ 256 * uint r4"
    using words_val_bound [of "[r0, r1, r2, r3]"] words_val_append [of "[r0, r1, r2, r3]" "[r4]"] by (simp_all add: r)
  have dm: "words_val r mod 2 ^ 256 = ?low" "words_val r div 2 ^ 256 = uint r4"
    unfolding low(2) using low(1) by simp_all
  have r4: "uint r4 < 2 ^ 44" using assms(2) low(2) words_val_nonneg [of "[r0, r1, r2, r3]"]
    by (simp del: words_val.simps words_val_nonneg)
  have K: "uint tm = uint MOD_ADJUST * uint r4"
  proof -
    have "uint r4 * 0x1000003D1 < 2 ^ 128" using r4 by simp
    then show ?thesis by (simp add: tm_def uint_word_ariths MOD_ADJUST_def)
  qed
  show "length (fold_overflow r) = 5" by (simp add: e)
  have t: "uint (ucast tm :: u64) + 2 ^ 64 * uint (ucast (drop_bit 64 tm) :: u64) = uint MOD_ADJUST * uint r4"
    unfolding u128_words K ..
  have a0: "uint (ucast acc0 :: u64) + 2 ^ 64 * uint (ucast (drop_bit 64 acc0) :: u64) = uint r0 + uint (ucast tm :: u64)"
    unfolding u128_words unfolding acc0_def uint_sum128 ..
  have a1: "uint (ucast acc1 :: u64) + 2 ^ 64 * uint c
      = uint r1 + uint (ucast (drop_bit 64 tm) :: u64) + uint (ucast (drop_bit 64 acc0) :: u64)"
    unfolding c_def u128_words unfolding acc1_def uint_sum128 ..
  have tot: "words_val [ucast acc0, ucast acc1, r2, r3, 0] + 2 ^ 128 * uint c = ?low + uint MOD_ADJUST * uint r4"
    using t a0 a1 by (simp add: algebra_simps)
  have "words_val (fold_overflow r) = ?low + uint MOD_ADJUST * uint r4"
  proof (cases "r4 = 0")
    case False
    have "?low + uint MOD_ADJUST * uint r4 < 2 ^ 320"
      using low(1) r4 by (simp add: MOD_ADJUST_def)
    then show ?thesis
      using carry_words_spec [of 2 "[ucast acc0, ucast acc1, r2, r3, 0]" c] False tot
      by (intro mod_size_eq) (simp_all add: e)
  qed (simp add: e)
  then show "words_val (fold_overflow r) = words_val r mod 2 ^ 256 + uint MOD_ADJUST * (words_val r div 2 ^ 256)"
    by (simp only: dm)
qed


lemma limbs_of_val:
  assumes "length r = 5" "words_val r < 2 ^ 256"
  shows "lval (limbs_of r) = words_val r"
proof -
  obtain r0 r1 r2 r3 r4 where r: "r = [r0, r1, r2, r3, r4]" using assms(1) by (auto simp: list5_conv)
  have v: "words_val r = lval (limbs_of r) + 2 ^ 256 * uint r4" by (simp add: r limbs_of_def)
  then have "uint r4 < 1"
    using assms(2) lval_nonneg [of "limbs_of r"] by (simp del: lval_nonneg)
  then have "uint r4 = 0" using uint_ge_0 [of r4] by linarith
  then show ?thesis using v by simp
qed

text \<open>The high words folded one by one: the low half plus \<open>2^32 + 977\<close> times the high half.\<close>

lemma reduce_high:
  assumes "length t = 8"
  defines "r \<equiv> fold (\<lambda>i. reduce_limb i (t ! (4 + i))) [0..<4] [t ! 0, t ! 1, t ! 2, t ! 3, 0]"
  shows "words_val r = words_val (take 4 t) + uint MOD_ADJUST * words_val (drop 4 t)" "length r = 5"
    "words_val r < 2 ^ 300"
proof -
  let ?K = "uint MOD_ADJUST"
  obtain t0 t1 t2 t3 t4 t5 t6 t7 where t: "t = [t0, t1, t2, t3, t4, t5, t6, t7]"
    using assms by (auto simp: length8_conv numeral_eq_Suc length_Suc_conv)
  let ?lo = "words_val [t0, t1, t2, t3]" and ?hi = "words_val [t4, t5, t6, t7]"
  let ?rep = "\<lambda>x v. words_val x mod 2 ^ 320 = v mod 2 ^ 320 \<and> length x = 5"
  have step: "?rep (reduce_limb i h x) (v + 2 ^ (64 * i) * (?K * uint h))" if "?rep x v" "i < 4" for x v i h
    using that reduce_limb_spec [of x i h] by (metis mod_add_left_eq)
  have "?rep [t0, t1, t2, t3, 0] ?lo" by simp
  from step [OF step [OF step [OF step [OF this]]], of 0 1 2 3 t7 t6 t5 t4]
  have "?rep r (?lo + 2 ^ (64 * 0) * (?K * uint t4) + 2 ^ (64 * 1) * (?K * uint t5)
      + 2 ^ (64 * 2) * (?K * uint t6) + 2 ^ (64 * 3) * (?K * uint t7))"
    by (simp add: r_def t upt_rec numeral_2_eq_2 numeral_3_eq_3)
  moreover have "?lo + 2 ^ (64 * 0) * (?K * uint t4) + 2 ^ (64 * 1) * (?K * uint t5)
      + 2 ^ (64 * 2) * (?K * uint t6) + 2 ^ (64 * 3) * (?K * uint t7) = ?lo + ?K * ?hi"
    by (simp add: algebra_simps)
  ultimately have r: "words_val r mod 2 ^ 320 = (?lo + ?K * ?hi) mod 2 ^ 320" "length r = 5" by metis+
  have "?K * ?hi < 2 ^ 34 * 2 ^ 256" "?lo < 2 ^ 256"
    using words_val_bound [of "[t0, t1, t2, t3]"] words_val_bound [of "[t4, t5, t6, t7]"]
    by (auto intro!: mult_strict_mono simp: MOD_ADJUST_def simp del: words_val.simps)
  then have b: "?lo + ?K * ?hi < 2 ^ 300" by (simp del: words_val.simps)
  then have "words_val r = ?lo + ?K * ?hi"
    using r by (intro mod_size_eq) (simp_all del: words_val.simps)
  then show "words_val r = words_val (take 4 t) + ?K * words_val (drop 4 t)" "length r = 5" "words_val r < 2 ^ 300"
    using r b by (simp_all add: t del: words_val.simps)
qed

text \<open>One overflow pass as a function on numbers; two of them bring the sum below \<open>2^256\<close>.\<close>

definition fold256 :: "int \<Rightarrow> int" where
  "fold256 x = x mod 2 ^ 256 + uint MOD_ADJUST * (x div 2 ^ 256)"

lemma fold256_mod: "fold256 x mod prime_p = x mod prime_p"
  using mod_p_fold [of "x mod 2 ^ 256" "x div 2 ^ 256"] by (simp add: fold256_def)

lemma fold256_bound:
  assumes "0 \<le> x" "x < 2 ^ 290"
  shows "0 \<le> fold256 x" "fold256 x < 2 ^ 256 + 2 ^ 70"
proof -
  have "x div 2 ^ 256 \<le> 2 ^ 34" using zdiv_mono1 [of x "2 ^ 290" "2 ^ 256"] assms by simp
  then have "uint MOD_ADJUST * (x div 2 ^ 256) \<le> uint MOD_ADJUST * 2 ^ 34" by (intro mult_left_mono) simp_all
  moreover have "uint MOD_ADJUST * 2 ^ 34 < 2 ^ 70" by (simp add: MOD_ADJUST_def)
  moreover have "x mod 2 ^ 256 < 2 ^ 256" by simp
  ultimately show "fold256 x < 2 ^ 256 + 2 ^ 70" unfolding fold256_def by linarith
  show "0 \<le> fold256 x" using assms by (simp add: fold256_def pos_imp_zdiv_nonneg_iff)
qed

lemma fold256_twice:
  assumes "0 \<le> x" "x < 2 ^ 290"
  shows "0 \<le> fold256 (fold256 x)" "fold256 (fold256 x) < 2 ^ 256"
proof -
  let ?y = "fold256 x"
  note b = fold256_bound [OF assms]
  have "?y mod 2 ^ 256 = (if ?y < 2 ^ 256 then ?y else ?y - 2 ^ 256)"
    using b by (intro mod_one_sub) simp_all
  moreover have "?y div 2 ^ 256 = (if ?y < 2 ^ 256 then 0 else 1)"
    using b by (auto simp: div_pos_pos_trivial div_pos_geq)
  ultimately show "0 \<le> fold256 ?y" "fold256 ?y < 2 ^ 256"
    using b unfolding fold256_def [of ?y] by (auto simp: MOD_ADJUST_def)
qed

text \<open>The reduction of a 512-bit number: any input, the canonical residue.\<close>

lemma lval_reduce:
  assumes "length t = 8"
  shows "lval (fe_reduce t) = words_val t mod prime_p"
proof -
  define r where "r = fold (\<lambda>i. reduce_limb i (t ! (4 + i))) [0..<4] [t ! 0, t ! 1, t ! 2, t ! 3, 0]"
  note h = reduce_high [OF assms, folded r_def]
  let ?lo = "words_val (take 4 t)" and ?hi = "words_val (drop 4 t)"
  have b: "?lo < 2 ^ 256" "?hi < 2 ^ 256"
    using words_val_bound [of "take 4 t"] words_val_bound [of "drop 4 t"] assms by simp_all
  have "words_val r < 2 ^ 290" using b unfolding h(1) by (simp add: MOD_ADJUST_def)
  note f = fold256_bound [OF words_val_nonneg this] fold256_twice [OF words_val_nonneg this]
  note o1 = fold_overflow_spec [OF h(2,3), folded fold256_def]
  have "words_val (fold_overflow r) < 2 ^ 300" using f(2) unfolding o1(1) by simp
  note o2 = fold_overflow_spec [OF o1(2) this, folded fold256_def, unfolded o1(1)]
  have out: "lval (limbs_of (fold_overflow (fold_overflow r))) = fold256 (fold256 (words_val r))"
    using limbs_of_val [OF o2(2)] f(4) unfolding o2(1) by blast
  have "words_val t = ?lo + 2 ^ 256 * ?hi"
    using words_val_append [of "take 4 t" "drop 4 t"] assms by simp
  then have m: "words_val t mod prime_p = fold256 (fold256 (words_val r)) mod prime_p"
    unfolding fold256_mod h(1) by (simp only: mod_p_fold)
  also have "\<dots> = (if fold256 (fold256 (words_val r)) < prime_p then fold256 (fold256 (words_val r))
      else fold256 (fold256 (words_val r)) - prime_p)"
    using f prime_p_bounds by (intro mod_one_sub) simp_all
  finally show ?thesis
    unfolding fe_reduce_def Let_def r_def [symmetric]
    by (simp add: case_prod_beta sub4_val lval_PRIME out)
qed


section \<open>The version without 128-bit integers\<close>

text \<open>\<open>SECP256K1_NO_INT128\<close>: sums of words with explicit wrap tests, the product from \<open>mul64_noint128\<close>.\<close>

definition add64c :: "u64 \<Rightarrow> u64 \<Rightarrow> u64 \<times> u64" where
  "add64c a b = (let s = a + b in (s, if s < a then 1 else 0))"

function carry_words_noint128 :: "u64 list \<Rightarrow> nat \<Rightarrow> u64 \<Rightarrow> u64 list" where
  "carry_words_noint128 result j carry =
     (if j < length result then
        (let (s, e) = add64c (result ! j) carry in carry_words_noint128 (result[j := s]) (j + 1) e)
      else result)"
  by pat_completeness auto
termination by (relation "measure (\<lambda>(result, j, carry). length result - j)") auto

declare carry_words_noint128.simps [simp del]

definition reduce_limb_noint128 :: "nat \<Rightarrow> u64 \<Rightarrow> u64 list \<Rightarrow> u64 list" where
  "reduce_limb_noint128 i hi_limb result =
     (if hi_limb = 0 then result
      else
        (let (lo977, hi977) = mul64_noint128 hi_limb 977;
             (s, c1) = add64c (result ! i) lo977;
             (s, c2) = add64c s (push_bit 32 hi_limb);
             result = result[i := s];
             carry = c1 + c2;
             (t, d1) = add64c (result ! (i + 1)) hi977;
             (t, d2) = add64c t (drop_bit 32 hi_limb);
             (t, d3) = add64c t carry;
             result = result[i + 1 := t];
             carry = d1 + d2 + d3
         in carry_words_noint128 result (i + 2) carry))"

definition fold_overflow_noint128 :: "u64 list \<Rightarrow> u64 list" where
  "fold_overflow_noint128 result =
     (let overflow = result ! 4;
          result = result[4 := 0]
      in if overflow = 0 then result
         else
           (let (term_lo, term_hi) = mul64_noint128 overflow 0x1000003D1;
                (r0, c0) = add64c (result ! 0) term_lo;
                result = result[0 := r0];
                (t1, c1a) = add64c (result ! 1) term_hi;
                (r1, c1b) = add64c t1 c0;
                result = result[1 := r1];
                carry = c1a + c1b
            in if carry \<noteq> 0 then
                 (let (r2, c2) = add64c (result ! 2) carry;
                      result = result[2 := r2]
                  in if c2 \<noteq> 0 then
                       (let (r3, c3) = add64c (result ! 3) c2;
                            result = result[3 := r3]
                        in if c3 \<noteq> 0 then result[4 := result ! 4 + c3] else result)
                     else result)
               else result))"

definition fe_reduce_noint128 :: "u64 list \<Rightarrow> limbs4" where
  "fe_reduce_noint128 t =
     (let result = [t ! 0, t ! 1, t ! 2, t ! 3, 0];
          result = fold (\<lambda>i. reduce_limb_noint128 i (t ! (4 + i))) [0..<4] result;
          result = fold_overflow_noint128 (fold_overflow_noint128 result);
          out = limbs_of result;
          (reduced, borrow) = sub4 out PRIME;
          m = 0 - ucast (1 - (ucast borrow :: u32)) :: u64
      in or_select out reduced m)"

lemma add64c_spec: "add64c a b = (s, c) \<Longrightarrow> uint s + 2 ^ 64 * uint c = uint a + uint b \<and> uint c \<le> 1"
  by (auto simp: add64c_def Let_def uint_plus_if' word_less_def)

lemma word_and_32: "uint ((x :: u64) AND 0xFFFFFFFF) = uint x mod 2 ^ 32"
proof -
  have "x AND 0xFFFFFFFF = take_bit 32 x" by (simp add: take_bit_eq_mask mask_eq_exp_minus_1)
  then have "uint (x AND 0xFFFFFFFF) = take_bit 32 (uint x)" by (simp only: unsigned_take_bit_eq)
  then show ?thesis by (simp only: take_bit_eq_mod)
qed

lemma half_words:
  fixes a b :: int
  assumes "0 \<le> a" "a < 2 ^ 32" "0 \<le> b" "b < 2 ^ 32"
  shows "a * b \<le> (2 ^ 32 - 1) * (2 ^ 32 - 1)"
  using assms by (intro mult_mono) simp_all

text \<open>Dividing the middle sum by \<open>2^64\<close> through its halves.\<close>

lemma cross_div:
  fixes p0 p1 p2 :: int
  shows "(p0 + 2 ^ 32 * (p1 + p2)) div 2 ^ 64
    = p1 div 2 ^ 32 + p2 div 2 ^ 32 + (p0 div 2 ^ 32 + p1 mod 2 ^ 32 + p2 mod 2 ^ 32) div 2 ^ 32"
proof -
  have "(p0 + 2 ^ 32 * (p1 + p2)) div 2 ^ 64 = (p0 + 2 ^ 32 * (p1 + p2)) div 2 ^ 32 div 2 ^ 32"
    by (simp add: zdiv_zmult2_eq [symmetric])
  also have "(p0 + 2 ^ 32 * (p1 + p2)) div 2 ^ 32 = p0 div 2 ^ 32 + (p1 + p2)"
    by simp
  also have "p0 div 2 ^ 32 + (p1 + p2) = (p0 div 2 ^ 32 + p1 mod 2 ^ 32 + p2 mod 2 ^ 32)
      + 2 ^ 32 * (p1 div 2 ^ 32 + p2 div 2 ^ 32)"
    using mult_div_mod_eq [of "2 ^ 32" p1] mult_div_mod_eq [of "2 ^ 32" p2] by (simp add: distrib_left)
  also have "\<dots> div 2 ^ 32 = p1 div 2 ^ 32 + p2 div 2 ^ 32 + (p0 div 2 ^ 32 + p1 mod 2 ^ 32 + p2 mod 2 ^ 32) div 2 ^ 32"
    by (rule div_mult_self2) simp
  finally show ?thesis .
qed

lemma cross_sum:
  fixes w0 w1 w2 w3 :: u64
  defines "carry \<equiv> drop_bit 32 (drop_bit 32 w0 + (w1 AND 0xFFFFFFFF) + (w2 AND 0xFFFFFFFF))"
  assumes "uint w0 + 2 ^ 32 * (uint w1 + uint w2) + 2 ^ 64 * uint w3 < 2 ^ 128"
  shows "uint (w0 + push_bit 32 w1 + push_bit 32 w2) + 2 ^ 64 * uint (w3 + drop_bit 32 w1 + drop_bit 32 w2 + carry)
    = uint w0 + 2 ^ 32 * (uint w1 + uint w2) + 2 ^ 64 * uint w3"
proof -
  let ?X = "uint w0 + 2 ^ 32 * (uint w1 + uint w2)"
  let ?s = "uint w0 div 2 ^ 32 + uint w1 mod 2 ^ 32 + uint w2 mod 2 ^ 32"
  have h: "uint x div 2 ^ 32 < 2 ^ 32" "0 \<le> uint x div 2 ^ 32" for x :: u64
    using zdiv_mono1 [of "uint x" "2 ^ 64 - 1" "2 ^ 32"] uint_lt64 [of x]
    by (simp_all add: pos_imp_zdiv_nonneg_iff del: uint_lt64)
  have m: "0 \<le> x mod 2 ^ 32" "x mod 2 ^ 32 < 2 ^ 32" for x :: int by simp_all
  have add: "uint (x + y) = uint x + uint y" if "uint x + uint y < 2 ^ 64" for x y :: u64
    using that by (simp add: uint_word_ariths)
  have s: "uint (drop_bit 32 w0 + (w1 AND 0xFFFFFFFF) + (w2 AND 0xFFFFFFFF)) = ?s"
  proof -
    have "uint (drop_bit 32 w0 + (w1 AND 0xFFFFFFFF)) = uint w0 div 2 ^ 32 + uint w1 mod 2 ^ 32"
      using h [of w0] m [of "uint w1"] by (subst add) (simp_all add: uint_drop_bit_div word_and_32)
    then show ?thesis
      using h [of w0] m [of "uint w1"] m [of "uint w2"] by (subst add) (simp_all add: word_and_32)
  qed
  then have c: "uint carry = ?s div 2 ^ 32" by (simp only: carry_def uint_drop_bit_div)
  have lo: "uint (w0 + push_bit 32 w1 + push_bit 32 w2) = ?X mod 2 ^ 64"
  proof -
    have "w0 + push_bit 32 w1 + push_bit 32 w2 = word_of_int ?X"
      by (simp add: push_bit_eq_mult distrib_left)
    moreover have "uint (word_of_int k :: u64) = k mod 2 ^ 64" for k by (simp add: uint_word_of_int)
    ultimately show ?thesis by (simp only:)
  qed
  have d: "?X div 2 ^ 64 = uint w1 div 2 ^ 32 + uint w2 div 2 ^ 32 + ?s div 2 ^ 32" by (rule cross_div)
  have "2 ^ 64 * (?X div 2 ^ 64) \<le> ?X" using mult_div_mod_eq [of "2 ^ 64" ?X] by simp
  moreover have "B + D < 2 ^ 64" if "A + 2 ^ 64 * B < 2 ^ 128" "2 ^ 64 * D \<le> A" for A B D :: int
    using that by simp
  ultimately have top: "uint w3 + ?X div 2 ^ 64 < 2 ^ 64" using assms(2) by blast
  let ?q1 = "drop_bit 32 w1" and ?q2 = "drop_bit 32 w2"
  have t: "uint w3 + uint ?q1 + uint ?q2 + uint carry = uint w3 + ?X div 2 ^ 64"
    unfolding d c uint_drop_bit_div by (simp only: add.assoc)
  note nn = uint_ge_0 [of w3] uint_ge_0 [of ?q1] uint_ge_0 [of ?q2] uint_ge_0 [of carry]
  have "uint (w3 + ?q1) = uint w3 + uint ?q1" by (rule add) (use top t nn in linarith)
  moreover from this have "uint (w3 + ?q1 + ?q2) = uint w3 + uint ?q1 + uint ?q2"
    using add [of "w3 + ?q1" ?q2] top t nn by linarith
  moreover from this have "uint (w3 + ?q1 + ?q2 + carry) = uint w3 + uint ?q1 + uint ?q2 + uint carry"
    using add [of "w3 + ?q1 + ?q2" carry] top t nn by linarith
  ultimately have "uint (w3 + drop_bit 32 w1 + drop_bit 32 w2 + carry) = uint w3 + ?X div 2 ^ 64"
    by (simp only: t)
  then show ?thesis unfolding lo using mult_div_mod_eq [of "2 ^ 64" ?X] by (simp only: distrib_left)
qed

lemma mul64_noint128_eq: "mul64_noint128 a b = mul64 a b"
proof -
  let ?al = "a AND 0xFFFFFFFF" and ?ah = "drop_bit 32 a" and ?bl = "b AND 0xFFFFFFFF" and ?bh = "drop_bit 32 b"
  have half: "uint (x AND 0xFFFFFFFF) < 2 ^ 32" "uint (drop_bit 32 x) < 2 ^ 32"
    "uint x = uint (x AND 0xFFFFFFFF) + 2 ^ 32 * uint (drop_bit 32 x)" for x :: u64
    using zdiv_mono1 [of "uint x" "2 ^ 64 - 1" "2 ^ 32"] uint_lt64 [of x]
    by (simp_all add: word_and_32 uint_drop_bit_div del: uint_lt64)
  have mul: "uint (x * y) = uint x * uint y" if "uint x < 2 ^ 32" "uint y < 2 ^ 32" for x y :: u64
    using half_words [of "uint x" "uint y"] that by (simp add: uint_word_ariths)
  note w = mul [OF half(1) half(1)] mul [OF half(1) half(2)] mul [OF half(2) half(1)] mul [OF half(2) half(2)]
  have ab: "uint a * uint b = uint (?al * ?bl) + 2 ^ 32 * (uint (?al * ?bh) + uint (?ah * ?bl)) + 2 ^ 64 * uint (?ah * ?bh)"
    unfolding w half(3) [of a] half(3) [of b] by (simp add: algebra_simps)
  have "uint a * uint b < 2 ^ 64 * 2 ^ 64"
    using uint_lt64 [of a] uint_lt64 [of b] by (intro mult_strict_mono') (simp_all del: uint_lt64)
  then have "uint (?al * ?bl) + 2 ^ 32 * (uint (?al * ?bh) + uint (?ah * ?bl)) + 2 ^ 64 * uint (?ah * ?bh) < 2 ^ 128"
    unfolding ab by simp
  from cross_sum [OF this]
  have 1: "uint (fst (mul64_noint128 a b)) + 2 ^ 64 * uint (snd (mul64_noint128 a b)) = uint a * uint b"
    unfolding ab mul64_noint128_def by (simp only: Let_def fst_conv snd_conv)
  obtain lo hi where 2: "mul64 a b = (lo, hi)" by fastforce
  have "fst (mul64_noint128 a b) = lo \<and> uint (snd (mul64_noint128 a b)) = uint hi"
    using 1 mul64_spec [OF 2] by (intro limb_split) simp
  then show ?thesis by (simp add: 2 prod_eq_iff word_uint_eq_iff)
qed

lemma add64c_eq: "add64c x y = (ucast (ucast x + ucast y :: u128), ucast (drop_bit 64 (ucast x + ucast y :: u128)))"
proof -
  obtain s c where 1: "add64c x y = (s, c)" by fastforce
  let ?t = "ucast x + ucast y :: u128"
  have "s = ucast ?t \<and> uint c = uint (ucast (drop_bit 64 ?t) :: u64)"
    using add64c_spec [OF 1] u128_words [of ?t] by (intro limb_split) (simp only: uint_sum128)
  then show ?thesis by (simp add: 1 word_uint_eq_iff)
qed

lemma uint_add_flags: "uint c \<le> 1 \<Longrightarrow> uint d \<le> 1 \<Longrightarrow> uint (c + d :: u64) = uint c + uint d"
  "uint c \<le> 1 \<Longrightarrow> uint d \<le> 1 \<Longrightarrow> uint e \<le> 2 \<Longrightarrow> uint (c + d + e :: u64) = uint c + uint d + uint e"
  by (simp_all add: uint_word_ariths)

text \<open>Chained \<open>add64c\<close> sums give the low and high word of the 128-bit sum.\<close>

lemma add64c_three:
  assumes "add64c x y = (s, c1)" "add64c s z = (s', c2)"
  shows "s' = ucast (ucast x + ucast y + ucast z :: u128)"
    "c1 + c2 = ucast (drop_bit 64 (ucast x + ucast y + ucast z :: u128))"
proof -
  let ?t = "ucast x + ucast y + ucast z :: u128"
  note s1 = add64c_spec [OF assms(1)] and s2 = add64c_spec [OF assms(2)]
  have "uint (c1 + c2) = uint c1 + uint c2" using s1 s2 by (intro uint_add_flags) auto
  then have "uint s' + 2 ^ 64 * uint (c1 + c2) = uint x + uint y + uint z" using s1 s2 by (simp add: distrib_left)
  then have "s' = ucast ?t \<and> uint (c1 + c2) = uint (ucast (drop_bit 64 ?t) :: u64)"
    using u128_words [of ?t] by (intro limb_split) (simp only: uint_sum128)
  then show "s' = ucast ?t" "c1 + c2 = ucast (drop_bit 64 ?t)" by (simp_all add: word_uint_eq_iff)
qed

lemma add64c_four:
  assumes "add64c x y = (s, c1)" "add64c s z = (s', c2)" "add64c s' w = (s'', c3)"
  shows "s'' = ucast (ucast x + ucast y + ucast z + ucast w :: u128)"
    "c1 + c2 + c3 = ucast (drop_bit 64 (ucast x + ucast y + ucast z + ucast w :: u128))"
proof -
  let ?t = "ucast x + ucast y + ucast z + ucast w :: u128"
  note s1 = add64c_spec [OF assms(1)] and s2 = add64c_spec [OF assms(2)] and s3 = add64c_spec [OF assms(3)]
  have "uint (c1 + c2 + c3) = uint c1 + uint c2 + uint c3"
    using s1 s2 s3 by (simp add: uint_word_ariths)
  then have "uint s'' + 2 ^ 64 * uint (c1 + c2 + c3) = uint x + uint y + uint z + uint w"
    using s1 s2 s3 by (simp add: distrib_left)
  then have "s'' = ucast ?t \<and> uint (c1 + c2 + c3) = uint (ucast (drop_bit 64 ?t) :: u64)"
    using u128_words [of ?t] by (intro limb_split) (simp only: uint_sum128)
  then show "s'' = ucast ?t" "c1 + c2 + c3 = ucast (drop_bit 64 ?t)" by (simp_all add: word_uint_eq_iff)
qed

lemma carry_words_noint128_eq: "carry_words_noint128 r j c = carry_words r j c"
proof (induction r j c rule: carry_words_noint128.induct)
  case (1 r j c)
  then show ?case
    by (subst carry_words_noint128.simps, subst carry_words.simps) (simp add: add64c_eq Let_def)
qed

lemma reduce_limb_noint128_eq: "reduce_limb_noint128 i h r = reduce_limb i h r"
proof -
  obtain lo hi where m: "mul64 h 977 = (lo, hi)" by fastforce
  obtain s c1 where 1: "add64c (r ! i) lo = (s, c1)" by fastforce
  obtain s' c2 where 2: "add64c s (push_bit 32 h) = (s', c2)" by fastforce
  let ?r = "r[i := s']"
  obtain t d1 where 3: "add64c (?r ! (i + 1)) hi = (t, d1)" by fastforce
  obtain t' d2 where 4: "add64c t (drop_bit 32 h) = (t', d2)" by fastforce
  obtain t'' d3 where 5: "add64c t' (c1 + c2) = (t'', d3)" by fastforce
  have "reduce_limb_noint128 i h r = (if h = 0 then r else carry_words (?r[i + 1 := t'']) (i + 2) (d1 + d2 + d3))"
    unfolding reduce_limb_noint128_def mul64_noint128_eq carry_words_noint128_eq m prod.case 1 2 Let_def 3 4 5 ..
  also have "\<dots> = reduce_limb i h r"
    unfolding reduce_limb_def m prod.case Let_def add64c_four [OF 3 4 5] add64c_three [OF 1 2] ..
  finally show ?thesis .
qed

lemma fold_overflow_noint128_eq:
  assumes "length r = 5"
  shows "fold_overflow_noint128 r = fold_overflow r"
proof -
  obtain r0 r1 r2 r3 r4 where r: "r = [r0, r1, r2, r3, r4]" using assms by (auto simp: list5_conv)
  let ?tm = "ucast r4 * 0x1000003D1 :: u128"
  have m: "mul64 r4 0x1000003D1 = (ucast ?tm, ucast (drop_bit 64 ?tm))" by (simp add: mul64_def Let_def)
  obtain s0 c0 where 0: "add64c r0 (ucast ?tm) = (s0, c0)" by fastforce
  obtain t1 c1a where 1: "add64c r1 (ucast (drop_bit 64 ?tm)) = (t1, c1a)" by fastforce
  obtain s1 c1b where 2: "add64c t1 c0 = (s1, c1b)" by fastforce
  have e0: "s0 = ucast (ucast r0 + ucast (ucast ?tm :: u64) :: u128)"
    "c0 = ucast (drop_bit 64 (ucast r0 + ucast (ucast ?tm :: u64) :: u128))"
    using 0 by (simp_all add: add64c_eq)
  note e1 = add64c_three [OF 1 2]
  have "fold_overflow_noint128 r = (if r4 = 0 then [r0, r1, r2, r3, 0] else carry_words [s0, s1, r2, r3, 0] 2 (c1a + c1b))"
    unfolding fold_overflow_noint128_def r mul64_noint128_eq carry_words_5
    by (simp add: m Let_def 0 1 2 add64c_eq [of r2 "c1a + c1b"] add64c_eq [of r3 "ucast (drop_bit 64 (ucast r2 + ucast (c1a + c1b)))"]
        cong: if_cong)
  also have "\<dots> = fold_overflow r" unfolding r fold_overflow_carry Let_def e0 [symmetric] e1 ..
  finally show ?thesis .
qed

lemma fe_reduce_noint128_eq:
  assumes "length t = 8"
  shows "fe_reduce_noint128 t = fe_reduce t"
proof -
  let ?r = "fold (\<lambda>i. reduce_limb i (t ! (4 + i))) [0..<4] [t ! 0, t ! 1, t ! 2, t ! 3, 0]"
  note h = reduce_high(2,3) [OF assms]
  have "fold_overflow_noint128 (fold_overflow_noint128 ?r) = fold_overflow (fold_overflow ?r)"
    using h fold_overflow_spec(2) [OF h] by (simp add: fold_overflow_noint128_eq)
  then show ?thesis unfolding fe_reduce_noint128_def fe_reduce_def reduce_limb_noint128_eq Let_def by simp
qed

section \<open>The class\<close>

datatype field_element = FieldElement (fe_limbs: limbs4)

definition fval :: "field_element \<Rightarrow> int" where
  "fval a = lval (fe_limbs a)"

text \<open>The class invariant: the limbs hold a number below the prime.\<close>

definition fe_ok :: "field_element \<Rightarrow> bool" where
  "fe_ok a \<longleftrightarrow> fval a < prime_p"

lemma fval_nonneg [simp]: "0 \<le> fval a"
  by (simp add: fval_def)

lemma fval_inj: "fval a = fval b \<longleftrightarrow> a = b"
  by (cases a; cases b) (simp add: fval_def lval_inj)

lemma fe_okD [simp]: "fe_ok a \<Longrightarrow> fval a mod prime_p = fval a"
  by (simp add: fe_ok_def)

lemma fe_ok_mod: "fval a = x mod prime_p \<Longrightarrow> fe_ok a"
  using prime_p_bounds by (simp add: fe_ok_def)

definition fe_make :: "limbs4 \<Rightarrow> bool \<Rightarrow> field_element" where
  "fe_make l normalized = FieldElement (if \<not> normalized then fe_normalize l else l)"

definition fe_zero :: field_element where
  "fe_zero = FieldElement (Limbs4 0 0 0 0)"

definition fe_one :: field_element where
  "fe_one = fe_make (Limbs4 1 0 0 0) True"

definition fe_from_uint64 :: "u64 \<Rightarrow> field_element" where
  "fe_from_uint64 value = fe_make (fe_normalize (Limbs4 value 0 0 0)) True"

definition fe_from_limbs :: "limbs4 \<Rightarrow> field_element" where
  "fe_from_limbs l = FieldElement (fe_normalize l)"

definition fe_from_bytes :: "bytes \<Rightarrow> field_element" where
  "fe_from_bytes bs =
     (let l = load_be_limbs bs;
          l = (if limbs_ge l PRIME then fe_sub_impl l PRIME else l)
      in fe_make l True)"

text \<open>The strict parser writes its output only on success.\<close>

definition fe_parse_bytes_strict :: "bytes \<Rightarrow> field_element \<Rightarrow> bool \<times> field_element" where
  "fe_parse_bytes_strict bytes32 out =
     (let l = load_be_limbs bytes32
      in if limbs_ge l PRIME then (False, out) else (True, fe_make l True))"

definition fe_to_bytes :: "field_element \<Rightarrow> bytes" where
  "fe_to_bytes a = store_be_limbs (fe_limbs a)"

definition fe_to_hex :: "field_element \<Rightarrow> string" where
  "fe_to_hex a =
     concat (map (\<lambda>b. [hex_chars ! unat (drop_bit 4 b AND 0xF), hex_chars ! unat (b AND 0xF)]) (fe_to_bytes a))"

definition fe_from_hex :: "string \<Rightarrow> hex_error + field_element" where
  "fe_from_hex hex =
     (if length hex \<noteq> 64 then Inl Hex_bad_length
      else case hex_to_bytes hex of Inl e \<Rightarrow> Inl e | Inr bs \<Rightarrow> Inr (fe_from_bytes bs))"

text \<open>\<open>operator*\<close> and \<open>square\<close> without assembly: \<open>reduce(mul_wide(a, b))\<close>.\<close>

definition fe_mul_impl :: "limbs4 \<Rightarrow> limbs4 \<Rightarrow> limbs4" where
  "fe_mul_impl a b = fe_reduce (mul_wide a b)"

definition fe_square_impl :: "limbs4 \<Rightarrow> limbs4" where
  "fe_square_impl a = fe_reduce (mul_wide a a)"

definition fe_add :: "field_element \<Rightarrow> field_element \<Rightarrow> field_element" where
  "fe_add a b = fe_make (fe_add_impl (fe_limbs a) (fe_limbs b)) True"

definition fe_sub :: "field_element \<Rightarrow> field_element \<Rightarrow> field_element" where
  "fe_sub a b = fe_make (fe_sub_impl (fe_limbs a) (fe_limbs b)) True"

definition fe_mul :: "field_element \<Rightarrow> field_element \<Rightarrow> field_element" where
  "fe_mul a b = fe_make (fe_mul_impl (fe_limbs a) (fe_limbs b)) True"

definition fe_square :: "field_element \<Rightarrow> field_element" where
  "fe_square a = fe_make (fe_square_impl (fe_limbs a)) True"

definition fe_negate :: "field_element \<Rightarrow> field_element" where
  "fe_negate a =
     (let (r, borrow) = sub4 PRIME (fe_limbs a);
          nonzero = limbs_or (fe_limbs a);
          m = 0 - (if nonzero \<noteq> 0 then 1 else 0) :: u64
      in fe_make (limbs_and r m) True)"

definition fe_eq :: "field_element \<Rightarrow> field_element \<Rightarrow> bool" where
  "fe_eq a b \<longleftrightarrow> fe_normalize (fe_limbs a) = fe_normalize (fe_limbs b)"

lemma fval_small [val_simps]:
  "fval fe_zero = 0" "fval fe_one = 1" "fval (fe_from_uint64 v) = uint v"
proof -
  have "uint v < prime_p" using uint_lt64 [of v] by (simp add: prime_p_def del: uint_lt64)
  then show "fval (fe_from_uint64 v) = uint v" by (simp add: fval_def fe_from_uint64_def fe_make_def lval_normalize)
qed (simp_all add: fval_def fe_zero_def fe_one_def fe_make_def)

lemma fe_ok_small [simp]: "fe_ok fe_zero" "fe_ok fe_one" "fe_ok (fe_from_uint64 v)"
  using uint_lt64 [of v] by (simp_all add: fe_ok_def fval_small prime_p_def del: uint_lt64)

lemma fval_from_limbs [val_simps]: "fval (fe_from_limbs l) = lval l mod prime_p"
  by (simp add: fval_def fe_from_limbs_def lval_normalize)

lemma fe_ok_from_limbs [simp]: "fe_ok (fe_from_limbs l)"
  by (rule fe_ok_mod) (rule fval_from_limbs)

lemma fval_mul [val_simps]: "fval (fe_mul a b) = (fval a * fval b) mod prime_p"
  by (simp add: fval_def fe_mul_def fe_make_def fe_mul_impl_def lval_reduce mul_wide_spec)

lemma fval_square [val_simps]: "fval (fe_square a) = (fval a * fval a) mod prime_p"
  by (simp add: fval_def fe_square_def fe_make_def fe_square_impl_def lval_reduce mul_wide_spec)

lemma fe_ok_mul [simp]: "fe_ok (fe_mul a b)" "fe_ok (fe_square a)"
  by (rule fe_ok_mod, rule fval_mul) (rule fe_ok_mod, rule fval_square)

lemma fe_square_eq: "fe_square a = fe_mul a a"
  by (simp add: fval_inj [symmetric] val_simps)

lemma fval_add [val_simps]: "fe_ok a \<Longrightarrow> fe_ok b \<Longrightarrow> fval (fe_add a b) = (fval a + fval b) mod prime_p"
  by (simp add: fe_ok_def fval_def fe_add_def fe_make_def lval_fe_add_impl)

lemma fval_sub [val_simps]: "fe_ok a \<Longrightarrow> fe_ok b \<Longrightarrow> fval (fe_sub a b) = (fval a - fval b) mod prime_p"
  by (simp add: fe_ok_def fval_def fe_sub_def fe_make_def lval_fe_sub_impl)

lemma fe_ok_add [simp]: "fe_ok a \<Longrightarrow> fe_ok b \<Longrightarrow> fe_ok (fe_add a b)"
  by (rule fe_ok_mod, rule fval_add)

lemma fe_ok_sub [simp]: "fe_ok a \<Longrightarrow> fe_ok b \<Longrightarrow> fe_ok (fe_sub a b)"
  by (rule fe_ok_mod, rule fval_sub)

lemma limbs_or_0: "limbs_or l = 0 \<longleftrightarrow> lval l = 0"
  by (cases l) (simp add: lval_eq_0 or_eq_0_iff del: lval.simps)

lemma fval_negate [val_simps]:
  assumes "fe_ok a"
  shows "fval (fe_negate a) = (- fval a) mod prime_p"
proof (cases "fval a = 0")
  case True
  then show ?thesis by (simp add: fe_negate_def fval_def case_prod_beta Let_def limbs_or_0 fe_make_def)
next
  case False
  have "(- fval a) mod prime_p = (prime_p - fval a) mod prime_p" by (simp add: mod_diff_left_eq [symmetric])
  also have "\<dots> = prime_p - fval a"
    using False assms fval_nonneg [of a] by (intro mod_pos_pos_trivial) (auto simp: fe_ok_def simp del: fval_nonneg)
  finally show ?thesis
    using False assms
    by (simp add: fe_negate_def fval_def fe_ok_def case_prod_beta Let_def limbs_or_0 fe_make_def sub4_val lval_PRIME)
qed

lemma fe_ok_negate [simp]: "fe_ok a \<Longrightarrow> fe_ok (fe_negate a)"
  by (rule fe_ok_mod, rule fval_negate)

lemma fe_eq_iff: "fe_eq a b \<longleftrightarrow> fval a mod prime_p = fval b mod prime_p"
  unfolding fe_eq_def lval_inj [symmetric] lval_normalize fval_def ..

lemma fe_eq_ok [simp]: "fe_ok a \<Longrightarrow> fe_ok b \<Longrightarrow> fe_eq a b \<longleftrightarrow> a = b"
  by (simp add: fe_eq_iff fval_inj)

lemma fval_load [val_simps]: "length bs = 32 \<Longrightarrow> fval (FieldElement (load_be_limbs bs)) = be_val bs"
  by (simp add: fval_def val_simps)

lemma fe_parse_bytes_strict_iff:
  assumes "length bs = 32"
  shows "fe_parse_bytes_strict bs out =
    (if be_val bs < prime_p then (True, FieldElement (load_be_limbs bs)) else (False, out))"
  using assms by (simp add: fe_parse_bytes_strict_def Let_def limbs_ge_iff lval_PRIME val_simps fe_make_def)

lemma fval_from_bytes [val_simps]:
  assumes "length bs = 32"
  shows "fval (fe_from_bytes bs) = be_val bs mod prime_p"
proof -
  let ?l = "load_be_limbs bs"
  have v: "lval ?l = be_val bs" using assms by (simp add: val_simps)
  have m: "be_val bs mod prime_p = (if be_val bs < prime_p then be_val bs else be_val bs - prime_p)"
    using lval_bound [of ?l] prime_p_bounds by (intro mod_one_sub) (simp_all add: v)
  have "be_val bs - prime_p < 2 ^ 256" using lval_bound [of ?l] prime_p_bounds by (simp add: v)
  then have "lval (fe_sub_impl ?l PRIME) = be_val bs - prime_p" if "prime_p \<le> be_val bs"
    using that by (simp add: fe_sub_impl_def case_prod_beta Let_def sub4_val add4_val lval_PRIME v)
  then show ?thesis
    by (simp add: fe_from_bytes_def Let_def limbs_ge_iff lval_PRIME v fe_make_def fval_def m)
qed

lemma fe_ok_from_bytes [simp]: "length bs = 32 \<Longrightarrow> fe_ok (fe_from_bytes bs)"
  by (rule fe_ok_mod, rule fval_from_bytes)

lemma length_fe_to_bytes [simp, len_simps]: "length (fe_to_bytes a) = 32"
  by (simp add: fe_to_bytes_def)

lemma be_val_fe_to_bytes [val_simps]: "be_val (fe_to_bytes a) = fval a"
  by (simp add: fe_to_bytes_def fval_def val_simps)

lemma fe_from_to_bytes [simp]: "fe_ok a \<Longrightarrow> fe_from_bytes (fe_to_bytes a) = a"
  by (simp add: fval_inj [symmetric] val_simps)

lemma fe_parse_to_bytes [simp]: "fe_ok a \<Longrightarrow> fe_parse_bytes_strict (fe_to_bytes a) out = (True, a)"
  by (cases a) (simp add: fe_parse_bytes_strict_iff val_simps fe_ok_def fe_to_bytes_def fval_def)

lemma fe_to_bytes_load: "length bs = 32 \<Longrightarrow> fe_to_bytes (FieldElement (load_be_limbs bs)) = bs"
  by (simp add: fe_to_bytes_def store_load_be_limbs)

lemma fe_load_eq:
  "length bs = 32 \<Longrightarrow> be_val bs < prime_p \<Longrightarrow> FieldElement (load_be_limbs bs) = fe_from_bytes bs"
  by (simp add: fval_inj [symmetric] fval_load fval_from_bytes)

lemma fe_hex_roundtrip: "fe_ok a \<Longrightarrow> fe_from_hex (fe_to_hex a) = Inr a"
proof -
  have "length (concat (map (\<lambda>b. [f b, g b]) bs)) = 2 * length bs" for f g :: "byte \<Rightarrow> char" and bs
    by (induction bs) auto
  then have "length (fe_to_hex a) = 64" by (simp add: fe_to_hex_def)
  then show "fe_ok a \<Longrightarrow> fe_from_hex (fe_to_hex a) = Inr a"
    by (simp add: fe_from_hex_def) (simp add: fe_to_hex_def hex_to_bytes_print)
qed


section \<open>Properties\<close>

text \<open>C1: field multiplication is multiplication modulo the prime for any operands, even when their limbs
  hold numbers at or above the prime, and the result is canonical: the special-form reduction never loses
  a carry. The version without 128-bit integers computes the same limbs, and squaring is multiplication
  by itself.\<close>

theorem fe_mul_correct:
  "fval (fe_mul a b) = (fval a * fval b) mod prime_p \<and> fe_ok (fe_mul a b) \<and> fe_square a = fe_mul a a \<and>
   fe_reduce_noint128 (mul_wide (fe_limbs a) (fe_limbs b)) = fe_mul_impl (fe_limbs a) (fe_limbs b) \<and>
   mul64_noint128 x y = mul64 x y"
  by (simp add: fval_mul fe_square_eq fe_reduce_noint128_eq mul_wide_spec fe_mul_impl_def mul64_noint128_eq)

text \<open>C25: the additive operators keep the invariant "below the prime" and are addition, subtraction and
  negation modulo the prime: with the product they form a commutative ring.\<close>

theorem fe_ring:
  assumes "fe_ok a" "fe_ok b" "fe_ok c"
  shows "fe_ok (fe_add a b) \<and> fe_ok (fe_sub a b) \<and> fe_ok (fe_negate a) \<and>
    fval (fe_add a b) = (fval a + fval b) mod prime_p \<and> fval (fe_sub a b) = (fval a - fval b) mod prime_p \<and>
    fe_add a (fe_negate a) = fe_zero \<and> fe_sub a b = fe_add a (fe_negate b) \<and>
    fe_mul (fe_add a b) c = fe_add (fe_mul a c) (fe_mul b c) \<and>
    fe_mul (fe_mul a b) c = fe_mul a (fe_mul b c) \<and> fe_mul a b = fe_mul b a \<and> fe_mul a fe_one = a"
  using assms by (simp add: fval_inj [symmetric] val_simps mod_simps algebra_simps)

theorem fe_ring_witness:
  "fe_add (fe_from_uint64 5) (fe_negate (fe_from_uint64 5)) = fe_zero"
  using fe_ring [of "fe_from_uint64 5" fe_one fe_one] by simp

text \<open>C26: the byte and hexadecimal forms of a canonical element parse back to it; the strict parser accepts
  exactly the encodings of numbers below the prime and leaves its output alone otherwise, the lax one
  reduces; comparison normalises both sides, so it is equality modulo the prime.\<close>

theorem fe_encodings:
  assumes "length bs = 32"
  shows "fe_parse_bytes_strict bs out =
      (if be_val bs < prime_p then (True, fe_from_bytes bs) else (False, out)) \<and>
    fval (fe_from_bytes bs) = be_val bs mod prime_p \<and> fe_to_bytes (FieldElement (load_be_limbs bs)) = bs \<and>
    (fe_ok a \<longrightarrow> fe_from_bytes (fe_to_bytes a) = a \<and> fe_from_hex (fe_to_hex a) = Inr a) \<and>
    (fe_eq a b \<longleftrightarrow> fval a mod prime_p = fval b mod prime_p)"
  using assms
  by (auto simp: fe_parse_bytes_strict_iff fe_hex_roundtrip fe_eq_iff fval_from_bytes fe_to_bytes_load fe_load_eq)

theorem fe_encodings_witness:
  "fe_parse_bytes_strict (store_be_limbs PRIME) fe_one = (False, fe_one)"
  using fe_encodings [of "store_be_limbs PRIME" fe_one] by (simp add: be_val_store_be_limbs lval_PRIME)

end
