(* ===== verification/Field_Pow.thy ===== *)
theory Field_Pow
  imports Field "HOL-Library.While_Combinator" "HOL-Library.Monad_Syntax"
begin

text \<open>
  The exponentiations of field.cpp: the inversion strategies \<open>pow_p_minus_2_*\<close> that raise to the
  power \<open>p - 2\<close>, and the square root chain that raises to \<open>(p + 1) / 4\<close>. Every routine is tracked by the
  exponent it computes; most compute \<open>p - 2\<close>, some of the experimental ones do not.
\<close>

section \<open>Powers\<close>

definition fe_is_pow :: "field_element \<Rightarrow> nat \<Rightarrow> field_element \<Rightarrow> bool" where
  "fe_is_pow b e r \<longleftrightarrow> fval r mod prime_p = fval b ^ e mod prime_p"

named_theorems pow_intros \<open>exponents of products, squares and repeated squarings\<close>

lemma fe_is_pow_base [simp]: "fe_is_pow b 1 b" "fe_is_pow b (Suc 0) b"
  by (simp_all add: fe_is_pow_def)

lemma fe_is_pow_one [simp]: "fe_is_pow b 0 fe_one"
  by (simp add: fe_is_pow_def val_simps)

lemma fe_is_pow_mul [pow_intros]:
  "fe_is_pow b e r \<Longrightarrow> fe_is_pow b e' r' \<Longrightarrow> fe_is_pow b (e + e') (fe_mul r r')"
  by (simp add: fe_is_pow_def fval_mul power_add) (metis mod_mult_eq)

lemma fe_is_pow_square [pow_intros]: "fe_is_pow b e r \<Longrightarrow> fe_is_pow b (2 * e) (fe_square r)"
  using fe_is_pow_mul [of b e r e r] by (simp add: fe_square_eq mult_2)

text \<open>\<open>for (int i = 0; i < n; i++) x.square_inplace();\<close>\<close>

fun fe_sqr_n :: "nat \<Rightarrow> field_element \<Rightarrow> field_element" where
  "fe_sqr_n 0 r = r"
| "fe_sqr_n (Suc n) r = fe_sqr_n n (fe_square r)"

lemma fe_is_pow_sqr_n [pow_intros]: "fe_is_pow b e r \<Longrightarrow> fe_is_pow b (e * 2 ^ n) (fe_sqr_n n r)"
proof (induction n arbitrary: e r)
  case (Suc n)
  from Suc.IH [OF fe_is_pow_square [OF Suc.prems]] show ?case by (simp add: ac_simps)
qed simp

lemma fe_is_pow_sqr_mul:
  "fe_is_pow b e r \<Longrightarrow> fe_is_pow b d m \<Longrightarrow> fe_is_pow b (e * 2 ^ n + d) (fe_mul (fe_sqr_n n r) m)"
  by (intro pow_intros)

lemma fe_is_pow_cong: "fe_is_pow b e r \<Longrightarrow> e = e' \<Longrightarrow> fe_is_pow b e' r"
  by simp

section \<open>The exponent\<close>

definition kPrimeMinusTwo :: bytes where
  "kPrimeMinusTwo =
     [0xFF, 0xFF, 0xFF, 0xFF, 0xFF, 0xFF, 0xFF, 0xFF, 0xFF, 0xFF, 0xFF, 0xFF, 0xFF, 0xFF, 0xFF, 0xFF,
      0xFF, 0xFF, 0xFF, 0xFF, 0xFF, 0xFF, 0xFF, 0xFF, 0xFF, 0xFF, 0xFF, 0xFE, 0xFF, 0xFF, 0xFC, 0x2D]"

definition kPrimeMinusTwoBitLength :: nat where
  "kPrimeMinusTwoBitLength = length kPrimeMinusTwo * 8"

definition exponent_bit :: "nat \<Rightarrow> byte" where
  "exponent_bit index =
     (let byte_index = index div 8; bit_index = 7 - index mod 8
      in drop_bit bit_index (kPrimeMinusTwo ! byte_index) AND 1)"

definition pm2 :: nat where
  "pm2 = 0xFFFFFFFFFFFFFFFFFFFFFFFFFFFFFFFFFFFFFFFFFFFFFFFFFFFFFFFEFFFFFC2D"

lemma pm2_eq: "int pm2 = prime_p - 2"
  by (simp add: pm2_def prime_p_def)

lemma bit_length [simp]: "kPrimeMinusTwoBitLength = 256"
  by (simp add: kPrimeMinusTwoBitLength_def kPrimeMinusTwo_def)

text \<open>The number formed by the first \<open>j\<close> exponent bits.\<close>

definition prefix_val :: "nat \<Rightarrow> nat" where
  "prefix_val j = pm2 div 2 ^ (256 - j)"

lemma prefix_ends [simp]: "prefix_val 0 = 0" "prefix_val 256 = pm2"
  by (simp_all add: prefix_val_def pm2_def)

lemma length_kPrimeMinusTwo [simp]: "length kPrimeMinusTwo = 32"
  by (simp add: kPrimeMinusTwo_def)

lemma exponent_value: "foldl (\<lambda>e x. e * 256 + unat x) 0 kPrimeMinusTwo = pm2"
  by (simp add: kPrimeMinusTwo_def pm2_def)

lemma byte_of_value:
  "q < length xs \<Longrightarrow>
   foldl (\<lambda>e (x :: byte). e * 256 + unat x) 0 xs div 2 ^ (8 * (length xs - Suc q)) mod 256 = unat (xs ! q)"
proof (induction xs rule: rev_induct)
  case (snoc x xs)
  have x: "unat x < 256" by (rule unat_lt8)
  show ?case
  proof (cases "q < length xs")
    case True
    let ?v = "foldl (\<lambda>e (x :: byte). e * 256 + unat x) 0 xs"
    have "8 * (length xs - q) = 8 + 8 * (length xs - Suc q)" using True by simp
    moreover have "(?v * 256 + unat x) div 256 = ?v" using x by simp
    ultimately show ?thesis using snoc.IH [OF True] True
      by (simp add: nth_append power_add div_mult2_eq)
  next
    case False
    then show ?thesis using snoc.prems x by (simp add: nth_append not_less)
  qed
qed simp

lemma exponent_byte: "q < 32 \<Longrightarrow> pm2 div 2 ^ (8 * (31 - q)) mod 256 = unat (kPrimeMinusTwo ! q)"
  using byte_of_value [of q kPrimeMinusTwo] unfolding exponent_value by simp

lemma div_mod_bit: "n div 2 ^ k mod 2 = of_bool (bit (n :: nat) k)"
  by (simp add: bit_iff_odd mod_2_eq_odd)

lemma nat_byte_digit:
  fixes n :: nat
  assumes "t < 8"
  shows "n div 2 ^ (8 * k + t) mod 2 = n div 2 ^ (8 * k) mod 256 div 2 ^ t mod 2"
proof -
  have "m mod 256 = take_bit 8 m" for m :: nat by (simp add: take_bit_eq_mod)
  then have "n div 2 ^ (8 * k) mod 256 div 2 ^ t mod 2 = n div 2 ^ (8 * k) div 2 ^ t mod 2"
    using assms by (simp only: div_mod_bit bit_take_bit_iff) simp
  then show ?thesis by (simp add: power_add div_mult2_eq)
qed

lemma byte_bit_val: "unat (drop_bit k (x :: byte) AND 1) = unat x div 2 ^ k mod 2"
proof -
  have "drop_bit k x AND 1 = of_bool (bit x k)" by (rule bit_word_eqI) (auto simp: bit_simps)
  then have "unat (drop_bit k x AND 1) = of_bool (bit x k)" by (cases "bit x k") simp_all
  also have "\<dots> = of_bool (bit (unat x) k)" by (auto simp: bit_unsigned_iff dest: bit_imp_le_length)
  finally show ?thesis by (simp only: div_mod_bit)
qed

lemma exponent_bit_val: "i < 256 \<Longrightarrow> unat (exponent_bit i) = pm2 div 2 ^ (255 - i) mod 2"
proof -
  assume i: "i < 256"
  have q: "i div 8 < 32" using i by simp
  have t: "7 - i mod 8 < 8" by simp
  have e: "255 - i = 8 * (31 - i div 8) + (7 - i mod 8)"
  proof -
    have "i = 8 * (i div 8) + i mod 8" by simp
    moreover have "i div 8 \<le> 31" "i mod 8 \<le> 7" using i by simp_all
    ultimately show ?thesis by linarith
  qed
  have "unat (exponent_bit i) = pm2 div 2 ^ (8 * (31 - i div 8)) mod 256 div 2 ^ (7 - i mod 8) mod 2"
    unfolding exponent_byte [OF q] by (simp only: exponent_bit_def Let_def byte_bit_val)
  then show ?thesis unfolding e nat_byte_digit [OF t] .
qed

lemma prefix_step:
  assumes "j < 256"
  shows "prefix_val (Suc j) = 2 * prefix_val j + unat (exponent_bit j)"
proof -
  let ?q = "pm2 div 2 ^ (255 - j)"
  have "256 - j = Suc (255 - j)" using assms by simp
  then have "prefix_val j = ?q div 2" by (simp only: prefix_val_def power_Suc2 div_mult2_eq)
  moreover have "prefix_val (Suc j) = ?q" by (simp add: prefix_val_def)
  moreover have "?q = 2 * (?q div 2) + ?q mod 2" by simp
  ultimately show ?thesis using exponent_bit_val [OF assms] by presburger
qed

lemma exponent_bit_le: "unat (exponent_bit i) \<le> 1"
proof -
  have "exponent_bit i = (if odd (drop_bit (7 - i mod 8) (kPrimeMinusTwo ! (i div 8))) then 1 else 0)"
    by (simp add: exponent_bit_def Let_def and_one_eq mod_2_eq_odd)
  then show ?thesis by simp
qed

text \<open>A routine that consumes the exponent byte by byte computes the power \<open>p - 2\<close>.\<close>

lemma fold_bytes_pow:
  assumes step: "\<And>e r x. fe_is_pow b e r \<Longrightarrow> fe_is_pow b (e * 256 + unat x) (step x r)"
  shows "fe_is_pow b pm2 (fold step kPrimeMinusTwo fe_one)"
proof -
  have "fe_is_pow b e r \<Longrightarrow> fe_is_pow b (foldl (\<lambda>e x. e * 256 + unat x) e bs) (fold step bs r)" for e r bs
    by (induction bs arbitrary: e r) (simp_all add: step)
  from this [OF fe_is_pow_one, of kPrimeMinusTwo] show ?thesis
    by (simp add: exponent_value)
qed

lemma fold_bytes_started:
  assumes step: "\<And>e r s x. fe_is_pow b e r \<and> (\<not> s \<longrightarrow> e = 0) \<Longrightarrow>
      fe_is_pow b (e * 256 + unat x) (snd (step x (s, r))) \<and> (\<not> fst (step x (s, r)) \<longrightarrow> e * 256 + unat x = 0)"
  shows "fe_is_pow b pm2 (snd (fold step kPrimeMinusTwo (False, fe_one)))"
proof -
  have "fe_is_pow b e (snd p) \<and> (\<not> fst p \<longrightarrow> e = 0) \<Longrightarrow>
      fe_is_pow b (foldl (\<lambda>e x. e * 256 + unat x) e bs) (snd (fold step bs p))" for e p bs
  proof (induction bs arbitrary: e p)
    case (Cons x bs)
    obtain s r where p: "p = (s, r)" by fastforce
    show ?case using Cons.IH [OF step [of e r s x]] Cons.prems by (simp add: p)
  qed simp
  from this [of 0 "(False, fe_one)" kPrimeMinusTwo] show ?thesis
    by (simp add: exponent_value)
qed

section \<open>Tables\<close>

text \<open>\<open>table[0] = one; table[1] = base; table[i] = table[i - 1] * base\<close>, and the odd powers.\<close>

definition pow_table :: "nat \<Rightarrow> field_element \<Rightarrow> field_element list" where
  "pow_table n base =
     fold (\<lambda>i table. table[i := fe_mul (table ! (i - 1)) base]) [2..<n]
       ((replicate n fe_zero)[0 := fe_one, 1 := base])"

definition odd_table :: "nat \<Rightarrow> field_element \<Rightarrow> field_element list" where
  "odd_table n base =
     (let base_squared = fe_square base
      in fold (\<lambda>i odd'. odd'[i := fe_mul (odd' ! (i - 1)) base_squared]) [1..<n] ((replicate n fe_zero)[0 := base]))"

lemma pow_table_ok:
  assumes "2 \<le> n"
  shows "length (pow_table n base) = n" "d < n \<Longrightarrow> fe_is_pow base d (pow_table n base ! d)"
proof -
  let ?t = "\<lambda>k. fold (\<lambda>i table. table[i := fe_mul (table ! (i - 1)) base]) [2..<k] ((replicate n fe_zero)[0 := fe_one, 1 := base])"
  have "length (?t k) = n \<and> (\<forall>d < k. fe_is_pow base d (?t k ! d))" if "2 \<le> k" "k \<le> n" for k
    using that
  proof (induction k rule: nat_induct_at_least)
    case base
    then show ?case by (auto simp: less_2_cases_iff nth_list_update)
  next
    case (Suc k)
    then have IH: "length (?t k) = n" "\<And>d. d < k \<Longrightarrow> fe_is_pow base d (?t k ! d)" by auto
    have "fe_is_pow base ((k - 1) + 1) (fe_mul (?t k ! (k - 1)) base)"
      using Suc.hyps by (intro fe_is_pow_mul IH(2)) simp_all
    then show ?case using Suc.hyps Suc.prems IH by (auto simp: nth_list_update less_Suc_eq)
  qed
  from this [OF assms order_refl] show "length (pow_table n base) = n"
    "d < n \<Longrightarrow> fe_is_pow base d (pow_table n base ! d)" by (simp_all add: pow_table_def)
qed

lemma odd_table_ok:
  assumes "0 < n"
  shows "d < n \<Longrightarrow> fe_is_pow base (2 * d + 1) (odd_table n base ! d)"
proof -
  let ?t = "\<lambda>k. fold (\<lambda>i table. table[i := fe_mul (table ! (i - 1)) (fe_square base)]) [1..<k] ((replicate n fe_zero)[0 := base])"
  have "length (?t k) = n \<and> (\<forall>d < k. fe_is_pow base (2 * d + 1) (?t k ! d))" if "1 \<le> k" "k \<le> n" for k
    using that
  proof (induction k rule: nat_induct_at_least)
    case (Suc k)
    then have IH: "length (?t k) = n" "\<And>d. d < k \<Longrightarrow> fe_is_pow base (2 * d + 1) (?t k ! d)" by auto
    have "fe_is_pow base (2 * (k - 1) + 1 + 2 * 1) (fe_mul (?t k ! (k - 1)) (fe_square base))"
      using Suc.hyps by (intro pow_intros IH(2)) simp_all
    then have "fe_is_pow base (2 * k + 1) (fe_mul (?t k ! (k - 1)) (fe_square base))"
      by (rule fe_is_pow_cong) (use Suc.hyps in simp)
    then show ?case using Suc.hyps Suc.prems IH by (auto simp: nth_list_update less_Suc_eq)
  qed (use assms in \<open>auto simp: nth_list_update\<close>)
  from this [of n] assms show "d < n \<Longrightarrow> fe_is_pow base (2 * d + 1) (odd_table n base ! d)"
    by (simp add: odd_table_def Let_def)
qed


section \<open>Routines that read the exponent byte by byte\<close>

text \<open>The inner loop \<open>for (int bit = 7; bit >= 0; --bit)\<close> of the plain binary methods.\<close>

definition binary_byte :: "field_element \<Rightarrow> byte \<Rightarrow> field_element \<Rightarrow> field_element" where
  "binary_byte base x result =
     fold (\<lambda>bit result.
         (let result = fe_square result
          in if drop_bit bit x AND 1 \<noteq> 0 then fe_mul result base else result)) (rev [0..<8]) result"

definition pow_p_minus_2_window_naf_v2 :: "field_element \<Rightarrow> field_element" where
  "pow_p_minus_2_window_naf_v2 base =
     (let table = odd_table 16 base in fold (binary_byte base) kPrimeMinusTwo fe_one)"

definition pow_p_minus_2_binary_opt :: "field_element \<Rightarrow> field_element" where
  "pow_p_minus_2_binary_opt base = fold (binary_byte base) kPrimeMinusTwo fe_one"

definition pow_p_minus_2_branchless :: "field_element \<Rightarrow> field_element" where
  "pow_p_minus_2_branchless base =
     fold (\<lambda>x result. fold (\<lambda>bit result.
         (let result = fe_square result; msk = - (drop_bit bit x AND 1)
          in if msk \<noteq> 0 then fe_mul result base else result)) (rev [0..<8]) result) kPrimeMinusTwo fe_one"

text \<open>Two bits at a time.\<close>

definition pow_p_minus_2_bos_coster :: "field_element \<Rightarrow> field_element" where
  "pow_p_minus_2_bos_coster base =
     fold (\<lambda>x result. fold (\<lambda>j result.
         (let result = fe_square (fe_square result); bits = drop_bit j x AND 3
          in if bits = 1 then fe_mul result base
             else if bits = 2 then fe_mul (fe_mul result base) base
             else if bits = 3 then (let b3 = fe_mul (fe_square base) base in fe_mul result b3)
             else result)) [6, 4, 2, 0] result) kPrimeMinusTwo fe_one"

definition pow_p_minus_2_double_base :: "field_element \<Rightarrow> field_element" where
  "pow_p_minus_2_double_base base =
     (let base2 = fe_square base
      in fold (\<lambda>x result. fold (\<lambda>i result.
           (let result = fe_square (fe_square result); bits = drop_bit i x AND 3
            in if bits = 1 then fe_mul result base
               else if bits = 2 then fe_mul result base2
               else if bits = 3 then fe_mul (fe_mul result base2) base
               else result)) [6, 4, 2, 0] result) kPrimeMinusTwo fe_one)"

text \<open>Nibbles against a table of sixteen powers (the left-to-right and the bucket method).\<close>

definition nibble_byte :: "field_element list \<Rightarrow> byte \<Rightarrow> field_element \<Rightarrow> field_element" where
  "nibble_byte table x result =
     (let result = fe_sqr_n 4 result;
          result = fe_mul result (table ! unat (drop_bit 4 x AND 0xF));
          result = fe_sqr_n 4 result
      in fe_mul result (table ! unat (x AND 0xF)))"

definition pow_p_minus_2_ltr_precomp :: "field_element \<Rightarrow> field_element" where
  "pow_p_minus_2_ltr_precomp base =
     (let powers = pow_table 16 base in fold (nibble_byte powers) kPrimeMinusTwo fe_one)"

definition pow_p_minus_2_pippenger :: "field_element \<Rightarrow> field_element" where
  "pow_p_minus_2_pippenger base =
     (let buckets = pow_table 16 base in fold (nibble_byte buckets) kPrimeMinusTwo fe_one)"

text \<open>Windows of 3, 3 and 2 bits.\<close>

definition pow_p_minus_2_strauss :: "field_element \<Rightarrow> field_element" where
  "pow_p_minus_2_strauss base =
     (let table = pow_table 8 base
      in fold (\<lambda>x result.
           (let result = fe_sqr_n 3 result;
                result = fe_mul result (table ! unat (drop_bit 5 x AND 7));
                result = fe_sqr_n 3 result;
                result = fe_mul result (table ! unat (drop_bit 2 x AND 7));
                result = fe_sqr_n 2 result
            in fe_mul result (table ! unat (x AND 3)))) kPrimeMinusTwo fe_one)"

text \<open>Two windows of 3 bits, at shifts 5 and 2: the two low bits of every byte are never read.\<close>

definition pow_p_minus_2_compact_table :: "field_element \<Rightarrow> field_element" where
  "pow_p_minus_2_compact_table base =
     (let table = pow_table 8 base
      in fold (\<lambda>x result. fold (\<lambda>shift result.
           (let bits = drop_bit shift x AND 7;
                result = fe_square (fe_square (fe_square result))
            in if bits \<noteq> 0 then fe_mul result (table ! unat bits) else result)) [5, 2] result)
         kPrimeMinusTwo fe_one)"

text \<open>
  A digit of a table method with the flag \<open>started\<close>: the first nonzero digit is a table load, every
  later one shifts the result and multiplies unless the digit is zero.
\<close>

definition window_digit :: "nat \<Rightarrow> field_element list \<Rightarrow> byte \<Rightarrow> bool \<times> field_element \<Rightarrow> bool \<times> field_element" where
  "window_digit w table d st =
     (let (started, result) = st
      in if \<not> started then (if d = 0 then (started, result) else (True, table ! unat d))
         else (let result = fe_sqr_n w result
               in (started, if d \<noteq> 0 then fe_mul result (table ! unat d) else result)))"

definition started_nibbles :: "field_element list \<Rightarrow> byte \<Rightarrow> bool \<times> field_element \<Rightarrow> bool \<times> field_element" where
  "started_nibbles table x st =
     (let high = drop_bit 4 x AND 0xF; low = x AND 0xF
      in window_digit 4 table low (window_digit 4 table high st))"

definition pow_p_minus_2_window4 :: "field_element \<Rightarrow> field_element" where
  "pow_p_minus_2_window4 base =
     (let table = pow_table 16 base;
          (started, result) = fold (started_nibbles table) kPrimeMinusTwo (False, fe_one)
      in if \<not> started then fe_one else result)"

definition pow_p_minus_2_kary16 :: "field_element \<Rightarrow> field_element" where
  "pow_p_minus_2_kary16 base =
     (let table = pow_table 16 base;
          (started, result) = fold (started_nibbles table) kPrimeMinusTwo (False, fe_one)
      in if started then result else fe_one)"

definition pow_p_minus_2_parallel_window :: "field_element \<Rightarrow> field_element" where
  "pow_p_minus_2_parallel_window base =
     (let table = pow_table 16 base;
          (started, result) = fold (started_nibbles table) kPrimeMinusTwo (False, fe_one)
      in result)"

text \<open>Least significant bit first.\<close>

definition pow_p_minus_2_rtl_binary :: "field_element \<Rightarrow> field_element" where
  "pow_p_minus_2_rtl_binary base =
     fst (fold (\<lambda>x s. fold (\<lambda>bit (result, power).
         (let result = (if drop_bit bit x AND 1 \<noteq> 0 then fe_mul result power else result)
          in (result, fe_square power))) [0..<8] s) (rev kPrimeMinusTwo) (fe_one, base))"

lemma byte_digit:
  "unat (drop_bit k (x :: byte) AND 1) = unat x div 2 ^ k mod 2"
  "unat (drop_bit k x AND 3) = unat x div 2 ^ k mod 4"
  "unat (drop_bit k x AND 7) = unat x div 2 ^ k mod 8"
  "unat (drop_bit k x AND 15) = unat x div 2 ^ k mod 16"
proof -
  have g: "unat (drop_bit k x AND mask n) = unat x div 2 ^ k mod 2 ^ n" for n
  proof -
    have "unat (take_bit n (drop_bit k x)) = take_bit n (unat (drop_bit k x))" by (rule unsigned_take_bit_eq)
    then have "unat (take_bit n (drop_bit k x)) = unat (drop_bit k x) mod 2 ^ n" by (simp only: take_bit_eq_mod)
    also have "unat (drop_bit k x) = unat x div 2 ^ k"
      by (rule unat_drop_bit_eq [THEN trans]) (rule drop_bit_eq_div)
    finally show ?thesis by (simp only: take_bit_eq_mask)
  qed
  have m: "(mask 1 :: byte) = 1" "(mask 2 :: byte) = 3" "(mask 3 :: byte) = 7" "(mask 4 :: byte) = 15"
    by (simp_all add: mask_eq_exp_minus_1)
  show "unat (drop_bit k x AND 1) = unat x div 2 ^ k mod 2" "unat (drop_bit k x AND 3) = unat x div 2 ^ k mod 4"
    "unat (drop_bit k x AND 7) = unat x div 2 ^ k mod 8" "unat (drop_bit k x AND 15) = unat x div 2 ^ k mod 16"
    using g [of 1] g [of 2] g [of 3] g [of 4] by (simp_all only: m) simp_all
qed

section \<open>Exponents of the byte-wise routines\<close>

text \<open>Digits of width \<open>w\<close>, read from the most significant one down.\<close>

lemma shift_fold_pow:
  assumes step: "\<And>k e r. fe_is_pow b e r \<Longrightarrow> fe_is_pow b (e * 2 ^ w + X div 2 ^ k mod 2 ^ w) (step k r)"
    and "fe_is_pow b e r"
  shows "fe_is_pow b (e * 2 ^ (w * m) + X mod 2 ^ (w * m)) (fold step (rev (map ((*) w) [0..<m])) r)"
  using assms(2)
proof (induction m arbitrary: e r)
  case (Suc m)
  have "X mod 2 ^ (w * Suc m) = X div 2 ^ (w * m) mod 2 ^ w * 2 ^ (w * m) + X mod 2 ^ (w * m)"
    by (simp add: power_add mult.commute [of "2 ^ w"] mod_mult2_eq)
  then have "(e * 2 ^ w + X div 2 ^ (w * m) mod 2 ^ w) * 2 ^ (w * m) + X mod 2 ^ (w * m)
      = e * 2 ^ (w * Suc m) + X mod 2 ^ (w * Suc m)"
    by (simp add: algebra_simps power_add)
  with Suc.IH [OF step [OF Suc.prems, of "w * m"]] show ?case by simp
qed simp

lemma byte_shifts:
  "rev [0..<8] = rev (map ((*) 1) [0..<8])" "[6, 4, 2, 0] = rev (map ((*) 2) [0..<4])"
  by (simp_all add: upt_rec)

lemma byte_one: "drop_bit k (x :: byte) AND 1 = 0 \<or> drop_bit k x AND 1 = 1"
  by (cases "bit x k") (auto intro!: bit_word_eqI simp: bit_simps)

lemma fe_is_pow_bit:
  assumes "fe_is_pow b e r"
  shows "fe_is_pow b (e * 2 ^ 1 + unat (x :: byte) div 2 ^ k mod 2 ^ 1)
     (if drop_bit k x AND 1 \<noteq> 0 then fe_mul (fe_square r) b else fe_square r)"
  using fe_is_pow_mul [OF fe_is_pow_square [OF assms] fe_is_pow_base(1)] fe_is_pow_square [OF assms] byte_one [of k x]
  unfolding power_one_right byte_digit(1) [symmetric] by (auto simp: mult.commute)

lemma binary_byte_pow: "fe_is_pow b e r \<Longrightarrow> fe_is_pow b (e * 256 + unat x) (binary_byte b x r)"
  unfolding binary_byte_def Let_def byte_shifts
  using shift_fold_pow [where m = 8, OF fe_is_pow_bit] by simp

lemma branchless_bit:
  "(let result = fe_square r; msk = - (drop_bit k (x :: byte) AND 1)
    in if msk \<noteq> 0 then fe_mul result base else result) =
   (let result = fe_square r in if drop_bit k x AND 1 \<noteq> 0 then fe_mul result base else result)"
  by (simp add: Let_def)

lemma two_bits: "(d :: byte) = drop_bit k x AND 3 \<Longrightarrow> d = 0 \<or> d = 1 \<or> d = 2 \<or> d = 3"
proof -
  assume "d = drop_bit k x AND 3"
  then have "unat d < 4" by (simp add: byte_digit)
  then have "unat d = unat (0 :: byte) \<or> unat d = unat (1 :: byte) \<or> unat d = unat (2 :: byte) \<or> unat d = unat (3 :: byte)"
    by auto
  then show ?thesis by (simp only: word_unat_eq_iff [symmetric])
qed

lemma sqr2_pow: "fe_is_pow b e r \<Longrightarrow> fe_is_pow b (e * 2 ^ 2) (fe_square (fe_square r))"
  using fe_is_pow_sqr_n [of b e r 2] by (simp add: numeral_2_eq_2)

lemma two_bit_byte:
  assumes step: "\<And>k e r. fe_is_pow b e r \<Longrightarrow> fe_is_pow b (e * 2 ^ 2 + unat (drop_bit k (x :: byte) AND 3)) (step k r)"
    and "fe_is_pow b e r"
  shows "fe_is_pow b (e * 256 + unat x) (fold step [6, 4, 2, 0] r)"
  using shift_fold_pow [of b 2 "unat x" step e r 4] step assms(2) unfolding byte_shifts
  by (simp add: byte_digit)

lemma window_mul:
  assumes "fe_is_pow b e r" "unat d < length table" "\<And>i. i < length table \<Longrightarrow> fe_is_pow b i (table ! i)"
  shows "fe_is_pow b (e * 2 ^ w + unat d) (fe_mul (fe_sqr_n w r) (table ! unat d))"
  using assms by (intro pow_intros) auto

lemma byte_split:
  "(e * 2 ^ 4 + n div 2 ^ 4 mod 16) * 2 ^ 4 + n mod 16 = e * 256 + n mod 256"
  "((e * 2 ^ 3 + n div 2 ^ 5 mod 8) * 2 ^ 3 + n div 2 ^ 2 mod 8) * 2 ^ 2 + n mod 4 = e * 256 + n mod 256" for n :: nat
proof -
  have "n mod 256 = 16 * (n div 16 mod 16) + n mod 16" using mod_mult2_eq [of n 16 16] by simp
  then show "(e * 2 ^ 4 + n div 2 ^ 4 mod 16) * 2 ^ 4 + n mod 16 = e * 256 + n mod 256" by simp
  have "n mod 256 = 32 * (n div 32 mod 8) + n mod 32" "n mod 32 = 4 * (n div 4 mod 8) + n mod 4"
    using mod_mult2_eq [of n 32 8] mod_mult2_eq [of n 4 8] by simp_all
  then show "((e * 2 ^ 3 + n div 2 ^ 5 mod 8) * 2 ^ 3 + n div 2 ^ 2 mod 8) * 2 ^ 2 + n mod 4 = e * 256 + n mod 256"
    by simp
qed

lemma low_digits:
  "unat ((x :: byte) AND 3) = unat x mod 4" "unat (x AND 15) = unat x mod 16" "unat x mod 256 = unat x"
  using byte_digit(2,4) [of 0 x] by simp_all

text \<open>Every byte-wise routine but the compact table computes the power \<open>p - 2\<close>.\<close>

lemma binary_fold_pow: "fe_is_pow b pm2 (fold (binary_byte b) kPrimeMinusTwo fe_one)"
  by (rule fold_bytes_pow) (rule binary_byte_pow)

lemma pow_binary_variants:
  "fe_is_pow b pm2 (pow_p_minus_2_window_naf_v2 b)" "fe_is_pow b pm2 (pow_p_minus_2_binary_opt b)"
  by (simp_all add: pow_p_minus_2_window_naf_v2_def pow_p_minus_2_binary_opt_def binary_fold_pow)

lemma pow_branchless: "fe_is_pow b pm2 (pow_p_minus_2_branchless b)"
proof -
  have "pow_p_minus_2_branchless b = fold (binary_byte b) kPrimeMinusTwo fe_one"
    by (simp only: pow_p_minus_2_branchless_def binary_byte_def [abs_def] branchless_bit)
  then show ?thesis by (simp add: binary_fold_pow)
qed

lemma pow_bos_coster: "fe_is_pow b pm2 (pow_p_minus_2_bos_coster b)"
  unfolding pow_p_minus_2_bos_coster_def
proof (rule fold_bytes_pow, rule two_bit_byte)
  fix k e r and x :: byte
  assume r: "fe_is_pow b e r"
  have "fe_is_pow b (2 * 1 + 1) (fe_mul (fe_square b) b)" by (intro pow_intros) simp_all
  then have b3: "fe_is_pow b 3 (fe_mul (fe_square b) b)" by simp
  show "fe_is_pow b (e * 2 ^ 2 + unat (drop_bit k x AND 3))
     (let result = fe_square (fe_square r); bits = drop_bit k x AND 3
      in if bits = 1 then fe_mul result b
         else if bits = 2 then fe_mul (fe_mul result b) b
         else if bits = 3 then (let b3 = fe_mul (fe_square b) b in fe_mul result b3)
         else result)"
    using two_bits [OF refl, of k x] sqr2_pow [OF r] fe_is_pow_mul [OF sqr2_pow [OF r] fe_is_pow_base(1)]
      fe_is_pow_mul [OF fe_is_pow_mul [OF sqr2_pow [OF r] fe_is_pow_base(1)] fe_is_pow_base(1)]
      fe_is_pow_mul [OF sqr2_pow [OF r] b3]
    by (auto simp: Let_def)
qed

lemma pow_double_base: "fe_is_pow b pm2 (pow_p_minus_2_double_base b)"
  unfolding pow_p_minus_2_double_base_def Let_def [of "fe_square b"]
proof (rule fold_bytes_pow, rule two_bit_byte)
  fix k e r and x :: byte
  assume r: "fe_is_pow b e r"
  have "fe_is_pow b (2 * 1) (fe_square b)" by (intro pow_intros) simp_all
  then have b2: "fe_is_pow b 2 (fe_square b)" by simp
  have m3: "fe_is_pow b (e * 2 ^ 2 + 3) (fe_mul (fe_mul (fe_square (fe_square r)) (fe_square b)) b)"
    by (rule fe_is_pow_cong [OF fe_is_pow_mul [OF fe_is_pow_mul [OF sqr2_pow [OF r] b2] fe_is_pow_base(1)]]) simp
  show "fe_is_pow b (e * 2 ^ 2 + unat (drop_bit k x AND 3))
     (let result = fe_square (fe_square r); bits = drop_bit k x AND 3
      in if bits = 1 then fe_mul result b
         else if bits = 2 then fe_mul result (fe_square b)
         else if bits = 3 then fe_mul (fe_mul result (fe_square b)) b
         else result)"
    using two_bits [OF refl, of k x] sqr2_pow [OF r] fe_is_pow_mul [OF sqr2_pow [OF r] fe_is_pow_base(1)]
      m3
      fe_is_pow_mul [OF sqr2_pow [OF r] b2]
    by (auto simp: Let_def)
qed

lemma nibble_byte_pow:
  assumes "fe_is_pow b e r"
  shows "fe_is_pow b (e * 256 + unat (x :: byte)) (nibble_byte (pow_table 16 b) x r)"
proof -
  note t = pow_table_ok [where n = 16 and base = b]
  have "fe_is_pow b ((e * 2 ^ 4 + unat (drop_bit 4 x AND 15)) * 2 ^ 4 + unat (x AND 15)) (nibble_byte (pow_table 16 b) x r)"
    unfolding nibble_byte_def Let_def by (intro window_mul assms) (simp_all add: t byte_digit low_digits)
  then show ?thesis by (simp only: byte_digit low_digits [of x] byte_split)
qed

lemma pow_nibbles:
  "fe_is_pow b pm2 (pow_p_minus_2_ltr_precomp b)" "fe_is_pow b pm2 (pow_p_minus_2_pippenger b)"
  by (simp_all add: pow_p_minus_2_ltr_precomp_def pow_p_minus_2_pippenger_def fold_bytes_pow nibble_byte_pow)

lemma pow_strauss: "fe_is_pow b pm2 (pow_p_minus_2_strauss b)"
  unfolding pow_p_minus_2_strauss_def Let_def
proof (rule fold_bytes_pow)
  fix e r and x :: byte
  assume r: "fe_is_pow b e r"
  note t = pow_table_ok [where n = 8 and base = b]
  let ?r = "fe_mul (fe_sqr_n 2 (fe_mul (fe_sqr_n 3 (fe_mul (fe_sqr_n 3 r) (pow_table 8 b ! unat (drop_bit 5 x AND 7))))
      (pow_table 8 b ! unat (drop_bit 2 x AND 7)))) (pow_table 8 b ! unat (x AND 3))"
  have "unat (x AND 3) < 8" using low_digits(1) [of x] by presburger
  then have "fe_is_pow b (((e * 2 ^ 3 + unat (drop_bit 5 x AND 7)) * 2 ^ 3 + unat (drop_bit 2 x AND 7)) * 2 ^ 2 + unat (x AND 3)) ?r"
    by (intro window_mul r) (simp_all add: t byte_digit)
  then show "fe_is_pow b (e * 256 + unat x) ?r" by (simp only: byte_digit low_digits [of x] byte_split)
qed

text \<open>The methods with the flag \<open>started\<close>.\<close>

lemma window_digit_pow:
  assumes "fe_is_pow b e r \<and> (\<not> s \<longrightarrow> e = 0)" "unat d < length table" "\<And>i. i < length table \<Longrightarrow> fe_is_pow b i (table ! i)"
  shows "fe_is_pow b (e * 2 ^ w + unat d) (snd (window_digit w table d (s, r))) \<and>
     (\<not> fst (window_digit w table d (s, r)) \<longrightarrow> e * 2 ^ w + unat d = 0)"
proof (cases "s")
  case True
  then show ?thesis using assms window_mul [of b e r d table w] fe_is_pow_sqr_n [of b e r w]
    by (auto simp: window_digit_def Let_def)
next
  case False
  then show ?thesis using assms by (auto simp: window_digit_def Let_def)
qed

lemma started_nibbles_pow:
  assumes "fe_is_pow b e r \<and> (\<not> s \<longrightarrow> e = 0)"
  shows "fe_is_pow b (e * 256 + unat x) (snd (started_nibbles (pow_table 16 b) x (s, r))) \<and>
     (\<not> fst (started_nibbles (pow_table 16 b) x (s, r)) \<longrightarrow> e * 256 + unat x = 0)"
proof -
  note t = pow_table_ok [where n = 16 and base = b]
  obtain s' r' where m: "window_digit 4 (pow_table 16 b) (drop_bit 4 x AND 0xF) (s, r) = (s', r')" by fastforce
  have "fe_is_pow b (e * 2 ^ 4 + unat (drop_bit 4 x AND 0xF)) r' \<and>
      (\<not> s' \<longrightarrow> e * 2 ^ 4 + unat (drop_bit 4 x AND 0xF) = 0)"
    using window_digit_pow [OF assms, of "drop_bit 4 x AND 0xF" "pow_table 16 b" 4] unfolding m
    by (simp add: t byte_digit)
  then have "fe_is_pow b ((e * 2 ^ 4 + unat (drop_bit 4 x AND 15)) * 2 ^ 4 + unat (x AND 15)) (snd (started_nibbles (pow_table 16 b) x (s, r))) \<and>
     (\<not> fst (started_nibbles (pow_table 16 b) x (s, r)) \<longrightarrow> (e * 2 ^ 4 + unat (drop_bit 4 x AND 15)) * 2 ^ 4 + unat (x AND 15) = 0)"
    unfolding started_nibbles_def Let_def m
    by (rule window_digit_pow) (simp_all add: t low_digits)
  then show ?thesis unfolding byte_digit low_digits(1,2) [of x] byte_split low_digits(3) .
qed

lemma started_fold: "fe_is_pow b pm2 (snd (fold (started_nibbles (pow_table 16 b)) kPrimeMinusTwo (False, fe_one)))"
  by (rule fold_bytes_started) (rule started_nibbles_pow)

lemma started_fst: "fst (fold (started_nibbles table) kPrimeMinusTwo (False, r))"
proof -
  have n: "fst st \<Longrightarrow> fst (started_nibbles table x st)" for x st
    by (cases st) (simp add: started_nibbles_def window_digit_def Let_def)
  have k: "fst st \<Longrightarrow> fst (fold (started_nibbles table) bs st)" for bs st
    by (induction bs arbitrary: st) (simp_all add: n)
  have "kPrimeMinusTwo = 0xFF # tl kPrimeMinusTwo" by (simp add: kPrimeMinusTwo_def)
  moreover have "fst (started_nibbles table 0xFF (False, r))"
    by (simp add: started_nibbles_def window_digit_def Let_def)
  ultimately show ?thesis by (metis fold_simps(2) k)
qed

lemma pow_started:
  "fe_is_pow b pm2 (pow_p_minus_2_window4 b)" "fe_is_pow b pm2 (pow_p_minus_2_kary16 b)"
  "fe_is_pow b pm2 (pow_p_minus_2_parallel_window b)"
  using started_fold [of b] started_fst [of "pow_table 16 b" fe_one]
  by (simp_all add: pow_p_minus_2_window4_def pow_p_minus_2_kary16_def pow_p_minus_2_parallel_window_def
      case_prod_unfold Let_def)

text \<open>Right to left: the pair holds the power of the low digits read so far and the next square.\<close>

definition rtl_inv :: "field_element \<Rightarrow> nat \<Rightarrow> nat \<Rightarrow> field_element \<times> field_element \<Rightarrow> bool" where
  "rtl_inv b n T s \<longleftrightarrow> fe_is_pow b n (fst s) \<and> fe_is_pow b (2 ^ T) (snd s)"

definition rtl_bit :: "byte \<Rightarrow> nat \<Rightarrow> field_element \<times> field_element \<Rightarrow> field_element \<times> field_element" where
  "rtl_bit x k s = ((if drop_bit k x AND 1 \<noteq> 0 then fe_mul (fst s) (snd s) else fst s), fe_square (snd s))"

lemma rtl_bit_inv:
  assumes "rtl_inv b n T s"
  shows "rtl_inv b (n + 2 ^ T * (unat x div 2 ^ k mod 2)) (Suc T) (rtl_bit x k s)"
  using fe_is_pow_mul [of b n "fst s" "2 ^ T" "snd s"] fe_is_pow_square [of b "2 ^ T" "snd s"] assms byte_one [of k x]
  unfolding byte_digit(1) [symmetric] by (auto simp: rtl_inv_def rtl_bit_def)

lemma rtl_bits_inv:
  assumes "rtl_inv b n T s"
  shows "rtl_inv b (n + 2 ^ T * (unat x mod 2 ^ k)) (T + k) (fold (rtl_bit x) [0..<k] s)"
proof (induction k)
  case (Suc k)
  have "unat x mod 2 ^ Suc k = 2 ^ k * (unat x div 2 ^ k mod 2) + unat x mod 2 ^ k"
    using mod_mult2_eq [of "unat x" "2 ^ k" 2] by (simp add: mult.commute)
  then have "n + 2 ^ T * (unat x mod 2 ^ Suc k)
      = n + 2 ^ T * (unat x mod 2 ^ k) + 2 ^ (T + k) * (unat x div 2 ^ k mod 2)"
    by (simp add: power_add distrib_left)
  with rtl_bit_inv [OF Suc.IH, of x k] show ?case by (simp add: add.assoc)
qed (use assms in simp)

lemma rtl_bytes_inv:
  assumes "rtl_inv b n T s"
  shows "rtl_inv b (n + 2 ^ T * foldr (\<lambda>x e. e * 256 + unat x) xs 0) (T + 8 * length xs)
     (fold (\<lambda>x. fold (rtl_bit x) [0..<8]) xs s)"
  using assms
proof (induction xs arbitrary: n T s)
  case (Cons x xs)
  have r: "rtl_inv b (n + 2 ^ T * unat x) (T + 8) (fold (rtl_bit x) [0..<8] s)"
    using rtl_bits_inv [OF Cons.prems, of x 8] low_digits(3) [of x] by simp
  show ?case using Cons.IH [OF r] by (simp add: algebra_simps power_add)
qed simp

lemma pow_rtl_binary: "fe_is_pow b pm2 (pow_p_minus_2_rtl_binary b)"
proof -
  have eq: "pow_p_minus_2_rtl_binary b = fst (fold (\<lambda>x. fold (rtl_bit x) [0..<8]) (rev kPrimeMinusTwo) (fe_one, b))"
    by (simp only: pow_p_minus_2_rtl_binary_def rtl_bit_def [abs_def] case_prod_unfold Let_def)
  have "rtl_inv b 0 0 (fe_one, b)" by (simp add: rtl_inv_def)
  from rtl_bytes_inv [OF this, of "rev kPrimeMinusTwo"] show ?thesis
    unfolding eq rtl_inv_def by (simp add: foldr_conv_foldl exponent_value)
qed

section \<open>Routines that read the exponent by bit index\<close>

text \<open>\<open>value = (value << 1) | exponent_bit(bit + offset)\<close> for \<open>n\<close> offsets.\<close>

definition window_value :: "nat \<Rightarrow> nat \<Rightarrow> 'a :: len word" where
  "window_value bit_pos n = fold (\<lambda>offset value. push_bit 1 value OR ucast (exponent_bit (bit_pos + offset))) [0..<n] 0"

text \<open>The five-bit windows with the flag \<open>started\<close>, and their two ways to handle the last bit.\<close>

function window5_loop :: "field_element list \<Rightarrow> nat \<Rightarrow> bool \<times> field_element \<Rightarrow> nat \<times> bool \<times> field_element" where
  "window5_loop table bit_pos st =
     (if bit_pos + 5 \<le> kPrimeMinusTwoBitLength
      then (let bits = window_value bit_pos 5 :: byte in window5_loop table (bit_pos + 5) (window_digit 5 table bits st))
      else (bit_pos, st))"
  by pat_completeness auto
termination by (relation "measure (\<lambda>(table, bit_pos, st). 256 - bit_pos)") auto

declare window5_loop.simps [simp del]

definition pow_p_minus_2_fixed_window5 :: "field_element \<Rightarrow> field_element" where
  "pow_p_minus_2_fixed_window5 base =
     (let table = pow_table 32 base;
          (bit_pos, started, result) = window5_loop table 0 (False, fe_one)
      in if bit_pos < kPrimeMinusTwoBitLength
         then (let remaining = kPrimeMinusTwoBitLength - bit_pos;
                   bits = window_value bit_pos remaining :: byte
               in if started
                  then (let result = fe_sqr_n remaining result
                        in if bits \<noteq> 0 then fe_mul result (table ! unat bits) else result)
                  else if bits \<noteq> 0 then table ! unat bits else result)
         else result)"

function tail_bits :: "field_element \<Rightarrow> nat \<Rightarrow> field_element \<Rightarrow> field_element" where
  "tail_bits base bit_pos result =
     (if bit_pos < kPrimeMinusTwoBitLength
      then (let result = fe_square result
            in tail_bits base (bit_pos + 1) (if exponent_bit bit_pos \<noteq> 0 then fe_mul result base else result))
      else result)"
  by pat_completeness auto
termination by (relation "measure (\<lambda>(base, bit_pos, result). 256 - bit_pos)") auto

declare tail_bits.simps [simp del]

definition pow_p_minus_2_warp_optimized :: "field_element \<Rightarrow> field_element" where
  "pow_p_minus_2_warp_optimized base =
     (let table = pow_table 32 base;
          (bit_pos, started, result) = window5_loop table 0 (False, fe_one)
      in tail_bits base bit_pos result)"

text \<open>Sliding windows over the odd powers.\<close>

partial_function (option) addchain_loop :: "field_element list \<Rightarrow> nat \<Rightarrow> field_element \<Rightarrow> field_element option" where
  "addchain_loop odd' bit_pos result =
     (if bit_pos < kPrimeMinusTwoBitLength
      then if exponent_bit bit_pos = 0 then addchain_loop odd' (bit_pos + 1) (fe_square result)
           else (let remaining = kPrimeMinusTwoBitLength - bit_pos;
                     window_size = (if 5 < remaining then 5 else remaining);
                     value = window_value bit_pos window_size :: u32
                 in Option.bind (while_option (\<lambda>(value, window_size). value AND 1 = 0)
                      (\<lambda>(value, window_size). (drop_bit 1 value, window_size - 1)) (value, window_size))
                    (\<lambda>(value, window_size).
                       addchain_loop odd' (bit_pos + window_size)
                         (fe_mul (fe_sqr_n window_size result) (odd' ! unat (drop_bit 1 (value - 1))))))
      else Some result)"

definition pow_p_minus_2_addchain :: "field_element \<Rightarrow> field_element option" where
  "pow_p_minus_2_addchain base = addchain_loop (odd_table 16 base) 0 fe_one"

text \<open>The variants whose inner loop stops at \<open>window_size == 1\<close> as well.\<close>

function trim_window :: "u32 \<Rightarrow> nat \<Rightarrow> u32 \<times> nat" where
  "trim_window value window_size =
     (if value AND 1 = 0 \<and> 1 < window_size then trim_window (drop_bit 1 value) (window_size - 1) else (value, window_size))"
  by pat_completeness auto
termination by (relation "measure snd") auto

declare trim_window.simps [simp del]

lemma trim_window_pos: "1 \<le> w \<Longrightarrow> 1 \<le> snd (trim_window v w)"
proof (induction v w rule: trim_window.induct)
  case (1 v w)
  then show ?case by (subst trim_window.simps) auto
qed

definition square_unrolled :: "nat \<Rightarrow> field_element \<Rightarrow> field_element" where
  "square_unrolled window_size result =
     (if window_size = 5 then fe_square (fe_square (fe_square (fe_square (fe_square result))))
      else if window_size = 4 then fe_square (fe_square (fe_square (fe_square result)))
      else if window_size = 3 then fe_square (fe_square (fe_square result))
      else fe_sqr_n window_size result)"

lemma square_unrolled [simp]: "square_unrolled n r = fe_sqr_n n r"
  by (simp add: square_unrolled_def eval_nat_numeral)

function addchain_unrolled_loop :: "field_element list \<Rightarrow> nat \<Rightarrow> field_element \<Rightarrow> field_element" where
  "addchain_unrolled_loop odd' bit_pos result =
     (if bit_pos < kPrimeMinusTwoBitLength
      then if exponent_bit bit_pos = 0 then addchain_unrolled_loop odd' (bit_pos + 1) (fe_square result)
           else (let remaining = kPrimeMinusTwoBitLength - bit_pos;
                     window_size = (if 5 < remaining then 5 else remaining);
                     (value, window_size) = trim_window (window_value bit_pos window_size) window_size;
                     result = square_unrolled window_size result;
                     multiplier = odd' ! unat (drop_bit 1 (value - 1))
                 in addchain_unrolled_loop odd' (bit_pos + window_size) (fe_mul result multiplier))
      else result)"
  by pat_completeness auto
termination
proof (relation "measure (\<lambda>(odd', bit_pos, result). 256 - bit_pos)", goal_cases)
  case (3 odd' bit_pos result r w vw v w')
  have "1 \<le> w" using 3 by (auto split: if_splits)
  then have "1 \<le> snd (trim_window (window_value bit_pos w) w)" by (rule trim_window_pos)
  moreover have "snd (trim_window (window_value bit_pos w) w) = w'" using 3(5,6) by (metis snd_conv)
  ultimately show ?case using 3(1) by simp
qed auto

declare addchain_unrolled_loop.simps [simp del]

definition pow_p_minus_2_addchain_unrolled :: "field_element \<Rightarrow> field_element" where
  "pow_p_minus_2_addchain_unrolled base = addchain_unrolled_loop (odd_table 16 base) 0 fe_one"

text \<open>\<open>while (window_size < max_window && bit + window_size < length) ++window_size;\<close>\<close>

function grow_window :: "nat \<Rightarrow> nat \<Rightarrow> nat" where
  "grow_window bit_pos window_size =
     (if window_size < 5 \<and> bit_pos + window_size < kPrimeMinusTwoBitLength
      then grow_window bit_pos (window_size + 1) else window_size)"
  by pat_completeness auto
termination by (relation "measure (\<lambda>(bit_pos, window_size). 5 - window_size)") auto

declare grow_window.simps [simp del]

lemma grow_window_eq:
  "w \<le> 5 \<Longrightarrow> bit_pos + w \<le> 256 \<Longrightarrow> grow_window bit_pos w = min 5 (256 - bit_pos)"
proof (induction bit_pos w rule: grow_window.induct)
  case (1 bit_pos w)
  show ?case
  proof (cases "w < 5 \<and> bit_pos + w < kPrimeMinusTwoBitLength")
    case True
    then have "grow_window bit_pos w = grow_window bit_pos (w + 1)" by (subst grow_window.simps) simp
    with 1(1) [OF True] True show ?thesis by simp
  next
    case False
    then have "grow_window bit_pos w = w" by (subst grow_window.simps) auto
    with False 1(2,3) show ?thesis by auto
  qed
qed

lemma grow_window_pos: "1 \<le> w \<Longrightarrow> 1 \<le> grow_window bit_pos w"
proof (induction bit_pos w rule: grow_window.induct)
  case (1 bit_pos w)
  then show ?case by (subst grow_window.simps) auto
qed

function sliding_loop :: "field_element list \<Rightarrow> nat \<Rightarrow> field_element \<Rightarrow> field_element" where
  "sliding_loop odd_powers bit_pos result =
     (if bit_pos < kPrimeMinusTwoBitLength
      then if exponent_bit bit_pos = 0 then sliding_loop odd_powers (bit_pos + 1) (fe_square result)
           else (let window_size = grow_window bit_pos 1;
                     (value, window_size) = trim_window (window_value bit_pos window_size) window_size;
                     result = fe_sqr_n window_size result;
                     result = (if 0 < value then fe_mul result (odd_powers ! unat (drop_bit 1 (value - 1))) else result)
                 in sliding_loop odd_powers (bit_pos + window_size) result)
      else result)"
  by pat_completeness auto
termination
proof (relation "measure (\<lambda>(odd_powers, bit_pos, result). 256 - bit_pos)", goal_cases)
  case (3 odd_powers bit_pos result w vw v w')
  have "1 \<le> w" using 3 grow_window_pos by simp
  then have "1 \<le> snd (trim_window (window_value bit_pos w) w)" by (rule trim_window_pos)
  moreover have "snd (trim_window (window_value bit_pos w) w) = w'" using 3(3-6) by (metis snd_conv)
  ultimately show ?case using 3(1) by simp
qed auto

declare sliding_loop.simps [simp del]

definition pow_p_minus_2_sliding_dynamic :: "field_element \<Rightarrow> field_element" where
  "pow_p_minus_2_sliding_dynamic base = sliding_loop (odd_table 16 base) 0 fe_one"

section \<open>Exponents of the windowed routines\<close>

lemma unat_push_or:
  fixes v :: "'a :: len word" and b :: byte
  assumes "unat b \<le> 1" "unat v < 2 ^ n" "n < LENGTH('a)"
  shows "unat (push_bit 1 v OR ucast b) = 2 * unat v + unat b"
proof -
  have m: "2 * unat v + 1 < 2 ^ LENGTH('a)"
    using assms(2,3) power_increasing [of "Suc n" "LENGTH('a)" "2 :: nat"] by simp
  have p: "push_bit 1 v = word_of_nat (2 * unat v)" by (simp add: push_bit_eq_mult)
  have "unat b = unat (0 :: byte) \<or> unat b = unat (1 :: byte)" using assms(1) by auto
  then have "b = 0 \<or> b = 1" by (simp only: word_unat_eq_iff [symmetric])
  then show ?thesis
  proof
    assume "b = 1"
    then have "push_bit 1 v OR ucast b = word_of_nat (2 * unat v + 1)"
      unfolding p by (simp add: or_one_eq)
    then show ?thesis using \<open>b = 1\<close> m by (simp only: unat_of_nat mod_less) simp
  next
    assume "b = 0"
    then show ?thesis using m unfolding p by (simp add: unat_of_nat del: of_nat_mult)
  qed
qed

lemma window_value_prefix:
  assumes "bit_pos + n \<le> 256" "n \<le> LENGTH('a)"
  shows "unat (window_value bit_pos n :: 'a :: len word) < 2 ^ n"
    and "prefix_val (bit_pos + n) = prefix_val bit_pos * 2 ^ n + unat (window_value bit_pos n :: 'a word)"
    and "0 < n \<Longrightarrow> unat (exponent_bit bit_pos) \<le> unat (window_value bit_pos n :: 'a word)"
proof -
  let ?v = "\<lambda>n. window_value bit_pos n :: 'a word"
  have "unat (?v n) < 2 ^ n \<and> prefix_val (bit_pos + n) = prefix_val bit_pos * 2 ^ n + unat (?v n) \<and>
      (0 < n \<longrightarrow> unat (exponent_bit bit_pos) \<le> unat (?v n))"
    using assms
  proof (induction n)
    case (Suc n)
    then have IH: "unat (?v n) < 2 ^ n" "prefix_val (bit_pos + n) = prefix_val bit_pos * 2 ^ n + unat (?v n)"
      "0 < n \<Longrightarrow> unat (exponent_bit bit_pos) \<le> unat (?v n)" by auto
    have "?v (Suc n) = push_bit 1 (?v n) OR ucast (exponent_bit (bit_pos + n))"
      by (simp add: window_value_def)
    then have v: "unat (?v (Suc n)) = 2 * unat (?v n) + unat (exponent_bit (bit_pos + n))"
      using unat_push_or [OF exponent_bit_le IH(1)] Suc.prems by simp
    have "n = 0 \<Longrightarrow> ?v n = 0" by (simp add: window_value_def)
    then show ?case using v IH prefix_step [of "bit_pos + n"] exponent_bit_le [of "bit_pos + n"] Suc.prems
      by (cases "n = 0") auto
  qed (simp add: window_value_def)
  then show "unat (?v n) < 2 ^ n" "prefix_val (bit_pos + n) = prefix_val bit_pos * 2 ^ n + unat (?v n)"
    "0 < n \<Longrightarrow> unat (exponent_bit bit_pos) \<le> unat (?v n)" by auto
qed

definition started_inv :: "field_element \<Rightarrow> nat \<Rightarrow> bool \<times> field_element \<Rightarrow> bool" where
  "started_inv b e st \<longleftrightarrow> fe_is_pow b e (snd st) \<and> (\<not> fst st \<longrightarrow> e = 0)"

lemma window5_step:
  assumes "started_inv b (prefix_val bit_pos) st" "bit_pos + 5 \<le> 256"
  shows "started_inv b (prefix_val (bit_pos + 5)) (window_digit 5 (pow_table 32 b) (window_value bit_pos 5) st)"
  using window_digit_pow [of b "prefix_val bit_pos" "snd st" "fst st" "window_value bit_pos 5" "pow_table 32 b" 5]
    window_value_prefix [of bit_pos 5, where 'a = 8] pow_table_ok [where n = 32 and base = b] assms
  by (simp add: started_inv_def)

lemma window5_loop_inv:
  assumes "started_inv b (prefix_val bit_pos) st" "bit_pos \<le> 255" "bit_pos mod 5 = 0"
  shows "\<exists>st'. window5_loop (pow_table 32 b) bit_pos st = (255, st') \<and> started_inv b (prefix_val 255) st'"
  using assms
proof (induction "256 - bit_pos" arbitrary: bit_pos st rule: less_induct)
  case less
  show ?case
  proof (cases "bit_pos + 5 \<le> 256")
    case True
    have "bit_pos + 5 \<noteq> 256" using less.prems(3) by presburger
    then show ?thesis using less.hyps [of "bit_pos + 5" "window_digit 5 (pow_table 32 b) (window_value bit_pos 5) st"]
        window5_step [OF less.prems(1) True] True less.prems(3)
      by (subst window5_loop.simps) simp
  next
    case False
    have "bit_pos = 255" using False less.prems(2,3) by presburger
    then show ?thesis using less.prems(1) by (subst window5_loop.simps) simp
  qed
qed

lemma window5_end:
  obtains s r where "window5_loop (pow_table 32 b) 0 (False, fe_one) = (255, s, r)"
    "fe_is_pow b (prefix_val 255) r" "s"
proof -
  have "started_inv b (prefix_val 0) (False, fe_one)" by (simp add: started_inv_def)
  from window5_loop_inv [OF this] obtain st' where
    st: "window5_loop (pow_table 32 b) 0 (False, fe_one) = (255, st')" "started_inv b (prefix_val 255) st'" by auto
  have "prefix_val 255 \<noteq> 0" by (simp add: prefix_val_def pm2_def)
  then have "fst st'" "fe_is_pow b (prefix_val 255) (snd st')" using st(2) by (auto simp: started_inv_def)
  with that [of True "snd st'"] st(1) show ?thesis by (cases st') simp
qed

lemma prefix_last: "prefix_val 255 * 2 + unat (exponent_bit 255) = pm2"
  using prefix_step [of 255] by (simp add: mult.commute)

lemma pow_fixed_window5: "fe_is_pow b pm2 (pow_p_minus_2_fixed_window5 b)"
proof -
  obtain s r where loop: "window5_loop (pow_table 32 b) 0 (False, fe_one) = (255, s, r)"
    and r: "fe_is_pow b (prefix_val 255) r" and s: "s" by (rule window5_end)
  note v = window_value_prefix [of 255 1, where 'a = 8]
  have "fe_is_pow b (prefix_val 255 * 2 ^ 1 + unat (window_value 255 1 :: byte))
      (fe_mul (fe_sqr_n 1 r) (pow_table 32 b ! unat (window_value 255 1 :: byte)))"
    using v by (intro window_mul r) (simp_all add: pow_table_ok)
  moreover have "fe_is_pow b (prefix_val 255 * 2 ^ 1) (fe_sqr_n 1 r)" by (intro pow_intros r)
  ultimately show ?thesis using v s
    by (auto simp: pow_p_minus_2_fixed_window5_def loop Let_def)
qed

lemma tail_bits_last: "tail_bits b 255 r = (if exponent_bit 255 \<noteq> 0 then fe_mul (fe_square r) b else fe_square r)"
  by (subst tail_bits.simps) (simp add: Let_def tail_bits.simps)

lemma pow_warp_optimized: "fe_is_pow b pm2 (pow_p_minus_2_warp_optimized b)"
proof -
  obtain s r where loop: "window5_loop (pow_table 32 b) 0 (False, fe_one) = (255, s, r)"
    and r: "fe_is_pow b (prefix_val 255) r" by (rule window5_end)
  have "exponent_bit 255 = 1" by (simp add: exponent_bit_def kPrimeMinusTwo_def Let_def)
  moreover have "fe_is_pow b (2 * prefix_val 255 + 1) (fe_mul (fe_square r) b)"
    by (intro pow_intros r) simp
  ultimately show ?thesis using prefix_last
    by (simp add: pow_p_minus_2_warp_optimized_def loop tail_bits_last mult.commute)
qed

text \<open>The window of a sliding method: its value is odd once trimmed, and extends the prefix read so far.\<close>

definition window_inv :: "nat \<Rightarrow> u32 \<times> nat \<Rightarrow> bool" where
  "window_inv bit_pos vw \<longleftrightarrow>
     1 \<le> snd vw \<and> snd vw \<le> 5 \<and> bit_pos + snd vw \<le> 256 \<and> 0 < unat (fst vw) \<and> unat (fst vw) < 2 ^ snd vw \<and>
     prefix_val (bit_pos + snd vw) = prefix_val bit_pos * 2 ^ snd vw + unat (fst vw)"

lemma unat_half: "unat (drop_bit 1 (v :: u32)) = unat v div 2"
  by (rule unat_drop_bit_eq [THEN trans]) (simp only: drop_bit_eq_div power_one_right)

lemma and_one_unat: "(v :: u32) AND 1 = 0 \<longleftrightarrow> even (unat v)"
proof -
  have "unat (v AND 1) = unat v mod 2" by (simp only: unsigned_and_eq unsigned_1) (simp only: and_one_eq)
  then have "v AND 1 = 0 \<longleftrightarrow> unat v mod 2 = 0" by (metis unat_eq_0)
  then show ?thesis by (simp only: even_iff_mod_2_eq_zero)
qed

lemma even_window:
  assumes "window_inv bit_pos (v, w)" "v AND 1 = 0"
  shows "1 < w" "window_inv bit_pos (drop_bit 1 v, w - 1)"
proof -
  have e: "even (unat v)" using assms(2) by (simp only: and_one_unat)
  have v: "0 < unat v" "unat v < 2 ^ w" "1 \<le> w" "w \<le> 5" "bit_pos + w \<le> 256"
    "prefix_val (bit_pos + w) = prefix_val bit_pos * 2 ^ w + unat v"
    using assms(1) by (auto simp: window_inv_def)
  show w: "1 < w"
  proof (rule ccontr)
    assume "\<not> 1 < w"
    then have "w = 1" using v(3) by simp
    then show False using v e by (metis One_nat_def Suc_1 even_zero less_2_cases_iff odd_one power_one_right less_numeral_extra(3))
  qed
  note d = unat_half [of v]
  have "256 - (bit_pos + (w - 1)) = Suc (256 - (bit_pos + w))" using v(3,5) by simp
  then have p: "prefix_val (bit_pos + (w - 1)) = prefix_val (bit_pos + w) div 2"
    by (simp only: prefix_val_def power_Suc2 div_mult2_eq)
  have s: "(2 :: nat) ^ w = 2 * 2 ^ (w - 1)" using w by (metis Suc_pred' less_imp_Suc_add power_Suc zero_less_Suc less_trans zero_less_one)
  have "prefix_val (bit_pos + (w - 1)) = prefix_val bit_pos * 2 ^ (w - 1) + unat v div 2"
    unfolding p v(6) s using e by (auto elim!: evenE)
  moreover have "0 < unat v div 2" "unat v div 2 < 2 ^ (w - 1)" using e v(1,2) s by (auto elim!: evenE)
  ultimately show "window_inv bit_pos (drop_bit 1 v, w - 1)"
    using w v(3-5) by (simp only: window_inv_def fst_conv snd_conv d) (intro conjI TrueI; linarith)
qed

lemma odd_window_pow:
  assumes "window_inv bit_pos (v, w)" "v AND 1 \<noteq> 0" "fe_is_pow b (prefix_val bit_pos) r"
  shows "fe_is_pow b (prefix_val (bit_pos + w)) (fe_mul (fe_sqr_n w r) (odd_table 16 b ! unat (drop_bit 1 (v - 1))))"
proof -
  have v: "0 < unat v" "unat v < 2 ^ w" "w \<le> 5" "prefix_val (bit_pos + w) = prefix_val bit_pos * 2 ^ w + unat v"
    using assms(1) by (auto simp: window_inv_def)
  have o: "odd (unat v)" using assms(2) by (simp only: and_one_unat) simp
  have "v \<noteq> 0" using v(1) by auto
  then have "unat (v - 1) = unat v - 1" by (simp add: unat_minus_one)
  then have d: "unat (drop_bit 1 (v - 1)) = (unat v - 1) div 2" by (simp only: unat_half)
  have "unat v < 2 ^ 5" using v(2) power_increasing [OF v(3), of "2 :: nat"] by simp
  then have "fe_is_pow b (2 * ((unat v - 1) div 2) + 1) (odd_table 16 b ! unat (drop_bit 1 (v - 1)))"
    unfolding d by (intro odd_table_ok) simp_all
  then have m: "fe_is_pow b (unat v) (odd_table 16 b ! unat (drop_bit 1 (v - 1)))"
    by (rule fe_is_pow_cong) (use o in \<open>auto elim: oddE\<close>)
  show ?thesis unfolding v(4) by (intro fe_is_pow_sqr_mul assms(3) m)
qed

lemma window_start:
  assumes "exponent_bit bit_pos \<noteq> 0" "1 \<le> w" "w \<le> 5" "bit_pos + w \<le> 256"
  shows "window_inv bit_pos (window_value bit_pos w, w)"
proof -
  have "unat (exponent_bit bit_pos) \<noteq> 0" using assms(1) by (simp add: unat_eq_0)
  then show ?thesis using window_value_prefix [of bit_pos w, where 'a = 32] assms by (simp add: window_inv_def)
qed

lemma trim_window_inv:
  "window_inv bit_pos (v, w) \<Longrightarrow> window_inv bit_pos (trim_window v w) \<and> fst (trim_window v w) AND 1 \<noteq> 0"
proof (induction v w rule: trim_window.induct)
  case (1 v w)
  show ?case
  proof (cases "v AND 1 = 0")
    case True
    then have "trim_window v w = trim_window (drop_bit 1 v) (w - 1)"
      using even_window(1) [OF 1(2) True] by (subst trim_window.simps) simp
    with 1(1) [OF _ even_window(2) [OF 1(2) True]] True even_window(1) [OF 1(2) True] show ?thesis by simp
  next
    case False
    then have "trim_window v w = (v, w)" by (subst trim_window.simps) simp
    with False 1(2) show ?thesis by simp
  qed
qed

lemma strip_window_total:
  assumes "window_inv bit_pos (v, w)"
  shows "\<exists>v' w'. while_option (\<lambda>(value, window_size). value AND 1 = 0)
      (\<lambda>(value, window_size). (drop_bit 1 value, window_size - 1)) (v, w) = Some (v', w') \<and>
    window_inv bit_pos (v', w') \<and> v' AND 1 \<noteq> 0"
proof -
  let ?b = "\<lambda>(value :: u32, window_size :: nat). value AND 1 = 0"
    and ?c = "\<lambda>(value :: u32, window_size :: nat). (drop_bit 1 value, window_size - 1)"
  have step: "window_inv bit_pos (?c s) \<and> snd (?c s) < snd s" if "window_inv bit_pos s" "?b s" for s
    using that even_window [of bit_pos "fst s" "snd s"] by (cases s) simp
  obtain t where t: "while_option ?b ?c (v, w) = Some t"
    using measure_while_option_Some [where P = "window_inv bit_pos" and f = snd, OF step assms] by blast
  have "window_inv bit_pos t"
    by (rule while_option_rule [where P = "window_inv bit_pos", OF _ t assms]) (use step in blast)
  moreover have "\<not> ?b t" by (rule while_option_stop [OF t])
  ultimately show ?thesis using t by (cases t) simp
qed

lemma zero_bit_pow:
  assumes "exponent_bit bit_pos = 0" "bit_pos < 256" "fe_is_pow b (prefix_val bit_pos) r"
  shows "fe_is_pow b (prefix_val (bit_pos + 1)) (fe_square r)"
  using fe_is_pow_square [OF assms(3)] prefix_step [OF assms(2)] assms(1) by simp

lemma addchain_loop_pow:
  assumes "fe_is_pow b (prefix_val bit_pos) r" "bit_pos \<le> 256"
  shows "\<exists>y. addchain_loop (odd_table 16 b) bit_pos r = Some y \<and> fe_is_pow b pm2 y"
  using assms
proof (induction "256 - bit_pos" arbitrary: bit_pos r rule: less_induct)
  case less
  consider "bit_pos = 256" | "bit_pos < 256" "exponent_bit bit_pos = 0" | "bit_pos < 256" "exponent_bit bit_pos \<noteq> 0"
    using less.prems(2) by linarith
  then show ?case
  proof cases
    case 1
    then show ?thesis using less.prems(1) by (subst addchain_loop.simps) simp
  next
    case 2
    have "\<exists>y. addchain_loop (odd_table 16 b) (bit_pos + 1) (fe_square r) = Some y \<and> fe_is_pow b pm2 y"
      using 2 zero_bit_pow [OF 2(2,1) less.prems(1)] by (intro less.hyps) simp_all
    then show ?thesis using 2 by (subst addchain_loop.simps) simp
  next
    case 3
    define w where "w = (if 5 < 256 - bit_pos then 5 else 256 - bit_pos)"
    have "window_inv bit_pos (window_value bit_pos w, w)"
      using 3 by (intro window_start) (auto simp: w_def)
    from strip_window_total [OF this] obtain v' w' where
      s: "while_option (\<lambda>(value, window_size). value AND 1 = 0)
          (\<lambda>(value, window_size). (drop_bit 1 value, window_size - 1)) (window_value bit_pos w, w) = Some (v', w')"
      and i: "window_inv bit_pos (v', w')" "v' AND 1 \<noteq> 0" by blast
    have "\<exists>y. addchain_loop (odd_table 16 b) (bit_pos + w') (fe_mul (fe_sqr_n w' r) (odd_table 16 b ! unat (drop_bit 1 (v' - 1)))) = Some y
        \<and> fe_is_pow b pm2 y"
    proof (intro less.hyps)
      have w': "1 \<le> w'" "bit_pos + w' \<le> 256" using i(1) by (auto simp: window_inv_def)
      then show "256 - (bit_pos + w') < 256 - bit_pos" "bit_pos + w' \<le> 256" using 3 by simp_all
    qed (rule odd_window_pow [OF i less.prems(1)])
    then show ?thesis using 3
      by (subst addchain_loop.simps) (simp only: 3 bit_length if_True if_False Let_def w_def [symmetric] s
          Option.bind.bind_lunit prod.case)
  qed
qed

lemma pow_addchain: "\<exists>y. pow_p_minus_2_addchain b = Some y \<and> fe_is_pow b pm2 y"
  unfolding pow_p_minus_2_addchain_def by (rule addchain_loop_pow) simp_all

lemma trimmed_step:
  assumes "exponent_bit bit_pos \<noteq> 0" "1 \<le> w" "w \<le> 5" "bit_pos + w \<le> 256" "fe_is_pow b (prefix_val bit_pos) r"
    and "trim_window (window_value bit_pos w) w = (v', w')"
  shows "1 \<le> w'" "bit_pos + w' \<le> 256" "0 < v'"
    "fe_is_pow b (prefix_val (bit_pos + w')) (fe_mul (fe_sqr_n w' r) (odd_table 16 b ! unat (drop_bit 1 (v' - 1))))"
proof -
  have i: "window_inv bit_pos (v', w')" "v' AND 1 \<noteq> 0"
    using trim_window_inv [OF window_start [OF assms(1-4)]] assms(6) by auto
  then show "1 \<le> w'" "bit_pos + w' \<le> 256" "0 < v'" by (auto simp: window_inv_def word_less_nat_alt)
  show "fe_is_pow b (prefix_val (bit_pos + w')) (fe_mul (fe_sqr_n w' r) (odd_table 16 b ! unat (drop_bit 1 (v' - 1))))"
    by (rule odd_window_pow [OF i assms(5)])
qed

lemma addchain_unrolled_loop_pow:
  assumes "fe_is_pow b (prefix_val bit_pos) r" "bit_pos \<le> 256"
  shows "fe_is_pow b pm2 (addchain_unrolled_loop (odd_table 16 b) bit_pos r)"
  using assms
proof (induction "256 - bit_pos" arbitrary: bit_pos r rule: less_induct)
  case less
  consider "bit_pos = 256" | "bit_pos < 256" "exponent_bit bit_pos = 0" | "bit_pos < 256" "exponent_bit bit_pos \<noteq> 0"
    using less.prems(2) by linarith
  then show ?case
  proof cases
    case 1
    then show ?thesis using less.prems(1) by (subst addchain_unrolled_loop.simps) simp
  next
    case 2
    have "fe_is_pow b pm2 (addchain_unrolled_loop (odd_table 16 b) (bit_pos + 1) (fe_square r))"
      using 2 zero_bit_pow [OF 2(2,1) less.prems(1)] by (intro less.hyps) simp_all
    then show ?thesis using 2 by (subst addchain_unrolled_loop.simps) simp
  next
    case 3
    define w where "w = (if 5 < 256 - bit_pos then 5 else 256 - bit_pos)"
    obtain v' w' where t: "trim_window (window_value bit_pos w) w = (v', w')" by fastforce
    have w: "1 \<le> w" "w \<le> 5" "bit_pos + w \<le> 256" using 3 by (auto simp: w_def)
    note s = trimmed_step [OF 3(2) w less.prems(1) t]
    have "fe_is_pow b pm2 (addchain_unrolled_loop (odd_table 16 b) (bit_pos + w') (fe_mul (fe_sqr_n w' r) (odd_table 16 b ! unat (drop_bit 1 (v' - 1)))))"
      using w s by (intro less.hyps) simp_all
    then show ?thesis using 3
      by (subst addchain_unrolled_loop.simps) (simp add: Let_def t [unfolded w_def])
  qed
qed

lemma sliding_loop_pow:
  assumes "fe_is_pow b (prefix_val bit_pos) r" "bit_pos \<le> 256"
  shows "fe_is_pow b pm2 (sliding_loop (odd_table 16 b) bit_pos r)"
  using assms
proof (induction "256 - bit_pos" arbitrary: bit_pos r rule: less_induct)
  case less
  consider "bit_pos = 256" | "bit_pos < 256" "exponent_bit bit_pos = 0" | "bit_pos < 256" "exponent_bit bit_pos \<noteq> 0"
    using less.prems(2) by linarith
  then show ?case
  proof cases
    case 1
    then show ?thesis using less.prems(1) by (subst sliding_loop.simps) simp
  next
    case 2
    have "fe_is_pow b pm2 (sliding_loop (odd_table 16 b) (bit_pos + 1) (fe_square r))"
      using 2 zero_bit_pow [OF 2(2,1) less.prems(1)] by (intro less.hyps) simp_all
    then show ?thesis using 2 by (subst sliding_loop.simps) simp
  next
    case 3
    define w where "w = grow_window bit_pos 1"
    have m: "w = min 5 (256 - bit_pos)" using 3 grow_window_eq [of 1 bit_pos] by (simp add: w_def)
    obtain v' w' where t: "trim_window (window_value bit_pos w) w = (v', w')" by fastforce
    have w: "1 \<le> w" "w \<le> 5" "bit_pos + w \<le> 256" using 3 by (simp_all add: m)
    note s = trimmed_step [OF 3(2) w less.prems(1) t]
    have "fe_is_pow b pm2 (sliding_loop (odd_table 16 b) (bit_pos + w') (fe_mul (fe_sqr_n w' r) (odd_table 16 b ! unat (drop_bit 1 (v' - 1)))))"
      using w s by (intro less.hyps) simp_all
    then show ?thesis
      by (subst sliding_loop.simps) (simp only: 3 s(3) bit_length if_True if_False Let_def w_def [symmetric] t prod.case)
  qed
qed

lemma pow_sliding:
  "fe_is_pow b pm2 (pow_p_minus_2_addchain_unrolled b)" "fe_is_pow b pm2 (pow_p_minus_2_sliding_dynamic b)"
  by (simp_all add: pow_p_minus_2_addchain_unrolled_def pow_p_minus_2_sliding_dynamic_def
      addchain_unrolled_loop_pow sliding_loop_pow)

section \<open>Addition chains\<close>

lemma pow_let:
  assumes "fe_is_pow b d x" "\<And>y. fe_is_pow b d y \<Longrightarrow> fe_is_pow b e (f y)"
  shows "fe_is_pow b e (Let x f)"
  using assms by (simp add: Let_def)

lemma fe_is_pow_mul_sqr_n:
  "fe_is_pow b e r \<Longrightarrow> fe_is_pow b d m \<Longrightarrow> e * 2 ^ n + d = k \<Longrightarrow> fe_is_pow b k (fe_mul (fe_sqr_n n r) m)"
  using fe_is_pow_sqr_mul by blast

text \<open>
  The chains build \<open>2 ^ k - 1\<close> for \<open>k = 2, 3, 6, 9, 11, 22, 44, 88, 176, 220, 223\<close> and then the tail of
  the exponent.
\<close>

definition pow_p_minus_2_binary :: "field_element \<Rightarrow> field_element" where
  "pow_p_minus_2_binary base =
     (let x2 = fe_mul (fe_square base) base;
          x3 = fe_mul (fe_square x2) base;
          x6 = fe_mul (fe_sqr_n 3 x3) x3;
          x9 = fe_mul (fe_sqr_n 3 x6) x3;
          x11 = fe_mul (fe_square (fe_square x9)) x2;
          x22 = fe_mul (fe_sqr_n 11 x11) x11;
          x44 = fe_mul (fe_sqr_n 22 x22) x22;
          x88 = fe_mul (fe_sqr_n 44 x44) x44;
          x176 = fe_mul (fe_sqr_n 88 x88) x88;
          x220 = fe_mul (fe_sqr_n 44 x176) x44;
          x223 = fe_mul (fe_sqr_n 3 x220) x3;
          t = fe_mul (fe_sqr_n 23 x223) x22;
          t = fe_mul (fe_sqr_n 5 t) base;
          t = fe_mul (fe_sqr_n 3 t) x2;
          t = fe_mul (fe_square (fe_square t)) base
      in t)"

definition fe_sqrt :: "field_element \<Rightarrow> field_element" where
  "fe_sqrt a =
     (let x2 = fe_mul (fe_square a) a;
          x3 = fe_mul (fe_square x2) a;
          x6 = fe_mul (fe_sqr_n 3 x3) x3;
          x9 = fe_mul (fe_sqr_n 3 x6) x3;
          x11 = fe_mul (fe_sqr_n 2 x9) x2;
          x22 = fe_mul (fe_sqr_n 11 x11) x11;
          x44 = fe_mul (fe_sqr_n 22 x22) x22;
          x88 = fe_mul (fe_sqr_n 44 x44) x44;
          x176 = fe_mul (fe_sqr_n 88 x88) x88;
          x220 = fe_mul (fe_sqr_n 44 x176) x44;
          x223 = fe_mul (fe_sqr_n 3 x220) x3;
          t1 = fe_mul (fe_sqr_n 23 x223) x22;
          t1 = fe_mul (fe_sqr_n 6 t1) x2;
          t1 = fe_square t1;
          t1 = fe_square t1
      in t1)"

definition pow_p_minus_2_yao :: "field_element \<Rightarrow> field_element" where
  "pow_p_minus_2_yao base =
     (let x = base;
          x2 = fe_square x;
          x3 = fe_mul x2 x;
          x6 = fe_mul (fe_square x3) x3;
          x12 = fe_mul (fe_square x6) x6;
          x15 = fe_mul x12 x3;
          t = fe_sqr_n 4 x15;
          t = fe_mul t x15;
          result = fe_mul (fe_sqr_n 8 t) t;
          result = fe_mul (fe_sqr_n 16 result) t;
          result = fe_mul (fe_sqr_n 32 result) t;
          result = fe_mul (fe_sqr_n 64 result) t;
          result = fe_mul (fe_sqr_n 128 result) t
      in fe_sqr_n 6 result)"

definition pow_p_minus_2_karatsuba :: "field_element \<Rightarrow> field_element" where
  "pow_p_minus_2_karatsuba base =
     (let result = base;
          p2 = fe_square result;
          p4 = fe_square p2;
          p8 = fe_square p4;
          p16 = fe_square p8;
          acc = fe_mul (fe_mul (fe_mul (fe_mul p16 p8) p4) p2) result;
          acc = fe_sqr_n 5 acc;
          acc = fe_mul (fe_mul (fe_mul (fe_mul (fe_mul acc p16) p8) p4) p2) result
      in fe_sqr_n 200 acc)"

lemmas chain_intros = pow_intros fe_is_pow_base(1)

lemma chain_2_3:
  "fe_is_pow b 3 (fe_mul (fe_square b) b)" "fe_is_pow b 3 x \<Longrightarrow> fe_is_pow b 7 (fe_mul (fe_square x) b)"
  using fe_is_pow_mul [OF fe_is_pow_square [OF fe_is_pow_base(1)] fe_is_pow_base(1), of b]
    fe_is_pow_mul [OF fe_is_pow_square fe_is_pow_base(1), of b 3 x] by simp_all

lemma pow_sqr2_mul:
  "fe_is_pow b e r \<Longrightarrow> fe_is_pow b d m \<Longrightarrow> e * 4 + d = k \<Longrightarrow> fe_is_pow b k (fe_mul (fe_square (fe_square r)) m)"
  using fe_is_pow_mul [OF sqr2_pow] by auto

text \<open>The blocks both chains share, with their exponents.\<close>

lemma chain_blocks:
  assumes "\<And>x2 x3 x22 x223. fe_is_pow b 3 x2 \<Longrightarrow> fe_is_pow b 7 x3 \<Longrightarrow> fe_is_pow b (2 ^ 22 - 1) x22 \<Longrightarrow>
      fe_is_pow b (2 ^ 223 - 1) x223 \<Longrightarrow> fe_is_pow b e (f x2 x3 x22 x223)"
    and x11: "\<And>x2 x9. fe_is_pow b 3 x2 \<Longrightarrow> fe_is_pow b 511 x9 \<Longrightarrow> fe_is_pow b 2047 (g x2 x9)"
  shows "fe_is_pow b e
     (let x2 = fe_mul (fe_square b) b; x3 = fe_mul (fe_square x2) b; x6 = fe_mul (fe_sqr_n 3 x3) x3;
          x9 = fe_mul (fe_sqr_n 3 x6) x3; x11 = g x2 x9; x22 = fe_mul (fe_sqr_n 11 x11) x11;
          x44 = fe_mul (fe_sqr_n 22 x22) x22; x88 = fe_mul (fe_sqr_n 44 x44) x44; x176 = fe_mul (fe_sqr_n 88 x88) x88;
          x220 = fe_mul (fe_sqr_n 44 x176) x44; x223 = fe_mul (fe_sqr_n 3 x220) x3
      in f x2 x3 x22 x223)"
proof (rule pow_let [OF chain_2_3(1)], rule pow_let, erule chain_2_3(2))
  fix x2 x3
  assume 2: "fe_is_pow b 3 x2" and 3: "fe_is_pow b 7 x3"
  note sm = fe_is_pow_mul_sqr_n
  show "fe_is_pow b e (let x6 = fe_mul (fe_sqr_n 3 x3) x3;
          x9 = fe_mul (fe_sqr_n 3 x6) x3; x11 = g x2 x9; x22 = fe_mul (fe_sqr_n 11 x11) x11;
          x44 = fe_mul (fe_sqr_n 22 x22) x22; x88 = fe_mul (fe_sqr_n 44 x44) x44; x176 = fe_mul (fe_sqr_n 88 x88) x88;
          x220 = fe_mul (fe_sqr_n 44 x176) x44; x223 = fe_mul (fe_sqr_n 3 x220) x3
      in f x2 x3 x22 x223)"
    apply (rule pow_let [where d = 63], rule sm [OF 3 3], simp)
    apply (rule pow_let [where d = 511], rule sm [OF _ 3], assumption, simp)
    apply (rule pow_let [where d = 2047], erule x11 [OF 2])
    apply (rule pow_let [where d = "2 ^ 22 - 1"], rule sm, assumption, assumption, simp)
    apply (rule pow_let [where d = "2 ^ 44 - 1"], rule sm, assumption, assumption, simp)
    apply (rule pow_let [where d = "2 ^ 88 - 1"], rule sm, assumption, assumption, simp)
    apply (rule pow_let [where d = "2 ^ 176 - 1"], rule sm, assumption, assumption, simp)
    apply (rule pow_let [where d = "2 ^ 220 - 1"], rule sm, assumption, assumption, simp)
    apply (rule pow_let [where d = "2 ^ 223 - 1"], rule sm [OF _ 3], assumption, simp)
    apply (rule assms(1) [OF 2 3], assumption+)
    done
qed

lemma pow_binary_chain: "fe_is_pow b pm2 (pow_p_minus_2_binary b)"
  unfolding pow_p_minus_2_binary_def
proof (rule chain_blocks)
  fix x2 x3 x22 x223
  assume c: "fe_is_pow b 3 x2" "fe_is_pow b 7 x3" "fe_is_pow b (2 ^ 22 - 1) x22" "fe_is_pow b (2 ^ 223 - 1) x223"
  note sm = fe_is_pow_mul_sqr_n
  have "fe_is_pow b ((2 ^ 223 - 1) * 2 ^ 23 + (2 ^ 22 - 1)) (fe_mul (fe_sqr_n 23 x223) x22)"
    by (rule sm [OF c(4,3)]) simp
  from pow_sqr2_mul [OF sm [OF sm [OF this fe_is_pow_base(1) refl, of 5] c(1) refl, of 3] fe_is_pow_base(1)]
  show "fe_is_pow b pm2
     (let t = fe_mul (fe_sqr_n 23 x223) x22; t = fe_mul (fe_sqr_n 5 t) b; t = fe_mul (fe_sqr_n 3 t) x2;
          t = fe_mul (fe_square (fe_square t)) b in t)"
    by (simp add: Let_def pm2_def)
qed (auto intro: pow_sqr2_mul)

lemma fe_sqrt_pow: "fe_is_pow a (2 ^ 254 - 2 ^ 30 - 244) (fe_sqrt a)"
  unfolding fe_sqrt_def
proof (rule chain_blocks)
  fix x2 x3 x22 x223
  assume c: "fe_is_pow a 3 x2" "fe_is_pow a 7 x3" "fe_is_pow a (2 ^ 22 - 1) x22" "fe_is_pow a (2 ^ 223 - 1) x223"
  note sm = fe_is_pow_mul_sqr_n
  have "fe_is_pow a ((2 ^ 223 - 1) * 2 ^ 23 + (2 ^ 22 - 1)) (fe_mul (fe_sqr_n 23 x223) x22)"
    by (rule sm [OF c(4,3)]) simp
  from sqr2_pow [OF sm [OF this c(1) refl, of 6]]
  show "fe_is_pow a (2 ^ 254 - 2 ^ 30 - 244)
     (let t1 = fe_mul (fe_sqr_n 23 x223) x22; t1 = fe_mul (fe_sqr_n 6 t1) x2; t1 = fe_square t1; t1 = fe_square t1 in t1)"
    by (simp add: Let_def)
qed (rule fe_is_pow_mul_sqr_n, assumption, assumption, simp)

definition yao_exponent :: nat where
  "yao_exponent = 510 * (1 + 2 ^ 128 * (1 + 2 ^ 64 * (1 + 2 ^ 32 * (1 + 2 ^ 16 * (1 + 2 ^ 8))))) * 2 ^ 6"

lemma pow_yao: "fe_is_pow b yao_exponent (pow_p_minus_2_yao b)"
proof -
  have y: "fe_is_pow b 30 (fe_mul (fe_mul (fe_square (fe_mul (fe_square (fe_mul (fe_square b) b)) (fe_mul (fe_square b) b)))
      (fe_mul (fe_square (fe_mul (fe_square b) b)) (fe_mul (fe_square b) b))) (fe_mul (fe_square b) b))"
    by (rule fe_is_pow_cong, (rule chain_intros)+) simp
  show ?thesis
    unfolding pow_p_minus_2_yao_def Let_def yao_exponent_def
    by (rule fe_is_pow_cong, (rule y pow_intros)+) simp
qed

definition karatsuba_exponent :: nat where
  "karatsuba_exponent = (31 * 2 ^ 5 + 31) * 2 ^ 200"

lemma pow_karatsuba: "fe_is_pow b karatsuba_exponent (pow_p_minus_2_karatsuba b)"
  unfolding pow_p_minus_2_karatsuba_def Let_def karatsuba_exponent_def
  by (rule fe_is_pow_cong, (rule chain_intros)+) simp

section \<open>The public inversion functions\<close>

definition fe_inverse_binary :: "field_element \<Rightarrow> field_element" where
  "fe_inverse_binary value = pow_p_minus_2_binary value"
definition fe_inverse_window4 :: "field_element \<Rightarrow> field_element" where
  "fe_inverse_window4 value = pow_p_minus_2_window4 value"
definition fe_inverse_addchain :: "field_element \<Rightarrow> field_element option" where
  "fe_inverse_addchain value = pow_p_minus_2_addchain value"
definition fe_inverse_window_naf_v2 :: "field_element \<Rightarrow> field_element" where
  "fe_inverse_window_naf_v2 value = pow_p_minus_2_window_naf_v2 value"
definition fe_inverse_yao :: "field_element \<Rightarrow> field_element" where
  "fe_inverse_yao value = pow_p_minus_2_yao value"
definition fe_inverse_kary16 :: "field_element \<Rightarrow> field_element" where
  "fe_inverse_kary16 value = pow_p_minus_2_kary16 value"
definition fe_inverse_fixed_window5 :: "field_element \<Rightarrow> field_element" where
  "fe_inverse_fixed_window5 value = pow_p_minus_2_fixed_window5 value"
definition fe_inverse_rtl_binary :: "field_element \<Rightarrow> field_element" where
  "fe_inverse_rtl_binary value = pow_p_minus_2_rtl_binary value"
definition fe_inverse_addchain_unrolled :: "field_element \<Rightarrow> field_element" where
  "fe_inverse_addchain_unrolled value = pow_p_minus_2_addchain_unrolled value"
definition fe_inverse_binary_opt :: "field_element \<Rightarrow> field_element" where
  "fe_inverse_binary_opt value = pow_p_minus_2_binary_opt value"
definition fe_inverse_sliding_dynamic :: "field_element \<Rightarrow> field_element" where
  "fe_inverse_sliding_dynamic value = pow_p_minus_2_sliding_dynamic value"
definition fe_inverse_branchless :: "field_element \<Rightarrow> field_element" where
  "fe_inverse_branchless value = pow_p_minus_2_branchless value"
definition fe_inverse_parallel_window :: "field_element \<Rightarrow> field_element" where
  "fe_inverse_parallel_window value = pow_p_minus_2_parallel_window value"
definition fe_inverse_warp_optimized :: "field_element \<Rightarrow> field_element" where
  "fe_inverse_warp_optimized value = pow_p_minus_2_warp_optimized value"
definition fe_inverse_double_base :: "field_element \<Rightarrow> field_element" where
  "fe_inverse_double_base value = pow_p_minus_2_double_base value"
definition fe_inverse_compact_table :: "field_element \<Rightarrow> field_element" where
  "fe_inverse_compact_table value = pow_p_minus_2_compact_table value"
definition fe_inverse_bos_coster :: "field_element \<Rightarrow> field_element" where
  "fe_inverse_bos_coster value = pow_p_minus_2_bos_coster value"
definition fe_inverse_ltr_precomp :: "field_element \<Rightarrow> field_element" where
  "fe_inverse_ltr_precomp value = pow_p_minus_2_ltr_precomp value"
definition fe_inverse_pippenger :: "field_element \<Rightarrow> field_element" where
  "fe_inverse_pippenger value = pow_p_minus_2_pippenger value"
definition fe_inverse_karatsuba :: "field_element \<Rightarrow> field_element" where
  "fe_inverse_karatsuba value = pow_p_minus_2_karatsuba value"
definition fe_inverse_strauss :: "field_element \<Rightarrow> field_element" where
  "fe_inverse_strauss value = pow_p_minus_2_strauss value"

lemmas fe_inverse_defs =
  fe_inverse_binary_def fe_inverse_window4_def fe_inverse_addchain_def fe_inverse_window_naf_v2_def
  fe_inverse_yao_def fe_inverse_kary16_def fe_inverse_fixed_window5_def fe_inverse_rtl_binary_def
  fe_inverse_addchain_unrolled_def fe_inverse_binary_opt_def fe_inverse_sliding_dynamic_def
  fe_inverse_branchless_def fe_inverse_parallel_window_def fe_inverse_warp_optimized_def
  fe_inverse_double_base_def fe_inverse_compact_table_def fe_inverse_bos_coster_def
  fe_inverse_ltr_precomp_def fe_inverse_pippenger_def fe_inverse_karatsuba_def fe_inverse_strauss_def

section \<open>Montgomery constants of field.hpp\<close>

definition montgomery_R :: field_element where
  "montgomery_R = fe_from_uint64 0x1000003D1"
definition montgomery_R2 :: field_element where
  "montgomery_R2 = fe_from_limbs (Limbs4 0x000007A2000E90A1 0x0000000000000001 0 0)"
definition montgomery_R3 :: field_element where
  "montgomery_R3 = fe_from_limbs (Limbs4 0x002BB1E33795F671 0x0000000100000B73 0 0)"
definition montgomery_R_inv :: field_element where
  "montgomery_R_inv =
     fe_from_limbs (Limbs4 0xD838091D0868192A 0xBCB223FEDC24A059 0x9C46C2C295F2B761 0xC9BD190515538399)"
definition montgomery_K_MOD :: u64 where
  "montgomery_K_MOD = 0x1000003D1"

section \<open>Properties\<close>

text \<open>C27: every one of these inversion routines raises its argument to the power \<open>p - 2\<close> modulo \<open>p\<close>, for every
  argument, reduced or not; the sliding window of \<open>fe_inverse_addchain\<close>, whose inner loop has no bound,
  always returns.
\<close>

theorem fe_inverse_exponent:
  "fe_is_pow a pm2 (fe_inverse_binary a) \<and> fe_is_pow a pm2 (fe_inverse_window4 a) \<and>
   (\<exists>r. fe_inverse_addchain a = Some r \<and> fe_is_pow a pm2 r) \<and>
   fe_is_pow a pm2 (fe_inverse_window_naf_v2 a) \<and> fe_is_pow a pm2 (fe_inverse_kary16 a) \<and>
   fe_is_pow a pm2 (fe_inverse_fixed_window5 a) \<and> fe_is_pow a pm2 (fe_inverse_rtl_binary a) \<and>
   fe_is_pow a pm2 (fe_inverse_addchain_unrolled a) \<and> fe_is_pow a pm2 (fe_inverse_binary_opt a) \<and>
   fe_is_pow a pm2 (fe_inverse_sliding_dynamic a) \<and> fe_is_pow a pm2 (fe_inverse_branchless a) \<and>
   fe_is_pow a pm2 (fe_inverse_parallel_window a) \<and> fe_is_pow a pm2 (fe_inverse_warp_optimized a) \<and>
   fe_is_pow a pm2 (fe_inverse_double_base a) \<and> fe_is_pow a pm2 (fe_inverse_bos_coster a) \<and>
   fe_is_pow a pm2 (fe_inverse_ltr_precomp a) \<and> fe_is_pow a pm2 (fe_inverse_pippenger a) \<and>
   fe_is_pow a pm2 (fe_inverse_strauss a) \<and> int pm2 = prime_p - 2"
  by (simp add: fe_inverse_defs pow_binary_chain pow_started pow_addchain pow_binary_variants pow_fixed_window5
      pow_rtl_binary pow_sliding pow_branchless pow_warp_optimized pow_double_base pow_bos_coster pow_nibbles
      pow_strauss pm2_eq)

lemma fval_pow_mod: "fe_is_pow a e r \<Longrightarrow> 0 \<le> fval r \<and> fval r mod prime_p = fval a ^ e mod prime_p"
  by (simp add: fe_is_pow_def)

text \<open>the square root chain computes the power \<open>(p + 1) / 4\<close> exactly on the 4x64 arithmetic, so its square is
  the argument times the argument's Euler power, for every argument.
\<close>

theorem fe_sqrt_exponent:
  "fval (fe_sqrt a) mod prime_p = fval a ^ nat ((prime_p + 1) div 4) mod prime_p \<and>
   fval (fe_square (fe_sqrt a)) = fval a * fval a ^ nat ((prime_p - 1) div 2) mod prime_p"
proof
  have e: "nat ((prime_p + 1) div 4) = 2 ^ 254 - 2 ^ 30 - 244" "Suc (nat ((prime_p - 1) div 2)) = 2 * (2 ^ 254 - 2 ^ 30 - 244)"
    by (simp_all add: prime_p_def)
  show "fval (fe_sqrt a) mod prime_p = fval a ^ nat ((prime_p + 1) div 4) mod prime_p"
    using fe_sqrt_pow [of a] unfolding e by (simp only: fe_is_pow_def)
  have "fval (fe_square (fe_sqrt a)) mod prime_p = fval a ^ Suc (nat ((prime_p - 1) div 2)) mod prime_p"
    using fe_is_pow_square [OF fe_sqrt_pow [of a]] unfolding e by (simp only: fe_is_pow_def)
  then show "fval (fe_square (fe_sqrt a)) = fval a * fval a ^ nat ((prime_p - 1) div 2) mod prime_p"
    by (simp only: fval_square mod_mod_trivial power_Suc)
qed

lemma minus_one_square: "(prime_p - 1) ^ 2 mod prime_p = 1"
proof -
  have "(prime_p - 1) ^ 2 = 1 + prime_p * (prime_p - 2)" by (simp add: power2_eq_square algebra_simps)
  then have "(prime_p - 1) ^ 2 mod prime_p = 1 mod prime_p" by (simp only: mod_mult_self2)
  also have "1 mod prime_p = 1" by (simp add: prime_p_def)
  finally show ?thesis .
qed

lemma even_power_of_minus_one:
  assumes "fval b = prime_p - 1" "fe_is_pow b e r" "even e"
  shows "fval (fe_mul b r) \<noteq> 1"
proof -
  have "(prime_p - 1) ^ e mod prime_p = 1"
  proof -
    obtain k where "e = 2 * k" using assms(3) by (rule evenE)
    then have "(prime_p - 1) ^ e mod prime_p = ((prime_p - 1) ^ 2 mod prime_p) ^ k mod prime_p"
      by (simp only: power_mult power_mod)
    then show ?thesis unfolding minus_one_square by (simp add: prime_p_def)
  qed
  then have "fval r mod prime_p = 1" using assms by (simp add: fe_is_pow_def)
  then have "fval (fe_mul b r) = (prime_p - 1) mod prime_p"
    unfolding fval_mul assms(1) by (metis mod_mult_right_eq mult.right_neutral)
  then show ?thesis by (simp add: prime_p_def)
qed

text \<open>C28: the chains of \<open>fe_inverse_yao\<close> and \<open>fe_inverse_karatsuba\<close> do not compute the power \<open>p - 2\<close>: at the
  argument \<open>p - 1\<close>, which is its own inverse and which the other routines invert, both return a value whose
  product with the argument is not one.
\<close>

theorem fe_inverse_yao_karatsuba_wrong:
  "let a = fe_from_limbs (Limbs4 0xFFFFFFFEFFFFFC2E 0xFFFFFFFFFFFFFFFF 0xFFFFFFFFFFFFFFFF 0xFFFFFFFFFFFFFFFF)
   in fval (fe_mul a a) = 1 \<and> fval (fe_mul a (fe_inverse_yao a)) \<noteq> 1 \<and> fval (fe_mul a (fe_inverse_karatsuba a)) \<noteq> 1"
proof -
  let ?a = "fe_from_limbs (Limbs4 0xFFFFFFFEFFFFFC2E 0xFFFFFFFFFFFFFFFF 0xFFFFFFFFFFFFFFFF 0xFFFFFFFFFFFFFFFF)"
  have "lval (Limbs4 0xFFFFFFFEFFFFFC2E 0xFFFFFFFFFFFFFFFF 0xFFFFFFFFFFFFFFFF 0xFFFFFFFFFFFFFFFF) = prime_p - 1"
    by (simp add: prime_p_def)
  then have a: "fval ?a = prime_p - 1" unfolding fval_from_limbs by (simp add: prime_p_def)
  have "even yao_exponent" "even karatsuba_exponent" by (simp_all add: yao_exponent_def karatsuba_exponent_def)
  then have "fval (fe_mul ?a (fe_inverse_yao ?a)) \<noteq> 1" "fval (fe_mul ?a (fe_inverse_karatsuba ?a)) \<noteq> 1"
    unfolding fe_inverse_defs using even_power_of_minus_one [OF a] pow_yao pow_karatsuba by blast+
  moreover have "fval (fe_mul ?a ?a) = 1" unfolding fval_mul a using minus_one_square by (simp only: power2_eq_square)
  ultimately show ?thesis unfolding Let_def by blast
qed

lemma montgomery_values:
  "fval montgomery_R = 0x1000003D1" "fval montgomery_R2 = 0x1000007A2000E90A1"
  "fval montgomery_R3 = 0x100000B73002BB1E33795F671"
  "fval montgomery_R_inv = 0xC9BD1905155383999C46C2C295F2B761BCB223FEDC24A059D838091D0868192A"
proof -
  have l: "lval (Limbs4 0x000007A2000E90A1 0x0000000000000001 0 0) = 0x1000007A2000E90A1"
    "lval (Limbs4 0x002BB1E33795F671 0x0000000100000B73 0 0) = 0x100000B73002BB1E33795F671"
    "lval (Limbs4 0xD838091D0868192A 0xBCB223FEDC24A059 0x9C46C2C295F2B761 0xC9BD190515538399) =
      0xC9BD1905155383999C46C2C295F2B761BCB223FEDC24A059D838091D0868192A" by simp_all
  show "fval montgomery_R = 0x1000003D1" by (simp add: montgomery_R_def fval_small)
  show "fval montgomery_R2 = 0x1000007A2000E90A1" "fval montgomery_R3 = 0x100000B73002BB1E33795F671"
    "fval montgomery_R_inv = 0xC9BD1905155383999C46C2C295F2B761BCB223FEDC24A059D838091D0868192A"
    unfolding montgomery_R2_def montgomery_R3_def montgomery_R_inv_def fval_from_limbs l by (simp_all add: prime_p_def)
qed

text \<open>the Montgomery constants of field.hpp are what they say: \<open>R = 2^256\<close>, its square and its cube modulo \<open>p\<close>,
  the inverse of \<open>R\<close>, and the reduction constant \<open>K = 2^256 - p\<close>.
\<close>

theorem montgomery_constants:
  "fval montgomery_R = 2 ^ 256 mod prime_p \<and> fval montgomery_R2 = (2 ^ 256) ^ 2 mod prime_p \<and>
   fval montgomery_R3 = (2 ^ 256) ^ 3 mod prime_p \<and> fval (fe_mul montgomery_R montgomery_R_inv) = 1 \<and>
   uint montgomery_K_MOD = 2 ^ 256 - prime_p"
proof -
  have p: "(2 ^ 256 :: int) = 0x1000003D1 + prime_p * 1" by (simp add: prime_p_def)
  have "(2 ^ 256) ^ n mod prime_p = 0x1000003D1 ^ n mod prime_p" for n :: nat
    unfolding p by (metis mod_mult_self2 power_mod)
  note m = this
  have v: "0x1000003D1 ^ 1 mod prime_p = 0x1000003D1" "0x1000003D1 ^ 2 mod prime_p = 0x1000007A2000E90A1"
    "0x1000003D1 ^ 3 mod prime_p = 0x100000B73002BB1E33795F671"
    "0x1000003D1 * 0xC9BD1905155383999C46C2C295F2B761BCB223FEDC24A059D838091D0868192A mod prime_p = 1"
    by (simp_all add: prime_p_def)
  have "uint montgomery_K_MOD = 2 ^ 256 - prime_p" by (simp add: montgomery_K_MOD_def prime_p_def)
  moreover have "fval montgomery_R = 2 ^ 256 mod prime_p" using m [of 1] unfolding v montgomery_values by simp
  ultimately show ?thesis using m [of 2] m [of 3] v(4) unfolding fval_mul montgomery_values v(2,3) by simp
qed

end
