(* ===== verification/ChaCha20.thy ===== *)
theory ChaCha20
  imports Prelude
begin

text \<open>
  The ChaCha20 part of chacha20_poly1305.cpp: the block function in its scalar form and in its
  four-lane SSE2 form, the state set-up, \<open>chacha20_block\<close> and \<open>chacha20_crypt\<close>. The two block functions
  agree, and encryption is the exclusive or with the key stream, so it undoes itself.
\<close>

section \<open>The scalar block function\<close>

definition chacha_rotl32 :: "u32 \<Rightarrow> nat \<Rightarrow> u32" where
  "chacha_rotl32 v n = push_bit n v OR drop_bit (32 - n) v"

fun quarter_round :: "u32 \<times> u32 \<times> u32 \<times> u32 \<Rightarrow> u32 \<times> u32 \<times> u32 \<times> u32" where
  "quarter_round (a, b, c, d) =
     (let a = a + b; d = chacha_rotl32 (d XOR a) 16;
          c = c + d; b = chacha_rotl32 (b XOR c) 12;
          a = a + b; d = chacha_rotl32 (d XOR a) 8;
          c = c + d; b = chacha_rotl32 (b XOR c) 7
      in (a, b, c, d))"

text \<open>\<open>quarter_round(x[i], x[j], x[k], x[l])\<close>.\<close>

definition quarter_at :: "nat \<Rightarrow> nat \<Rightarrow> nat \<Rightarrow> nat \<Rightarrow> u32 list \<Rightarrow> u32 list" where
  "quarter_at i j k l x =
     (let (a, b, c, d) = quarter_round (x ! i, x ! j, x ! k, x ! l) in x[i := a, j := b, k := c, l := d])"

definition chacha_double_round :: "u32 list \<Rightarrow> u32 list" where
  "chacha_double_round x =
     (let x = quarter_at 0 4 8 12 x; x = quarter_at 1 5 9 13 x;
          x = quarter_at 2 6 10 14 x; x = quarter_at 3 7 11 15 x;
          x = quarter_at 0 5 10 15 x; x = quarter_at 1 6 11 12 x;
          x = quarter_at 2 7 8 13 x
      in quarter_at 3 4 9 14 x)"

definition chacha20_block_internal :: "u32 list \<Rightarrow> bytes" where
  "chacha20_block_internal input =
     (let x = (chacha_double_round ^^ 10) input
      in concat (map (\<lambda>i. store_le32 (x ! i + input ! i)) [0..<16]))"

section \<open>The SSE2 block function\<close>

text \<open>A 128-bit register as four 32-bit lanes, and the intrinsics the block function uses.\<close>

datatype m128i = M128 u32 u32 u32 u32

fun mm_add_epi32 :: "m128i \<Rightarrow> m128i \<Rightarrow> m128i" where
  "mm_add_epi32 (M128 a b c d) (M128 a' b' c' d') = M128 (a + a') (b + b') (c + c') (d + d')"

fun mm_xor_si128 :: "m128i \<Rightarrow> m128i \<Rightarrow> m128i" where
  "mm_xor_si128 (M128 a b c d) (M128 a' b' c' d') = M128 (a XOR a') (b XOR b') (c XOR c') (d XOR d')"

fun mm_or_si128 :: "m128i \<Rightarrow> m128i \<Rightarrow> m128i" where
  "mm_or_si128 (M128 a b c d) (M128 a' b' c' d') = M128 (a OR a') (b OR b') (c OR c') (d OR d')"

fun mm_slli_epi32 :: "m128i \<Rightarrow> nat \<Rightarrow> m128i" where
  "mm_slli_epi32 (M128 a b c d) n = M128 (push_bit n a) (push_bit n b) (push_bit n c) (push_bit n d)"

fun mm_srli_epi32 :: "m128i \<Rightarrow> nat \<Rightarrow> m128i" where
  "mm_srli_epi32 (M128 a b c d) n = M128 (drop_bit n a) (drop_bit n b) (drop_bit n c) (drop_bit n d)"

text \<open>\<open>_mm_shuffle_epi32(v, _MM_SHUFFLE(z, y, x, w))\<close>: lane 0 takes lane \<open>w\<close>, lane 3 takes lane \<open>z\<close>.\<close>

fun mm_lane :: "m128i \<Rightarrow> nat \<Rightarrow> u32" where
  "mm_lane (M128 a b c d) i = [a, b, c, d] ! i"

definition mm_shuffle_epi32 :: "m128i \<Rightarrow> nat \<Rightarrow> nat \<Rightarrow> nat \<Rightarrow> nat \<Rightarrow> m128i" where
  "mm_shuffle_epi32 v z y x w = M128 (mm_lane v w) (mm_lane v x) (mm_lane v y) (mm_lane v z)"

definition mm_loadu :: "u32 list \<Rightarrow> nat \<Rightarrow> m128i" where
  "mm_loadu p i = M128 (p ! i) (p ! (i + 1)) (p ! (i + 2)) (p ! (i + 3))"

fun mm_storeu :: "m128i \<Rightarrow> bytes" where
  "mm_storeu (M128 a b c d) = store_le32 a @ store_le32 b @ store_le32 c @ store_le32 d"

text \<open>The half round both halves of the loop body share, and the loop body with its shuffles.\<close>

definition sse2_rotl :: "m128i \<Rightarrow> nat \<Rightarrow> m128i" where
  "sse2_rotl v n = mm_or_si128 (mm_slli_epi32 v n) (mm_srli_epi32 v (32 - n))"

fun sse2_round :: "m128i \<times> m128i \<times> m128i \<times> m128i \<Rightarrow> m128i \<times> m128i \<times> m128i \<times> m128i" where
  "sse2_round (a, b, c, d) =
     (let a = mm_add_epi32 a b; d = mm_xor_si128 d a; d = sse2_rotl d 16;
          c = mm_add_epi32 c d; b = mm_xor_si128 b c; b = sse2_rotl b 12;
          a = mm_add_epi32 a b; d = mm_xor_si128 d a; d = sse2_rotl d 8;
          c = mm_add_epi32 c d; b = mm_xor_si128 b c; b = sse2_rotl b 7
      in (a, b, c, d))"

definition sse2_double_round :: "m128i \<times> m128i \<times> m128i \<times> m128i \<Rightarrow> m128i \<times> m128i \<times> m128i \<times> m128i" where
  "sse2_double_round s =
     (let (a, b, c, d) = sse2_round s;
          b = mm_shuffle_epi32 b 0 3 2 1;
          c = mm_shuffle_epi32 c 1 0 3 2;
          d = mm_shuffle_epi32 d 2 1 0 3;
          (a, b, c, d) = sse2_round (a, b, c, d);
          b = mm_shuffle_epi32 b 2 1 0 3;
          c = mm_shuffle_epi32 c 1 0 3 2;
          d = mm_shuffle_epi32 d 0 3 2 1
      in (a, b, c, d))"

definition chacha20_block_sse2 :: "u32 list \<Rightarrow> bytes" where
  "chacha20_block_sse2 input =
     (let a0 = mm_loadu input 0; b0 = mm_loadu input 4; c0 = mm_loadu input 8; d0 = mm_loadu input 12;
          (a, b, c, d) = (sse2_double_round ^^ 10) (a0, b0, c0, d0)
      in mm_storeu (mm_add_epi32 a a0) @ mm_storeu (mm_add_epi32 b b0)
         @ mm_storeu (mm_add_epi32 c c0) @ mm_storeu (mm_add_epi32 d d0))"

section \<open>Encryption\<close>

definition chacha20_setup_state :: "bytes \<Rightarrow> bytes \<Rightarrow> u32 \<Rightarrow> u32 list" where
  "chacha20_setup_state key nonce counter =
     [0x61707865, 0x3320646E, 0x79622D32, 0x6B206574]
     @ map (\<lambda>i. load_le32 (drop (i * 4) key)) [0..<8]
     @ [counter, load_le32 nonce, load_le32 (drop 4 nonce), load_le32 (drop 8 nonce)]"

definition chacha20_block :: "bytes \<Rightarrow> bytes \<Rightarrow> u32 \<Rightarrow> bytes" where
  "chacha20_block key nonce counter = chacha20_block_internal (chacha20_setup_state key nonce counter)"

text \<open>
  The loop of \<open>chacha20_crypt\<close>: one key stream block, the 32-bit block counter incremented with
  wrap-around, and up to 64 bytes of the buffer combined with it.
\<close>

definition xor_at :: "bytes \<Rightarrow> nat \<Rightarrow> bytes \<Rightarrow> nat \<Rightarrow> bytes" where
  "xor_at data offset block use =
     fold (\<lambda>i data. data[offset + i := data ! (offset + i) XOR block ! i]) [0..<use] data"

function chacha20_crypt_loop :: "u32 list \<Rightarrow> bytes \<Rightarrow> nat \<Rightarrow> bytes" where
  "chacha20_crypt_loop state data offset =
     (if offset < length data then
        (let block = chacha20_block_internal state;
             state = state[12 := state ! 12 + 1];
             use = (if length data - offset < 64 then length data - offset else 64)
         in chacha20_crypt_loop state (xor_at data offset block use) (offset + use))
      else data)"
  by pat_completeness auto

lemma length_xor_at [simp]: "length (xor_at data offset block use) = length data"
proof -
  have "length (fold (\<lambda>i data. data[offset + i := data ! (offset + i) XOR block ! i]) is data) = length data" for "is"
    by (induction "is" arbitrary: data) auto
  then show ?thesis by (simp add: xor_at_def)
qed

termination chacha20_crypt_loop
  by (relation "measure (\<lambda>(state, data, offset). length data - offset)") auto

declare chacha20_crypt_loop.simps [simp del]

definition chacha20_crypt :: "bytes \<Rightarrow> bytes \<Rightarrow> u32 \<Rightarrow> bytes \<Rightarrow> bytes" where
  "chacha20_crypt key nonce counter data = chacha20_crypt_loop (chacha20_setup_state key nonce counter) data 0"

section \<open>The two block functions agree\<close>

lemma sse2_round_lanes:
  "sse2_round (M128 a0 a1 a2 a3, M128 b0 b1 b2 b3, M128 c0 c1 c2 c3, M128 d0 d1 d2 d3) =
     (let (a0, b0, c0, d0) = quarter_round (a0, b0, c0, d0); (a1, b1, c1, d1) = quarter_round (a1, b1, c1, d1);
          (a2, b2, c2, d2) = quarter_round (a2, b2, c2, d2); (a3, b3, c3, d3) = quarter_round (a3, b3, c3, d3)
      in (M128 a0 a1 a2 a3, M128 b0 b1 b2 b3, M128 c0 c1 c2 c3, M128 d0 d1 d2 d3))"
  by (simp add: Let_def sse2_rotl_def chacha_rotl32_def)

definition rows :: "u32 list \<Rightarrow> m128i \<times> m128i \<times> m128i \<times> m128i" where
  "rows x = (mm_loadu x 0, mm_loadu x 4, mm_loadu x 8, mm_loadu x 12)"

lemma upt16: "[0..<16] = [0, 1, 2, 3, 4, 5, 6, 7, 8, 9, 10, 11, 12, 13, 14, 15]"
  by code_simp

lemma list16:
  assumes "length x = 16"
  shows "x = [x ! 0, x ! 1, x ! 2, x ! 3, x ! 4, x ! 5, x ! 6, x ! 7,
    x ! 8, x ! 9, x ! 10, x ! 11, x ! 12, x ! 13, x ! 14, x ! 15]"
proof -
  have "x = map ((!) x) [0..<16]" using map_nth [of x] assms by simp
  also have "\<dots> = [x ! 0, x ! 1, x ! 2, x ! 3, x ! 4, x ! 5, x ! 6, x ! 7,
    x ! 8, x ! 9, x ! 10, x ! 11, x ! 12, x ! 13, x ! 14, x ! 15]" by (simp add: upt16)
  finally show ?thesis .
qed

lemma length_quarter_at [simp]: "length (quarter_at i j k l x) = length x"
  by (simp add: quarter_at_def split: prod.split)

lemma length_double_round [simp]: "length (chacha_double_round x) = length x"
  by (simp add: chacha_double_round_def Let_def)

lemma double_round_rows:
  "sse2_double_round (rows [a0, a1, a2, a3, b0, b1, b2, b3, c0, c1, c2, c3, d0, d1, d2, d3]) =
   rows (chacha_double_round [a0, a1, a2, a3, b0, b1, b2, b3, c0, c1, c2, c3, d0, d1, d2, d3])"
proof -
  obtain A0 B0 C0 D0 where 0: "quarter_round (a0, b0, c0, d0) = (A0, B0, C0, D0)" by (metis prod_cases4)
  obtain A1 B1 C1 D1 where 1: "quarter_round (a1, b1, c1, d1) = (A1, B1, C1, D1)" by (metis prod_cases4)
  obtain A2 B2 C2 D2 where 2: "quarter_round (a2, b2, c2, d2) = (A2, B2, C2, D2)" by (metis prod_cases4)
  obtain A3 B3 C3 D3 where 3: "quarter_round (a3, b3, c3, d3) = (A3, B3, C3, D3)" by (metis prod_cases4)
  obtain E0 F0 G0 H0 where 4: "quarter_round (A0, B1, C2, D3) = (E0, F0, G0, H0)" by (metis prod_cases4)
  obtain E1 F1 G1 H1 where 5: "quarter_round (A1, B2, C3, D0) = (E1, F1, G1, H1)" by (metis prod_cases4)
  obtain E2 F2 G2 H2 where 6: "quarter_round (A2, B3, C0, D1) = (E2, F2, G2, H2)" by (metis prod_cases4)
  obtain E3 F3 G3 H3 where 7: "quarter_round (A3, B0, C1, D2) = (E3, F3, G3, H3)" by (metis prod_cases4)
  note q = 0 1 2 3 4 5 6 7
  have steps:
    "quarter_at 0 4 8 12 [a0, a1, a2, a3, b0, b1, b2, b3, c0, c1, c2, c3, d0, d1, d2, d3] =
      [A0, a1, a2, a3, B0, b1, b2, b3, C0, c1, c2, c3, D0, d1, d2, d3]"
    "quarter_at 1 5 9 13 [A0, a1, a2, a3, B0, b1, b2, b3, C0, c1, c2, c3, D0, d1, d2, d3] =
      [A0, A1, a2, a3, B0, B1, b2, b3, C0, C1, c2, c3, D0, D1, d2, d3]"
    "quarter_at 2 6 10 14 [A0, A1, a2, a3, B0, B1, b2, b3, C0, C1, c2, c3, D0, D1, d2, d3] =
      [A0, A1, A2, a3, B0, B1, B2, b3, C0, C1, C2, c3, D0, D1, D2, d3]"
    "quarter_at 3 7 11 15 [A0, A1, A2, a3, B0, B1, B2, b3, C0, C1, C2, c3, D0, D1, D2, d3] =
      [A0, A1, A2, A3, B0, B1, B2, B3, C0, C1, C2, C3, D0, D1, D2, D3]"
    "quarter_at 0 5 10 15 [A0, A1, A2, A3, B0, B1, B2, B3, C0, C1, C2, C3, D0, D1, D2, D3] =
      [E0, A1, A2, A3, B0, F0, B2, B3, C0, C1, G0, C3, D0, D1, D2, H0]"
    "quarter_at 1 6 11 12 [E0, A1, A2, A3, B0, F0, B2, B3, C0, C1, G0, C3, D0, D1, D2, H0] =
      [E0, E1, A2, A3, B0, F0, F1, B3, C0, C1, G0, G1, H1, D1, D2, H0]"
    "quarter_at 2 7 8 13 [E0, E1, A2, A3, B0, F0, F1, B3, C0, C1, G0, G1, H1, D1, D2, H0] =
      [E0, E1, E2, A3, B0, F0, F1, F2, G2, C1, G0, G1, H1, H2, D2, H0]"
    "quarter_at 3 4 9 14 [E0, E1, E2, A3, B0, F0, F1, F2, G2, C1, G0, G1, H1, H2, D2, H0] =
      [E0, E1, E2, E3, F3, F0, F1, F2, G2, G3, G0, G1, H1, H2, H3, H0]"
    by (simp_all add: quarter_at_def q del: quarter_round.simps)
  have "chacha_double_round [a0, a1, a2, a3, b0, b1, b2, b3, c0, c1, c2, c3, d0, d1, d2, d3] =
      [E0, E1, E2, E3, F3, F0, F1, F2, G2, G3, G0, G1, H1, H2, H3, H0]"
    by (simp only: chacha_double_round_def Let_def steps)
  moreover have "sse2_double_round (M128 a0 a1 a2 a3, M128 b0 b1 b2 b3, M128 c0 c1 c2 c3, M128 d0 d1 d2 d3) =
      (M128 E0 E1 E2 E3, M128 F3 F0 F1 F2, M128 G2 G3 G0 G1, M128 H1 H2 H3 H0)"
    unfolding sse2_double_round_def sse2_round_lanes Let_def q prod.case
    by (simp add: mm_shuffle_epi32_def sse2_round_lanes q Let_def del: quarter_round.simps sse2_round.simps)
  ultimately show ?thesis by (simp add: rows_def mm_loadu_def)
qed

lemma length_double_rounds [simp]: "length ((chacha_double_round ^^ n) x) = length x"
  by (induction n) simp_all

lemma double_rounds_rows: "length x = 16 \<Longrightarrow> (sse2_double_round ^^ n) (rows x) = rows ((chacha_double_round ^^ n) x)"
proof (induction n)
  case (Suc n)
  have l: "length ((chacha_double_round ^^ n) x) = 16" using Suc.prems by simp
  have "sse2_double_round (rows ((chacha_double_round ^^ n) x)) = rows (chacha_double_round ((chacha_double_round ^^ n) x))"
    by (subst (1 2) list16 [OF l]) (rule double_round_rows)
  with Suc show ?case by simp
qed simp

lemma block_sse2_eq:
  assumes "length input = 16"
  shows "chacha20_block_sse2 input = chacha20_block_internal input"
proof -
  have "(sse2_double_round ^^ 10) (rows input) = rows ((chacha_double_round ^^ 10) input)"
    using assms by (rule double_rounds_rows)
  then show ?thesis
    unfolding chacha20_block_sse2_def chacha20_block_internal_def rows_def Let_def upt16
    by (simp add: mm_loadu_def numeral_2_eq_2)
qed

section \<open>Encryption is the exclusive or with the key stream\<close>

lemma length_block_internal [simp]: "length (chacha20_block_internal input) = 64"
  by (simp add: chacha20_block_internal_def Let_def upt16)

lemma length_setup_state [simp]: "length (chacha20_setup_state key nonce counter) = 16"
  by (simp add: chacha20_setup_state_def)

lemma setup_state_counter [simp]:
  "chacha20_setup_state key nonce counter ! 12 = counter"
  "(chacha20_setup_state key nonce counter)[12 := c] = chacha20_setup_state key nonce c"
  by (simp_all add: chacha20_setup_state_def nth_append list_update_append)

lemma nth_xor_at:
  assumes "offset + n \<le> length data"
  shows "i < length data \<Longrightarrow> xor_at data offset block n ! i =
    (if offset \<le> i \<and> i < offset + n then data ! i XOR block ! (i - offset) else data ! i)"
  using assms
proof (induction n arbitrary: i)
  case (Suc n)
  have "xor_at data offset block (Suc n) =
      (xor_at data offset block n)[offset + n := xor_at data offset block n ! (offset + n) XOR block ! n]"
    by (simp add: xor_at_def)
  then show ?case using Suc by (auto simp: nth_list_update)
qed (auto simp: xor_at_def)

definition chacha_keystream :: "bytes \<Rightarrow> bytes \<Rightarrow> u32 \<Rightarrow> nat \<Rightarrow> byte" where
  "chacha_keystream key nonce counter i = chacha20_block key nonce (counter + of_nat (i div 64)) ! (i mod 64)"

lemma crypt_loop_spec:
  assumes "offset mod 64 = 0 \<or> offset = length data" "offset \<le> length data"
  shows "length (chacha20_crypt_loop (chacha20_setup_state key nonce (c + of_nat (offset div 64))) data offset) = length data \<and>
    (\<forall>i < length data. chacha20_crypt_loop (chacha20_setup_state key nonce (c + of_nat (offset div 64))) data offset ! i =
      (if i < offset then data ! i else data ! i XOR chacha_keystream key nonce c i))"
  using assms
proof (induction "length data - offset" arbitrary: data offset rule: less_induct)
  case less
  show ?case
  proof (cases "offset < length data")
    case False
    then show ?thesis by (subst (1 2) chacha20_crypt_loop.simps) simp
  next
    case True
    let ?n = "if length data - offset < 64 then length data - offset else 64"
    let ?block = "chacha20_block key nonce (c + of_nat (offset div 64))"
    let ?data = "xor_at data offset ?block ?n"
    have m: "offset mod 64 = 0" using True less.prems by auto
    then obtain q where q: "offset = 64 * q" by auto
    have step: "chacha20_crypt_loop (chacha20_setup_state key nonce (c + of_nat (offset div 64))) data offset =
        chacha20_crypt_loop (chacha20_setup_state key nonce (c + of_nat (offset div 64) + 1)) ?data (offset + ?n)"
      using True by (subst chacha20_crypt_loop.simps) (simp add: Let_def chacha20_block_def)
    have n: "\<And>i. i < length data \<Longrightarrow> ?data ! i =
        (if offset \<le> i \<and> i < offset + ?n then data ! i XOR ?block ! (i - offset) else data ! i)"
      using True by (intro nth_xor_at) auto
    have ks: "?block ! (i - offset) = chacha_keystream key nonce c i" if "offset \<le> i" "i < offset + ?n" for i
    proof -
      have "64 * q \<le> i" "i < 64 * q + 64" using that q by (auto split: if_splits)
      then have "i div 64 = q" by (simp add: div_nat_eqI)
      then have "i mod 64 = i - offset" using q by (simp add: modulo_nat_def)
      note \<open>i div 64 = q\<close> this
      then show ?thesis by (simp add: chacha_keystream_def q)
    qed
    show ?thesis
    proof (cases "length data - offset < 64")
      case False
      then have d: "(offset + ?n) div 64 = Suc (offset div 64)" "?n = 64" by (simp_all add: q)
      show ?thesis using less.hyps [of ?data "offset + ?n"] False True m n ks
        unfolding step d(1) by (auto simp: d add.assoc [symmetric] add.commute [of 1])
    next
      case short: True
      then have "offset + ?n = length ?data" using True by simp
      then have "chacha20_crypt_loop s ?data (offset + ?n) = ?data" for s by (subst chacha20_crypt_loop.simps) simp
      then show ?thesis using n ks short True unfolding step by auto
    qed
  qed
qed

lemma length_chacha20_crypt [simp]: "length (chacha20_crypt key nonce counter data) = length data"
  using crypt_loop_spec [of 0 data key nonce counter] by (simp add: chacha20_crypt_def)

lemma nth_chacha20_crypt:
  "i < length data \<Longrightarrow> chacha20_crypt key nonce counter data ! i = data ! i XOR chacha_keystream key nonce counter i"
  using crypt_loop_spec [of 0 data key nonce counter] by (simp add: chacha20_crypt_def)

lemma chacha20_crypt_twice [simp]: "chacha20_crypt key nonce counter (chacha20_crypt key nonce counter data) = data"
  by (rule nth_equalityI) (simp_all add: nth_chacha20_crypt xor.assoc)

lemma chacha20_crypt_inj:
  "chacha20_crypt key nonce counter d = chacha20_crypt key nonce counter d' \<longleftrightarrow> d = d'"
  by (metis chacha20_crypt_twice)

lemma chacha20_crypt_Nil [simp]: "chacha20_crypt key nonce counter [] = []"
  using length_chacha20_crypt [of key nonce counter "[]"] by (simp del: length_chacha20_crypt)

section \<open>Properties\<close>

text \<open>C40: the four-lane SSE2 block function, with its lane rotations between the column and the diagonal
  rounds, returns the same 64 bytes as the scalar block function on every 16-word state.
\<close>

theorem chacha20_block_sse2_scalar:
  assumes "length input = 16"
  shows "chacha20_block_sse2 input = chacha20_block_internal input"
  by (rule block_sse2_eq [OF assms])

theorem chacha20_block_sse2_scalar_witness:
  "chacha20_block_sse2 (chacha20_setup_state (replicate 32 7) (replicate 12 9) 1) = chacha20_block (replicate 32 7) (replicate 12 9) 1"
  unfolding chacha20_block_def by (rule chacha20_block_sse2_scalar) (simp only: length_setup_state)

text \<open>C39: \<open>chacha20_crypt\<close> combines byte \<open>i\<close> of the buffer with byte \<open>i mod 64\<close> of block \<open>counter + i div 64\<close>
  (the 32-bit counter wraps), also in the last, partial block, keeps the length, and undoes itself.
\<close>

theorem chacha20_crypt_keystream:
  "chacha20_crypt key nonce counter data =
     map (\<lambda>i. data ! i XOR chacha20_block key nonce (counter + of_nat (i div 64)) ! (i mod 64)) [0..<length data] \<and>
   chacha20_crypt key nonce counter (chacha20_crypt key nonce counter data) = data"
  by (auto intro: nth_equalityI simp: nth_chacha20_crypt chacha_keystream_def)

end
