(* ===== verification/Poly1305.thy ===== *)
theory Poly1305
  imports Block_Hash
begin

text \<open>
  The Poly1305 part of chacha20_poly1305.cpp in builds with 128-bit integers: the accumulator with three limbs of
  44, 44 and 42 bits, and \<open>poly1305_mac\<close>. The reference is the polynomial evaluation modulo \<open>2^130 - 5\<close>; the interface
  of a Poly1305 state is the locale \<open>poly_state\<close>, which the accumulator interprets. The accumulator for builds without
  128-bit integers (five limbs of 26 bits) is not modelled.
\<close>

section \<open>The state with 44-bit limbs\<close>

record poly64 =
  p64_r :: "u64 \<times> u64 \<times> u64"
  p64_sr :: "u64 \<times> u64"
  p64_pad :: "u64 \<times> u64"
  p64_h :: "u64 \<times> u64 \<times> u64"

definition poly64_init :: "bytes \<Rightarrow> poly64" where
  "poly64_init key =
     (let t0 = load_le64 key; t1 = load_le64 (drop 8 key);
          t0 = t0 AND 0x0FFFFFFC0FFFFFFF;
          t1 = t1 AND 0x0FFFFFFC0FFFFFFC;
          r0 = t0 AND 0xFFFFFFFFFFF;
          r1 = (drop_bit 44 t0 OR push_bit 20 t1) AND 0xFFFFFFFFFFF;
          r2 = drop_bit 24 t1 AND 0x3FFFFFFFFFF
      in \<lparr>p64_r = (r0, r1, r2), p64_sr = (r1 * 20, r2 * 20),
          p64_pad = (load_le64 (drop 16 key), load_le64 (drop 24 key)), p64_h = (0, 0, 0)\<rparr>)"

text \<open>\<open>buf[17]\<close> of \<open>block\<close>: the message bytes, cut to 16, a one byte, zeros.\<close>

definition poly_buf :: "bytes \<Rightarrow> bytes" where
  "poly_buf msg = (let msg = take 16 msg in (memcpy_at (replicate 17 0) 0 msg)[length msg := 1])"

definition poly64_block :: "poly64 \<Rightarrow> bytes \<Rightarrow> poly64" where
  "poly64_block st msg =
     (let buf = poly_buf msg;
          t0 = load_le64 buf; t1 = load_le64 (drop 8 buf);
          hibit = ucast (buf ! 16) :: u64;
          (r0, r1, r2) = p64_r st; (sr0, sr1) = p64_sr st; (h0, h1, h2) = p64_h st;
          h0 = h0 + (t0 AND 0xFFFFFFFFFFF);
          h1 = h1 + ((drop_bit 44 t0 OR push_bit 20 t1) AND 0xFFFFFFFFFFF);
          h2 = h2 + (drop_bit 24 t1 OR push_bit 40 hibit);
          d0 = ucast h0 * ucast r0 + ucast h1 * ucast sr1 + ucast h2 * ucast sr0 :: u128;
          d1 = ucast h0 * ucast r1 + ucast h1 * ucast r0 + ucast h2 * ucast sr1 :: u128;
          d2 = ucast h0 * ucast r2 + ucast h1 * ucast r1 + ucast h2 * ucast r0 :: u128;
          c = ucast (drop_bit 44 d0) :: u64; h0 = ucast d0 AND 0xFFFFFFFFFFF;
          d1 = d1 + ucast c;
          c = ucast (drop_bit 44 d1) :: u64; h1 = ucast d1 AND 0xFFFFFFFFFFF;
          d2 = d2 + ucast c;
          c = ucast (drop_bit 42 d2); h2 = ucast d2 AND 0x3FFFFFFFFFF;
          h0 = h0 + c * 5;
          c = drop_bit 44 h0; h0 = h0 AND 0xFFFFFFFFFFF;
          h1 = h1 + c
      in st\<lparr>p64_h := (h0, h1, h2)\<rparr>)"

definition poly64_finish :: "poly64 \<Rightarrow> bytes" where
  "poly64_finish st =
     (let (h0, h1, h2) = p64_h st; (pad0, pad1) = p64_pad st;
          c = drop_bit 44 h1; h1 = h1 AND 0xFFFFFFFFFFF;
          h2 = h2 + c;
          c = drop_bit 42 h2; h2 = h2 AND 0x3FFFFFFFFFF;
          h0 = h0 + c * 5;
          c = drop_bit 44 h0; h0 = h0 AND 0xFFFFFFFFFFF;
          h1 = h1 + c;
          c = h0 + 5; g0 = c AND 0xFFFFFFFFFFF; c = drop_bit 44 c;
          c = c + h1; g1 = c AND 0xFFFFFFFFFFF; c = drop_bit 44 c;
          c = c + h2; g2 = c AND 0x3FFFFFFFFFF; c = drop_bit 42 c;
          msk = NOT (c - 1);
          h0 = (h0 AND NOT msk) OR (g0 AND msk);
          h1 = (h1 AND NOT msk) OR (g1 AND msk);
          h2 = (h2 AND NOT msk) OR (g2 AND msk);
          h_full = ucast h0 OR push_bit 44 (ucast h1) OR push_bit 88 (ucast h2) :: u128;
          s_full = ucast pad0 OR push_bit 64 (ucast pad1);
          result = h_full + s_full
      in store_le64 (ucast result) @ store_le64 (ucast (drop_bit 64 result)))"

section \<open>The message loop\<close>

text \<open>
  \<open>poly1305_mac\<close>, for either state: full blocks while they last, then the short rest. The loop of the
  AEAD construction pads the rest with zeros instead.
\<close>

definition mac_run :: "(bytes \<Rightarrow> 's) \<Rightarrow> ('s \<Rightarrow> bytes \<Rightarrow> 's) \<Rightarrow> ('s \<Rightarrow> bytes) \<Rightarrow> bytes \<Rightarrow> bytes \<Rightarrow> bytes" where
  "mac_run init blk finish key data =
     (let (st, rest) = absorb_blocks 16 blk (init key) data;
          st = (if rest \<noteq> [] then blk st rest else st)
      in finish st)"

definition pad16_blocks :: "('s \<Rightarrow> bytes \<Rightarrow> 's) \<Rightarrow> 's \<Rightarrow> bytes \<Rightarrow> 's" where
  "pad16_blocks blk st data =
     (let (st, rest) = absorb_blocks 16 blk st data
      in if rest \<noteq> [] then blk st (memcpy_at (replicate 16 0) 0 rest) else st)"

definition pad_and_mac :: "('s \<Rightarrow> bytes \<Rightarrow> 's) \<Rightarrow> 's \<Rightarrow> bytes \<Rightarrow> bytes \<Rightarrow> 's" where
  "pad_and_mac blk st aad ct =
     (let st = pad16_blocks blk st aad;
          st = pad16_blocks blk st ct;
          lens = store_le64 (of_nat (length aad)) @ store_le64 (of_nat (length ct))
      in blk st lens)"

definition poly1305_mac :: "bytes \<Rightarrow> bytes \<Rightarrow> bytes" where
  "poly1305_mac = mac_run poly64_init poly64_block poly64_finish"

section \<open>The reference\<close>

definition poly_p :: int where "poly_p = 2 ^ 130 - 5"

definition poly_clamp :: "bytes \<Rightarrow> int" where
  "poly_clamp key = le_val (take 16 key) AND 0x0FFFFFFC0FFFFFFC0FFFFFFC0FFFFFFF"

definition poly_add :: "int \<Rightarrow> int \<Rightarrow> bytes \<Rightarrow> int" where
  "poly_add r a m = (a + le_val m + 2 ^ (8 * length m)) * r mod poly_p"

text \<open>The blocks of 16 bytes of a message, the last one possibly shorter.\<close>

fun chunks16 :: "bytes \<Rightarrow> bytes list" where
  "chunks16 m = (if m = [] then [] else take 16 m # chunks16 (drop 16 m))"

declare chunks16.simps [simp del]

definition poly_eval :: "bytes \<Rightarrow> bytes list \<Rightarrow> int" where
  "poly_eval key ms = (foldl (poly_add (poly_clamp key)) 0 ms + le_val (take 16 (drop 16 key))) mod 2 ^ 128"

definition zero_pad16 :: "bytes \<Rightarrow> bytes" where
  "zero_pad16 m = m @ replicate ((16 - length m mod 16) mod 16) 0"

lemma foldl_poly_add_mod: "foldl (poly_add r) 0 ms mod poly_p = foldl (poly_add r) 0 ms"
  by (cases ms rule: rev_cases) (simp_all add: poly_add_def)

section \<open>The interface of a Poly1305 state\<close>

text \<open>\<open>rel r s a st\<close>: the state holds the key parts \<open>r\<close> and \<open>s\<close> and an accumulator congruent to \<open>a\<close>.\<close>

locale poly_state =
  fixes init :: "bytes \<Rightarrow> 's" and blk :: "'s \<Rightarrow> bytes \<Rightarrow> 's" and finish :: "'s \<Rightarrow> bytes"
    and rel :: "int \<Rightarrow> int \<Rightarrow> int \<Rightarrow> 's \<Rightarrow> bool"
  assumes init: "32 \<le> length key \<Longrightarrow> rel (poly_clamp key) (le_val (take 16 (drop 16 key))) 0 (init key)"
    and blk: "rel r s a st \<Longrightarrow> length m \<le> 16 \<Longrightarrow> rel r s (poly_add r a m) (blk st m)"
    and finish: "rel r s a st \<Longrightarrow> length (finish st) = 16 \<and> le_val (finish st) = (a mod poly_p + s) mod 2 ^ 128"
begin

lemma absorb16:
  "16 \<le> length m \<Longrightarrow> absorb_blocks 16 blk st m = absorb_blocks 16 blk (blk st (take 16 m)) (drop 16 m)"
  "length m < 16 \<Longrightarrow> absorb_blocks 16 blk st m = (st, m)"
  by (subst absorb_blocks.simps, simp)+

lemma chunks16_step:
  "16 \<le> length m \<Longrightarrow> chunks16 m = take 16 m # chunks16 (drop 16 m)"
  "length m < 16 \<Longrightarrow> chunks16 m = (if m = [] then [] else [m])"
  "length m = 16 \<Longrightarrow> chunks16 m = [m]"
  by (subst chunks16.simps, auto simp: chunks16.simps)+

lemma mac_loop:
  assumes "rel r s a st" "absorb_blocks 16 blk st m = (st', rest)"
  shows "rel r s (foldl (poly_add r) a (chunks16 m)) (if rest \<noteq> [] then blk st' rest else st')"
  using assms
proof (induction "length m" arbitrary: m a st rule: less_induct)
  case less
  show ?case
  proof (cases "16 \<le> length m")
    case True
    then have "rel r s (poly_add r a (take 16 m)) (blk st (take 16 m))" using less.prems(1) by (intro blk) simp_all
    from less.hyps [OF _ this] show ?thesis using True less.prems(2) by (simp add: absorb16 chunks16_step)
  next
    case False
    then show ?thesis using less.prems blk [of r s a st m] by (auto simp: absorb16 chunks16_step)
  qed
qed

lemma zero_pad16_step: "16 \<le> length m \<Longrightarrow> zero_pad16 m = take 16 m @ zero_pad16 (drop 16 m)"
proof -
  assume "16 \<le> length m"
  then have "length m mod 16 = (length m - 16) mod 16" by (simp add: le_mod_geq)
  then show ?thesis by (simp add: zero_pad16_def)
qed

lemma pad16_loop:
  assumes "rel r s a st"
  shows "rel r s (foldl (poly_add r) a (chunks16 (zero_pad16 m))) (pad16_blocks blk st m)"
  using assms
proof (induction "length m" arbitrary: m a st rule: less_induct)
  case less
  show ?case
  proof (cases "16 \<le> length m")
    case True
    then have b: "rel r s (poly_add r a (take 16 m)) (blk st (take 16 m))" using less.prems(1) by (intro blk) simp_all
    have p: "pad16_blocks blk st m = pad16_blocks blk (blk st (take 16 m)) (drop 16 m)"
      using True by (simp add: pad16_blocks_def absorb16)
    have "chunks16 (zero_pad16 m) = take 16 m # chunks16 (zero_pad16 (drop 16 m))"
      unfolding zero_pad16_step [OF True] using True by (subst chunks16_step(1)) simp_all
    then show ?thesis using less.hyps [OF _ b, of "drop 16 m"] True by (simp add: p)
  next
    case False
    have e: "chunks16 (zero_pad16 []) = []" by (simp add: zero_pad16_def chunks16_step)
    show ?thesis
    proof (cases "m = []")
      case True
      then show ?thesis using less.prems e by (simp add: pad16_blocks_def absorb16)
    next
      case ne: False
      have z: "memcpy_at (replicate 16 0) 0 m = zero_pad16 m" "length (zero_pad16 m) = 16"
        using False ne by (simp_all add: zero_pad16_def memcpy_at_def)
      have "pad16_blocks blk st m = blk st (zero_pad16 m)" using False ne by (simp add: pad16_blocks_def absorb16 z(1))
      moreover have "rel r s (poly_add r a (zero_pad16 m)) (blk st (zero_pad16 m))" using less.prems z(2) by (intro blk) simp_all
      ultimately show ?thesis by (simp add: chunks16_step(3) [OF z(2)])
    qed
  qed
qed

lemma mac_correct:
  assumes "32 \<le> length key"
  shows "length (mac_run init blk finish key m) = 16 \<and>
    le_val (mac_run init blk finish key m) = poly_eval key (chunks16 m)"
proof -
  obtain st rest where a: "absorb_blocks 16 blk (init key) m = (st, rest)" by fastforce
  show ?thesis using finish [OF mac_loop [OF init [OF assms] a]]
    by (simp only: mac_run_def a Let_def prod.case poly_eval_def foldl_poly_add_mod simp_thms)
qed

lemma pad_and_mac_correct:
  assumes "32 \<le> length key"
  shows "length (finish (pad_and_mac blk (init key) aad ct)) = 16 \<and>
    le_val (finish (pad_and_mac blk (init key) aad ct)) =
      poly_eval key (chunks16 (zero_pad16 aad) @ chunks16 (zero_pad16 ct) @
        [store_le64 (of_nat (length aad)) @ store_le64 (of_nat (length ct))])"
proof -
  let ?l = "store_le64 (of_nat (length aad)) @ store_le64 (of_nat (length ct))"
  have "rel (poly_clamp key) (le_val (take 16 (drop 16 key)))
     (foldl (poly_add (poly_clamp key)) 0 (chunks16 (zero_pad16 aad) @ chunks16 (zero_pad16 ct) @ [?l]))
     (pad_and_mac blk (init key) aad ct)"
    unfolding pad_and_mac_def Let_def foldl_append by (simp, intro blk pad16_loop init assms) simp
  from finish [OF this] show ?thesis by (simp only: poly_eval_def foldl_poly_add_mod simp_thms)
qed

end

section \<open>The 44-bit state computes the reference\<close>

named_theorems poly_words \<open>values of the word operations, without overflow\<close>

lemma uint_and44 [poly_words]: "uint (x AND 0xFFFFFFFFFFF :: u64) = uint x mod 2 ^ 44"
proof -
  have "x AND 0xFFFFFFFFFFF = take_bit 44 x" by (simp add: take_bit_eq_mask mask_eq_exp_minus_1)
  then show ?thesis by (simp only: unsigned_take_bit_eq) (simp only: take_bit_eq_mod)
qed

lemma uint_and42 [poly_words]: "uint (x AND 0x3FFFFFFFFFF :: u64) = uint x mod 2 ^ 42"
proof -
  have "x AND 0x3FFFFFFFFFF = take_bit 42 x" by (simp add: take_bit_eq_mask mask_eq_exp_minus_1)
  then show ?thesis by (simp only: unsigned_take_bit_eq) (simp only: take_bit_eq_mod)
qed

lemma uint_ucast_mod: "uint (ucast (d :: u128) :: u64) = uint d mod 2 ^ 64"
  by (simp add: unsigned_ucast_eq take_bit_eq_mod)

lemma uint_low44 [poly_words]: "uint (ucast (d :: u128) AND 0xFFFFFFFFFFF :: u64) = uint d mod 2 ^ 44"
  unfolding uint_and44 uint_ucast_mod by (rule mod_mod_cancel) simp

lemma uint_low42 [poly_words]: "uint (ucast (d :: u128) AND 0x3FFFFFFFFFF :: u64) = uint d mod 2 ^ 42"
  unfolding uint_and42 uint_ucast_mod by (rule mod_mod_cancel) simp

lemma div_bound:
  fixes x k m :: int
  assumes "0 < k" "x < k * m"
  shows "x div k < m"
proof -
  have "k * (x div k) \<le> x" using mult_div_mod_eq [of k x] pos_mod_sign [OF assms(1), of x] by linarith
  then have "k * (x div k) < k * m" using assms(2) by linarith
  then show ?thesis using assms(1) by (simp add: mult_less_cancel_left_pos)
qed

lemma uint_high [poly_words]:
  assumes "uint (d :: u128) < 2 ^ (64 + n)"
  shows "uint (ucast (drop_bit n d) :: u64) = uint d div 2 ^ n"
proof -
  have "uint d div 2 ^ n < 2 ^ 64" using assms by (intro div_bound) (simp_all add: power_add mult.commute)
  then show ?thesis unfolding uint_ucast_mod uint_drop_bit_div by (intro mod_pos_pos_trivial) (simp_all add: pos_imp_zdiv_nonneg_iff)
qed

lemma uint_mul3:
  fixes a b c d e f :: u64
  assumes "uint a * uint b + uint c * uint d + uint e * uint f < 2 ^ 128"
  shows "uint (ucast a * ucast b + ucast c * ucast d + ucast e * ucast f :: u128)
    = uint a * uint b + uint c * uint d + uint e * uint f"
proof -
  have "ucast a * ucast b + ucast c * ucast d + ucast e * ucast f
      = (word_of_int (uint a * uint b + uint c * uint d + uint e * uint f) :: u128)" by simp
  moreover have "0 \<le> uint a * uint b + uint c * uint d + uint e * uint f" by simp
  ultimately show ?thesis using assms by (simp only: uint_word_of_int) (simp add: take_bit_int_eq_self)
qed

lemma uint_add_no [poly_words]: "uint a + uint b < 2 ^ LENGTH('a) \<Longrightarrow> uint (a + b) = uint a + uint (b :: 'a :: len word)"
  by (simp add: uint_add_lem)

lemma uint_mult_no [poly_words]: "uint a * uint b < 2 ^ LENGTH('a) \<Longrightarrow> uint (a * b) = uint a * uint (b :: 'a :: len word)"
  by (simp add: uint_mult_lem)

text \<open>One block on integers: the carries keep the value modulo \<open>2^130 - 5\<close>.\<close>

lemma poly64_carry:
  fixes h0 h1 h2 r0 r1 r2 :: int
  assumes "k0 + 2 ^ 44 * q0 = h0 * r0 + h1 * (r2 * 20) + h2 * (r1 * 20)"
    "k1 + 2 ^ 44 * q1 = h0 * r1 + h1 * r0 + h2 * (r2 * 20) + q0"
    "k2 + 2 ^ 42 * q2 = h0 * r2 + h1 * r1 + h2 * r0 + q1" "k + 2 ^ 44 * q3 = k0 + q2 * 5"
  shows "(k + 2 ^ 44 * (k1 + q3) + 2 ^ 88 * k2) mod poly_p =
    (h0 + 2 ^ 44 * h1 + 2 ^ 88 * h2) * (r0 + 2 ^ 44 * r1 + 2 ^ 88 * r2) mod poly_p"
proof -
  have "(h0 + 2 ^ 44 * h1 + 2 ^ 88 * h2) * (r0 + 2 ^ 44 * r1 + 2 ^ 88 * r2) =
      (h0 * r0) + 2 ^ 44 * (h0 * r1 + h1 * r0) + 2 ^ 88 * (h0 * r2 + h1 * r1 + h2 * r0) +
      2 ^ 132 * (h1 * r2 + h2 * r1) + 2 ^ 176 * (h2 * r2)"
    by (simp add: algebra_simps)
  also have "\<dots> = k + 2 ^ 44 * (k1 + q3) + 2 ^ 88 * k2 +
      poly_p * (4 * (h1 * r2 + h2 * r1) + 4 * 2 ^ 44 * (h2 * r2) + q2)"
    using assms by (simp add: poly_p_def algebra_simps)
  finally show ?thesis by simp
qed

section \<open>Words of the key and of a block\<close>

lemma le_val_append: "le_val (xs @ ys) = le_val xs + 256 ^ length xs * le_val ys"
  by (induction xs) (simp_all add: algebra_simps)

lemma uint_load_le64: "8 \<le> length p \<Longrightarrow> uint (load_le64 p) = le_val (take 8 p)"
proof -
  assume p: "8 \<le> length p"
  have "load_le64 p = load_le64 (take 8 p)" using p by (simp add: load_le64_def)
  also have "uint \<dots> = le_val (take 8 p)"
    using p uint_load_be64 [of "rev (take 8 p)"] le_val_rev [of "rev (take 8 p)"] by (simp add: load_le64_rev)
  finally show ?thesis .
qed

lemma le_val_store_le64 [simp]: "le_val (store_le64 v) = uint v"
  using le_val_rev [of "store_be64 v"] by (simp add: store_le_rev be_val_store_be64)

lemma two_words:
  "16 \<le> length p \<Longrightarrow> le_val (take 16 p) = uint (load_le64 p) + 2 ^ 64 * uint (load_le64 (drop 8 p))"
proof -
  assume p: "16 \<le> length p"
  then have "take 16 p = take 8 p @ take 8 (drop 8 p)" by (metis numeral_Bit0 take_add)
  then show ?thesis using p by (simp add: le_val_append uint_load_le64)
qed

lemma poly_buf_val:
  assumes "length m \<le> 16"
  shows "length (poly_buf m) = 17" "le_val (poly_buf m) = le_val m + 2 ^ (8 * length m)"
proof -
  have b: "poly_buf m = m @ 1 # replicate (16 - length m) 0"
  proof -
    have "17 - length m = Suc (16 - length m)" using assms by simp
    then show ?thesis using assms by (simp add: poly_buf_def memcpy_at_def list_update_append Let_def)
  qed
  have "le_val (replicate n 0) = 0" for n by (induction n) simp_all
  then show "length (poly_buf m) = 17" "le_val (poly_buf m) = le_val m + 2 ^ (8 * length m)"
    using assms by (simp_all add: b le_val_append power_mult)
qed

lemma poly_buf_words:
  assumes "length m \<le> 16"
  shows "uint (load_le64 (poly_buf m)) + 2 ^ 64 * uint (load_le64 (drop 8 (poly_buf m))) +
      2 ^ 128 * uint (ucast (poly_buf m ! 16) :: u64) = le_val m + 2 ^ (8 * length m)"
    "uint (ucast (poly_buf m ! 16) :: u64) \<le> 1"
proof -
  let ?b = "poly_buf m"
  have l: "length ?b = 17" by (rule poly_buf_val [OF assms])
  then have "?b = take 16 ?b @ [?b ! 16]" using take_Suc_conv_app_nth [of 16 ?b] by simp
  moreover have "le_val (take 16 ?b @ [?b ! 16]) = le_val (take 16 ?b) + 2 ^ 128 * uint (?b ! 16)"
    using l by (simp add: le_val_append)
  ultimately have "le_val ?b = le_val (take 16 ?b) + 2 ^ 128 * uint (?b ! 16)" by (simp only:)
  moreover have u: "uint (ucast (?b ! 16) :: u64) = uint (?b ! 16)" by (simp add: unsigned_ucast_eq take_bit_uint_byte)
  ultimately show "uint (load_le64 ?b) + 2 ^ 64 * uint (load_le64 (drop 8 ?b)) + 2 ^ 128 * uint (ucast (?b ! 16) :: u64)
      = le_val m + 2 ^ (8 * length m)"
    using two_words [of ?b] l poly_buf_val(2) [OF assms] by simp
  have "?b ! 16 = 0 \<or> ?b ! 16 = 1" using assms by (auto simp: poly_buf_def memcpy_at_def Let_def nth_list_update nth_append)
  then show "uint (ucast (?b ! 16) :: u64) \<le> 1" by auto
qed

lemma middle_limb:
  "uint ((drop_bit 44 t0 OR push_bit 20 t1) AND 0xFFFFFFFFFFF :: u64) = uint t0 div 2 ^ 44 + 2 ^ 20 * (uint t1 mod 2 ^ 24)"
proof -
  have b: "0 \<le> uint t0 div 2 ^ 44" "uint t0 div 2 ^ 44 < 2 ^ 20"
    by (simp add: pos_imp_zdiv_nonneg_iff, rule div_bound) simp_all
  have m: "(0xFFFFFFFFFFF :: u64) = mask 44" by (simp add: mask_eq_exp_minus_1)
  have "uint t0 div 2 ^ 44 + 2 ^ 20 * (uint t1 mod 2 ^ 24) = push_bit 20 (take_bit 24 (uint t1)) OR drop_bit 44 (uint t0)"
    using or_push_bit_add [OF b, of "take_bit 24 (uint t1)"] by (simp add: take_bit_eq_mod drop_bit_eq_div)
  also have "\<dots> = uint ((drop_bit 44 t0 OR push_bit 20 t1) AND mask 44)"
    by (rule bit_eqI) (auto simp: bit_simps bit_uint_iff dest: bit_imp_le_length)
  finally show ?thesis by (simp only: m)
qed

lemma high_limb:
  assumes "uint hibit \<le> 1"
  shows "uint (drop_bit 24 t1 OR push_bit 40 hibit :: u64) = uint t1 div 2 ^ 24 + 2 ^ 40 * uint hibit"
proof -
  have b: "0 \<le> uint t1 div 2 ^ 24" "uint t1 div 2 ^ 24 < 2 ^ 40"
    by (simp add: pos_imp_zdiv_nonneg_iff, rule div_bound) simp_all
  have "uint hibit = uint (0 :: u64) \<or> uint hibit = uint (1 :: u64)" using assms uint_ge_0 [of hibit] by (simp; linarith)
  then have "hibit = 0 \<or> hibit = 1" by (simp only: word_uint_eq_iff [symmetric])
  then have "uint (push_bit 40 hibit) = push_bit 40 (uint hibit)" by auto
  then have "uint (drop_bit 24 t1 OR push_bit 40 hibit) = push_bit 40 (uint hibit) OR drop_bit 24 (uint t1)"
    by (simp only: unsigned_or_eq unsigned_drop_bit_eq) (simp add: or.commute take_bit_int_eq_self)
  then show ?thesis using or_push_bit_add [OF b, of "uint hibit"] by (simp add: drop_bit_eq_div)
qed

lemma limb_sum_eq:
  "r0 + 2 ^ 44 * q0 = t0 \<Longrightarrow> r1 + 2 ^ 24 * q1 = t1 \<Longrightarrow>
   r0 + 2 ^ 44 * (q0 + 2 ^ 20 * r1) + 2 ^ 88 * (q1 + 2 ^ 40 * h) = t0 + 2 ^ 64 * t1 + 2 ^ 128 * (h :: int)"
  by (auto simp: algebra_simps)

lemmas limb_sum = limb_sum_eq [OF mod_mult_div_eq mod_mult_div_eq]

lemma and_two_words:
  fixes a b A B :: int
  assumes "take_bit 64 a = a" "take_bit 64 A = A"
  shows "push_bit 64 (b AND B) OR (a AND A) = (push_bit 64 b OR a) AND (push_bit 64 B OR A)"
proof (rule bit_eqI)
  fix n
  have "bit a n \<Longrightarrow> n < 64" "bit A n \<Longrightarrow> n < 64" using assms by (metis bit_take_bit_iff)+
  then show "bit (push_bit 64 (b AND B) OR (a AND A)) n = bit ((push_bit 64 b OR a) AND (push_bit 64 B OR A)) n"
    by (auto simp: bit_or_iff bit_and_iff bit_push_bit_iff)
qed

lemma clamp_words:
  assumes "16 \<le> length key"
  shows "poly_clamp key = uint (load_le64 key AND 0x0FFFFFFC0FFFFFFF) + 2 ^ 64 * uint (load_le64 (drop 8 key) AND 0x0FFFFFFC0FFFFFFC)"
proof -
  let ?a = "uint (load_le64 key)" and ?b = "uint (load_le64 (drop 8 key))"
  have split: "x + 2 ^ 64 * y = push_bit 64 y OR x" if "0 \<le> x" "x < 2 ^ 64" for x y :: int
    using or_push_bit_add [OF that, of y] by simp
  have c: "(0x0FFFFFFC0FFFFFFC0FFFFFFC0FFFFFFF :: int) = push_bit 64 0x0FFFFFFC0FFFFFFC OR 0x0FFFFFFC0FFFFFFF"
    by simp
  have a: "0 \<le> ?a" "?a < 2 ^ 64" using uint_lt2p [of "load_le64 key"] by simp_all
  have u: "uint (v AND w) = uint v AND uint w" for v w :: u64 by (simp add: unsigned_and_eq)
  have uint_numeral_masks: "uint (0x0FFFFFFC0FFFFFFF :: u64) = 0x0FFFFFFC0FFFFFFF" "uint (0x0FFFFFFC0FFFFFFC :: u64) = 0x0FFFFFFC0FFFFFFC"
    by simp_all
  have "?a AND 0x0FFFFFFC0FFFFFFF < 2 ^ 64" "0 \<le> ?a AND 0x0FFFFFFC0FFFFFFF"
    using uint_lt2p [of "load_le64 key AND 0x0FFFFFFC0FFFFFFF"] uint_ge_0 [of "load_le64 key AND 0x0FFFFFFC0FFFFFFF"] unfolding u uint_numeral_masks by simp_all
  note split [OF this(2,1)]
  then have "uint (load_le64 key AND 0x0FFFFFFC0FFFFFFF) + 2 ^ 64 * uint (load_le64 (drop 8 key) AND 0x0FFFFFFC0FFFFFFC) =
      push_bit 64 (?b AND 0x0FFFFFFC0FFFFFFC) OR (?a AND 0x0FFFFFFC0FFFFFFF)"
    unfolding u uint_numeral_masks by this
  also have "\<dots> = (push_bit 64 ?b OR ?a) AND 0x0FFFFFFC0FFFFFFC0FFFFFFC0FFFFFFF"
    unfolding c by (rule and_two_words) (simp_all add: take_bit_int_eq_self)
  finally show ?thesis using two_words [OF assms] split [OF a] by (simp add: poly_clamp_def)
qed

section \<open>The 44-bit state satisfies the interface\<close>

definition poly64_h_val :: "u64 \<times> u64 \<times> u64 \<Rightarrow> int" where
  "poly64_h_val h = (case h of (h0, h1, h2) \<Rightarrow> uint h0 + 2 ^ 44 * uint h1 + 2 ^ 88 * uint h2)"

definition poly64_h_ok :: "u64 \<times> u64 \<times> u64 \<Rightarrow> bool" where
  "poly64_h_ok h = (case h of (h0, h1, h2) \<Rightarrow> uint h0 < 2 ^ 44 \<and> uint h1 < 2 ^ 44 + 2 ^ 9 \<and> uint h2 < 2 ^ 42)"

definition poly64_key_ok :: "int \<Rightarrow> u64 \<times> u64 \<times> u64 \<Rightarrow> u64 \<times> u64 \<Rightarrow> bool" where
  "poly64_key_ok r k sr = (case k of (r0, r1, r2) \<Rightarrow>
     r = uint r0 + 2 ^ 44 * uint r1 + 2 ^ 88 * uint r2 \<and> uint r0 < 2 ^ 44 \<and> uint r1 < 2 ^ 44 \<and> uint r2 < 2 ^ 42 \<and>
     uint (fst sr) = uint r1 * 20 \<and> uint (snd sr) = uint r2 * 20)"

definition poly64_rel :: "int \<Rightarrow> int \<Rightarrow> int \<Rightarrow> poly64 \<Rightarrow> bool" where
  "poly64_rel r s a st \<longleftrightarrow> poly64_key_ok r (p64_r st) (p64_sr st) \<and>
     s = uint (fst (p64_pad st)) + 2 ^ 64 * uint (snd (p64_pad st)) \<and>
     poly64_h_ok (p64_h st) \<and> poly64_h_val (p64_h st) mod poly_p = a mod poly_p"

lemma bounded_mult:
  fixes a b A B :: int
  assumes "0 \<le> a" "a < A" "0 \<le> b" "b < B"
  shows "a * b < A * B"
  using mult_strict_mono' [OF assms(2,4,1,3)] .

lemma mod_less_pow: "(x :: int) mod 2 ^ n < 2 ^ n"
  by simp

text \<open>The accumulator step, on words: no sum or product leaves its type.\<close>

lemma poly64_mult_words:
  fixes h0 h1 h2 r0 r1 r2 sr0 sr1 :: u64
  assumes h: "uint h0 < 2 ^ 45" "uint h1 < 2 ^ 46" "uint h2 < 2 ^ 43"
    and r: "uint r0 < 2 ^ 44" "uint r1 < 2 ^ 44" "uint r2 < 2 ^ 42" "uint sr0 = uint r1 * 20" "uint sr1 = uint r2 * 20"
  defines "d0 \<equiv> ucast h0 * ucast r0 + ucast h1 * ucast sr1 + ucast h2 * ucast sr0 :: u128"
  defines "c0 \<equiv> ucast (drop_bit 44 d0) :: u64"
  defines "d1 \<equiv> ucast h0 * ucast r1 + ucast h1 * ucast r0 + ucast h2 * ucast sr1 + ucast c0 :: u128"
  defines "c1 \<equiv> ucast (drop_bit 44 d1) :: u64"
  defines "d2 \<equiv> ucast h0 * ucast r2 + ucast h1 * ucast r1 + ucast h2 * ucast r0 + ucast c1 :: u128"
  defines "c2 \<equiv> ucast (drop_bit 42 d2) :: u64"
  defines "e \<equiv> (ucast d0 AND 0xFFFFFFFFFFF) + c2 * 5"
  defines "k \<equiv> (e AND 0xFFFFFFFFFFF, (ucast d1 AND 0xFFFFFFFFFFF) + drop_bit 44 e, ucast d2 AND 0x3FFFFFFFFFF)"
  shows "poly64_h_ok k" "poly64_h_val k mod poly_p =
    (uint h0 + 2 ^ 44 * uint h1 + 2 ^ 88 * uint h2) * (uint r0 + 2 ^ 44 * uint r1 + 2 ^ 88 * uint r2) mod poly_p"
proof -
  have sr: "uint sr0 < 2 ^ 49" "uint sr1 < 2 ^ 47" using r by simp_all
  have p: "uint x * uint y < A * B" if "uint x < A" "uint y < B" for x y :: u64 and A B
    using that by (intro bounded_mult) simp_all
  note p0 = p [OF h(1) r(1)] p [OF h(2) sr(2)] p [OF h(3) sr(1)]
  note p1 = p [OF h(1) r(2)] p [OF h(2) r(1)] p [OF h(3) sr(2)]
  note p2 = p [OF h(1) r(3)] p [OF h(2) r(2)] p [OF h(3) r(1)]
  have d0: "uint d0 = uint h0 * uint r0 + uint h1 * uint sr1 + uint h2 * uint sr0" "uint d0 < 2 ^ 108"
    unfolding d0_def using p0 by (subst uint_mul3; simp)+
  have c0: "uint c0 = uint d0 div 2 ^ 44" unfolding c0_def using d0(2) by (intro uint_high) simp
  have uc: "uint (ucast c :: u128) = uint c" for c :: u64
    unfolding unsigned_ucast_eq by (rule take_bit_int_eq_self) (simp, rule less_trans [OF uint_lt64], simp)
  have s1: "uint (ucast h0 * ucast r1 + ucast h1 * ucast r0 + ucast h2 * ucast sr1 :: u128) =
      uint h0 * uint r1 + uint h1 * uint r0 + uint h2 * uint sr1" using p1 by (intro uint_mul3) simp
  have d1: "uint d1 = uint h0 * uint r1 + uint h1 * uint r0 + uint h2 * uint sr1 + uint c0" "uint d1 < 2 ^ 108"
    unfolding d1_def using p1 uint_lt64 [of c0] by (subst uint_add_no; simp add: s1 uc del: uint_lt64)+
  have c1: "uint c1 = uint d1 div 2 ^ 44" unfolding c1_def using d1(2) by (intro uint_high) simp
  have s2: "uint (ucast h0 * ucast r2 + ucast h1 * ucast r1 + ucast h2 * ucast r0 :: u128) =
      uint h0 * uint r2 + uint h1 * uint r1 + uint h2 * uint r0" using p2 by (intro uint_mul3) simp
  have d2: "uint d2 = uint h0 * uint r2 + uint h1 * uint r1 + uint h2 * uint r0 + uint c1" "uint d2 < 2 ^ 92"
    unfolding d2_def using p2 uint_lt64 [of c1] by (subst uint_add_no; simp add: s2 uc del: uint_lt64)+
  have c2: "uint c2 = uint d2 div 2 ^ 42" unfolding c2_def using d2(2) by (intro uint_high) simp
  have c2b: "uint c2 < 2 ^ 50" unfolding c2 using d2(2) by (intro div_bound) simp_all
  have c5: "uint (c2 * 5) = uint c2 * 5" using c2b by (subst uint_mult_no) simp_all
  have e: "uint e = uint d0 mod 2 ^ 44 + uint c2 * 5"
    unfolding e_def using c2b mod_less_pow [of "uint d0" 44] by (subst uint_add_no) (simp_all add: uint_low44 c5)
  have eb: "uint e < 2 ^ 44 * 2 ^ 9" unfolding e using c2b mod_less_pow [of "uint d0" 44] by simp
  have q: "uint (drop_bit 44 e) = uint e div 2 ^ 44" "uint e div 2 ^ 44 < 2 ^ 9"
    using eb by (simp_all only: uint_drop_bit_div) (intro div_bound; simp)
  have k1: "uint ((ucast d1 AND 0xFFFFFFFFFFF) + drop_bit 44 e) = uint d1 mod 2 ^ 44 + uint e div 2 ^ 44"
    using q mod_less_pow [of "uint d1" 44] by (subst uint_add_no) (simp_all add: uint_low44)
  show "poly64_h_ok k" using q(2) mod_less_pow [of "uint d1" 44]
    by (simp add: k_def poly64_h_ok_def uint_low42 uint_and44 k1)
  have v: "poly64_h_val k = uint e mod 2 ^ 44 + 2 ^ 44 * (uint d1 mod 2 ^ 44 + uint e div 2 ^ 44) + 2 ^ 88 * (uint d2 mod 2 ^ 42)"
    by (simp only: k_def poly64_h_val_def prod.case k1 uint_and44 uint_low42)
  show "poly64_h_val k mod poly_p =
    (uint h0 + 2 ^ 44 * uint h1 + 2 ^ 88 * uint h2) * (uint r0 + 2 ^ 44 * uint r1 + 2 ^ 88 * uint r2) mod poly_p"
    unfolding v by (rule poly64_carry) (simp_all only: mod_mult_div_eq d0(1) d1(1) d2(1) c0 c1 c2 e r(4,5) add.assoc)
qed

lemma poly64_init_rel:
  assumes "32 \<le> length key"
  shows "poly64_rel (poly_clamp key) (le_val (take 16 (drop 16 key))) 0 (poly64_init key)"
proof -
  let ?t0 = "load_le64 key AND 0x0FFFFFFC0FFFFFFF" and ?t1 = "load_le64 (drop 8 key) AND 0x0FFFFFFC0FFFFFFC"
  let ?r1 = "(drop_bit 44 ?t0 OR push_bit 20 ?t1) AND 0xFFFFFFFFFFF" and ?r2 = "drop_bit 24 ?t1 AND 0x3FFFFFFFFFF"
  have b: "uint ?r1 < 2 ^ 44" "uint ?r2 < 2 ^ 42" unfolding uint_and44 uint_and42 by (rule mod_less_pow)+
  have t1: "uint ?t1 div 2 ^ 24 < 2 ^ 40" by (rule div_bound) simp_all
  have "uint ?r2 = uint ?t1 div 2 ^ 24 mod 2 ^ 42" by (simp only: uint_and42 uint_drop_bit_div)
  also have "\<dots> = uint ?t1 div 2 ^ 24" using t1 by (intro mod_pos_pos_trivial) (simp_all add: pos_imp_zdiv_nonneg_iff)
  finally have r2: "uint ?r2 = uint ?t1 div 2 ^ 24 + 2 ^ 40 * 0" by simp
  have "uint (?t0 AND 0xFFFFFFFFFFF) + 2 ^ 44 * uint ?r1 + 2 ^ 88 * uint ?r2 = uint ?t0 + 2 ^ 64 * uint ?t1 + 2 ^ 128 * 0"
    unfolding r2 middle_limb unfolding uint_and44 by (rule limb_sum)
  then have "poly_clamp key = uint (?t0 AND 0xFFFFFFFFFFF) + 2 ^ 44 * uint ?r1 + 2 ^ 88 * uint ?r2"
    using clamp_words [of key] assms by simp
  moreover have "uint (?r1 * 20) = uint ?r1 * 20" "uint (?r2 * 20) = uint ?r2 * 20"
    using b by (subst uint_mult_no; simp)+
  moreover have "le_val (take 16 (drop 16 key)) = uint (load_le64 (drop 16 key)) + 2 ^ 64 * uint (load_le64 (drop 24 key))"
    using two_words [of "drop 16 key"] assms by simp
  moreover have "uint (?t0 AND 0xFFFFFFFFFFF) < 2 ^ 44" unfolding uint_and44 by (rule mod_less_pow)
  ultimately show ?thesis using b
    by (simp add: poly64_rel_def poly64_key_ok_def poly64_init_def poly64_h_ok_def poly64_h_val_def Let_def)
qed

lemma poly64_block_rel:
  assumes "poly64_rel r s a st" "length m \<le> 16"
  shows "poly64_rel r s (poly_add r a m) (poly64_block st m)"
proof -
  obtain r0 r1 r2 where pr: "p64_r st = (r0, r1, r2)" by (metis prod_cases3)
  obtain sr0 sr1 where ps: "p64_sr st = (sr0, sr1)" by fastforce
  obtain h0 h1 h2 where ph: "p64_h st = (h0, h1, h2)" by (metis prod_cases3)
  let ?t0 = "load_le64 (poly_buf m)" and ?t1 = "load_le64 (drop 8 (poly_buf m))" and ?hb = "ucast (poly_buf m ! 16) :: u64"
  let ?m0 = "?t0 AND 0xFFFFFFFFFFF" and ?m1 = "(drop_bit 44 ?t0 OR push_bit 20 ?t1) AND 0xFFFFFFFFFFF"
    and ?m2 = "drop_bit 24 ?t1 OR push_bit 40 ?hb"
  have k: "r = uint r0 + 2 ^ 44 * uint r1 + 2 ^ 88 * uint r2" "uint r0 < 2 ^ 44" "uint r1 < 2 ^ 44" "uint r2 < 2 ^ 42"
    "uint sr0 = uint r1 * 20" "uint sr1 = uint r2 * 20"
    and h: "uint h0 < 2 ^ 44" "uint h1 < 2 ^ 44 + 2 ^ 9" "uint h2 < 2 ^ 42"
    and v: "(uint h0 + 2 ^ 44 * uint h1 + 2 ^ 88 * uint h2) mod poly_p = a mod poly_p"
    using assms(1) by (simp_all add: poly64_rel_def poly64_key_ok_def poly64_h_ok_def poly64_h_val_def pr ps ph)
  note n = poly_buf_words [OF assms(2)]
  have m: "uint ?m0 < 2 ^ 44" "uint ?m1 < 2 ^ 44" unfolding uint_and44 by (rule mod_less_pow)+
  have "uint ?t1 div 2 ^ 24 < 2 ^ 40" by (rule div_bound) simp_all
  then have m2: "uint ?m2 < 2 ^ 41" unfolding high_limb [OF n(2)] using n(2) by simp
  have sums: "uint (h0 + ?m0) = uint h0 + uint ?m0" "uint (h1 + ?m1) = uint h1 + uint ?m1" "uint (h2 + ?m2) = uint h2 + uint ?m2"
    using h m m2 by (subst uint_add_no; simp)+
  have bounds: "uint (h0 + ?m0) < 2 ^ 45" "uint (h1 + ?m1) < 2 ^ 46" "uint (h2 + ?m2) < 2 ^ 43"
    unfolding sums using h m m2 by simp_all
  have "uint (h0 + ?m0) + 2 ^ 44 * uint (h1 + ?m1) + 2 ^ 88 * uint (h2 + ?m2) =
      (uint h0 + 2 ^ 44 * uint h1 + 2 ^ 88 * uint h2) + (uint ?m0 + 2 ^ 44 * uint ?m1 + 2 ^ 88 * uint ?m2)"
    unfolding sums by (simp add: algebra_simps)
  also have "uint ?m0 + 2 ^ 44 * uint ?m1 + 2 ^ 88 * uint ?m2 = le_val m + 2 ^ (8 * length m)"
    unfolding high_limb [OF n(2)] middle_limb unfolding uint_and44 limb_sum by (rule n(1))
  finally have sum: "uint (h0 + ?m0) + 2 ^ 44 * uint (h1 + ?m1) + 2 ^ 88 * uint (h2 + ?m2) =
      (uint h0 + 2 ^ 44 * uint h1 + 2 ^ 88 * uint h2) + (le_val m + 2 ^ (8 * length m))" .
  note w = poly64_mult_words [OF bounds k(2-6)]
  have p: "p64_r (poly64_block st m) = p64_r st" "p64_sr (poly64_block st m) = p64_sr st" "p64_pad (poly64_block st m) = p64_pad st"
    by (simp_all add: poly64_block_def Let_def pr ps ph)
  have "poly64_h_ok (p64_h (poly64_block st m))" unfolding poly64_block_def Let_def pr ps ph prod.case using w(1) by simp
  moreover have "poly64_h_val (p64_h (poly64_block st m)) mod poly_p =
     (uint (h0 + ?m0) + 2 ^ 44 * uint (h1 + ?m1) + 2 ^ 88 * uint (h2 + ?m2)) * r mod poly_p"
    unfolding poly64_block_def Let_def pr ps ph prod.case k(1) using w(2) by simp
  moreover have "\<dots> = poly_add r a m mod poly_p"
    unfolding sum poly_add_def using v by (metis (no_types) add.assoc mod_add_left_eq mod_mod_trivial mod_mult_left_eq)
  ultimately show ?thesis using assms(1) by (simp add: poly64_rel_def p)
qed

text \<open>The final carries and the conditional subtraction of \<open>2^130 - 5\<close>, on integers.\<close>

lemma div_flag:
  fixes x k :: int
  assumes "0 < k" "0 \<le> x" "x < k * 2"
  shows "0 \<le> x div k" "x div k \<le> 1"
  using assms div_bound [OF assms(1,3)] by (simp_all add: pos_imp_zdiv_nonneg_iff)

lemma poly64_final_carry:
  fixes h0 h1 h2 :: int
  assumes "0 \<le> h0" "h0 < 2 ^ 44" "0 \<le> h1" "h1 < 2 ^ 44 + 2 ^ 9" "0 \<le> h2" "h2 < 2 ^ 42"
    and c: "c1 = h1 div 2 ^ 44" "c2 = (h2 + c1) div 2 ^ 42" "c3 = (h0 + c2 * 5) div 2 ^ 44"
    and k: "k0 = (h0 + c2 * 5) mod 2 ^ 44" "k1 = h1 mod 2 ^ 44 + c3" "k2 = (h2 + c1) mod 2 ^ 42"
  shows "0 \<le> c1" "c1 \<le> 1" "0 \<le> c2" "c2 \<le> 1" "0 \<le> c3" "c3 \<le> 1" "0 \<le> k0" "k0 < 2 ^ 44" "0 \<le> k1" "k1 < 2 ^ 44" "0 \<le> k2" "k2 < 2 ^ 42"
    "(k0 + 2 ^ 44 * k1 + 2 ^ 88 * k2) mod poly_p = (h0 + 2 ^ 44 * h1 + 2 ^ 88 * h2) mod poly_p"
proof -
  show c1: "0 \<le> c1" "c1 \<le> 1" unfolding c(1) using assms(3,4) by (intro div_flag; simp)+
  show c2: "0 \<le> c2" "c2 \<le> 1" unfolding c(2) using assms(5,6) c1 by (intro div_flag; simp)+
  show c3: "0 \<le> c3" "c3 \<le> 1" unfolding c(3) using assms(1,2) c2 by (intro div_flag; simp)+
  show "0 \<le> k0" "k0 < 2 ^ 44" "0 \<le> k2" "k2 < 2 ^ 42" using k by simp_all
  show "0 \<le> k1" using k c3 by simp
  show "k1 < 2 ^ 44"
  proof (cases "c3 = 0")
    case False
    then have "c2 \<noteq> 0" using c(3) assms(1,2) by (auto simp: div_pos_pos_trivial)
    then have "c1 \<noteq> 0" using c(2) assms(5,6) by (auto simp: div_pos_pos_trivial)
    then have "c1 = 1" using c1 by simp
    moreover have "h1 mod 2 ^ 44 = h1 - 2 ^ 44 * c1" unfolding c(1) by (rule minus_mult_div_eq_mod [symmetric])
    ultimately show ?thesis using k(2) c3(2) assms(4) by simp
  qed (simp add: k(2))
  have "h1 mod 2 ^ 44 = h1 - 2 ^ 44 * c1" "k2 = h2 + c1 - 2 ^ 42 * c2" "k0 = h0 + c2 * 5 - 2 ^ 44 * c3"
    unfolding k c by (rule minus_mult_div_eq_mod [symmetric])+
  then have "k0 + 2 ^ 44 * k1 + 2 ^ 88 * k2 = h0 + 2 ^ 44 * h1 + 2 ^ 88 * h2 + poly_p * (- c2)"
    unfolding k(2) poly_p_def by (simp add: algebra_simps)
  then show "(k0 + 2 ^ 44 * k1 + 2 ^ 88 * k2) mod poly_p = (h0 + 2 ^ 44 * h1 + 2 ^ 88 * h2) mod poly_p"
    by (simp only: mod_mult_self2)
qed

lemma poly64_subtract:
  fixes k0 k1 k2 :: int
  assumes k: "0 \<le> k0" "k0 < 2 ^ 44" "0 \<le> k1" "k1 < 2 ^ 44" "0 \<le> k2" "k2 < 2 ^ 42"
    and c: "c1 = (k0 + 5) div 2 ^ 44" "c2 = (c1 + k1) div 2 ^ 44" "c3 = (c2 + k2) div 2 ^ 42"
    and g: "g0 = (k0 + 5) mod 2 ^ 44" "g1 = (c1 + k1) mod 2 ^ 44" "g2 = (c2 + k2) mod 2 ^ 42"
  shows "0 \<le> c1" "c1 \<le> 1" "0 \<le> c2" "c2 \<le> 1" "c3 = 0 \<or> c3 = 1"
    "(if c3 = 1 then g0 + 2 ^ 44 * g1 + 2 ^ 88 * g2 else k0 + 2 ^ 44 * k1 + 2 ^ 88 * k2) =
     (k0 + 2 ^ 44 * k1 + 2 ^ 88 * k2) mod poly_p"
proof -
  show c1: "0 \<le> c1" "c1 \<le> 1" unfolding c(1) using k(1,2) by (intro div_flag; simp)+
  show c2: "0 \<le> c2" "c2 \<le> 1" unfolding c(2) using k(3,4) c1 by (intro div_flag; simp)+
  have "0 \<le> c3" "c3 \<le> 1" unfolding c(3) using k(5,6) c2 by (intro div_flag; simp)+
  then show c3: "c3 = 0 \<or> c3 = 1" by linarith
  let ?v = "k0 + 2 ^ 44 * k1 + 2 ^ 88 * k2"
  have "g0 = k0 + 5 - 2 ^ 44 * c1" "g1 = c1 + k1 - 2 ^ 44 * c2" "g2 = c2 + k2 - 2 ^ 42 * c3"
    unfolding g c by (rule minus_mult_div_eq_mod [symmetric])+
  then have s: "g0 + 2 ^ 44 * g1 + 2 ^ 88 * g2 = ?v + 5 - 2 ^ 130 * c3" by (simp add: algebra_simps)
  have b: "0 \<le> g0 + 2 ^ 44 * g1 + 2 ^ 88 * g2" "g0 + 2 ^ 44 * g1 + 2 ^ 88 * g2 < 2 ^ 130"
  proof -
    have "0 \<le> g0 \<and> g0 \<le> 2 ^ 44 - 1" "0 \<le> g1 \<and> g1 \<le> 2 ^ 44 - 1" "0 \<le> g2 \<and> g2 \<le> 2 ^ 42 - 1" using g by simp_all
    then show "0 \<le> g0 + 2 ^ 44 * g1 + 2 ^ 88 * g2" "g0 + 2 ^ 44 * g1 + 2 ^ 88 * g2 < 2 ^ 130" by simp_all
  qed
  have v: "0 \<le> ?v" "?v < 2 ^ 130" using k by simp_all
  show "(if c3 = 1 then g0 + 2 ^ 44 * g1 + 2 ^ 88 * g2 else ?v) = ?v mod poly_p"
  proof (cases "c3 = 1")
    case True
    then have e: "g0 + 2 ^ 44 * g1 + 2 ^ 88 * g2 = ?v - poly_p" using s by (simp add: poly_p_def)
    then have "0 \<le> ?v - poly_p" "?v - poly_p < poly_p" using b v by (simp_all add: poly_p_def)
    then have "(?v - poly_p) mod poly_p = ?v - poly_p" by (rule mod_pos_pos_trivial)
    moreover have "(?v - poly_p) mod poly_p = ?v mod poly_p" by (rule minus_mod_self2)
    ultimately show ?thesis using True e by (simp only: if_True simp_thms)
  next
    case False
    then have "?v < poly_p" using c3 s b by (simp add: poly_p_def)
    then show ?thesis using False v by (simp add: mod_pos_pos_trivial)
  qed
qed

lemma flag_select:
  fixes c g h :: u64
  assumes "uint c = 0 \<or> uint c = 1"
  shows "(h AND NOT (NOT (c - 1))) OR (g AND NOT (c - 1)) = (if uint c = 1 then g else h)"
proof -
  have "uint c = uint (0 :: u64) \<or> uint c = uint (1 :: u64)" using assms by simp
  then have "c = 0 \<or> c = 1" by (simp only: word_uint_eq_iff [symmetric])
  then show ?thesis by auto
qed

lemma uint_join3:
  fixes h0 h1 h2 :: u64
  assumes "uint h0 < 2 ^ 44" "uint h1 < 2 ^ 44"
  shows "uint (ucast h0 OR push_bit 44 (ucast h1) OR push_bit 88 (ucast h2) :: u128) =
    (uint h0 + 2 ^ 44 * uint h1 + 2 ^ 88 * uint h2) mod 2 ^ 128"
proof -
  have w: "uint (ucast h0 OR push_bit 44 (ucast h1) OR push_bit 88 (ucast h2) :: u128) =
      take_bit 128 (push_bit 88 (uint h2) OR (push_bit 44 (uint h1) OR uint h0))"
    by (rule bit_eqI) (auto simp: bit_simps bit_uint_iff dest: bit_imp_le_length)
  have j: "push_bit 44 (uint h1) OR uint h0 = uint h1 * 2 ^ 44 + uint h0"
    using assms by (intro or_push_bit_add) simp_all
  have k: "push_bit 88 (uint h2) OR (uint h1 * 2 ^ 44 + uint h0) = uint h2 * 2 ^ 88 + (uint h1 * 2 ^ 44 + uint h0)"
    using assms by (intro or_push_bit_add) simp_all
  show ?thesis unfolding w j k take_bit_eq_mod by (simp only: ac_simps)
qed

lemma uint_join2:
  fixes a b :: u64
  shows "uint (ucast a OR push_bit 64 (ucast b) :: u128) = uint a + 2 ^ 64 * uint b"
proof -
  have "uint (ucast a OR push_bit 64 (ucast b) :: u128) = push_bit 64 (uint b) OR uint a"
    by (rule bit_eqI) (auto simp: bit_simps bit_uint_iff dest: bit_imp_le_length)
  then show ?thesis using or_push_bit_add [of "uint a" 64 "uint b"] by simp
qed

lemma le_val_store128:
  "le_val (store_le64 (ucast w) @ store_le64 (ucast (drop_bit 64 (w :: u128)))) = uint w"
proof -
  have "uint w < 2 ^ (64 + 64)" using uint_lt2p [of w] by simp
  then have "uint (ucast (drop_bit 64 w) :: u64) = uint w div 2 ^ 64" by (rule uint_high)
  moreover have "uint (ucast w :: u64) = uint w mod 2 ^ 64" by (rule uint_ucast_mod)
  ultimately show ?thesis
    using mod_mult_div_eq [of "uint w" "2 ^ 64"] by (simp add: le_val_append)
qed

lemma poly64_final_words:
  fixes h0 h1 h2 :: u64
  assumes h: "uint h0 < 2 ^ 44" "uint h1 < 2 ^ 44 + 2 ^ 9" "uint h2 < 2 ^ 42"
  defines "c1 \<equiv> drop_bit 44 h1"
  defines "c2 \<equiv> drop_bit 42 (h2 + c1)"
  defines "k2 \<equiv> (h2 + c1) AND 0x3FFFFFFFFFF"
  defines "c3 \<equiv> drop_bit 44 (h0 + c2 * 5)"
  defines "k0 \<equiv> (h0 + c2 * 5) AND 0xFFFFFFFFFFF"
  defines "k1 \<equiv> (h1 AND 0xFFFFFFFFFFF) + c3"
  shows "uint k0 < 2 ^ 44" "uint k1 < 2 ^ 44" "uint k2 < 2 ^ 42"
    "(uint k0 + 2 ^ 44 * uint k1 + 2 ^ 88 * uint k2) mod poly_p = (uint h0 + 2 ^ 44 * uint h1 + 2 ^ 88 * uint h2) mod poly_p"
proof -
  note f = poly64_final_carry [OF uint_ge_0 h(1) uint_ge_0 h(2) uint_ge_0 h(3) refl refl refl refl refl refl]
  have c1: "uint c1 = uint h1 div 2 ^ 44" unfolding c1_def by (rule uint_drop_bit_div)
  have a: "uint (h2 + c1) = uint h2 + uint c1" using h(3) f(2) by (subst uint_add_no) (simp_all add: c1)
  have c2: "uint c2 = (uint h2 + uint h1 div 2 ^ 44) div 2 ^ 42" unfolding c2_def uint_drop_bit_div a c1 ..
  have m: "uint (c2 * 5) = uint c2 * 5" using f(4) by (subst uint_mult_no) (simp_all add: c2)
  have b: "uint (h0 + c2 * 5) = uint h0 + uint c2 * 5" using h(1) f(4) by (subst uint_add_no) (simp_all add: m c2)
  have c3: "uint c3 = (uint h0 + uint c2 * 5) div 2 ^ 44" unfolding c3_def uint_drop_bit_div b ..
  have k0: "uint k0 = (uint h0 + uint c2 * 5) mod 2 ^ 44" unfolding k0_def uint_and44 b ..
  have k2: "uint k2 = (uint h2 + uint c1) mod 2 ^ 42" unfolding k2_def uint_and42 a ..
  have k1: "uint k1 = uint h1 mod 2 ^ 44 + uint c3"
    unfolding k1_def using f(6,10) by (subst uint_add_no) (simp_all add: uint_and44 c3 c2)
  show "uint k0 < 2 ^ 44" "uint k1 < 2 ^ 44" "uint k2 < 2 ^ 42"
    "(uint k0 + 2 ^ 44 * uint k1 + 2 ^ 88 * uint k2) mod poly_p = (uint h0 + 2 ^ 44 * uint h1 + 2 ^ 88 * uint h2) mod poly_p"
    unfolding k0 k1 k2 c3 unfolding c2 c1 by (rule f(8), rule f(10), rule f(12), rule f(13))
qed

lemma poly64_subtract_words:
  fixes h0 h1 h2 :: u64
  assumes h: "uint h0 < 2 ^ 44" "uint h1 < 2 ^ 44" "uint h2 < 2 ^ 42"
  defines "e0 \<equiv> h0 + 5"
  defines "e1 \<equiv> drop_bit 44 e0 + h1"
  defines "e2 \<equiv> drop_bit 44 e1 + h2"
  defines "g0 \<equiv> e0 AND 0xFFFFFFFFFFF" and "g1 \<equiv> e1 AND 0xFFFFFFFFFFF" and "g2 \<equiv> e2 AND 0x3FFFFFFFFFF"
  defines "c \<equiv> drop_bit 42 e2"
  shows "uint c = 0 \<or> uint c = 1" "uint g0 < 2 ^ 44" "uint g1 < 2 ^ 44"
    "(if uint c = 1 then uint g0 + 2 ^ 44 * uint g1 + 2 ^ 88 * uint g2 else uint h0 + 2 ^ 44 * uint h1 + 2 ^ 88 * uint h2) =
     (uint h0 + 2 ^ 44 * uint h1 + 2 ^ 88 * uint h2) mod poly_p"
proof -
  note f = poly64_subtract [OF uint_ge_0 h(1) uint_ge_0 h(2) uint_ge_0 h(3) refl refl refl refl refl refl]
  have e0: "uint e0 = uint h0 + 5" unfolding e0_def using h(1) by (subst uint_add_no) simp_all
  have e1: "uint e1 = (uint h0 + 5) div 2 ^ 44 + uint h1"
    unfolding e1_def using h(2) f(2) by (subst uint_add_no) (simp_all add: uint_drop_bit_div e0)
  have e2: "uint e2 = ((uint h0 + 5) div 2 ^ 44 + uint h1) div 2 ^ 44 + uint h2"
    unfolding e2_def using h(3) f(4) by (subst uint_add_no) (simp_all add: uint_drop_bit_div e1)
  have c: "uint c = (((uint h0 + 5) div 2 ^ 44 + uint h1) div 2 ^ 44 + uint h2) div 2 ^ 42"
    unfolding c_def uint_drop_bit_div e2 ..
  show "uint c = 0 \<or> uint c = 1" unfolding c by (rule f(5))
  show "uint g0 < 2 ^ 44" "uint g1 < 2 ^ 44" unfolding g0_def g1_def uint_and44 by (rule mod_less_pow)+
  show "(if uint c = 1 then uint g0 + 2 ^ 44 * uint g1 + 2 ^ 88 * uint g2 else uint h0 + 2 ^ 44 * uint h1 + 2 ^ 88 * uint h2) =
     (uint h0 + 2 ^ 44 * uint h1 + 2 ^ 88 * uint h2) mod poly_p"
    unfolding c g0_def g1_def g2_def uint_and44 uint_and42 e0 e1 e2 by (rule f(6))
qed

lemma poly64_finish_rel:
  assumes "poly64_rel r s a st"
  shows "length (poly64_finish st) = 16 \<and> le_val (poly64_finish st) = (a mod poly_p + s) mod 2 ^ 128"
proof -
  obtain h0 h1 h2 where ph: "p64_h st = (h0, h1, h2)" by (metis prod_cases3)
  obtain pad0 pad1 where pp: "p64_pad st = (pad0, pad1)" by fastforce
  have h: "uint h0 < 2 ^ 44" "uint h1 < 2 ^ 44 + 2 ^ 9" "uint h2 < 2 ^ 42"
    and v: "(uint h0 + 2 ^ 44 * uint h1 + 2 ^ 88 * uint h2) mod poly_p = a mod poly_p"
    and s: "s = uint pad0 + 2 ^ 64 * uint pad1"
    using assms by (simp_all add: poly64_rel_def poly64_h_ok_def poly64_h_val_def ph pp)
  define c1 where "c1 = drop_bit 44 h1"
  define c2 where "c2 = drop_bit 42 (h2 + c1)"
  define k2 where "k2 = (h2 + c1) AND 0x3FFFFFFFFFF"
  define c3 where "c3 = drop_bit 44 (h0 + c2 * 5)"
  define k0 where "k0 = (h0 + c2 * 5) AND 0xFFFFFFFFFFF"
  define k1 where "k1 = (h1 AND 0xFFFFFFFFFFF) + c3"
  note ks = k0_def k1_def k2_def c1_def c2_def c3_def
  note K = poly64_final_words [OF h, folded c1_def, folded c2_def k2_def, folded c3_def k0_def, folded k1_def]
  define e0 where "e0 = k0 + 5"
  define e1 where "e1 = drop_bit 44 e0 + k1"
  define e2 where "e2 = drop_bit 44 e1 + k2"
  define g0 where "g0 = e0 AND 0xFFFFFFFFFFF"
  define g1 where "g1 = e1 AND 0xFFFFFFFFFFF"
  define g2 where "g2 = e2 AND 0x3FFFFFFFFFF"
  define c where "c = drop_bit 42 e2"
  note G = poly64_subtract_words [OF K(1-3), folded e0_def, folded e1_def, folded e2_def, folded g0_def g1_def g2_def c_def]
  define f0 f1 f2 where "f0 = (if uint c = 1 then g0 else k0)" and "f1 = (if uint c = 1 then g1 else k1)"
    and "f2 = (if uint c = 1 then g2 else k2)"
  define w :: u128 where "w = (ucast f0 OR push_bit 44 (ucast f1) OR push_bit 88 (ucast f2)) + (ucast pad0 OR push_bit 64 (ucast pad1))"
  have "poly64_finish st = store_le64 (ucast w) @ store_le64 (ucast (drop_bit 64 w))"
    unfolding poly64_finish_def ph pp Let_def prod.case
    unfolding c1_def [symmetric] unfolding c2_def [symmetric] k2_def [symmetric] unfolding c3_def [symmetric] k0_def [symmetric]
    unfolding k1_def [symmetric] unfolding e0_def [symmetric] unfolding e1_def [symmetric] unfolding e2_def [symmetric]
    unfolding g0_def [symmetric] g1_def [symmetric] g2_def [symmetric] c_def [symmetric]
    unfolding flag_select [OF G(1)] w_def f0_def f1_def f2_def ..
  moreover have "uint w = (a mod poly_p + s) mod 2 ^ 128"
  proof -
    have f: "uint f0 < 2 ^ 44" "uint f1 < 2 ^ 44" using K(1,2) G(2,3) by (simp_all add: f0_def f1_def)
    have "uint f0 + 2 ^ 44 * uint f1 + 2 ^ 88 * uint f2 = a mod poly_p"
      using G(4) K(4) v unfolding f0_def f1_def f2_def by (cases "uint c = 1") (simp_all only: if_True if_False simp_thms)
    then have "uint (ucast f0 OR push_bit 44 (ucast f1) OR push_bit 88 (ucast f2) :: u128) = (a mod poly_p) mod 2 ^ 128"
      unfolding uint_join3 [OF f] by (simp only:)
    then show ?thesis unfolding w_def uint_word_ariths uint_join2 s by (simp only: mod_add_left_eq word_size len_num1) (simp add: mod_simps)
  qed
  ultimately show ?thesis by (simp only: le_val_store128) simp
qed

interpretation poly64: poly_state poly64_init poly64_block poly64_finish poly64_rel
  by unfold_locales (rule poly64_init_rel, assumption, rule poly64_block_rel, assumption+, rule poly64_finish_rel)

section \<open>The message authentication code\<close>

text \<open>C32: for every key of at least 32 bytes and every message, \<open>poly1305_mac\<close> - 44-bit limbs, lazy carries and 128-bit
  products - returns 16 bytes that spell, in little-endian order, the Poly1305 polynomial of the message: the blocks
  with their one byte, evaluated at the clamped key modulo \<open>2^130 - 5\<close>, plus the second key half modulo \<open>2^128\<close>.
\<close>

theorem poly1305_mac_correct:
  assumes "32 \<le> length key"
  shows "length (poly1305_mac key m) = 16 \<and> le_val (poly1305_mac key m) = poly_eval key (chunks16 m)"
  unfolding poly1305_mac_def by (rule poly64.mac_correct [OF assms])

theorem poly1305_mac_correct_witness:
  "le_val (poly1305_mac
     [0x85, 0xd6, 0xbe, 0x78, 0x57, 0x55, 0x6d, 0x33, 0x7f, 0x44, 0x52, 0xfe, 0x42, 0xd5, 0x06, 0xa8,
      0x01, 0x03, 0x80, 0x8a, 0xfb, 0x0d, 0xb2, 0xfd, 0x4a, 0xbf, 0xf6, 0xaf, 0x41, 0x49, 0xf5, 0x1b]
     [67, 114, 121, 112, 116, 111, 103, 114, 97, 112, 104, 105, 99, 32, 70, 111, 114, 117, 109, 32,
      82, 101, 115, 101, 97, 114, 99, 104, 32, 71, 114, 111, 117, 112]) = 0xa927010caf8b2bc2c6365130c11d06a8"
  (is "le_val (poly1305_mac ?k ?m) = _")
proof -
  have "le_val (poly1305_mac ?k ?m) = poly_eval ?k (chunks16 ?m)"
    using poly1305_mac_correct [of ?k ?m] by simp
  also have "\<dots> = 0xa927010caf8b2bc2c6365130c11d06a8"
    by (simp add: poly_eval_def poly_clamp_def poly_add_def poly_p_def chunks16.simps)
  finally show ?thesis .
qed

end
