(* ===== verification/Aead.thy ===== *)
theory Aead
  imports ChaCha20 Poly1305
begin

text \<open>
  The AEAD part of chacha20_poly1305.cpp: the tag comparison, encryption and decryption with their
  output buffers. The tag is the Poly1305 polynomial of the padded data under the one-time key of
  block 0; decryption accepts exactly that tag, and on refusal hands out zeros only. The locale
  \<open>sealing\<close> is what a caller may rely on.
\<close>

section \<open>The operations\<close>

definition poly1305_verify :: "bytes \<Rightarrow> bytes \<Rightarrow> bool" where
  "poly1305_verify a b = (fold (\<lambda>i diff. diff OR (a ! i XOR b ! i)) [0..<16] (0 :: byte) = 0)"

definition aead_poly1305_pad_and_mac :: "poly64 \<Rightarrow> bytes \<Rightarrow> bytes \<Rightarrow> poly64" where
  "aead_poly1305_pad_and_mac = pad_and_mac poly64_block"

text \<open>
  \<open>out\<close> is the caller's buffer; the operations write its first bytes. The sources skip the copy into
  \<open>out\<close> when it is the input buffer itself: then the copy would change nothing.
\<close>

definition aead_chacha20_poly1305_encrypt ::
  "bytes \<Rightarrow> bytes \<Rightarrow> bytes \<Rightarrow> bytes \<Rightarrow> bytes \<Rightarrow> bytes \<times> bytes" where
  "aead_chacha20_poly1305_encrypt key nonce aad plaintext out =
     (let poly_key = chacha20_block key nonce 0;
          n = length plaintext;
          out = (if n > 0 then
                   (let out = memcpy_at out 0 plaintext
                    in memcpy_at out 0 (chacha20_crypt key nonce 1 (take n out)))
                 else out);
          st = poly64_init poly_key;
          st = aead_poly1305_pad_and_mac st aad (take n out)
      in (out, poly64_finish st))"

definition aead_chacha20_poly1305_decrypt ::
  "bytes \<Rightarrow> bytes \<Rightarrow> bytes \<Rightarrow> bytes \<Rightarrow> bytes \<Rightarrow> bytes \<Rightarrow> bool \<times> bytes" where
  "aead_chacha20_poly1305_decrypt key nonce aad ciphertext tag out =
     (let poly_key = chacha20_block key nonce 0;
          n = length ciphertext;
          st = poly64_init poly_key;
          st = aead_poly1305_pad_and_mac st aad ciphertext;
          computed_tag = poly64_finish st
      in if \<not> poly1305_verify computed_tag tag then
           (False, if n > 0 then memset_at out 0 0 n else out)
         else
           (True, if n > 0 then
                    (let out = memcpy_at out 0 ciphertext
                     in memcpy_at out 0 (chacha20_crypt key nonce 1 (take n out)))
                  else out))"

section \<open>The tag\<close>

definition aead_blocks :: "bytes \<Rightarrow> bytes \<Rightarrow> bytes list" where
  "aead_blocks aad ct = chunks16 (zero_pad16 aad) @ chunks16 (zero_pad16 ct) @
     [store_le64 (of_nat (length aad)) @ store_le64 (of_nat (length ct))]"

definition aead_tag :: "bytes \<Rightarrow> bytes \<Rightarrow> bytes \<Rightarrow> bytes \<Rightarrow> bytes" where
  "aead_tag key nonce aad ct = poly64_finish (aead_poly1305_pad_and_mac (poly64_init (chacha20_block key nonce 0)) aad ct)"

lemma length_chacha20_block [simp]: "length (chacha20_block key nonce c) = 64"
  by (simp add: chacha20_block_def)

lemma aead_tag_eval:
  "length (aead_tag key nonce aad ct) = 16"
  "le_val (aead_tag key nonce aad ct) = poly_eval (chacha20_block key nonce 0) (aead_blocks aad ct)"
  using poly64.pad_and_mac_correct [of "chacha20_block key nonce 0" aad ct]
  by (simp_all only: aead_tag_def aead_poly1305_pad_and_mac_def aead_blocks_def) simp_all

lemma fold_or_zero:
  "fold (\<lambda>i diff. diff OR f i) is (d :: byte) = 0 \<longleftrightarrow> d = 0 \<and> (\<forall>i \<in> set is. f i = 0)"
  by (induction "is" arbitrary: d) (auto simp: or_eq_0_iff)

lemma xor_zero_iff: "(a :: 'a :: len word) XOR b = 0 \<longleftrightarrow> a = b"
  by (metis xor.assoc xor.right_neutral xor_self_eq)

lemma poly1305_verify_iff:
  assumes "length a = 16" "length b = 16"
  shows "poly1305_verify a b \<longleftrightarrow> a = b"
  using assms by (auto simp: poly1305_verify_def fold_or_zero xor_zero_iff intro: nth_equalityI)

section \<open>What encryption and decryption return\<close>

lemma crypt_into:
  "(if 0 < length data then (let out = memcpy_at out 0 data
      in memcpy_at out 0 (chacha20_crypt key nonce c (take (length data) out))) else out)
    = chacha20_crypt key nonce c data @ drop (length data) out"
  by (simp add: memcpy_at_def)

lemma encrypt_result:
  "aead_chacha20_poly1305_encrypt key nonce aad p out =
    (let ct = chacha20_crypt key nonce 1 p in (ct @ drop (length p) out, aead_tag key nonce aad ct))"
  unfolding aead_chacha20_poly1305_encrypt_def unfolding Let_def [of "length p"] unfolding crypt_into
  by (simp add: Let_def aead_tag_def)

lemma decrypt_result:
  assumes "length tag = 16"
  shows "aead_chacha20_poly1305_decrypt key nonce aad ct tag out =
    (if tag = aead_tag key nonce aad ct then (True, chacha20_crypt key nonce 1 ct @ drop (length ct) out)
     else (False, replicate (length ct) 0 @ drop (length ct) out))"
  unfolding aead_chacha20_poly1305_decrypt_def unfolding Let_def [of "length ct"] unfolding crypt_into
  using poly1305_verify_iff [OF aead_tag_eval(1) assms, of key nonce aad ct]
  by (auto simp: Let_def aead_tag_def memset_at_def memcpy_at_def)

section \<open>What a caller may rely on\<close>

definition aead_seal :: "bytes \<Rightarrow> bytes \<Rightarrow> bytes \<Rightarrow> bytes \<Rightarrow> bytes \<times> bytes" where
  "aead_seal key nonce aad p = aead_chacha20_poly1305_encrypt key nonce aad p (replicate (length p) 0)"

definition aead_unseal :: "bytes \<Rightarrow> bytes \<Rightarrow> bytes \<Rightarrow> bytes \<Rightarrow> bytes \<Rightarrow> bytes option" where
  "aead_unseal key nonce aad ct tag =
     (case aead_chacha20_poly1305_decrypt key nonce aad ct tag (replicate (length ct) 0) of
        (ok, out) \<Rightarrow> if ok then Some out else None)"

locale sealing =
  fixes seal :: "bytes \<Rightarrow> bytes \<Rightarrow> bytes \<Rightarrow> bytes \<Rightarrow> bytes \<times> bytes"
    and unseal :: "bytes \<Rightarrow> bytes \<Rightarrow> bytes \<Rightarrow> bytes \<Rightarrow> bytes \<Rightarrow> bytes option"
  assumes seal_shape: "seal k n a p = (c, t) \<Longrightarrow> length c = length p \<and> length t = 16"
    and unseal_seal: "seal k n a p = (c, t) \<Longrightarrow> unseal k n a c t = Some p"
    and unseal_genuine: "length t = 16 \<Longrightarrow> unseal k n a c t = Some p \<Longrightarrow> seal k n a p = (c, t)"
begin

lemma unseal_iff: "length t = 16 \<Longrightarrow> unseal k n a c t = Some p \<longleftrightarrow> seal k n a p = (c, t)"
  using unseal_seal unseal_genuine by blast

lemma unseal_length: "length t = 16 \<Longrightarrow> unseal k n a c t = Some p \<Longrightarrow> length p = length c"
  using unseal_genuine seal_shape by metis

lemma seal_inj: "seal k n a p = seal k n a q \<Longrightarrow> p = q"
  using unseal_seal by (metis option.inject surj_pair)

lemma wrong_tag: "seal k n a p = (c, t) \<Longrightarrow> length t' = 16 \<Longrightarrow> unseal k n a c t' = Some q \<Longrightarrow> unseal k n a c t = Some q \<Longrightarrow> t' = t"
  using unseal_genuine seal_shape by (metis prod.inject)

end

lemma aead_seal_result:
  "aead_seal key nonce aad p = (chacha20_crypt key nonce 1 p, aead_tag key nonce aad (chacha20_crypt key nonce 1 p))"
  by (simp add: aead_seal_def encrypt_result Let_def)

lemma aead_unseal_result:
  "length tag = 16 \<Longrightarrow> aead_unseal key nonce aad ct tag =
     (if tag = aead_tag key nonce aad ct then Some (chacha20_crypt key nonce 1 ct) else None)"
  by (simp add: aead_unseal_def decrypt_result)

interpretation aead: sealing aead_seal aead_unseal
  by unfold_locales (auto simp: aead_seal_result aead_unseal_result aead_tag_eval(1) split: if_splits)

text \<open>The buffers only carry the result: the operations are \<open>aead_seal\<close> and \<open>aead_unseal\<close> on their first bytes.\<close>

lemma encrypt_seal:
  "aead_chacha20_poly1305_encrypt key nonce aad p out =
     (let (ct, tag) = aead_seal key nonce aad p in (ct @ drop (length p) out, tag))"
  by (simp add: encrypt_result aead_seal_result Let_def)

lemma decrypt_unseal:
  "length tag = 16 \<Longrightarrow> aead_chacha20_poly1305_decrypt key nonce aad ct tag out =
     (case aead_unseal key nonce aad ct tag of
        Some p \<Rightarrow> (True, p @ drop (length ct) out)
      | None \<Rightarrow> (False, replicate (length ct) 0 @ drop (length ct) out))"
  by (simp add: decrypt_result aead_unseal_result)

section \<open>Properties\<close>

text \<open>C33: encryption overwrites the front of its output buffer with the plaintext combined with the key stream
  from block 1, leaves the rest alone, and returns 16 bytes that are, in little-endian order, the Poly1305
  polynomial of the zero-padded associated data, the zero-padded ciphertext and their lengths under the
  one-time key of block 0. The model runs the block-by-block accumulator; the right-hand side is RFC 8439.
\<close>

theorem aead_encrypt_correct:
  "\<exists>ct tag. aead_chacha20_poly1305_encrypt key nonce aad p out = (ct @ drop (length p) out, tag) \<and>
     ct = map (\<lambda>i. p ! i XOR chacha_keystream key nonce 1 i) [0..<length p] \<and> length tag = 16 \<and>
     le_val tag = poly_eval (chacha20_block key nonce 0) (aead_blocks aad ct)"
proof -
  have "chacha20_crypt key nonce 1 p = map (\<lambda>i. p ! i XOR chacha_keystream key nonce 1 i) [0..<length p]"
    by (rule nth_equalityI) (simp_all add: nth_chacha20_crypt)
  then show ?thesis by (simp add: encrypt_result Let_def aead_tag_eval)
qed

text \<open>C31: decryption accepts a 16-byte tag exactly when it is the tag of the ciphertext - which is the tag
  encryption returns for the message it then hands out - and on every other tag it returns failure with the
  whole message area of the output buffer set to zero: no unauthenticated plaintext leaves it.
\<close>

theorem aead_decrypt_genuine:
  assumes "length tag = 16"
  shows "case aead_chacha20_poly1305_decrypt key nonce aad ct tag out of
      (True, res) \<Rightarrow> (\<exists>p. length p = length ct \<and> res = p @ drop (length ct) out \<and>
        aead_chacha20_poly1305_encrypt key nonce aad p out = (ct @ drop (length ct) out, tag))
    | (False, res) \<Rightarrow> res = replicate (length ct) 0 @ drop (length ct) out \<and>
        (\<forall>p. length p = length ct \<longrightarrow>
          aead_chacha20_poly1305_encrypt key nonce aad p out \<noteq> (ct @ drop (length ct) out, tag))"
proof (cases "aead_unseal key nonce aad ct tag")
  case None
  have "aead_seal key nonce aad p \<noteq> (ct, tag)" for p using None aead.unseal_seal by fastforce
  then show ?thesis using None by (auto simp: decrypt_unseal [OF assms] encrypt_seal split: prod.splits)
next
  case (Some p)
  then have "aead_seal key nonce aad p = (ct, tag)" "length p = length ct"
    using aead.unseal_genuine [OF assms] aead.unseal_length [OF assms] by blast+
  then show ?thesis using Some by (auto simp: decrypt_unseal [OF assms] encrypt_seal)
qed

theorem aead_decrypt_genuine_witness:
  "case aead_chacha20_poly1305_decrypt (replicate 32 1) (replicate 12 2) [3] [4, 5] (replicate 16 6) [7, 8, 9] of
      (True, res) \<Rightarrow> (\<exists>p. length p = 2 \<and> res = p @ [9] \<and>
        aead_chacha20_poly1305_encrypt (replicate 32 1) (replicate 12 2) [3] p [7, 8, 9] = ([4, 5, 9], replicate 16 6))
    | (False, res) \<Rightarrow> res = [0, 0, 9] \<and>
        (\<forall>p. length p = 2 \<longrightarrow>
          aead_chacha20_poly1305_encrypt (replicate 32 1) (replicate 12 2) [3] p [7, 8, 9] \<noteq> ([4, 5, 9], replicate 16 6))"
  using aead_decrypt_genuine [where tag = "replicate 16 6" and key = "replicate 32 1" and nonce = "replicate 12 2"
      and aad = "[3]" and ct = "[4, 5]" and out = "[7, 8, 9]"]
  by (simp add: numeral_2_eq_2 split: prod.splits bool.splits)

text \<open>C34: decryption undoes encryption, whatever the two buffers hold and however long the message is.\<close>

theorem aead_roundtrip:
  "let (ct, tag) = aead_chacha20_poly1305_encrypt key nonce aad p out
   in aead_chacha20_poly1305_decrypt key nonce aad (take (length p) ct) tag out' = (True, p @ drop (length p) out')"
proof -
  obtain ct tag where s: "aead_seal key nonce aad p = (ct, tag)" by fastforce
  then have "length ct = length p" "length tag = 16" "aead_unseal key nonce aad ct tag = Some p"
    using aead.seal_shape aead.unseal_seal by blast+
  then show ?thesis by (simp add: encrypt_seal s decrypt_unseal)
qed

end
