(* ===== verification/Bip324.thy ===== *)
theory Bip324
  imports Aead Hmac Scalar
begin

text \<open>
  bip324.cpp: the packet cipher of one direction (\<open>Bip324Cipher\<close>) with its packet counter, and the session
  (\<open>Bip324Session\<close>) with its handshake. ElligatorSwift (\<open>ellswift_create\<close>, \<open>ellswift_xdh\<close> in ellswift.cpp) works
  on curve points and enters as two function arguments. The locale \<open>packet_channel\<close> is what a
  sender and a receiver owe each other; a session and its peer satisfy it.
\<close>

unbundle bit_operations_syntax

section \<open>The packet cipher\<close>

record bip324_cipher =
  bc_key :: bytes
  bc_counter :: u64

definition bip324_cipher_new :: bip324_cipher where
  "bip324_cipher_new = \<lparr>bc_key = replicate 32 0, bc_counter = 0\<rparr>"

definition bip324_cipher_init :: "bip324_cipher \<Rightarrow> bytes \<Rightarrow> bip324_cipher" where
  "bip324_cipher_init c key = c\<lparr>bc_key := memcpy_at (bc_key c) 0 (take 32 key), bc_counter := 0\<rparr>"

text \<open>The buffer's old content is arbitrary in C++; all twelve bytes are overwritten.\<close>

definition build_nonce :: "bip324_cipher \<Rightarrow> bytes" where
  "build_nonce c =
     fold (\<lambda>i nonce. nonce[4 + i := ucast (drop_bit (i * 8) (bc_counter c))]) [0..<8] (memset_at (replicate 12 0) 0 0 4)"

text \<open>\<open>size_t\<close> is 64 bits wide. The result is the new cipher and the returned vector, empty on refusal.\<close>

definition SIZE_MAX :: nat where "SIZE_MAX = 2 ^ 64 - 1"

definition bip324_cipher_encrypt :: "bip324_cipher \<Rightarrow> bytes \<Rightarrow> bytes \<Rightarrow> bip324_cipher \<times> bytes" where
  "bip324_cipher_encrypt c aad plaintext =
     (if length plaintext > 0xFFFFFF then (c, [])
      else if length plaintext > SIZE_MAX - 19 then (c, [])
      else
        (let plaintext_len = of_nat (length plaintext) :: u64;
             ct_len = 3 + length plaintext;
             output = replicate (ct_len + 16) 0;
             output = output[0 := ucast (plaintext_len AND 0xFF)];
             output = output[1 := ucast (drop_bit 8 plaintext_len AND 0xFF)];
             output = output[2 := ucast (drop_bit 16 plaintext_len AND 0xFF)];
             output = (if length plaintext > 0 then memcpy_at output 3 plaintext else output);
             nonce = build_nonce c;
             (output, tag) = aead_chacha20_poly1305_encrypt (bc_key c) nonce aad (take ct_len output) output;
             output = memcpy_at output ct_len tag
         in (c\<lparr>bc_counter := bc_counter c + 1\<rparr>, output)))"

text \<open>The result is the new cipher, the flag and \<open>plaintext_out\<close>.\<close>

definition bip324_cipher_decrypt ::
  "bip324_cipher \<Rightarrow> bytes \<Rightarrow> bytes \<Rightarrow> bytes \<Rightarrow> bip324_cipher \<times> bool \<times> bytes" where
  "bip324_cipher_decrypt c aad header_enc contents =
     (if length contents < 16 then (c, False, [])
      else
        (let ct_len = 3 + (length contents - 16);
             buf = replicate ct_len 0;
             buf = memcpy_at buf 0 (take 3 header_enc);
             buf = (if length contents > 16 then memcpy_at buf 3 (take (length contents - 16) contents) else buf);
             tag = drop (length contents - 16) contents;
             nonce = build_nonce c;
             (ok, buf) = aead_chacha20_poly1305_decrypt (bc_key c) nonce aad buf tag buf
         in if \<not> ok then (c, False, [])
            else
              (let payload_len = (ucast (buf ! 0) :: u32) OR push_bit 8 (ucast (buf ! 1)) OR push_bit 16 (ucast (buf ! 2))
               in if unat payload_len > ct_len - 3 then (c, False, [])
                  else (c\<lparr>bc_counter := bc_counter c + 1\<rparr>, True, take (unat payload_len) (drop 3 buf)))))"

section \<open>The session\<close>

record bip324_session =
  bs_initiator :: bool
  bs_established :: bool
  bs_privkey_valid :: bool
  bs_privkey :: scalar
  bs_our_encoding :: bytes
  bs_peer_encoding :: bytes
  bs_session_id :: bytes
  bs_send :: bip324_cipher
  bs_recv :: bip324_cipher

definition bip324_session_blank :: "bool \<Rightarrow> bip324_session" where
  "bip324_session_blank initiator =
     \<lparr>bs_initiator = initiator, bs_established = False, bs_privkey_valid = False, bs_privkey = scalar_zero,
      bs_our_encoding = replicate 64 0, bs_peer_encoding = replicate 64 0, bs_session_id = replicate 32 0,
      bs_send = bip324_cipher_new, bs_recv = bip324_cipher_new\<rparr>"

text \<open>
  The constructor from a given key. \<open>create rand32 sk\<close> is \<open>ellswift_create(sk, rand32)\<close>; the call
  \<open>ellswift_create(sk)\<close> of the constructor draws \<open>rand32\<close> from \<open>csprng_fill\<close> first, here an argument, so that
  two sessions with one key may have different encodings. A call that runs out of attempts throws and has no session.
\<close>

definition bip324_session_from_key :: "(bytes \<Rightarrow> scalar \<Rightarrow> bytes) \<Rightarrow> bool \<Rightarrow> bytes \<Rightarrow> bytes \<Rightarrow> bip324_session" where
  "bip324_session_from_key create initiator privkey rand32 =
     (let s = bip324_session_blank initiator;
          (ok, sk) = parse_bytes_strict_nonzero privkey scalar_zero
      in if \<not> ok then s\<lparr>bs_our_encoding := replicate 64 0\<rparr>
         else s\<lparr>bs_our_encoding := create rand32 sk, bs_privkey := sk, bs_privkey_valid := True\<rparr>)"

text \<open>
  The constructor that draws its key: \<open>rng i\<close> is the \<open>i\<close>-th block of 32 bytes of \<open>csprng_fill\<close>. The loop
  ends when a block is a valid key; it need not end for every generator. The encoding draws the block after it.
\<close>

partial_function (option) bip324_draw_key :: "(nat \<Rightarrow> bytes) \<Rightarrow> nat \<Rightarrow> (scalar \<times> nat) option" where
  "bip324_draw_key rng i =
     (let (ok, sk) = parse_bytes_strict_nonzero (rng i) scalar_zero
      in if ok then Some (sk, Suc i) else bip324_draw_key rng (Suc i))"

definition bip324_session_random :: "(bytes \<Rightarrow> scalar \<Rightarrow> bytes) \<Rightarrow> bool \<Rightarrow> (nat \<Rightarrow> bytes) \<Rightarrow> bip324_session option" where
  "bip324_session_random create initiator rng =
     (case bip324_draw_key rng 0 of
        None \<Rightarrow> None
      | Some (sk, n) \<Rightarrow> Some ((bip324_session_blank initiator)
          \<lparr>bs_our_encoding := create (rng n) sk, bs_privkey := sk, bs_privkey_valid := True\<rparr>))"

definition ascii :: "string \<Rightarrow> bytes" where
  "ascii s = map (\<lambda>c. of_char c) s"

definition all_zero_acc :: "bytes \<Rightarrow> bool" where
  "all_zero_acc xs = (fold (\<lambda>b acc. acc OR b) xs (0 :: byte) = 0)"

text \<open>\<open>xdh\<close> is \<open>ellswift_xdh(ell_a, ell_b, sk, initiator)\<close>; \<open>secure_erase\<close> writes zeros.\<close>

definition bip324_complete_handshake ::
  "(bytes \<Rightarrow> bytes \<Rightarrow> scalar \<Rightarrow> bool \<Rightarrow> bytes) \<Rightarrow> bip324_session \<Rightarrow> bytes \<Rightarrow> bip324_session \<times> bool" where
  "bip324_complete_handshake xdh s peer_encoding =
     (if bs_established s then (s, False)
      else if \<not> bs_privkey_valid s then (s, False)
      else
        (let s = s\<lparr>bs_peer_encoding := memcpy_at (bs_peer_encoding s) 0 (take 64 peer_encoding)\<rparr>;
             sk = bs_privkey s;
             s = s\<lparr>bs_privkey := scalar_zero\<rparr>;
             s = s\<lparr>bs_privkey_valid := False\<rparr>;
             ell_a = (if bs_initiator s then bs_our_encoding s else bs_peer_encoding s);
             ell_b = (if bs_initiator s then bs_peer_encoding s else bs_our_encoding s);
             shared_secret = xdh ell_a ell_b sk (bs_initiator s)
         in if all_zero_acc shared_secret then (s, False)
            else
              (let prk = hkdf_sha256_extract (Some (ascii ''bitcoin_v2_shared_secret'')) shared_secret;
                   initiator_key = snd (hkdf_sha256_expand prk (ascii ''initiator_L'') (replicate 32 0));
                   responder_key = snd (hkdf_sha256_expand prk (ascii ''responder_L'') (replicate 32 0));
                   s = s\<lparr>bs_session_id := snd (hkdf_sha256_expand prk (ascii ''session_id'') (bs_session_id s))\<rparr>;
                   s = (if bs_initiator s then
                          s\<lparr>bs_send := bip324_cipher_init (bs_send s) initiator_key,
                            bs_recv := bip324_cipher_init (bs_recv s) responder_key\<rparr>
                        else
                          s\<lparr>bs_send := bip324_cipher_init (bs_send s) responder_key,
                            bs_recv := bip324_cipher_init (bs_recv s) initiator_key\<rparr>)
               in (s\<lparr>bs_established := True\<rparr>, True))))"

definition bip324_session_encrypt :: "bip324_session \<Rightarrow> bytes \<Rightarrow> bip324_session \<times> bytes" where
  "bip324_session_encrypt s plaintext =
     (if \<not> bs_established s then (s, [])
      else (let (c, output) = bip324_cipher_encrypt (bs_send s) [] plaintext in (s\<lparr>bs_send := c\<rparr>, output)))"

definition bip324_session_decrypt :: "bip324_session \<Rightarrow> bytes \<Rightarrow> bytes \<Rightarrow> bip324_session \<times> bool \<times> bytes" where
  "bip324_session_decrypt s header payload_and_tag =
     (if \<not> bs_established s then (s, False, [])
      else (let (c, ok, plaintext_out) = bip324_cipher_decrypt (bs_recv s) [] header payload_and_tag
            in (s\<lparr>bs_recv := c\<rparr>, ok, plaintext_out)))"

definition bip324_xdh_hash :: "bytes \<Rightarrow> bytes \<Rightarrow> bytes \<Rightarrow> bytes" where
  "bip324_xdh_hash x32 ell_a ell_b =
     (let kTag = sha256_hash (ascii ''bip324_ellswift_xonly_ecdh'');
          h = sha256_init;
          h = sha256_update h kTag; h = sha256_update h kTag;
          h = sha256_update h ell_a; h = sha256_update h ell_b; h = sha256_update h x32
      in sha256_finalize h)"

section \<open>Packets\<close>

definition len3 :: "nat \<Rightarrow> bytes" where
  "len3 n = [of_nat n, of_nat (n div 256), of_nat (n div 65536)]"

lemma length_len3 [simp]: "length (len3 n) = 3"
  by (simp add: len3_def)

lemma memcpy_at_append: "length r = length t \<Longrightarrow> memcpy_at (a @ r) (length a) t = a @ t"
  by (simp add: memcpy_at_def)

lemma build_nonce_eq: "build_nonce c = replicate 4 0 @ store_le64 (bc_counter c)"
proof -
  have u: "[0..<8] = [0, 1, 2, 3, 4, 5, 6, 7]" by code_simp
  show ?thesis by (simp add: build_nonce_def u memset_at_def memcpy_at_def store_le64_def numeral_eq_Suc)
qed

lemma build_nonce_inj: "build_nonce c = build_nonce d \<Longrightarrow> bc_counter c = bc_counter d"
  by (metis build_nonce_eq load_store_le64 same_append_eq)

lemma ucast_of_nat_byte: "ucast (of_nat n :: u64) = (of_nat n :: byte)"
  by (rule bit_word_eqI) (auto simp: bit_simps)

lemma len3_bytes:
  fixes n :: nat
  defines "w \<equiv> of_nat n :: u64"
  assumes "n < 2 ^ 24"
  shows "[ucast (w AND 0xFF), ucast (drop_bit 8 w AND 0xFF), ucast (drop_bit 16 w AND 0xFF)] = len3 n"
proof -
  have m: "ucast (v AND 0xFF) = (ucast v :: byte)" for v :: u64
  proof -
    have "v AND 0xFF = take_bit 8 v" by (simp add: take_bit_eq_mask mask_eq_exp_minus_1)
    then show ?thesis by (simp only:, intro bit_word_eqI) (auto simp: bit_simps)
  qed
  have d: "drop_bit k w = of_nat (n div 2 ^ k)" for k
  proof -
    have "unat w = n" using assms(2) by (simp add: w_def unsigned_of_nat take_bit_nat_eq_self)
    then have "unat (drop_bit k w) = n div 2 ^ k" using assms(2) by (simp only: unsigned_drop_bit_eq) (simp add: drop_bit_eq_div take_bit_nat_eq_self)
    then show ?thesis by (metis of_nat_unat ucast_id)
  qed
  show ?thesis using d [of 8] d [of 16] by (simp add: m len3_def w_def ucast_of_nat_byte)
qed

definition len3_val :: "bytes \<Rightarrow> nat" where
  "len3_val buf = unat ((ucast (buf ! 0) :: u32) OR push_bit 8 (ucast (buf ! 1)) OR push_bit 16 (ucast (buf ! 2)))"

lemma uint_ucast_byte: "uint (ucast (b :: byte) :: u32) = uint b"
  by (rule bit_eqI) (auto simp: bit_simps bit_uint_iff dest: bit_imp_le_length)

lemma len3_val_len3: "n < 2 ^ 24 \<Longrightarrow> len3_val (len3 n @ p) = n"
proof -
  assume n: "n < 2 ^ 24"
  have "int (len3_val (len3 n @ p)) = uint (ucast (of_nat n :: byte) OR push_bit 8 (ucast (of_nat (n div 256) :: byte)) OR push_bit 16 (ucast (of_nat (n div 65536) :: byte)) :: u32)"
    by (simp add: len3_val_def len3_def)
  also have "\<dots> = push_bit 24 0 OR (push_bit 16 (uint (of_nat (n div 65536) :: byte)) OR
      (push_bit 8 (uint (of_nat (n div 256) :: byte)) OR uint (of_nat n :: byte)))"
    by (simp add: unsigned_or_eq uint_push_ucast uint_ucast_byte ac_simps)
  also have "\<dots> = uint (of_nat (n div 65536) :: byte) * 65536 + uint (of_nat (n div 256) :: byte) * 256 + uint (of_nat n :: byte)"
    by (subst int_or_bytes4) simp_all
  also have "\<dots> = int (n div 65536 mod 256) * 65536 + int (n div 256 mod 256) * 256 + int (n mod 256)"
    by (simp add: uint_nat unat_of_nat zmod_int)
  also have "\<dots> = int n"
  proof -
    define a b where "a = n div 256" and "b = a div 256"
    have d: "n div 65536 = b" by (simp add: a_def b_def flip: div_mult2_eq)
    have "b < 256" using n by (simp add: a_def b_def less_mult_imp_div_less)
    then have b: "b mod 256 = b" by simp
    have "256 * a + n mod 256 = n" "256 * b + a mod 256 = a" by (simp_all add: a_def b_def)
    then have "b * 65536 + a mod 256 * 256 + n mod 256 = n" by linarith
    then show ?thesis unfolding d b a_def [symmetric] by (metis (no_types) of_nat_add of_nat_mult of_nat_numeral)
  qed
  finally show ?thesis by simp
qed

text \<open>Encryption and decryption of a packet over the AEAD.\<close>

lemma cipher_encrypt_seal:
  "bip324_cipher_encrypt c aad p =
    (if 2 ^ 24 \<le> length p then (c, [])
     else (let (ct, tag) = aead_seal (bc_key c) (build_nonce c) aad (len3 (length p) @ p)
           in (c\<lparr>bc_counter := bc_counter c + 1\<rparr>, ct @ tag)))"
proof (cases "2 ^ 24 \<le> length p")
  case False
  obtain ct tag where s: "aead_seal (bc_key c) (build_nonce c) aad (len3 (length p) @ p) = (ct, tag)" by fastforce
  have l: "length ct = 3 + length p" "length tag = 16" using aead.seal_shape [OF s] by simp_all
  let ?w = "of_nat (length p) :: u64"
  have b: "(replicate (3 + length p + 16) 0)[0 := ucast (?w AND 0xFF), 1 := ucast (drop_bit 8 ?w AND 0xFF), 2 := ucast (drop_bit 16 ?w AND 0xFF)]
     = len3 (length p) @ replicate (length p + 16) (0 :: byte)"
  proof -
    have "replicate (3 + length p + 16) (0 :: byte) = [0, 0, 0] @ replicate (length p + 16) 0"
      by (simp only: add.assoc replicate_add) (simp add: numeral_3_eq_3)
    then show ?thesis using len3_bytes [of "length p"] False by (simp add: numeral_2_eq_2)
  qed
  have o: "(if length p > 0 then memcpy_at (len3 (length p) @ replicate (length p + 16) 0) 3 p else len3 (length p) @ replicate (length p + 16) 0)
      = len3 (length p) @ p @ replicate 16 0"
    by (simp add: memcpy_at_def)
  have e: "aead_chacha20_poly1305_encrypt (bc_key c) (build_nonce c) aad (len3 (length p) @ p) (len3 (length p) @ p @ replicate 16 0) =
     (ct @ replicate 16 0, tag)" using s by (simp add: encrypt_seal)
  have m: "memcpy_at (ct @ replicate 16 0) (3 + length p) tag = ct @ tag"
    unfolding l(1) [symmetric] by (rule memcpy_at_append) (simp add: l(2))
  have t: "take (3 + length p) (len3 (length p) @ p @ replicate 16 0) = len3 (length p) @ p" by simp
  have g: "\<not> length p > 0xFFFFFF" "\<not> length p > SIZE_MAX - 19" using False by (simp_all add: SIZE_MAX_def)
  show ?thesis using False
    unfolding bip324_cipher_encrypt_def Let_def b o t e s prod.case m by (simp only: g if_False)
qed (simp add: bip324_cipher_encrypt_def)

lemma cipher_decrypt_unseal:
  assumes "length h = 3" "16 \<le> length m"
  shows "bip324_cipher_decrypt c aad h m =
    (case aead_unseal (bc_key c) (build_nonce c) aad (h @ take (length m - 16) m) (drop (length m - 16) m) of
       None \<Rightarrow> (c, False, [])
     | Some buf \<Rightarrow> if len3_val buf > length m - 16 then (c, False, [])
         else (c\<lparr>bc_counter := bc_counter c + 1\<rparr>, True, take (len3_val buf) (drop 3 buf)))"
proof -
  let ?n = "length m - 16"
  have b: "(if length m > 16 then memcpy_at (memcpy_at (replicate (3 + ?n) 0) 0 (take 3 h)) 3 (take ?n m)
      else memcpy_at (replicate (3 + ?n) 0) 0 (take 3 h)) = h @ take ?n m"
    using assms by (simp add: memcpy_at_def)
  have t: "length (drop ?n m) = 16" using assms by simp
  show ?thesis using assms
    unfolding bip324_cipher_decrypt_def Let_def b
    by (auto simp: decrypt_unseal [OF t] len3_val_def Let_def split: option.split)
qed

lemma cipher_packet:
  assumes "length p < 2 ^ 24" "bip324_cipher_encrypt c aad p = (c', pkt)"
  shows "length pkt = length p + 19" "c' = c\<lparr>bc_counter := bc_counter c + 1\<rparr>"
    "bip324_cipher_decrypt c aad (take 3 pkt) (drop 3 pkt) = (c', True, p)"
proof -
  obtain ct tag where s: "aead_seal (bc_key c) (build_nonce c) aad (len3 (length p) @ p) = (ct, tag)" by fastforce
  have l: "length ct = 3 + length p" "length tag = 16" using aead.seal_shape [OF s] by simp_all
  have p: "pkt = ct @ tag" and c': "c' = c\<lparr>bc_counter := bc_counter c + 1\<rparr>"
    using assms s by (simp_all add: cipher_encrypt_seal)
  show "length pkt = length p + 19" "c' = c\<lparr>bc_counter := bc_counter c + 1\<rparr>" using p c' l by simp_all
  have "take 3 ct @ take (length p) (drop 3 ct) = ct" using l append_take_drop_id [of 3 ct] by simp
  then show "bip324_cipher_decrypt c aad (take 3 pkt) (drop 3 pkt) = (c', True, p)"
    using l aead.unseal_seal [OF s] len3_val_len3 [OF assms(1)] by (subst cipher_decrypt_unseal) (simp_all add: p c')
qed

lemma cipher_decrypt_refuse:
  "bip324_cipher_decrypt c aad h m = (c', False, v) \<Longrightarrow> c' = c \<and> v = []"
  by (simp add: bip324_cipher_decrypt_def Let_def split: if_splits prod.splits)

section \<open>The interface of a packet channel\<close>

text \<open>
  Sending a list of messages, and receiving a list of packets, with the state threaded through. A packet is split
  into its header of three bytes and the rest, as a caller of \<open>decrypt\<close> does.
\<close>

fun send_all :: "('s \<Rightarrow> bytes \<Rightarrow> 's \<times> bytes) \<Rightarrow> 's \<Rightarrow> bytes list \<Rightarrow> 's \<times> bytes list" where
  "send_all enc s [] = (s, [])"
| "send_all enc s (p # ps) = (let (s, pkt) = enc s p; (s, pkts) = send_all enc s ps in (s, pkt # pkts))"

fun recv_all :: "('s \<Rightarrow> bytes \<Rightarrow> bytes \<Rightarrow> 's \<times> bool \<times> bytes) \<Rightarrow> 's \<Rightarrow> bytes list \<Rightarrow> 's \<times> (bool \<times> bytes) list" where
  "recv_all dec r [] = (r, [])"
| "recv_all dec r (k # ks) =
     (let (r, v) = dec r (take 3 k) (drop 3 k); (r, vs) = recv_all dec r ks in (r, v # vs))"

locale packet_channel =
  fixes enc :: "'s \<Rightarrow> bytes \<Rightarrow> 's \<times> bytes" and dec :: "'s \<Rightarrow> bytes \<Rightarrow> bytes \<Rightarrow> 's \<times> bool \<times> bytes"
    and paired :: "'s \<Rightarrow> 's \<Rightarrow> bool" and fits :: "bytes \<Rightarrow> bool"
  assumes deliver: "paired s r \<Longrightarrow> fits p \<Longrightarrow> enc s p = (s', pkt) \<Longrightarrow>
      pkt \<noteq> [] \<and> (\<exists>r'. dec r (take 3 pkt) (drop 3 pkt) = (r', True, p) \<and> paired s' r')"
    and too_long: "\<not> fits p \<Longrightarrow> enc s p = (s, [])"
    and refused: "dec r h m = (r', False, v) \<Longrightarrow> r' = r \<and> v = []"
begin

lemma in_order:
  assumes "paired s r" "send_all enc s ps = (s', pkts)"
  shows "\<exists>r'. recv_all dec r (filter (\<lambda>k. k \<noteq> []) pkts) = (r', map (Pair True) (filter fits ps)) \<and> paired s' r'"
  using assms
proof (induction ps arbitrary: s r pkts)
  case (Cons p ps)
  obtain s1 pkt ks where s: "enc s p = (s1, pkt)" "send_all enc s1 ps = (s', ks)" "pkts = pkt # ks"
    using Cons.prems(2) by (auto split: prod.splits)
  show ?case
  proof (cases "fits p")
    case True
    then obtain r1 where r: "pkt \<noteq> []" "dec r (take 3 pkt) (drop 3 pkt) = (r1, True, p)" "paired s1 r1"
      using deliver [OF Cons.prems(1) _ s(1)] by blast
    show ?thesis using Cons.IH [OF r(3) s(2)] r True s(3) by auto
  next
    case False
    then have "s1 = s" "pkt = []" using too_long s(1) by force+
    then show ?thesis using Cons.IH [OF Cons.prems(1)] s False by auto
  qed
qed simp

text \<open>Packets that the receiver refuses, wherever they are inserted, change nothing.\<close>

lemma refused_skip: "dec r (take 3 k) (drop 3 k) = (r', False, v) \<Longrightarrow> recv_all dec r (k # ks) = (r'', vs) \<Longrightarrow>
    \<exists>vs'. recv_all dec r ks = (r'', vs') \<and> vs = (False, []) # vs'"
  using refused by (fastforce split: prod.splits)

end

text \<open>The cipher satisfies it, with any associated data both sides agree on.\<close>

interpretation cipher: packet_channel "\<lambda>c p. bip324_cipher_encrypt c aad p" "\<lambda>c. bip324_cipher_decrypt c aad"
  "(=)" "\<lambda>p. length p < 2 ^ 24"
proof (unfold_locales, goal_cases)
  case (1 s r p s' pkt)
  then show ?case using cipher_packet [of p s aad s' pkt] by auto
next
  case (2 p s)
  then show ?case by (simp add: cipher_encrypt_seal)
next
  case (3 r h m r' v)
  then show ?case by (rule cipher_decrypt_refuse)
qed

text \<open>A session satisfies it towards its peer.\<close>

definition bip324_peers :: "bip324_session \<Rightarrow> bip324_session \<Rightarrow> bool" where
  "bip324_peers s r \<longleftrightarrow> bs_established s \<and> bs_established r \<and> bs_send s = bs_recv r"

interpretation session: packet_channel bip324_session_encrypt bip324_session_decrypt bip324_peers
  "\<lambda>p. length p < 2 ^ 24"
proof (unfold_locales, goal_cases)
  case (1 s r p s' pkt)
  obtain c pk where c: "bip324_cipher_encrypt (bs_send s) [] p = (c, pk)" by fastforce
  note d = cipher.deliver [of "bs_send s" "bs_recv r" p "[]" c pk]
  from 1 c show ?case using d by (auto simp: bip324_peers_def bip324_session_encrypt_def bip324_session_decrypt_def)
next
  case (2 p s)
  then show ?case by (simp add: bip324_session_encrypt_def cipher.too_long)
next
  case (3 r h m r' v)
  then show ?case by (auto simp: bip324_session_decrypt_def dest: cipher.refused split: if_splits prod.splits)
qed

section \<open>Properties\<close>

text \<open>C37: a plaintext of \<open>2^24\<close> bytes or more is refused and the cipher unchanged; every other one gives a packet of 19
  more bytes that the same cipher state decrypts to it, both counters moving on by one. Of any packet, genuine or
  not, a decryption that succeeds returns a prefix, of the length stored in front, of contents sealed under this
  key, this counter and this associated data; a decryption that fails returns nothing and leaves the cipher as it was.
\<close>

theorem bip324_packets:
  assumes "length h = 3"
  shows "(case bip324_cipher_encrypt c aad p of (c', pkt) \<Rightarrow>
      if 2 ^ 24 \<le> length p then c' = c \<and> pkt = []
      else length pkt = length p + 19 \<and> c' = c\<lparr>bc_counter := bc_counter c + 1\<rparr> \<and>
        bip324_cipher_decrypt c aad (take 3 pkt) (drop 3 pkt) = (c', True, p)) \<and>
    (case bip324_cipher_decrypt c aad h m of (c', ok, v) \<Rightarrow>
      if ok then c' = c\<lparr>bc_counter := bc_counter c + 1\<rparr> \<and>
        (\<exists>ct tag buf. h @ m = ct @ tag \<and> length tag = 16 \<and> aead_seal (bc_key c) (build_nonce c) aad buf = (ct, tag) \<and>
          len3_val buf + 3 \<le> length buf \<and> v = take (len3_val buf) (drop 3 buf))
      else c' = c \<and> v = [])"
proof
  show "case bip324_cipher_encrypt c aad p of (c', pkt) \<Rightarrow>
      if 2 ^ 24 \<le> length p then c' = c \<and> pkt = []
      else length pkt = length p + 19 \<and> c' = c\<lparr>bc_counter := bc_counter c + 1\<rparr> \<and>
        bip324_cipher_decrypt c aad (take 3 pkt) (drop 3 pkt) = (c', True, p)"
  proof (cases "2 ^ 24 \<le> length p")
    case True
    then show ?thesis by (simp add: cipher_encrypt_seal)
  next
    case False
    obtain c' pkt where e: "bip324_cipher_encrypt c aad p = (c', pkt)" by fastforce
    then show ?thesis using cipher_packet [OF _ e] False by simp
  qed
next
  obtain c' ok v where d: "bip324_cipher_decrypt c aad h m = (c', ok, v)" by (metis prod_cases3)
  let ?ct = "h @ take (length m - 16) m" and ?tag = "drop (length m - 16) m"
  have "c' = c\<lparr>bc_counter := bc_counter c + 1\<rparr> \<and>
        (\<exists>ct tag buf. h @ m = ct @ tag \<and> length tag = 16 \<and> aead_seal (bc_key c) (build_nonce c) aad buf = (ct, tag) \<and>
          len3_val buf + 3 \<le> length buf \<and> v = take (len3_val buf) (drop 3 buf))" if k: ok
  proof -
    have m: "16 \<le> length m" using d k by (auto simp: bip324_cipher_decrypt_def split: if_splits)
    then obtain buf where b: "aead_unseal (bc_key c) (build_nonce c) aad ?ct ?tag = Some buf" "len3_val buf \<le> length m - 16"
      "c' = c\<lparr>bc_counter := bc_counter c + 1\<rparr>" "v = take (len3_val buf) (drop 3 buf)"
      using d k unfolding cipher_decrypt_unseal [OF assms m] by (auto split: option.splits if_splits)
    have t: "length ?tag = 16" using m by simp
    note u = aead.unseal_genuine [OF t b(1)] aead.unseal_length [OF t b(1)]
    show ?thesis using b u t assms m by (intro conjI exI [of _ ?ct] exI [of _ ?tag] exI [of _ buf]) simp_all
  qed
  then show "case bip324_cipher_decrypt c aad h m of (c', ok, v) \<Rightarrow>
      if ok then c' = c\<lparr>bc_counter := bc_counter c + 1\<rparr> \<and>
        (\<exists>ct tag buf. h @ m = ct @ tag \<and> length tag = 16 \<and> aead_seal (bc_key c) (build_nonce c) aad buf = (ct, tag) \<and>
          len3_val buf + 3 \<le> length buf \<and> v = take (len3_val buf) (drop 3 buf))
      else c' = c \<and> v = []"
    using cipher_decrypt_refuse [of c aad h m c' v] d by auto
qed

theorem bip324_packets_witness:
  "case bip324_cipher_encrypt bip324_cipher_new [5] [1, 2] of (c', pkt) \<Rightarrow>
     length pkt = 21 \<and> bip324_cipher_decrypt bip324_cipher_new [5] (take 3 pkt) (drop 3 pkt) = (c', True, [1, 2])"
  using bip324_packets [where h = "[0, 0, 0]" and c = bip324_cipher_new and aad = "[5]" and p = "[1, 2]"] by (auto split: prod.splits)

end
