(* ===== verification/Bip324_Session.thy ===== *)
theory Bip324_Session
  imports Bip324
begin

text \<open>
  The life of BIP-324 sessions: what the handshake computes, the well-formedness every operation keeps, the
  runs of one session under arbitrary calls with the nonces it seals with, and the network of two connected
  sessions with packets in flight and forged packets arriving.
\<close>

section \<open>Drawing the key\<close>

definition valid_key :: "bytes \<Rightarrow> bool" where
  "valid_key k \<longleftrightarrow> fst (parse_bytes_strict_nonzero k scalar_zero)"

abbreviation "key_of k \<equiv> snd (parse_bytes_strict_nonzero k scalar_zero)"

lemma draw_key_step:
  "bip324_draw_key rng i = (if valid_key (rng i) then Some (key_of (rng i), Suc i) else bip324_draw_key rng (Suc i))"
  by (subst bip324_draw_key.simps) (simp add: valid_key_def case_prod_beta)

lemma draw_key_first:
  "valid_key (rng n) \<Longrightarrow> i \<le> n \<Longrightarrow> (\<And>j. i \<le> j \<Longrightarrow> j < n \<Longrightarrow> \<not> valid_key (rng j)) \<Longrightarrow>
     bip324_draw_key rng i = Some (key_of (rng n), Suc n)"
proof (induction "n - i" arbitrary: i)
  case 0
  then show ?case by (simp add: draw_key_step)
next
  case (Suc k)
  then have "i < n" "\<not> valid_key (rng i)" by auto
  then show ?case using Suc.hyps(1) [of "Suc i"] Suc.hyps(2) Suc.prems by (subst draw_key_step) simp
qed

lemma draw_key_some:
  assumes "bip324_draw_key rng i = Some r"
  shows "i < snd r \<and> valid_key (rng (snd r - 1)) \<and> fst r = key_of (rng (snd r - 1))"
  using bip324_draw_key.raw_induct [where P = "\<lambda>rng i r. i < snd r \<and> valid_key (rng (snd r - 1)) \<and> fst r = key_of (rng (snd r - 1))", OF _ assms]
  by (fastforce simp: valid_key_def Let_def case_prod_beta split: if_splits)

section \<open>Well-formed sessions\<close>

definition cipher_wf :: "bip324_cipher \<Rightarrow> bool" where
  "cipher_wf c \<longleftrightarrow> length (bc_key c) = 32"

definition bip324_wf :: "bip324_session \<Rightarrow> bool" where
  "bip324_wf s \<longleftrightarrow> length (bs_our_encoding s) = 64 \<and> length (bs_peer_encoding s) = 64 \<and>
     length (bs_session_id s) = 32 \<and> cipher_wf (bs_send s) \<and> cipher_wf (bs_recv s) \<and>
     scalar_ok (bs_privkey s) \<and> (\<not> bs_privkey_valid s \<longrightarrow> bs_privkey s = scalar_zero) \<and>
     (bs_established s \<longrightarrow> \<not> bs_privkey_valid s)"

section \<open>What the handshake computes\<close>

definition bip324_prk :: "bytes \<Rightarrow> bytes" where
  "bip324_prk secret = hmac_spec (ascii ''bitcoin_v2_shared_secret'') secret"

definition bip324_key :: "string \<Rightarrow> bytes \<Rightarrow> bytes" where
  "bip324_key info secret = hmac_spec (bip324_prk secret) (ascii info @ [1])"

definition bip324_secret :: "(bytes \<Rightarrow> bytes \<Rightarrow> scalar \<Rightarrow> bool \<Rightarrow> bytes) \<Rightarrow> bip324_session \<Rightarrow> bytes \<Rightarrow> bytes" where
  "bip324_secret xdh s e =
     (if bs_initiator s then xdh (bs_our_encoding s) e (bs_privkey s) True else xdh e (bs_our_encoding s) (bs_privkey s) False)"

lemma all_zero_acc_iff: "all_zero_acc xs \<longleftrightarrow> (\<forall>b \<in> set xs. b = 0)"
  using fold_or_zero [of "\<lambda>b. b" xs 0] by (simp add: all_zero_acc_def)

lemma length_ascii [simp]: "length (ascii s) = length s"
  by (simp add: ascii_def)

lemma extract_prk: "hkdf_sha256_extract (Some (ascii ''bitcoin_v2_shared_secret'')) secret = bip324_prk secret"
  by (simp add: hkdf_sha256_extract_def hmac_sha256_spec bip324_prk_def)

lemma length_prk [simp]: "length (bip324_prk secret) = 32" "length (bip324_key info secret) = 32"
  by (simp_all add: bip324_prk_def bip324_key_def)

lemma expand_key: "length out = 32 \<Longrightarrow> hkdf_sha256_expand (bip324_prk secret) (ascii info) out = (True, bip324_key info secret)"
  by (simp add: hkdf_expand_32 bip324_key_def)

lemma cipher_init_wf: "cipher_wf c \<Longrightarrow> length key = 32 \<Longrightarrow> bip324_cipher_init c key = \<lparr>bc_key = key, bc_counter = 0\<rparr>"
  by (simp add: bip324_cipher_init_def cipher_wf_def memcpy_at_whole)

lemma handshake_result:
  assumes "bip324_wf s" "length e = 64"
  shows "bip324_complete_handshake xdh s e =
    (if bs_established s \<or> \<not> bs_privkey_valid s then (s, False)
     else let s' = s\<lparr>bs_peer_encoding := e, bs_privkey := scalar_zero, bs_privkey_valid := False\<rparr>;
              z = bip324_secret xdh s e;
              ci = \<lparr>bc_key = bip324_key ''initiator_L'' z, bc_counter = 0\<rparr>;
              cr = \<lparr>bc_key = bip324_key ''responder_L'' z, bc_counter = 0\<rparr>
          in if \<forall>b \<in> set z. b = 0 then (s', False)
             else (s'\<lparr>bs_session_id := bip324_key ''session_id'' z,
                     bs_send := if bs_initiator s then ci else cr,
                     bs_recv := if bs_initiator s then cr else ci,
                     bs_established := True\<rparr>, True))"
  using assms
  by (simp add: bip324_complete_handshake_def Let_def bip324_wf_def bip324_secret_def all_zero_acc_iff extract_prk expand_key
      cipher_init_wf memcpy_at_whole)

section \<open>Every operation keeps a session well formed\<close>

lemma session_wf_new:
  assumes "\<And>r sk. length (create r sk) = 64" "length k = 32"
  shows "bip324_wf (bip324_session_from_key create i k r)"
  using assms
  by (auto simp: bip324_session_from_key_def bip324_session_blank_def bip324_cipher_new_def bip324_wf_def cipher_wf_def Let_def
      parse_bytes_strict_nonzero_iff scalar_ok_def sval_load sval_small order_n_bounds split: prod.splits if_splits)

lemma session_wf_random:
  assumes "\<And>r sk. length (create r sk) = 64" "\<And>i. length (rng i) = 32" "bip324_session_random create i rng = Some s"
  shows "bip324_wf s"
proof -
  obtain sk n where d: "bip324_draw_key rng 0 = Some (sk, n)"
    and s: "s = (bip324_session_blank i)\<lparr>bs_our_encoding := create (rng n) sk, bs_privkey := sk, bs_privkey_valid := True\<rparr>"
    using assms(3) by (auto simp: bip324_session_random_def split: option.splits)
  have "valid_key (rng (n - 1))" "sk = key_of (rng (n - 1))" using draw_key_some [OF d] by simp_all
  then have "scalar_ok sk" using assms(2)
    by (auto simp: valid_key_def parse_bytes_strict_nonzero_iff scalar_ok_def sval_load split: if_splits)
  then show ?thesis using assms(1) by (simp add: s bip324_session_blank_def bip324_cipher_new_def bip324_wf_def cipher_wf_def)
qed

lemma cipher_key_const:
  "bip324_cipher_encrypt c aad p = (c', pkt) \<Longrightarrow> bc_key c' = bc_key c"
  "bip324_cipher_decrypt c aad h m = (c', ok, v) \<Longrightarrow> bc_key c' = bc_key c"
  by (auto simp: bip324_cipher_encrypt_def bip324_cipher_decrypt_def Let_def split: if_splits prod.splits)

lemma session_wf_handshake:
  "bip324_wf s \<Longrightarrow> length e = 64 \<Longrightarrow> bip324_wf (fst (bip324_complete_handshake xdh s e))"
  by (simp add: handshake_result Let_def) (auto simp: bip324_wf_def cipher_wf_def)

lemma session_wf_crypt:
  "bip324_wf s \<Longrightarrow> bip324_wf (fst (bip324_session_encrypt s p))"
  "bip324_wf s \<Longrightarrow> bip324_wf (fst (bip324_session_decrypt s h m))"
  by (auto simp: bip324_session_encrypt_def bip324_session_decrypt_def bip324_wf_def cipher_wf_def
      dest: cipher_key_const split: prod.split)

section \<open>Runs of one session\<close>

text \<open>
  A session under any sequence of calls, with the log of the plaintexts it has accepted and the packets it has
  returned for them.
\<close>

inductive session_run ::
  "(bytes \<Rightarrow> scalar \<Rightarrow> bytes) \<Rightarrow> (bytes \<Rightarrow> bytes \<Rightarrow> scalar \<Rightarrow> bool \<Rightarrow> bytes) \<Rightarrow> bip324_session \<Rightarrow> (bytes \<times> bytes) list \<Rightarrow> bool"
  for create xdh where
  from_key: "length k = 32 \<Longrightarrow> session_run create xdh (bip324_session_from_key create i k r) []"
| from_rng: "(\<And>j. length (rng j) = 32) \<Longrightarrow> bip324_session_random create i rng = Some s \<Longrightarrow> session_run create xdh s []"
| handshake: "session_run create xdh s log \<Longrightarrow> length e = 64 \<Longrightarrow>
    session_run create xdh (fst (bip324_complete_handshake xdh s e)) log"
| encrypt: "session_run create xdh s log \<Longrightarrow> bip324_session_encrypt s p = (s', pkt) \<Longrightarrow>
    session_run create xdh s' (if pkt = [] then log else log @ [(p, pkt)])"
| decrypt: "session_run create xdh s log \<Longrightarrow>
    session_run create xdh (fst (bip324_session_decrypt s h m)) log"

text \<open>
  The nonce of the \<open>i\<close>-th packet of a session, and what it means that a packet was sealed under a key and a nonce:
  it is what the AEAD returns for them on the length prefix and the plaintext.
\<close>

definition packet_nonce :: "nat \<Rightarrow> bytes" where
  "packet_nonce i = replicate 4 0 @ store_le64 (of_nat i)"

definition sealed_under :: "bytes \<Rightarrow> bytes \<Rightarrow> bytes \<times> bytes \<Rightarrow> bool" where
  "sealed_under key nonce e \<longleftrightarrow>
     (case e of (p, pkt) \<Rightarrow>
        \<exists>ct tag. aead_chacha20_poly1305_encrypt key nonce [] (len3 (length p) @ p) (replicate (length p + 3) 0) = (ct, tag) \<and> pkt = ct @ tag)"

definition run_inv :: "bip324_session \<Rightarrow> (bytes \<times> bytes) list \<Rightarrow> bool" where
  "run_inv s log \<longleftrightarrow> bip324_wf s \<and> (\<forall>i<length log. sealed_under (bc_key (bs_send s)) (packet_nonce i) (log ! i)) \<and>
     (if bs_established s then bc_counter (bs_send s) = of_nat (length log) else log = [])"

lemma session_encrypt_cases:
  assumes "bip324_session_encrypt s p = (s', pkt)"
  shows "(pkt = [] \<and> s' = s) \<or> (bs_established s \<and> length p < 2 ^ 24 \<and> length pkt = length p + 19 \<and>
    s' = s\<lparr>bs_send := (bs_send s)\<lparr>bc_counter := bc_counter (bs_send s) + 1\<rparr>\<rparr> \<and>
    sealed_under (bc_key (bs_send s)) (build_nonce (bs_send s)) (p, pkt))"
proof (cases "bs_established s \<and> length p < 2 ^ 24")
  case True
  obtain c pk where c: "bip324_cipher_encrypt (bs_send s) [] p = (c, pk)" by fastforce
  obtain ct tag where a: "aead_seal (bc_key (bs_send s)) (build_nonce (bs_send s)) [] (len3 (length p) @ p) = (ct, tag)" by fastforce
  then have "pk = ct @ tag" using c True by (simp add: cipher_encrypt_seal)
  then have "sealed_under (bc_key (bs_send s)) (build_nonce (bs_send s)) (p, pk)"
    using a by (simp add: sealed_under_def aead_seal_def add.commute)
  then show ?thesis using True assms c cipher_packet [OF _ c] by (simp add: bip324_session_encrypt_def)
next
  case False
  then have "bip324_session_encrypt s p = (s, [])"
    using session.too_long [of p s] by (auto simp: bip324_session_encrypt_def)
  then show ?thesis using assms by simp
qed

lemma session_decrypt_send: "bs_send (fst (bip324_session_decrypt s h m)) = bs_send s"
  "bs_established (fst (bip324_session_decrypt s h m)) = bs_established s"
  by (auto simp: bip324_session_decrypt_def split: prod.split)

lemma new_session_fresh:
  "\<not> bs_established (bip324_session_from_key create i k r)"
  "bip324_session_random create i rng = Some s \<Longrightarrow> \<not> bs_established s"
  by (auto simp: bip324_session_from_key_def bip324_session_random_def bip324_session_blank_def Let_def
      split: prod.splits option.splits)

lemma run_inv:
  assumes "\<And>r sk. length (create r sk) = 64" "session_run create xdh s log"
  shows "run_inv s log"
  using assms(2)
proof (induction rule: session_run.induct)
  case (from_key k i r)
  then show ?case using session_wf_new [OF assms(1)] by (simp add: run_inv_def new_session_fresh)
next
  case (from_rng rng i s)
  then show ?case using session_wf_random [OF assms(1) from_rng] new_session_fresh(2) by (simp add: run_inv_def)
next
  case (handshake s log e)
  then have "bip324_wf s" "bip324_wf (fst (bip324_complete_handshake xdh s e))" by (simp_all add: run_inv_def session_wf_handshake)
  then show ?case using handshake by (auto simp: run_inv_def handshake_result Let_def split: if_splits)
next
  case (encrypt s log p s' pkt)
  have wf: "bip324_wf s'" using session_wf_crypt(1) [of s p] encrypt by (simp add: run_inv_def)
  from session_encrypt_cases [OF encrypt(2)] show ?case
  proof (elim disjE conjE, goal_cases)
    case 2
    then have l: "bc_counter (bs_send s) = of_nat (length log)"
      "\<forall>i<length log. sealed_under (bc_key (bs_send s)) (packet_nonce i) (log ! i)"
      using encrypt.IH by (simp_all add: run_inv_def)
    have "pkt \<noteq> []" using 2 by auto
    moreover have "sealed_under (bc_key (bs_send s)) (packet_nonce (length log)) (p, pkt)"
      using 2 l(1) by (simp add: packet_nonce_def build_nonce_eq)
    then have "\<forall>i<Suc (length log). sealed_under (bc_key (bs_send s)) (packet_nonce i) ((log @ [(p, pkt)]) ! i)"
      using l(2) by (auto simp: nth_append less_Suc_eq)
    ultimately show ?thesis using 2 l wf by (simp add: run_inv_def)
  qed (use encrypt wf in simp)
next
  case (decrypt s log h m)
  then show ?case using session_wf_crypt(2) [of s h m] by (simp add: run_inv_def session_decrypt_send)
qed

lemma packet_nonce_eq_iff: "packet_nonce i = packet_nonce j \<longleftrightarrow> i mod 2 ^ 64 = j mod 2 ^ 64"
proof -
  have "packet_nonce i = packet_nonce j \<longleftrightarrow> (of_nat i :: u64) = of_nat j"
    unfolding packet_nonce_def by (metis load_store_le64 same_append_eq)
  also have "\<dots> \<longleftrightarrow> i mod 2 ^ 64 = j mod 2 ^ 64"
    by (simp add: word_unat_eq_iff unsigned_of_nat take_bit_nat_def)
  finally show ?thesis .
qed

lemma packet_nonces_distinct: "distinct (map packet_nonce [0..<n]) \<longleftrightarrow> n \<le> 2 ^ 64"
proof
  assume d: "distinct (map packet_nonce [0..<n])"
  show "n \<le> 2 ^ 64"
  proof (rule ccontr)
    assume "\<not> n \<le> 2 ^ 64"
    then have m: "0 \<in> {0..<n}" "2 ^ 64 \<in> {0..<n}" by simp_all
    have "packet_nonce 0 = packet_nonce (2 ^ 64)" unfolding packet_nonce_eq_iff by (simp only: mod_self mod_0)
    with d m have "(0 :: nat) = 2 ^ 64" unfolding distinct_map set_upt by (meson inj_onD)
    then show False by simp
  qed
next
  assume n: "n \<le> 2 ^ 64"
  have "inj_on packet_nonce {0..<n}"
    using n by (intro inj_onI) (simp only: packet_nonce_eq_iff, simp)
  then show "distinct (map packet_nonce [0..<n])" by (simp add: distinct_map)
qed

section \<open>Two connected sessions\<close>

text \<open>
  Both handshakes, each with the other's encoding, and then the network: per direction the packets in flight,
  the messages accepted for sending and the messages delivered. Packets travel in order, as over TCP; forged
  ones may arrive at any time, and either side may call \<open>encrypt\<close> with anything.
\<close>

definition bip324_connect ::
  "(bytes \<Rightarrow> scalar \<Rightarrow> bytes) \<Rightarrow> (bytes \<Rightarrow> bytes \<Rightarrow> scalar \<Rightarrow> bool \<Rightarrow> bytes) \<Rightarrow> bytes \<Rightarrow> bytes \<Rightarrow> bytes \<Rightarrow> bytes \<Rightarrow>
    (bip324_session \<times> bip324_session) option" where
  "bip324_connect create xdh ka ra kb rb =
     (let a = bip324_session_from_key create True ka ra; b = bip324_session_from_key create False kb rb;
          (a', oka) = bip324_complete_handshake xdh a (bs_our_encoding b);
          (b', okb) = bip324_complete_handshake xdh b (bs_our_encoding a)
      in if oka \<and> okb then Some (a', b') else None)"

text \<open>
  What is relied on in ElligatorSwift: encodings of 64 bytes, and the same secret on both sides for secret keys in
  \<open>[1, n - 1]\<close>, whatever randomness went into the encodings. Of the zero key, for which \<open>ellswift_xdh\<close> returns zeros,
  nothing is assumed; the constructors never store it as valid.
\<close>

definition secret_key :: "scalar \<Rightarrow> bool" where
  "secret_key sk \<longleftrightarrow> scalar_ok sk \<and> sval sk \<noteq> 0"

definition xdh_agrees :: "(bytes \<Rightarrow> scalar \<Rightarrow> bytes) \<Rightarrow> (bytes \<Rightarrow> bytes \<Rightarrow> scalar \<Rightarrow> bool \<Rightarrow> bytes) \<Rightarrow> bool" where
  "xdh_agrees create xdh \<longleftrightarrow> (\<forall>r sk. length (create r sk) = 64) \<and>
     (\<forall>ra rb ska skb. secret_key ska \<longrightarrow> secret_key skb \<longrightarrow>
        xdh (create ra ska) (create rb skb) ska True = xdh (create ra ska) (create rb skb) skb False)"

lemma secret_key_valid: "length k = 32 \<Longrightarrow> valid_key k \<Longrightarrow> secret_key (key_of k)"
  by (auto simp: secret_key_def valid_key_def parse_bytes_strict_nonzero_iff scalar_ok_def sval_load split: if_splits)

record bip324_net =
  net_a :: bip324_session
  net_b :: bip324_session
  net_ab :: "bytes list"
  net_ba :: "bytes list"
  net_sent_a :: "bytes list"
  net_sent_b :: "bytes list"
  net_got_a :: "bytes list"
  net_got_b :: "bytes list"

definition net_start :: "bip324_session \<Rightarrow> bip324_session \<Rightarrow> bip324_net" where
  "net_start a b = \<lparr>net_a = a, net_b = b, net_ab = [], net_ba = [], net_sent_a = [], net_sent_b = [],
     net_got_a = [], net_got_b = []\<rparr>"

text \<open>The peers read the next packet of their stream.\<close>

inductive net_recv :: "bip324_net \<Rightarrow> bip324_net \<Rightarrow> bool" where
  recv_b: "net_ab n = k # ks \<Longrightarrow> bip324_session_decrypt (net_b n) (take 3 k) (drop 3 k) = (b, ok, v) \<Longrightarrow>
    net_recv n (n\<lparr>net_b := b, net_ab := ks, net_got_b := net_got_b n @ (if ok then [v] else [])\<rparr>)"
| recv_a: "net_ba n = k # ks \<Longrightarrow> bip324_session_decrypt (net_a n) (take 3 k) (drop 3 k) = (a, ok, v) \<Longrightarrow>
    net_recv n (n\<lparr>net_a := a, net_ba := ks, net_got_a := net_got_a n @ (if ok then [v] else [])\<rparr>)"

inductive net_step :: "bip324_net \<Rightarrow> bip324_net \<Rightarrow> bool" where
  receive: "net_recv n n' \<Longrightarrow> net_step n n'"
| send_a: "bip324_session_encrypt (net_a n) p = (a, k) \<Longrightarrow>
    net_step n (n\<lparr>net_a := a, net_ab := net_ab n @ (if k = [] then [] else [k]),
      net_sent_a := net_sent_a n @ (if k = [] then [] else [p])\<rparr>)"
| send_b: "bip324_session_encrypt (net_b n) p = (b, k) \<Longrightarrow>
    net_step n (n\<lparr>net_b := b, net_ba := net_ba n @ (if k = [] then [] else [k]),
      net_sent_b := net_sent_b n @ (if k = [] then [] else [p])\<rparr>)"
| forge_a: "bip324_session_decrypt (net_a n) h m = (a, False, v) \<Longrightarrow> net_step n (n\<lparr>net_a := a\<rparr>)"
| forge_b: "bip324_session_decrypt (net_b n) h m = (b, False, v) \<Longrightarrow> net_step n (n\<lparr>net_b := b\<rparr>)"

text \<open>
  The link invariant: the packets in flight are those the receiver's cipher would itself produce for the
  messages sent and not yet delivered, and producing them leads to the sender's cipher.
\<close>

abbreviation "seal_all \<equiv> send_all (\<lambda>c p. bip324_cipher_encrypt c [] p)"

definition link_inv :: "bip324_session \<Rightarrow> bip324_session \<Rightarrow> bytes list \<Rightarrow> bytes list \<Rightarrow> bytes list \<Rightarrow> bool" where
  "link_inv s r wire sent got \<longleftrightarrow> bs_established s \<and> bs_established r \<and>
     (\<exists>ps. (\<forall>p \<in> set ps. length p < 2 ^ 24) \<and> seal_all (bs_recv r) ps = (bs_send s, wire) \<and> sent = got @ ps)"

definition net_inv :: "bip324_net \<Rightarrow> bool" where
  "net_inv n \<longleftrightarrow> link_inv (net_a n) (net_b n) (net_ab n) (net_sent_a n) (net_got_b n) \<and>
     link_inv (net_b n) (net_a n) (net_ba n) (net_sent_b n) (net_got_a n)"

lemma send_all_snoc:
  "send_all enc s (ps @ [p]) = (let (s, ks) = send_all enc s ps; (s, k) = enc s p in (s, ks @ [k]))"
  by (induction ps arbitrary: s) (simp_all add: case_prod_beta Let_def)

lemma link_cong:
  "link_inv s r wire sent got \<Longrightarrow> bs_send s' = bs_send s \<Longrightarrow> bs_established s' = bs_established s \<Longrightarrow>
   bs_recv r' = bs_recv r \<Longrightarrow> bs_established r' = bs_established r \<Longrightarrow> link_inv s' r' wire sent got"
  by (simp add: link_inv_def)

lemma session_encrypt_recv:
  "bip324_session_encrypt s p = (s', k) \<Longrightarrow> bs_recv s' = bs_recv s \<and> bs_established s' = bs_established s"
  by (auto simp: bip324_session_encrypt_def split: if_splits prod.splits)

lemma session_decrypt_fields:
  "bip324_session_decrypt s h m = (s', ok, v) \<Longrightarrow> bs_send s' = bs_send s \<and> bs_established s' = bs_established s"
  using session_decrypt_send [of s h m] by simp

lemma link_send:
  assumes "link_inv s r wire sent got" "bip324_session_encrypt s p = (s', k)"
  shows "link_inv s' r (wire @ (if k = [] then [] else [k])) (sent @ (if k = [] then [] else [p])) got"
proof (cases "k = []")
  case True
  then show ?thesis using assms session_encrypt_cases [OF assms(2)] by auto
next
  case False
  obtain ps where ps: "\<forall>p \<in> set ps. length p < 2 ^ 24" "seal_all (bs_recv r) ps = (bs_send s, wire)" "sent = got @ ps"
    and e: "bs_established s" "bs_established r" using assms(1) by (auto simp: link_inv_def)
  have "length p < 2 ^ 24" using session_encrypt_cases [OF assms(2)] False by auto
  moreover have "bip324_cipher_encrypt (bs_send s) [] p = (bs_send s', k)"
    using assms(2) e by (auto simp: bip324_session_encrypt_def split: prod.splits)
  ultimately show ?thesis using ps e False session_encrypt_recv [OF assms(2)]
    unfolding link_inv_def by (intro conjI exI [of _ "ps @ [p]"]) (auto simp: send_all_snoc)
qed

lemma link_recv:
  assumes "link_inv s r (k # ks) sent got"
  shows "\<exists>p r'. bip324_session_decrypt r (take 3 k) (drop 3 k) = (r', True, p) \<and> link_inv s r' ks sent (got @ [p])"
proof -
  obtain ps where ps: "\<forall>p \<in> set ps. length p < 2 ^ 24" "seal_all (bs_recv r) ps = (bs_send s, k # ks)" "sent = got @ ps"
    and e: "bs_established s" "bs_established r" using assms by (auto simp: link_inv_def)
  then obtain p qs where q: "ps = p # qs" by (cases ps) auto
  then obtain c where c: "bip324_cipher_encrypt (bs_recv r) [] p = (c, k)" "seal_all c qs = (bs_send s, ks)"
    using ps(2) by (auto split: prod.splits)
  have "bip324_cipher_decrypt (bs_recv r) [] (take 3 k) (drop 3 k) = (c, True, p)"
    using cipher.deliver [OF refl _ c(1)] ps(1) q by auto
  then have "bip324_session_decrypt r (take 3 k) (drop 3 k) = (r\<lparr>bs_recv := c\<rparr>, True, p)"
    using e by (simp add: bip324_session_decrypt_def)
  moreover have "link_inv s (r\<lparr>bs_recv := c\<rparr>) ks sent (got @ [p])" using ps q c(2) e by (auto simp: link_inv_def)
  ultimately show ?thesis by blast
qed

lemma net_recv_inv: "net_recv n n' \<Longrightarrow> net_inv n \<Longrightarrow> net_inv n'"
proof (induction rule: net_recv.induct)
  case (recv_b n k ks b ok v)
  then show ?case using link_recv [of "net_a n" "net_b n" k ks "net_sent_a n" "net_got_b n"] session_decrypt_fields [OF recv_b(2)]
    by (auto simp: net_inv_def intro: link_cong)
next
  case (recv_a n k ks a ok v)
  then show ?case using link_recv [of "net_b n" "net_a n" k ks "net_sent_b n" "net_got_a n"] session_decrypt_fields [OF recv_a(2)]
    by (auto simp: net_inv_def intro: link_cong)
qed

lemma net_step_inv: "net_step n n' \<Longrightarrow> net_inv n \<Longrightarrow> net_inv n'"
proof (induction rule: net_step.induct)
  case (receive n n')
  then show ?case by (rule net_recv_inv)
next
  case (send_a n p a k)
  then have "link_inv a (net_b n) (net_ab n @ (if k = [] then [] else [k])) (net_sent_a n @ (if k = [] then [] else [p])) (net_got_b n)"
    by (intro link_send) (simp_all add: net_inv_def)
  with send_a show ?case using session_encrypt_recv [OF send_a(1)]
    unfolding net_inv_def by (intro conjI) (simp_all, auto intro: link_cong)
next
  case (send_b n p b k)
  then have "link_inv b (net_a n) (net_ba n @ (if k = [] then [] else [k])) (net_sent_b n @ (if k = [] then [] else [p])) (net_got_a n)"
    by (intro link_send) (simp_all add: net_inv_def)
  with send_b show ?case using session_encrypt_recv [OF send_b(1)]
    unfolding net_inv_def by (intro conjI) (simp_all, auto intro: link_cong)
next
  case (forge_a n h m a v)
  then show ?case using session.refused [OF forge_a(1)] by (simp add: net_inv_def)
next
  case (forge_b n h m b v)
  then show ?case using session.refused [OF forge_b(1)] by (simp add: net_inv_def)
qed

lemma net_steps_inv: "net_step\<^sup>*\<^sup>* n n' \<Longrightarrow> net_inv n \<Longrightarrow> net_inv n'"
  by (induction rule: rtranclp_induct) (auto intro: net_step_inv)

lemma link_done: "link_inv s r [] sent got \<Longrightarrow> got = sent"
proof -
  assume "link_inv s r [] sent got"
  then obtain ps where "seal_all (bs_recv r) ps = (bs_send s, [])" "sent = got @ ps" by (auto simp: link_inv_def)
  then show ?thesis by (cases ps) (auto split: prod.splits)
qed

text \<open>The packets in flight can all be received, and then everything sent has been delivered.\<close>

lemma net_drain:
  assumes "net_inv n"
  shows "\<exists>n'. (net_recv ^^ (length (net_ab n) + length (net_ba n))) n n' \<and> net_inv n' \<and> net_ab n' = [] \<and> net_ba n' = [] \<and>
    net_sent_a n' = net_sent_a n \<and> net_sent_b n' = net_sent_b n"
  using assms
proof (induction "length (net_ab n) + length (net_ba n)" arbitrary: n)
  case 0
  then show ?case by auto
next
  case (Suc m)
  obtain n1 where n1: "net_recv n n1" "length (net_ab n1) + length (net_ba n1) = m"
    "net_sent_a n1 = net_sent_a n" "net_sent_b n1 = net_sent_b n"
  proof (cases "net_ab n")
    case (Cons k ks)
    obtain b ok v where d: "bip324_session_decrypt (net_b n) (take 3 k) (drop 3 k) = (b, ok, v)" by (metis prod_cases3)
    show ?thesis by (rule that [OF net_recv.recv_b [OF Cons d]]) (use Suc(2) Cons in simp_all)
  next
    case Nil
    then obtain k ks where Cons: "net_ba n = k # ks" using Suc(2) by (cases "net_ba n") auto
    obtain a ok v where d: "bip324_session_decrypt (net_a n) (take 3 k) (drop 3 k) = (a, ok, v)" by (metis prod_cases3)
    show ?thesis by (rule that [OF net_recv.recv_a [OF Cons d]]) (use Suc(2) Nil Cons in simp_all)
  qed
  have "net_inv n1" using net_recv_inv [OF n1(1) Suc.prems] .
  from Suc.hyps(1) [OF n1(2) [symmetric] this] obtain n' where n': "(net_recv ^^ m) n1 n'" "net_inv n'" "net_ab n' = []" "net_ba n' = []"
    "net_sent_a n' = net_sent_a n1" "net_sent_b n' = net_sent_b n1" using n1(2) by auto
  have "(net_recv ^^ Suc m) n n'" using relpowp_Suc_I2 [OF n1(1) n'(1)] .
  then show ?case using n' n1(3,4) Suc(2) by auto
qed

lemma from_key_result:
  assumes "length k = 32"
  shows "bip324_session_from_key create i k r = (bip324_session_blank i)
    \<lparr>bs_our_encoding := if valid_key k then create r (key_of k) else replicate 64 0,
     bs_privkey := if valid_key k then key_of k else scalar_zero, bs_privkey_valid := valid_key k\<rparr>"
  by (auto simp: bip324_session_from_key_def bip324_session_blank_def valid_key_def Let_def split: prod.splits)

lemma connect_result:
  fixes ra rb :: bytes
  assumes "xdh_agrees create xdh" "length ka = 32" "length kb = 32" "valid_key ka" "valid_key kb"
  defines "ea \<equiv> create ra (key_of ka)" and "eb \<equiv> create rb (key_of kb)"
  defines "z \<equiv> xdh ea eb (key_of ka) True"
  defines "ci \<equiv> \<lparr>bc_key = bip324_key ''initiator_L'' z, bc_counter = 0\<rparr>"
    and "cr \<equiv> \<lparr>bc_key = bip324_key ''responder_L'' z, bc_counter = 0\<rparr>"
  defines "sess \<equiv> \<lambda>i eo ep cs cv. \<lparr>bs_initiator = i, bs_established = True, bs_privkey_valid = False, bs_privkey = scalar_zero,
      bs_our_encoding = eo, bs_peer_encoding = ep, bs_session_id = bip324_key ''session_id'' z, bs_send = cs, bs_recv = cv\<rparr>"
  shows "bip324_connect create xdh ka ra kb rb =
    (if \<forall>b \<in> set z. b = 0 then None else Some (sess True ea eb ci cr, sess False eb ea cr ci))"
proof -
  have c: "length (create r sk) = 64" for r sk using assms(1) by (simp add: xdh_agrees_def)
  have e: "length ea = 64" "length eb = 64" using c by (simp_all add: ea_def eb_def)
  define a where "a = bip324_session_from_key create True ka ra"
  define b where "b = bip324_session_from_key create False kb rb"
  have wf: "bip324_wf a" "bip324_wf b" using session_wf_new [OF c] assms(2,3) by (simp_all add: a_def b_def)
  have a: "a = (bip324_session_blank True)\<lparr>bs_our_encoding := ea, bs_privkey := key_of ka, bs_privkey_valid := True\<rparr>"
    and b: "b = (bip324_session_blank False)\<lparr>bs_our_encoding := eb, bs_privkey := key_of kb, bs_privkey_valid := True\<rparr>"
    unfolding a_def b_def ea_def eb_def using assms(4,5) by (simp_all add: from_key_result assms(2,3))
  have s: "bip324_secret xdh a eb = z" "bip324_secret xdh b ea = z"
    using assms(1) secret_key_valid assms(2-5)
    by (simp_all add: bip324_secret_def a b bip324_session_blank_def z_def xdh_agrees_def ea_def eb_def)
  note ha = handshake_result [OF wf(1) e(2), of xdh, unfolded s] and hb = handshake_result [OF wf(2) e(1), of xdh, unfolded s]
  have o: "bs_our_encoding a = ea" "bs_our_encoding b = eb" by (simp_all add: a b)
  show ?thesis
    unfolding bip324_connect_def a_def [symmetric] b_def [symmetric] Let_def [of a] Let_def [of b] o ha hb
    by (simp add: a b bip324_session_blank_def sess_def ci_def cr_def Let_def)
qed

lemma connect_peers:
  assumes "xdh_agrees create xdh" "length ka = 32" "length kb = 32" "bip324_connect create xdh ka ra kb rb = Some (a, b)"
  shows "bip324_peers a b" "bip324_peers b a"
proof -
  have v: "valid_key ka" "valid_key kb"
    using assms(4) session_wf_new [of create ka _ ra] session_wf_new [of create kb _ rb] assms(1-3)
    by (auto simp: bip324_connect_def Let_def bip324_complete_handshake_def from_key_result bip324_session_blank_def
        split: if_splits prod.splits)
  show "bip324_peers a b" "bip324_peers b a"
    using connect_result [OF assms(1-3) v] assms(4) by (auto simp: bip324_peers_def split: if_splits)
qed

lemma net_start_inv: "bip324_peers a b \<Longrightarrow> bip324_peers b a \<Longrightarrow> net_inv (net_start a b)"
  by (auto simp: net_inv_def net_start_def link_inv_def bip324_peers_def intro: exI [of _ "[]"])

lemma cipher_decrypt_length:
  "bip324_cipher_decrypt c aad h m = (c', True, v) \<Longrightarrow> length v + 16 \<le> length m"
  by (auto simp: bip324_cipher_decrypt_def Let_def split: if_splits prod.splits)

text \<open>A concrete instance for the witnesses: constant encodings, a constant secret, the keys 1 and 2.\<close>

definition wit_create :: "bytes \<Rightarrow> scalar \<Rightarrow> bytes" where "wit_create r sk = take 32 (r @ replicate 32 0) @ replicate 32 1"
definition wit_xdh :: "bytes \<Rightarrow> bytes \<Rightarrow> scalar \<Rightarrow> bool \<Rightarrow> bytes" where "wit_xdh a b sk i = replicate 32 1"
definition wit_key :: "nat \<Rightarrow> bytes" where "wit_key j = replicate 31 0 @ [of_nat j]"

lemma wit_basic: "length (wit_create r sk) = 64" "length (wit_key j) = 32" "xdh_agrees wit_create wit_xdh"
  by (simp_all add: wit_create_def wit_key_def xdh_agrees_def wit_xdh_def min_def)

lemma wit_key_val: "be_val (wit_key j) = uint (of_nat j :: byte)"
proof -
  have "be_val (replicate n 0 @ [b]) = uint b" for n b by (induction n) simp_all
  then show ?thesis by (simp add: wit_key_def)
qed

lemma wit_valid: "valid_key (wit_key 1)" "valid_key (wit_key 2)" "\<not> valid_key (wit_key 0)"
  by (simp_all add: valid_key_def parse_bytes_strict_nonzero_iff wit_basic wit_key_val order_n_def)

lemma wit_connected:
  obtains a b where "bip324_connect wit_create wit_xdh (wit_key 1) [1] (wit_key 2) [2] = Some (a, b)"
    "a = fst (bip324_complete_handshake wit_xdh (bip324_session_from_key wit_create True (wit_key 1) [1]) (wit_create [2] scalar_zero))"
    "bs_established a"
proof -
  have "bip324_connect wit_create wit_xdh (wit_key 1) [1] (wit_key 2) [2] \<noteq> None"
    using connect_result [OF wit_basic(3,2,2) wit_valid(1,2)] by (simp add: wit_xdh_def)
  then obtain a b where c: "bip324_connect wit_create wit_xdh (wit_key 1) [1] (wit_key 2) [2] = Some (a, b)" by fastforce
  moreover have "a = fst (bip324_complete_handshake wit_xdh (bip324_session_from_key wit_create True (wit_key 1) [1]) (wit_create [2] scalar_zero))"
    using c wit_valid(2) by (auto simp: bip324_connect_def Let_def from_key_result wit_basic wit_create_def split: if_splits prod.splits)
  moreover have "bs_established a" using connect_peers(1) [OF wit_basic(3,2,2) c] by (simp add: bip324_peers_def)
  ultimately show ?thesis using that by blast
qed

lemma wit_packet: "bs_established s \<Longrightarrow> \<exists>s' k. bip324_session_encrypt s [7] = (s', k) \<and> k \<noteq> [] \<and> bs_established s'"
proof -
  assume e: "bs_established s"
  obtain c k where c: "bip324_cipher_encrypt (bs_send s) [] [7] = (c, k)" by fastforce
  then have "length k = 20" using cipher_packet(1) [OF _ c] by simp
  then show ?thesis using e c by (auto simp: bip324_session_encrypt_def)
qed

section \<open>Properties\<close>

text \<open>C38: whatever the randomness source yields, the constructor that draws its key behaves as the one given the first
  valid block and the block after it as the randomness of its encoding, and it returns at all exactly when some block is a key (nonzero, below the group order): the
  retry loop terminates then and only then.
\<close>

theorem bip324_key_drawing:
  assumes "\<And>j. length (rng j) = 32"
  shows "bip324_session_random create i rng =
    (if \<exists>j. valid_key (rng j) then let j = LEAST j. valid_key (rng j) in Some (bip324_session_from_key create i (rng j) (rng (Suc j))) else None)"
proof (cases "\<exists>j. valid_key (rng j)")
  case True
  let ?n = "LEAST j. valid_key (rng j)"
  have v: "valid_key (rng ?n)" using True by (auto intro: LeastI)
  have "bip324_draw_key rng 0 = Some (key_of (rng ?n), Suc ?n)"
    by (rule draw_key_first [where rng = rng, OF v]) (auto dest: not_less_Least)
  then show ?thesis using True v by (simp add: bip324_session_random_def from_key_result assms Let_def)
next
  case False
  then have "bip324_draw_key rng 0 = None" using draw_key_some [of rng 0] by (cases "bip324_draw_key rng 0") auto
  then show ?thesis using False by (simp add: bip324_session_random_def)
qed

theorem bip324_key_drawing_witness:
  "bip324_session_random wit_create True wit_key = Some (bip324_session_from_key wit_create True (wit_key 1) (wit_key 2))"
proof -
  have l: "(LEAST j. valid_key (wit_key j)) = 1"
    by (rule Least_equality) (use wit_valid in \<open>auto simp: Suc_le_eq intro: gr0I\<close>)
  show ?thesis using bip324_key_drawing [of wit_key wit_create True] wit_valid(1) unfolding l by (auto simp: wit_basic numeral_2_eq_2)
qed

text \<open>C36: after any sequence of calls - handshakes with any peer encoding, encryptions and decryptions of anything -
  a session is well formed: the encodings have 64 bytes, the keys and the session id 32, the stored scalar is
  reduced and erased as soon as it is marked invalid, and no established session holds a key. A returned packet
  is empty or 19 bytes longer than its plaintext, and a decrypted payload fits its packet.
\<close>

theorem bip324_sessions_typed:
  assumes "\<And>r sk. length (create r sk) = 64" "session_run create xdh s log"
  shows "bip324_wf s \<and>
    (\<forall>p. length (snd (bip324_session_encrypt s p)) \<in> {0, length p + 19}) \<and>
    (\<forall>h m. case bip324_session_decrypt s h m of (_, ok, v) \<Rightarrow> if ok then length v + 16 \<le> length m else v = [])"
proof (intro conjI allI)
  show "bip324_wf s" using run_inv [OF assms] by (simp add: run_inv_def)
next
  fix p
  obtain s' pkt where e: "bip324_session_encrypt s p = (s', pkt)" by fastforce
  show "length (snd (bip324_session_encrypt s p)) \<in> {0, length p + 19}" using session_encrypt_cases [OF e] e by auto
next
  fix h m
  obtain s' ok v where d: "bip324_session_decrypt s h m = (s', ok, v)" by (metis prod_cases3)
  have "ok \<Longrightarrow> length v + 16 \<le> length m"
    using d by (auto simp: bip324_session_decrypt_def dest: cipher_decrypt_length split: if_splits prod.splits)
  then show "case bip324_session_decrypt s h m of (_, ok, v) \<Rightarrow> if ok then length v + 16 \<le> length m else v = []"
    using session.refused [of s h m s' v] d by auto
qed

theorem bip324_sessions_typed_witness:
  "bip324_wf (fst (bip324_complete_handshake wit_xdh (bip324_session_from_key wit_create True (wit_key 1) [1]) (wit_create [2] scalar_zero)))"
  using bip324_sessions_typed [where create = wit_create, OF wit_basic(1) session_run.handshake [OF session_run.from_key [OF wit_basic(2)] wit_basic(1)]] by blast

text \<open>C30: in every run of a session the \<open>i\<close>-th packet it returns is the output of the AEAD on the length prefix and the plaintext
  under the session's one sending key and the nonce made of \<open>i\<close> (four zero bytes, then the 64-bit counter, little-endian): those
  nonces are pairwise distinct exactly as long as at most \<open>2^64\<close> packets are sealed, after which the counter wraps and
  nonces repeat. Nothing is sealed before the handshake.
\<close>

theorem bip324_nonces_fresh:
  assumes "\<And>r sk. length (create r sk) = 64" "session_run create xdh s log"
  shows "(\<forall>i<length log. sealed_under (bc_key (bs_send s)) (packet_nonce i) (log ! i)) \<and>
    (distinct (map packet_nonce [0..<length log]) \<longleftrightarrow> length log \<le> 2 ^ 64) \<and> (log \<noteq> [] \<longrightarrow> bs_established s)"
  using run_inv [OF assms] packet_nonces_distinct by (auto simp: run_inv_def split: if_splits)

theorem bip324_nonces_fresh_witness:
  "\<exists>s p1 p2. session_run wit_create wit_xdh s [([7], p1), ([7], p2)] \<and>
    sealed_under (bc_key (bs_send s)) (packet_nonce 0) ([7], p1) \<and> sealed_under (bc_key (bs_send s)) (packet_nonce 1) ([7], p2)"
proof -
  obtain a where a: "a = fst (bip324_complete_handshake wit_xdh (bip324_session_from_key wit_create True (wit_key 1) [1]) (wit_create [2] scalar_zero))"
    "bs_established a" using wit_connected by blast
  obtain s1 k1 where 1: "bip324_session_encrypt a [7] = (s1, k1)" "k1 \<noteq> []" "bs_established s1" using wit_packet [OF a(2)] by blast
  obtain s2 k2 where 2: "bip324_session_encrypt s1 [7] = (s2, k2)" "k2 \<noteq> []" using wit_packet [OF 1(3)] by blast
  have "session_run wit_create wit_xdh a []"
    unfolding a(1) by (rule session_run.handshake, rule session_run.from_key) (rule wit_basic)+
  from session_run.encrypt [OF session_run.encrypt [OF this 1(1)] 2(1)] 1(2) 2(2)
  have r: "session_run wit_create wit_xdh s2 [([7], k1), ([7], k2)]" by simp
  have "\<forall>i<2. sealed_under (bc_key (bs_send s2)) (packet_nonce i) ([([7], k1), ([7], k2)] ! i)"
    using bip324_nonces_fresh [where create = wit_create, OF wit_basic(1) r] by simp
  from spec [OF this, of 0] spec [OF this, of 1] r show ?thesis by auto
qed

text \<open>C35: two sessions made from valid keys, with any randomness in their encodings, where the Diffie-Hellman function agrees on valid keys, both complete the handshake (both fail
  when the secret is all zeros) with the same session id, crossed sending and receiving keys - HKDF-SHA256 of the
  secret under the three labels - and counters at zero; the private keys are erased, and a second handshake is
  refused without a change.
\<close>

theorem bip324_handshake_agrees:
  fixes ra rb :: bytes
  assumes "xdh_agrees create xdh" "length ka = 32" "length kb = 32" "valid_key ka" "valid_key kb"
  defines "z \<equiv> xdh (create ra (key_of ka)) (create rb (key_of kb)) (key_of ka) True"
  shows "case bip324_connect create xdh ka ra kb rb of
      None \<Rightarrow> \<forall>b \<in> set z. b = 0
    | Some (a, b) \<Rightarrow> (\<exists>b \<in> set z. b \<noteq> 0) \<and>
        bs_session_id a = bip324_key ''session_id'' z \<and> bs_session_id b = bs_session_id a \<and>
        bs_send a = \<lparr>bc_key = bip324_key ''initiator_L'' z, bc_counter = 0\<rparr> \<and> bs_recv b = bs_send a \<and>
        bs_send b = \<lparr>bc_key = bip324_key ''responder_L'' z, bc_counter = 0\<rparr> \<and> bs_recv a = bs_send b \<and>
        bs_privkey a = scalar_zero \<and> bs_privkey b = scalar_zero \<and>
        (\<forall>e. bip324_complete_handshake xdh a e = (a, False) \<and> bip324_complete_handshake xdh b e = (b, False))"
  unfolding connect_result [OF assms(1-5), of ra rb, folded z_def] by (simp add: bip324_complete_handshake_def)

theorem bip324_handshake_agrees_witness:
  "\<exists>a b. bip324_connect wit_create wit_xdh (wit_key 1) [1] (wit_key 2) [2] = Some (a, b) \<and> bs_session_id a = bs_session_id b \<and>
    bs_recv b = bs_send a \<and> bs_recv a = bs_send b"
proof -
  obtain a b where c: "bip324_connect wit_create wit_xdh (wit_key 1) [1] (wit_key 2) [2] = Some (a, b)" using wit_connected by blast
  then show ?thesis using bip324_handshake_agrees [OF wit_basic(3,2,2) wit_valid(1,2), of "[1]" "[2]"] by (simp add: c)
qed

text \<open>C29: in the network of two connected sessions, whatever the peers send, whenever they read and whatever forged
  packets arrive and are refused, the delivered messages are at all times a prefix of the accepted ones, in order,
  in both directions; and from every reachable state reading the packets in flight - one step each - succeeds and
  delivers everything accepted: no state is stuck and no message is lost.
\<close>

theorem bip324_delivery:
  assumes "xdh_agrees create xdh" "length ka = 32" "length kb = 32" "bip324_connect create xdh ka ra kb rb = Some (a, b)"
    "net_step\<^sup>*\<^sup>* (net_start a b) n"
  shows "(\<exists>ps. net_sent_a n = net_got_b n @ ps) \<and> (\<exists>ps. net_sent_b n = net_got_a n @ ps) \<and>
    (\<exists>n'. (net_recv ^^ (length (net_ab n) + length (net_ba n))) n n' \<and> net_ab n' = [] \<and> net_ba n' = [] \<and>
       net_got_b n' = net_sent_a n \<and> net_got_a n' = net_sent_b n)"
proof -
  have i: "net_inv n" using net_steps_inv [OF assms(5)] net_start_inv connect_peers [OF assms(1-4)] by blast
  obtain n' where n': "(net_recv ^^ (length (net_ab n) + length (net_ba n))) n n'" "net_inv n'" "net_ab n' = []" "net_ba n' = []"
    "net_sent_a n' = net_sent_a n" "net_sent_b n' = net_sent_b n" using net_drain [OF i] by blast
  then have "net_got_b n' = net_sent_a n" "net_got_a n' = net_sent_b n" using link_done by (fastforce simp: net_inv_def)+
  then show ?thesis using i n' by (auto simp: net_inv_def link_inv_def)
qed

theorem bip324_delivery_witness:
  "\<exists>a b n n'. bip324_connect wit_create wit_xdh (wit_key 1) [1] (wit_key 2) [2] = Some (a, b) \<and>
    net_step\<^sup>*\<^sup>* (net_start a b) n \<and> net_sent_a n = [[7]] \<and> net_recv\<^sup>*\<^sup>* n n' \<and> net_got_b n' = [[7]]"
proof -
  obtain a b where c: "bip324_connect wit_create wit_xdh (wit_key 1) [1] (wit_key 2) [2] = Some (a, b)" "bs_established a"
    using wit_connected by blast
  obtain s k where k: "bip324_session_encrypt a [7] = (s, k)" "k \<noteq> []" using wit_packet [OF c(2)] by blast
  let ?n = "(net_start a b)\<lparr>net_a := s, net_ab := [k], net_sent_a := [[7]]\<rparr>"
  have "net_step (net_start a b) ?n"
    using net_step.send_a [of "net_start a b" "[7]" s k] k by (simp add: net_start_def)
  then have r: "net_step\<^sup>*\<^sup>* (net_start a b) ?n" by blast
  obtain n' where "(net_recv ^^ (length (net_ab ?n) + length (net_ba ?n))) ?n n'" "net_got_b n' = net_sent_a ?n"
    using bip324_delivery [OF wit_basic(3,2,2) c(1) r] by blast
  then have "net_recv\<^sup>*\<^sup>* ?n n'" "net_got_b n' = [[7]]" by (auto dest: relpowp_imp_rtranclp)
  then show ?thesis using c(1) r by (intro exI [of _ a] exI [of _ b] exI [of _ ?n] exI [of _ n']) simp
qed

end
