(* ===== verification/Fe52.thy ===== *)
theory Fe52
  imports Field
begin

text \<open>
  \<open>FieldElement52\<close> (field_52.hpp, field_52_impl.hpp, field_52.cpp), the representation the point formulas of
  64-bit builds use: five limbs of 52 bits in 64-bit words whose upper bits take up carries. Sums and
  negations do not propagate carries, so correctness rests on magnitudes, the bounds of the limbs. This theory has the
  operations (in their C++ bodies, not the assembly) and what each does to value and magnitude;
  theory \<open>Fe52_Mul\<close> has the two product kernels.
\<close>

unbundle bit_operations_syntax

section \<open>The structure and its operations\<close>

datatype fe52 = Fe52 (n0: u64) (n1: u64) (n2: u64) (n3: u64) (n4: u64)

definition M52 :: u64 where "M52 = 0xFFFFFFFFFFFFF"
definition M48 :: u64 where "M48 = 0xFFFFFFFFFFFF"
definition R52 :: u64 where "R52 = 0x1000003D10"
definition P0 :: u64 where "P0 = 0xFFFFEFFFFFC2F"
definition P1 :: u64 where "P1 = 0xFFFFFFFFFFFFF"
definition P4 :: u64 where "P4 = 0xFFFFFFFFFFFF"

definition fe52_zero :: fe52 where "fe52_zero = Fe52 0 0 0 0 0"
definition fe52_one :: fe52 where "fe52_one = Fe52 1 0 0 0 0"

fun fe52_add :: "fe52 \<Rightarrow> fe52 \<Rightarrow> fe52" where
  "fe52_add (Fe52 a0 a1 a2 a3 a4) (Fe52 b0 b1 b2 b3 b4) =
     Fe52 (a0 + b0) (a1 + b1) (a2 + b2) (a3 + b3) (a4 + b4)"

text \<open>\<open>negate(m)\<close>, also \<open>negate_assign\<close>; the argument is an \<open>unsigned\<close>, widened before one is added.\<close>

fun fe52_negate :: "u32 \<Rightarrow> fe52 \<Rightarrow> fe52" where
  "fe52_negate magnitude (Fe52 a0 a1 a2 a3 a4) =
     (let m1 = ucast magnitude + 1
      in Fe52 (m1 * P0 - a0) (m1 * P1 - a1) (m1 * P1 - a2) (m1 * P1 - a3) (m1 * P4 - a4))"

text \<open>The sign mask is an \<open>int32_t\<close>, sign-extended to 64 bits.\<close>

fun fe52_conditional_negate :: "u32 \<Rightarrow> fe52 \<Rightarrow> fe52" where
  "fe52_conditional_negate sign_mask (Fe52 a0 a1 a2 a3 a4) =
     (let m = scast sign_mask :: u64;
          neg0 = 2 * P0 - a0; neg1 = 2 * P1 - a1; neg2 = 2 * P1 - a2; neg3 = 2 * P1 - a3; neg4 = 2 * P4 - a4
      in Fe52 (a0 XOR (a0 XOR neg0) AND m) (a1 XOR (a1 XOR neg1) AND m) (a2 XOR (a2 XOR neg2) AND m)
              (a3 XOR (a3 XOR neg3) AND m) (a4 XOR (a4 XOR neg4) AND m))"

fun fe52_mul_int :: "u32 \<Rightarrow> fe52 \<Rightarrow> fe52" where
  "fe52_mul_int a (Fe52 a0 a1 a2 a3 a4) =
     Fe52 (a0 * ucast a) (a1 * ucast a) (a2 * ucast a) (a3 * ucast a) (a4 * ucast a)"

fun fe52_half :: "fe52 \<Rightarrow> fe52" where
  "fe52_half (Fe52 a0 a1 a2 a3 a4) =
     (let m = drop_bit 12 (0 - (a0 AND 1));
          t0 = a0 + (0xFFFFEFFFFFC2F AND m);
          t1 = a1 + m; t2 = a2 + m; t3 = a3 + m;
          t4 = a4 + drop_bit 4 m
      in Fe52 (drop_bit 1 t0 + push_bit 51 (t1 AND 1)) (drop_bit 1 t1 + push_bit 51 (t2 AND 1))
              (drop_bit 1 t2 + push_bit 51 (t3 AND 1)) (drop_bit 1 t3 + push_bit 51 (t4 AND 1)) (drop_bit 1 t4))"

text \<open>The carry chain the normalisations repeat: each low limb gives its upper bits to the next.\<close>

definition fe52_carry_pass :: "fe52 \<Rightarrow> fe52" where
  "fe52_carry_pass a =
     (case a of Fe52 t0 t1 t2 t3 t4 \<Rightarrow>
        let t1 = t1 + drop_bit 52 t0; t0 = t0 AND M52;
            t2 = t2 + drop_bit 52 t1; t1 = t1 AND M52;
            t3 = t3 + drop_bit 52 t2; t2 = t2 AND M52;
            t4 = t4 + drop_bit 52 t3; t3 = t3 AND M52
        in Fe52 t0 t1 t2 t3 t4)"

text \<open>The fold of what exceeds 256 bits, \<open>2^256\<close> being \<open>0x1000003D1\<close> modulo the prime.\<close>

definition fe52_fold_top :: "fe52 \<Rightarrow> fe52" where
  "fe52_fold_top a =
     (case a of Fe52 t0 t1 t2 t3 t4 \<Rightarrow>
        let x = drop_bit 48 t4; t4 = t4 AND M48; t0 = t0 + x * 0x1000003D1 in Fe52 t0 t1 t2 t3 t4)"

definition fe52_normalize_weak :: "fe52 \<Rightarrow> fe52" where
  "fe52_normalize_weak a = fe52_carry_pass (fe52_fold_top (fe52_carry_pass a))"

text \<open>A C++ comparison used as a number.\<close>

abbreviation flag64 :: "bool \<Rightarrow> u64" where "flag64 b \<equiv> (if b then 1 else 0)"

definition fe52_reduce_flag :: "fe52 \<Rightarrow> u64" where
  "fe52_reduce_flag a =
     (case a of Fe52 t0 t1 t2 t3 t4 \<Rightarrow>
        let m = t1 AND t2 AND t3
        in drop_bit 48 t4 OR (flag64 (t4 = M48) AND flag64 (m = M52) AND flag64 (t0 \<ge> 0xFFFFEFFFFFC2F)))"

definition fe52_normalize :: "fe52 \<Rightarrow> fe52" where
  "fe52_normalize a =
     (let t = fe52_carry_pass (fe52_fold_top a);
          x = fe52_reduce_flag t;
          t = fe52_carry_pass (Fe52 (n0 t + x * 0x1000003D1) (n1 t) (n2 t) (n3 t) (n4 t))
      in Fe52 (n0 t) (n1 t) (n2 t) (n3 t) (n4 t AND M48))"

definition fe52_normalizes_to_zero :: "fe52 \<Rightarrow> bool" where
  "fe52_normalizes_to_zero a =
     (case fe52_normalize a of Fe52 t0 t1 t2 t3 t4 \<Rightarrow> t0 OR t1 OR t2 OR t3 OR t4 = 0)"

definition fe52_normalizes_to_zero_var :: "fe52 \<Rightarrow> bool" where
  "fe52_normalizes_to_zero_var a = (case a of Fe52 t0 t1 t2 t3 t4 \<Rightarrow>
     (let x = drop_bit 48 t4;
          t0 = t0 + x * 0x1000003D1;
          z0 = t0 AND M52;
          z1 = z0 XOR 0x1000003D0
      in if z0 \<noteq> 0 \<and> z1 \<noteq> M52 then False
         else
           (let t4 = t4 AND M48;
                t1 = t1 + drop_bit 52 t0;
                t2 = t2 + drop_bit 52 t1; t1 = t1 AND M52; z0 = z0 OR t1; z1 = z1 AND t1;
                t3 = t3 + drop_bit 52 t2; t2 = t2 AND M52; z0 = z0 OR t2; z1 = z1 AND t2;
                t4 = t4 + drop_bit 52 t3; t3 = t3 AND M52; z0 = z0 OR t3; z1 = z1 AND t3;
                z0 = z0 OR t4; z1 = z1 AND (t4 XOR 0xF000000000000)
            in z0 = 0 \<or> z1 = M52)))"

definition fe52_is_zero :: "fe52 \<Rightarrow> bool" where
  "fe52_is_zero a = fe52_normalizes_to_zero_var a"

definition fe52_eq :: "fe52 \<Rightarrow> fe52 \<Rightarrow> bool" where
  "fe52_eq a b = (fe52_normalize a = fe52_normalize b)"

fun fe52_is_one_raw :: "fe52 \<Rightarrow> bool" where
  "fe52_is_one_raw (Fe52 a0 a1 a2 a3 a4) \<longleftrightarrow> a0 = 1 \<and> a1 = 0 \<and> a2 = 0 \<and> a3 = 0 \<and> a4 = 0"

fun fe52_from_4x64_limbs :: "limbs4 \<Rightarrow> fe52" where
  "fe52_from_4x64_limbs (Limbs4 l0 l1 l2 l3) =
     Fe52 (l0 AND M52)
          (drop_bit 52 l0 OR push_bit 12 (l1 AND 0xFFFFFFFFFF))
          (drop_bit 40 l1 OR push_bit 24 (l2 AND 0xFFFFFFF))
          (drop_bit 28 l2 OR push_bit 36 (l3 AND 0xFFFF))
          (drop_bit 16 l3)"

definition fe52_from_fe :: "field_element \<Rightarrow> fe52" where
  "fe52_from_fe fe = fe52_from_4x64_limbs (fe_limbs fe)"

fun fe52_pack :: "fe52 \<Rightarrow> limbs4" where
  "fe52_pack (Fe52 a0 a1 a2 a3 a4) =
     Limbs4 (a0 OR push_bit 52 a1) (drop_bit 12 a1 OR push_bit 40 a2)
            (drop_bit 24 a2 OR push_bit 28 a3) (drop_bit 36 a3 OR push_bit 16 a4)"

definition fe52_to_fe :: "fe52 \<Rightarrow> field_element" where
  "fe52_to_fe a = FieldElement (fe52_pack (fe52_normalize a))"

definition fe52_store_b32_prenorm :: "fe52 \<Rightarrow> bytes" where
  "fe52_store_b32_prenorm a =
     (case fe52_pack a of Limbs4 l0 l1 l2 l3 \<Rightarrow> store_be64 l3 @ store_be64 l2 @ store_be64 l1 @ store_be64 l0)"

definition fe52_to_bytes_into :: "fe52 \<Rightarrow> bytes" where
  "fe52_to_bytes_into a =
     (case fe52_normalize a of Fe52 t0 t1 t2 t3 t4 \<Rightarrow>
        [ucast (drop_bit 40 t4), ucast (drop_bit 32 t4), ucast (drop_bit 24 t4), ucast (drop_bit 16 t4),
         ucast (drop_bit 8 t4), ucast t4,
         ucast (drop_bit 44 t3), ucast (drop_bit 36 t3), ucast (drop_bit 28 t3), ucast (drop_bit 20 t3),
         ucast (drop_bit 12 t3), ucast (drop_bit 4 t3),
         ucast ((drop_bit 48 t2 AND 0xF) OR push_bit 4 (t3 AND 0xF)),
         ucast (drop_bit 40 t2), ucast (drop_bit 32 t2), ucast (drop_bit 24 t2), ucast (drop_bit 16 t2),
         ucast (drop_bit 8 t2), ucast t2,
         ucast (drop_bit 44 t1), ucast (drop_bit 36 t1), ucast (drop_bit 28 t1), ucast (drop_bit 20 t1),
         ucast (drop_bit 12 t1), ucast (drop_bit 4 t1),
         ucast ((drop_bit 48 t0 AND 0xF) OR push_bit 4 (t1 AND 0xF)),
         ucast (drop_bit 40 t0), ucast (drop_bit 32 t0), ucast (drop_bit 24 t0), ucast (drop_bit 16 t0),
         ucast (drop_bit 8 t0), ucast t0])"

text \<open>
  \<open>from_bytes\<close>: the limbs of 32 big-endian bytes, the early-exit comparison with the prime from the top limb,
  and its subtraction by adding the complement.
\<close>

definition ge_prime_var :: "limbs4 \<Rightarrow> bool" where
  "ge_prime_var l =
     (if limb3 l < limb3 PRIME then False else if limb3 l > limb3 PRIME then True
      else if limb2 l < limb2 PRIME then False else if limb2 l > limb2 PRIME then True
      else if limb1 l < limb1 PRIME then False else if limb1 l > limb1 PRIME then True
      else \<not> limb0 l < limb0 PRIME)"

definition sub_prime_noborrow :: "limbs4 \<Rightarrow> limbs4" where
  "sub_prime_noborrow l =
     (let acc = ucast (limb0 l) + ucast (NOT (limb0 PRIME)) + 1 :: u128; l0 = ucast acc;
          acc = ucast (limb1 l) + ucast (NOT (limb1 PRIME)) + ucast (ucast (drop_bit 64 acc) :: u64) :: u128; l1 = ucast acc;
          acc = ucast (limb2 l) + ucast (NOT (limb2 PRIME)) + ucast (ucast (drop_bit 64 acc) :: u64) :: u128; l2 = ucast acc;
          l3 = limb3 l + NOT (limb3 PRIME) + ucast (drop_bit 64 acc)
      in Limbs4 l0 l1 l2 l3)"

definition be_limb :: "bytes \<Rightarrow> nat \<Rightarrow> u64" where
  "be_limb bs i = foldl (\<lambda>limb j. push_bit 8 limb OR ucast (bs ! (i * 8 + j))) 0 [0..<8]"

definition fe52_from_bytes :: "bytes \<Rightarrow> fe52" where
  "fe52_from_bytes bs =
     (let l = Limbs4 (be_limb bs 3) (be_limb bs 2) (be_limb bs 1) (be_limb bs 0);
          l = (if ge_prime_var l then sub_prime_noborrow l else l)
      in fe52_from_4x64_limbs l)"

section \<open>Values and magnitudes\<close>

fun fe52_val :: "fe52 \<Rightarrow> int" where
  "fe52_val (Fe52 a0 a1 a2 a3 a4) = uint a0 + 2 ^ 52 * uint a1 + 2 ^ 104 * uint a2 + 2 ^ 156 * uint a3 + 2 ^ 208 * uint a4"

text \<open>
  \<open>magnitude_of\<close> and \<open>magnitude_ok\<close> of field_52_magnitude.hpp.
\<close>

definition ceil_div :: "u64 \<Rightarrow> u64 \<Rightarrow> u64" where
  "ceil_div limb m = limb div m + (if limb mod m \<noteq> 0 then 1 else 0)"

fun magnitude_of :: "fe52 \<Rightarrow> u32" where
  "magnitude_of (Fe52 a0 a1 a2 a3 a4) =
     (let m = fold (\<lambda>limb m. let mi = ceil_div limb M52 in if mi > m then mi else m) [a0, a1, a2, a3] 0;
          m4 = ceil_div a4 M48;
          m = (if m4 > m then m4 else m)
      in if m > 0xFFFFFFFF then 0xFFFFFFFF else ucast m)"

definition magnitude_ok :: "fe52 \<Rightarrow> u32 \<Rightarrow> bool" where
  "magnitude_ok a m \<longleftrightarrow> magnitude_of a \<le> m"

text \<open>
  For the proofs, a finer bound: the four low limbs in units of \<open>2^52 - 1\<close>, the top one in units of \<open>2^43\<close>,
  32 of which just exceed a unit of magnitude.
\<close>

fun mag :: "int \<Rightarrow> int \<Rightarrow> fe52 \<Rightarrow> bool" where
  "mag l h (Fe52 a0 a1 a2 a3 a4) \<longleftrightarrow> uint a0 \<le> l * 0xFFFFFFFFFFFFF \<and> uint a1 \<le> l * 0xFFFFFFFFFFFFF \<and>
     uint a2 \<le> l * 0xFFFFFFFFFFFFF \<and> uint a3 \<le> l * 0xFFFFFFFFFFFFF \<and> uint a4 \<le> h * 0x80000000000"

section \<open>Words\<close>

text \<open>No limb is near the end of its word: what every operation without carries needs.\<close>

fun fe52_loose :: "fe52 \<Rightarrow> bool" where
  "fe52_loose (Fe52 a0 a1 a2 a3 a4) \<longleftrightarrow> uint a0 \<le> 0xFFF0000000000000 \<and> uint a1 \<le> 0xFFF0000000000000 \<and>
     uint a2 \<le> 0xFFF0000000000000 \<and> uint a3 \<le> 0xFFF0000000000000 \<and> uint a4 \<le> 0xFFF0000000000000"

lemma mag_loose: "mag l h a \<Longrightarrow> l \<le> 4095 \<Longrightarrow> h \<le> 2000000 \<Longrightarrow> fe52_loose a"
  by (cases a) simp

lemma mag_mono:
  assumes "mag l h a" "l \<le> l'" "h \<le> h'"
  shows "mag l' h' a"
proof -
  obtain a0 a1 a2 a3 a4 where a: "a = Fe52 a0 a1 a2 a3 a4" by (cases a)
  show ?thesis using assms unfolding a mag.simps by linarith
qed

lemma uint_M52: "uint (x AND M52) = uint x mod 2 ^ 52"
proof -
  have "x AND M52 = take_bit 52 x" by (simp add: M52_def take_bit_eq_mask mask_eq_exp_minus_1)
  then show ?thesis by (simp only: unsigned_take_bit_eq) (simp only: take_bit_eq_mod)
qed

lemma uint_M48: "uint (x AND M48) = uint x mod 2 ^ 48"
proof -
  have "x AND M48 = take_bit 48 x" by (simp add: M48_def take_bit_eq_mask mask_eq_exp_minus_1)
  then show ?thesis by (simp only: unsigned_take_bit_eq) (simp only: take_bit_eq_mod)
qed

lemma uint_add64: "uint a + uint b < 0x10000000000000000 \<Longrightarrow> uint (a + b :: u64) = uint a + uint b"
  using uint_add_lem [of a b] by simp

lemma uint_sub64: "uint b \<le> uint a \<Longrightarrow> uint (a - b :: u64) = uint a - uint b"
  by (simp add: uint_sub_lem)

lemma uint_mult64: "uint a * uint b < 0x10000000000000000 \<Longrightarrow> uint (a * b :: u64) = uint a * uint b"
  using uint_mult_lem [of a b] by simp

lemma uint_ucast32: "uint (ucast (m :: u32) :: u64) = uint m"
  by (rule bit_eqI) (auto simp: bit_simps bit_uint_iff dest: bit_imp_le_length)

section \<open>Sums, negations, small multiples, halves\<close>

lemma fe52_add_val:
  assumes "mag l h a" "mag l' h' b" "l + l' \<le> 4095" "h + h' \<le> 2000000"
  shows "fe52_val (fe52_add a b) = fe52_val a + fe52_val b" "mag (l + l') (h + h') (fe52_add a b)"
  using assms by (cases a; cases b; simp add: uint_add64 algebra_simps)+

lemma uint_limbs_P: "uint P0 = 0xFFFFEFFFFFC2F" "uint P1 = 0xFFFFFFFFFFFFF" "uint P4 = 0xFFFFFFFFFFFF"
  by (simp_all add: P0_def P1_def P4_def)

lemma fe52_negate_val:
  assumes "mag l h a" "uint m < 2000" "l \<le> uint m" "h \<le> 32 * uint m + 31"
  shows "fe52_val (fe52_negate m a) = (uint m + 1) * prime_p - fe52_val a" "mag (uint m + 1) (32 * (uint m + 1)) (fe52_negate m a)"
proof -
  obtain a0 a1 a2 a3 a4 where a: "a = Fe52 a0 a1 a2 a3 a4" by (cases a)
  define k where "k = uint m + 1"
  have k: "0 \<le> k" "k \<le> 2000" using assms(2) by (simp_all add: k_def)
  have m1: "uint (ucast m + 1 :: u64) = k"
  proof -
    show ?thesis using assms(2) by (subst uint_add64) (simp_all add: k_def uint_ucast32)
  qed
  have p: "uint ((ucast m + 1) * P0) = k * 0xFFFFEFFFFFC2F" "uint ((ucast m + 1) * P1) = k * 0xFFFFFFFFFFFFF" "uint ((ucast m + 1) * P4) = k * 0xFFFFFFFFFFFF"
    using k by (subst uint_mult64; simp add: m1 uint_limbs_P)+
  have b: "uint a0 \<le> k * 0xFFFFEFFFFFC2F" "uint a1 \<le> k * 0xFFFFFFFFFFFFF" "uint a2 \<le> k * 0xFFFFFFFFFFFFF" "uint a3 \<le> k * 0xFFFFFFFFFFFFF"
    "uint a4 \<le> k * 0xFFFFFFFFFFFF"
    using assms by (simp_all add: a k_def)
  have d: "uint ((ucast m + 1) * P0 - a0) = k * 0xFFFFEFFFFFC2F - uint a0" "uint ((ucast m + 1) * P1 - a1) = k * 0xFFFFFFFFFFFFF - uint a1"
    "uint ((ucast m + 1) * P1 - a2) = k * 0xFFFFFFFFFFFFF - uint a2" "uint ((ucast m + 1) * P1 - a3) = k * 0xFFFFFFFFFFFFF - uint a3"
    "uint ((ucast m + 1) * P4 - a4) = k * 0xFFFFFFFFFFFF - uint a4"
    using b by (subst uint_sub64; simp add: p)+
  show "fe52_val (fe52_negate m a) = (uint m + 1) * prime_p - fe52_val a"
    by (simp add: a Let_def d prime_p_def k_def [symmetric])
  show "mag (uint m + 1) (32 * (uint m + 1)) (fe52_negate m a)"
    unfolding k_def [symmetric] a fe52_negate.simps Let_def mag.simps d
    using k(1) uint_ge_0 [of a0] uint_ge_0 [of a1] uint_ge_0 [of a2] uint_ge_0 [of a3] uint_ge_0 [of a4]
    by (intro conjI) linarith+
qed

lemma fe52_mul_int_val:
  assumes "mag l h a" "0 \<le> l" "0 \<le> h" "l * uint c \<le> 4095" "h * uint c \<le> 2000000"
  shows "fe52_val (fe52_mul_int c a) = uint c * fe52_val a" "mag (l * uint c) (h * uint c) (fe52_mul_int c a)"
proof -
  obtain a0 a1 a2 a3 a4 where a: "a = Fe52 a0 a1 a2 a3 a4" by (cases a)
  note c = uint_ucast32 [of c]
  have b: "uint a0 * uint c \<le> l * 0xFFFFFFFFFFFFF * uint c" "uint a1 * uint c \<le> l * 0xFFFFFFFFFFFFF * uint c"
    "uint a2 * uint c \<le> l * 0xFFFFFFFFFFFFF * uint c" "uint a3 * uint c \<le> l * 0xFFFFFFFFFFFFF * uint c" "uint a4 * uint c \<le> h * 0x80000000000 * uint c"
    using assms(1) by (auto simp only: a mag.simps intro: mult_right_mono uint_ge_0)
  have r: "l * 0xFFFFFFFFFFFFF * uint c = (l * uint c) * 0xFFFFFFFFFFFFF" "h * 0x80000000000 * uint c = (h * uint c) * 0x80000000000" by simp_all
  have u: "uint (a0 * ucast c) = uint a0 * uint c" "uint (a1 * ucast c) = uint a1 * uint c" "uint (a2 * ucast c) = uint a2 * uint c"
    "uint (a3 * ucast c) = uint a3 * uint c" "uint (a4 * ucast c) = uint a4 * uint c"
    using b assms(4,5) unfolding r by (subst uint_mult64; simp add: c)+
  show "fe52_val (fe52_mul_int c a) = uint c * fe52_val a" by (simp add: a u algebra_simps)
  show "mag (l * uint c) (h * uint c) (fe52_mul_int c a)" using b unfolding r by (simp add: a u)
qed

text \<open>Halving: the limb sums with the masked prime, and the telescoping shifts.\<close>

lemma uint_and_1: "uint (x AND 1 :: u64) = uint x mod 2"
  by (simp only: unsigned_and_eq) (simp add: and_one_eq)

lemma half_mask:
  "drop_bit 12 (0 - (x AND 1) :: u64) = (if uint x mod 2 = 1 then M52 else 0)"
proof (cases "uint x mod 2 = 1")
  case True
  then have "uint (x AND 1) = uint (1 :: u64)" by (simp add: uint_and_1)
  then have "x AND 1 = 1" by (simp only: word_uint_eq_iff [symmetric])
  then show ?thesis using True by (simp add: M52_def mask_eq_exp_minus_1)
next
  case False
  then have "uint (x AND 1) = uint (0 :: u64)" by (simp add: uint_and_1)
  then have "x AND 1 = 0" by (simp only: word_uint_eq_iff [symmetric])
  then show ?thesis using False by simp
qed

lemma uint_add_mask:
  assumes "uint x \<le> 0xFFF0000000000000" "uint y \<le> 0xFFFFFFFFFFFFF"
  shows "uint (x + y :: u64) = uint x + uint y"
  using assms by (intro uint_add64) linarith

lemma fe52_half_words:
  assumes "fe52_loose (Fe52 a0 a1 a2 a3 a4)"
  defines "o' \<equiv> uint a0 mod 2"
  defines "t0 \<equiv> uint a0 + o' * 0xFFFFEFFFFFC2F" and "t1 \<equiv> uint a1 + o' * 0xFFFFFFFFFFFFF" and "t2 \<equiv> uint a2 + o' * 0xFFFFFFFFFFFFF"
    and "t3 \<equiv> uint a3 + o' * 0xFFFFFFFFFFFFF" and "t4 \<equiv> uint a4 + o' * 0xFFFFFFFFFFFF"
  shows "case fe52_half (Fe52 a0 a1 a2 a3 a4) of Fe52 r0 r1 r2 r3 r4 \<Rightarrow>
    uint r0 = t0 div 2 + 2 ^ 51 * (t1 mod 2) \<and> uint r1 = t1 div 2 + 2 ^ 51 * (t2 mod 2) \<and>
    uint r2 = t2 div 2 + 2 ^ 51 * (t3 mod 2) \<and> uint r3 = t3 div 2 + 2 ^ 51 * (t4 mod 2) \<and> uint r4 = t4 div 2"
proof -
  have o': "o' = 0 \<or> o' = 1" unfolding o'_def by linarith
  define m :: u64 where "m = (if uint a0 mod 2 = 1 then M52 else 0)"
  have m: "uint (0xFFFFEFFFFFC2F AND m) = o' * 0xFFFFEFFFFFC2F" "uint m = o' * 0xFFFFFFFFFFFFF" "uint (drop_bit 4 m) = o' * 0xFFFFFFFFFFFF"
    using o' by (auto simp: m_def o'_def M52_def)
  have t: "uint (a0 + (0xFFFFEFFFFFC2F AND m)) = t0" "uint (a1 + m) = t1" "uint (a2 + m) = t2" "uint (a3 + m) = t3" "uint (a4 + drop_bit 4 m) = t4"
    unfolding t0_def t1_def t2_def t3_def t4_def m [symmetric]
    using assms(1) o' by (intro uint_add_mask; auto simp: m)+
  have sh: "uint (push_bit 51 (y AND 1) :: u64) = 2 ^ 51 * (uint y mod 2)" for y :: u64
  proof -
    have "uint y mod 2 = 0 \<or> uint y mod 2 = 1" by linarith
    then have "uint (y AND 1) = uint (0 :: u64) \<or> uint (y AND 1) = uint (1 :: u64)" by (simp add: uint_and_1)
    then have "y AND 1 = 0 \<or> y AND 1 = 1" by (simp only: word_uint_eq_iff [symmetric])
    then show ?thesis unfolding uint_and_1 [symmetric] by (elim disjE) (simp_all only:, simp_all)
  qed
  have s: "uint (drop_bit 1 x + push_bit 51 (y AND 1)) = uint x div 2 + 2 ^ 51 * (uint y mod 2)" for x y :: u64
  proof -
    have "uint y mod 2 \<le> 1" "uint x div 2 \<le> 0x7FFFFFFFFFFFFFFF" using uint_lt64 [of x] by linarith+
    then have "uint (drop_bit 1 x) + uint (push_bit 51 (y AND 1)) < 0x10000000000000000"
      unfolding sh uint_drop_bit_div by simp
    then show ?thesis by (simp only: uint_add64 sh) (simp add: uint_drop_bit_div)
  qed
  show ?thesis
    unfolding fe52_half.simps Let_def half_mask m_def [symmetric] fe52.case s t by (simp add: uint_drop_bit_div t)
qed

lemma half_sum:
  fixes x0 x1 x2 x3 x4 y1 y2 y3 y4 :: int
  shows "2 * (x0 + 2 ^ 51 * y1 + 2 ^ 52 * (x1 + 2 ^ 51 * y2) + 2 ^ 104 * (x2 + 2 ^ 51 * y3) + 2 ^ 156 * (x3 + 2 ^ 51 * y4) + 2 ^ 208 * x4) =
    2 * x0 + 2 ^ 52 * (2 * x1 + y1) + 2 ^ 104 * (2 * x2 + y2) + 2 ^ 156 * (2 * x3 + y3) + 2 ^ 208 * (2 * x4 + y4)"
  by (simp add: algebra_simps)

lemma half_bound:
  fixes l l' t y :: int
  assumes "l + 3 \<le> 2 * l'" "t \<le> l * 0xFFFFFFFFFFFFF + 0xFFFFFFFFFFFFF" "y \<le> 1"
  shows "t div 2 + 0x8000000000000 * y \<le> l' * 0xFFFFFFFFFFFFF"
proof -
  have "2 * (t div 2) \<le> t" by linarith
  then show ?thesis using assms by linarith
qed

lemma fe52_half_val:
  assumes "mag l h a" "l \<le> 4000" "h \<le> 100000" "l + 3 \<le> 2 * l'" "h + 32 \<le> 2 * h'"
  shows "2 * fe52_val (fe52_half a) = fe52_val a + (uint (n0 a) mod 2) * prime_p" "mag l' h' (fe52_half a)"
proof -
  obtain a0 a1 a2 a3 a4 where a: "a = Fe52 a0 a1 a2 a3 a4" by (cases a)
  obtain r0 r1 r2 r3 r4 where r: "fe52_half a = Fe52 r0 r1 r2 r3 r4" by (cases "fe52_half a")
  define q where "q = uint a0 mod 2"
  define t0 t1 t2 t3 t4 where t: "t0 = uint a0 + q * 0xFFFFEFFFFFC2F" "t1 = uint a1 + q * 0xFFFFFFFFFFFFF" "t2 = uint a2 + q * 0xFFFFFFFFFFFFF"
    "t3 = uint a3 + q * 0xFFFFFFFFFFFFF" "t4 = uint a4 + q * 0xFFFFFFFFFFFF"
  have q: "0 \<le> q" "q \<le> 1" unfolding q_def by linarith+
  have "fe52_loose a" using assms(2,3) by (intro mag_loose [OF assms(1)]) linarith+
  from fe52_half_words [OF this [unfolded a], folded q_def, folded t] r a
  have u: "uint r0 = t0 div 2 + 2 ^ 51 * (t1 mod 2)" "uint r1 = t1 div 2 + 2 ^ 51 * (t2 mod 2)"
    "uint r2 = t2 div 2 + 2 ^ 51 * (t3 mod 2)" "uint r3 = t3 div 2 + 2 ^ 51 * (t4 mod 2)" "uint r4 = t4 div 2" by simp_all
  have ev: "t0 mod 2 = 0"
  proof -
    have "t0 = 2 * (uint a0 div 2) + q * 0xFFFFEFFFFFC30" unfolding t q_def using mult_div_mod_eq [of 2 "uint a0"] by linarith
    then show ?thesis by simp
  qed
  have d: "t0 = 2 * (t0 div 2)" "t1 = 2 * (t1 div 2) + t1 mod 2" "t2 = 2 * (t2 div 2) + t2 mod 2"
    "t3 = 2 * (t3 div 2) + t3 mod 2" "t4 = 2 * (t4 div 2) + t4 mod 2"
    using ev mult_div_mod_eq [of 2 t0] by simp_all
  have "2 * fe52_val (fe52_half a) = 2 * (t0 div 2) + 2 ^ 52 * (2 * (t1 div 2) + t1 mod 2) + 2 ^ 104 * (2 * (t2 div 2) + t2 mod 2) +
      2 ^ 156 * (2 * (t3 div 2) + t3 mod 2) + 2 ^ 208 * (2 * (t4 div 2) + t4 mod 2)"
    unfolding r fe52_val.simps u by (rule half_sum)
  also have "\<dots> = t0 + 2 ^ 52 * t1 + 2 ^ 104 * t2 + 2 ^ 156 * t3 + 2 ^ 208 * t4" by (simp only: d [symmetric])
  also have "\<dots> = fe52_val a + q * prime_p" unfolding t a by (simp add: prime_p_def algebra_simps)
  finally show "2 * fe52_val (fe52_half a) = fe52_val a + (uint (n0 a) mod 2) * prime_p" by (simp add: a q_def)
  have e: "(2 :: int) ^ 51 = 0x8000000000000" by simp
  have "uint a0 \<le> l * 0xFFFFFFFFFFFFF" "uint a1 \<le> l * 0xFFFFFFFFFFFFF" "uint a2 \<le> l * 0xFFFFFFFFFFFFF" "uint a3 \<le> l * 0xFFFFFFFFFFFFF"
    "uint a4 \<le> h * 0x80000000000"
    using assms(1) by (simp_all add: a)
  then have b: "t0 \<le> l * 0xFFFFFFFFFFFFF + 0xFFFFFFFFFFFFF" "t1 \<le> l * 0xFFFFFFFFFFFFF + 0xFFFFFFFFFFFFF"
    "t2 \<le> l * 0xFFFFFFFFFFFFF + 0xFFFFFFFFFFFFF" "t3 \<le> l * 0xFFFFFFFFFFFFF + 0xFFFFFFFFFFFFF"
    "t4 \<le> h * 0x80000000000 + 0xFFFFFFFFFFFF"
    using q unfolding t by - linarith+
  have m: "t1 mod 2 \<le> 1" "t2 mod 2 \<le> 1" "t3 mod 2 \<le> 1" "t4 mod 2 \<le> 1" "t4 div 2 \<le> h' * 0x80000000000"
    using b(5) assms(5) by linarith+
  have "uint r0 \<le> l' * 0xFFFFFFFFFFFFF" "uint r1 \<le> l' * 0xFFFFFFFFFFFFF" "uint r2 \<le> l' * 0xFFFFFFFFFFFFF" "uint r3 \<le> l' * 0xFFFFFFFFFFFFF"
    "uint r4 \<le> h' * 0x80000000000"
    unfolding u e by (intro half_bound [OF assms(4)] b m)+
  then show "mag l' h' (fe52_half a)" by (simp only: r mag.simps)
qed

section \<open>Normalisation\<close>

text \<open>One carry pass, with its four carries.\<close>

lemma fe52_carry_passE:
  assumes "uint a0 \<le> 0xFFFF000000000000" "uint a1 \<le> 0xFFFF000000000000" "uint a2 \<le> 0xFFFF000000000000"
    "uint a3 \<le> 0xFFFF000000000000" "uint a4 \<le> 0xFFFF000000000000"
  obtains r0 r1 r2 r3 r4 c0 c1 c2 c3 where "fe52_carry_pass (Fe52 a0 a1 a2 a3 a4) = Fe52 r0 r1 r2 r3 r4"
    "uint r0 + 0x10000000000000 * c0 = uint a0" "uint r1 + 0x10000000000000 * c1 = uint a1 + c0"
    "uint r2 + 0x10000000000000 * c2 = uint a2 + c1" "uint r3 + 0x10000000000000 * c3 = uint a3 + c2" "uint r4 = uint a4 + c3"
    "uint r0 \<le> 0xFFFFFFFFFFFFF" "uint r1 \<le> 0xFFFFFFFFFFFFF" "uint r2 \<le> 0xFFFFFFFFFFFFF" "uint r3 \<le> 0xFFFFFFFFFFFFF"
    "0 \<le> c0" "0 \<le> c1" "0 \<le> c2" "0 \<le> c3"
proof -
  have dm: "uint (x AND M52) + 0x10000000000000 * uint (drop_bit 52 x) = uint x" "uint (x AND M52) \<le> 0xFFFFFFFFFFFFF" for x
    unfolding uint_M52 uint_drop_bit_div using mod_mult_div_eq [of "uint x" "2 ^ 52"] by simp_all
  have ad: "uint (x + drop_bit 52 y) = uint x + uint (drop_bit 52 y)" if "uint x \<le> 0xFFFF000000000000" for x y :: u64
  proof -
    have "uint y div 0x10000000000000 \<le> 4095" using uint_lt64 [of y] by linarith
    then have "uint (drop_bit 52 y) \<le> 4095" by (simp add: uint_drop_bit_div)
    then show ?thesis using that by (intro uint_add64) linarith
  qed
  define t1 t2 t3 t4 where t: "t1 = a1 + drop_bit 52 a0" "t2 = a2 + drop_bit 52 t1" "t3 = a3 + drop_bit 52 t2" "t4 = a4 + drop_bit 52 t3"
  have r: "fe52_carry_pass (Fe52 a0 a1 a2 a3 a4) = Fe52 (a0 AND M52) (t1 AND M52) (t2 AND M52) (t3 AND M52) t4"
    unfolding fe52_carry_pass_def fe52.case Let_def t ..
  note u = ad [OF assms(2), of a0, folded t] ad [OF assms(3), of t1, folded t] ad [OF assms(4), of t2, folded t] ad [OF assms(5), of t3, folded t]
  show ?thesis
    by (rule that [OF r, of "uint (drop_bit 52 a0)" "uint (drop_bit 52 t1)" "uint (drop_bit 52 t2)" "uint (drop_bit 52 t3)"])
      (use dm u in auto)
qed

text \<open>The fold, which subtracts a multiple of the prime.\<close>

lemma fe52_fold_topE:
  assumes "uint a0 \<le> 0xFFF0000000000000"
  obtains r0 r4 x where "fe52_fold_top (Fe52 a0 a1 a2 a3 a4) = Fe52 r0 a1 a2 a3 r4" "uint r0 = uint a0 + x * 0x1000003D1"
    "uint r4 + 0x1000000000000 * x = uint a4" "uint r4 \<le> 0xFFFFFFFFFFFF" "0 \<le> x" "x \<le> 0xFFFF"
proof -
  have "uint a4 div 0x1000000000000 \<le> 0xFFFF" using uint_lt64 [of a4] by linarith
  then have x: "uint (drop_bit 48 a4) \<le> 0xFFFF" by (simp add: uint_drop_bit_div)
  have m: "uint (drop_bit 48 a4 * 0x1000003D1) = uint (drop_bit 48 a4) * 0x1000003D1"
    by (rule trans [OF uint_mult64]) (use x in simp_all)
  have s: "uint (a0 + drop_bit 48 a4 * 0x1000003D1) = uint a0 + uint (drop_bit 48 a4) * 0x1000003D1"
    unfolding m [symmetric] by (rule uint_add64) (use x assms in \<open>simp add: m\<close>)
  have t: "uint (a4 AND M48) + 0x1000000000000 * uint (drop_bit 48 a4) = uint a4" "uint (a4 AND M48) \<le> 0xFFFFFFFFFFFF"
    unfolding uint_M48 uint_drop_bit_div using mod_mult_div_eq [of "uint a4" "2 ^ 48"] by simp_all
  show ?thesis
    by (rule that [OF _ s t _ x]) (simp_all add: fe52_fold_top_def Let_def)
qed

text \<open>The middle state of \<open>normalize\<close>: folded and carried, at most a little above \<open>2^256\<close>.\<close>

lemma fe52_foldedE:
  assumes "fe52_loose a"
  obtains r0 r1 r2 r3 r4 x where "fe52_carry_pass (fe52_fold_top a) = Fe52 r0 r1 r2 r3 r4"
    "fe52_val (Fe52 r0 r1 r2 r3 r4) = fe52_val a - x * prime_p"
    "uint r0 \<le> 0xFFFFFFFFFFFFF" "uint r1 \<le> 0xFFFFFFFFFFFFF" "uint r2 \<le> 0xFFFFFFFFFFFFF" "uint r3 \<le> 0xFFFFFFFFFFFFF" "uint r4 \<le> 0x1000000002000"
proof -
  obtain a0 a1 a2 a3 a4 where a: "a = Fe52 a0 a1 a2 a3 a4" by (cases a)
  from assms have l: "uint a0 \<le> 0xFFF0000000000000" "uint a1 \<le> 0xFFF0000000000000" "uint a2 \<le> 0xFFF0000000000000" "uint a3 \<le> 0xFFF0000000000000"
    by (simp_all add: a)
  from fe52_fold_topE [OF l(1), of a1 a2 a3 a4] obtain s0 s4 x where f:
    "fe52_fold_top a = Fe52 s0 a1 a2 a3 s4" "uint s0 = uint a0 + x * 0x1000003D1"
    "uint s4 + 0x1000000000000 * x = uint a4" "uint s4 \<le> 0xFFFFFFFFFFFF" "0 \<le> x" "x \<le> 0xFFFF" unfolding a by metis
  have b: "uint s0 \<le> 0xFFFF000000000000" "uint a1 \<le> 0xFFFF000000000000" "uint a2 \<le> 0xFFFF000000000000"
    "uint a3 \<le> 0xFFFF000000000000" "uint s4 \<le> 0xFFFF000000000000" using f(2,4,5,6) l by linarith+
  from fe52_carry_passE [OF b] obtain r0 r1 r2 r3 r4 c0 c1 c2 c3 where r: "fe52_carry_pass (Fe52 s0 a1 a2 a3 s4) = Fe52 r0 r1 r2 r3 r4"
    "uint r0 + 0x10000000000000 * c0 = uint s0" "uint r1 + 0x10000000000000 * c1 = uint a1 + c0"
    "uint r2 + 0x10000000000000 * c2 = uint a2 + c1" "uint r3 + 0x10000000000000 * c3 = uint a3 + c2" "uint r4 = uint s4 + c3"
    "uint r0 \<le> 0xFFFFFFFFFFFFF" "uint r1 \<le> 0xFFFFFFFFFFFFF" "uint r2 \<le> 0xFFFFFFFFFFFFF" "uint r3 \<le> 0xFFFFFFFFFFFFF"
    "0 \<le> c0" "0 \<le> c1" "0 \<le> c2" "0 \<le> c3" by metis
  show ?thesis
  proof (rule that [OF r(1) [folded f(1)] _ r(7-10)])
    show "fe52_val (Fe52 r0 r1 r2 r3 r4) = fe52_val a - x * prime_p"
      using r(2-6) f(2,3) unfolding a fe52_val.simps prime_p_def by (simp; linarith)
    have "c3 \<le> 0x2000" using r(2-14) b uint_ge_0 [of r1] uint_ge_0 [of r2] uint_ge_0 [of r3] uint_ge_0 [of r0] by linarith
    then show "uint r4 \<le> 0x1000000002000" using r(6) f(4) by linarith
  qed
qed

text \<open>The comparison flag of the folded value.\<close>

lemma and_max52: "x AND M52 = M52 \<longleftrightarrow> uint x mod 2 ^ 52 = 2 ^ 52 - 1"
  by (simp add: word_uint_eq_iff uint_M52) (simp add: M52_def)

lemma fe52_limbs_max:
  assumes "uint x \<le> 0xFFFFFFFFFFFFF" "uint y \<le> 0xFFFFFFFFFFFFF" "uint z \<le> 0xFFFFFFFFFFFFF"
  shows "x AND y AND z = M52 \<longleftrightarrow> x = M52 \<and> y = M52 \<and> z = M52"
proof
  assume e: "x AND y AND z = M52"
  have le: "uint (a AND b) \<le> uint a" "uint (a AND b) \<le> uint b" for a b :: u64
    using word_and_le2 [of a b] word_and_le2 [of b a] by (simp_all add: word_le_def and.commute)
  have m: "uint M52 = 0xFFFFFFFFFFFFF" by (simp add: M52_def)
  have "uint M52 \<le> uint x" "uint M52 \<le> uint y" "uint M52 \<le> uint z"
    using le(1) [of x "y AND z"] le(2) [of x "y AND z"] le(1) [of y z] le(2) [of y z] unfolding e by linarith+
  then show "x = M52 \<and> y = M52 \<and> z = M52"
    using assms by (simp add: word_uint_eq_iff m)
qed simp

lemma fe52_ge_prime:
  assumes "0 \<le> r0" "0 \<le> r1" "0 \<le> r2" "0 \<le> r3" "r0 \<le> (0xFFFFFFFFFFFFF :: int)" "r1 \<le> 0xFFFFFFFFFFFFF" "r2 \<le> 0xFFFFFFFFFFFFF" "r3 \<le> 0xFFFFFFFFFFFFF"
  shows "prime_p \<le> r0 + 0x10000000000000 * r1 + 0x100000000000000000000000000 * r2 + 0x1000000000000000000000000000000000000000 * r3 +
      0x10000000000000000000000000000000000000000000000000000 * r4 \<longleftrightarrow>
    0x1000000000000 \<le> r4 \<or> (r4 = 0xFFFFFFFFFFFF \<and> r1 = 0xFFFFFFFFFFFFF \<and> r2 = 0xFFFFFFFFFFFFF \<and> r3 = 0xFFFFFFFFFFFFF \<and> 0xFFFFEFFFFFC2F \<le> r0)"
  (is "?l \<longleftrightarrow> ?r")
proof
  assume l: ?l
  show ?r
  proof (rule ccontr)
    assume n: "\<not> ?r"
    then consider "r4 < 0xFFFFFFFFFFFF" | "r4 = 0xFFFFFFFFFFFF" "r3 < 0xFFFFFFFFFFFFF" | "r4 = 0xFFFFFFFFFFFF" "r3 = 0xFFFFFFFFFFFFF" "r2 < 0xFFFFFFFFFFFFF"
      | "r4 = 0xFFFFFFFFFFFF" "r3 = 0xFFFFFFFFFFFFF" "r2 = 0xFFFFFFFFFFFFF" "r1 < 0xFFFFFFFFFFFFF"
      | "r4 = 0xFFFFFFFFFFFF" "r3 = 0xFFFFFFFFFFFFF" "r2 = 0xFFFFFFFFFFFFF" "r1 = 0xFFFFFFFFFFFFF" "r0 < 0xFFFFEFFFFFC2F"
      using assms by linarith
    then show False using l assms unfolding prime_p_def by cases linarith+
  qed
next
  assume ?r then show ?l using assms unfolding prime_p_def by (elim disjE conjE) linarith+
qed

end
