(* ===== verification/Fe52_Norm.thy ===== *)
theory Fe52_Norm
  imports Fe52
begin

text \<open>
  What the normalisations of \<open>FieldElement52\<close> compute: for limbs up to \<open>0xFFF0000000000000\<close>, far above any
  magnitude the point formulas reach, \<open>fe52_normalize\<close> is reduction modulo the prime, \<open>fe52_normalize_weak\<close>
  keeps the residue and restores magnitude one, and both zero tests decide whether the residue is zero. Then the
  conversions to and from the 4x64 form and bytes.
\<close>

unbundle bit_operations_syntax

section \<open>Full normalisation\<close>

fun fe52_reduced :: "fe52 \<Rightarrow> bool" where
  "fe52_reduced (Fe52 a0 a1 a2 a3 a4) \<longleftrightarrow> uint a0 \<le> 0xFFFFFFFFFFFFF \<and> uint a1 \<le> 0xFFFFFFFFFFFFF \<and> uint a2 \<le> 0xFFFFFFFFFFFFF \<and>
     uint a3 \<le> 0xFFFFFFFFFFFFF \<and> uint a4 \<le> 0xFFFFFFFFFFFF"

lemma fe52_val_inj:
  assumes "fe52_reduced a" "fe52_reduced b" "fe52_val a = fe52_val b"
  shows "a = b"
proof -
  obtain a0 a1 a2 a3 a4 where a: "a = Fe52 a0 a1 a2 a3 a4" by (cases a)
  obtain b0 b1 b2 b3 b4 where b: "b = Fe52 b0 b1 b2 b3 b4" by (cases b)
  have split: "x = y \<and> u = v" if "x + 0x10000000000000 * u = y + 0x10000000000000 * v" "0 \<le> x" "x \<le> 0xFFFFFFFFFFFFF" "0 \<le> y" "y \<le> 0xFFFFFFFFFFFFF" for x y u v :: int
  proof -
    have "x = (x + 0x10000000000000 * u) mod 0x10000000000000" "y = (y + 0x10000000000000 * v) mod 0x10000000000000"
      using that(2-5) by simp_all
    then have "x = y" using that(1) by metis
    then show ?thesis using that(1) by simp
  qed
  have l: "uint a0 \<le> 0xFFFFFFFFFFFFF" "uint a1 \<le> 0xFFFFFFFFFFFFF" "uint a2 \<le> 0xFFFFFFFFFFFFF" "uint a3 \<le> 0xFFFFFFFFFFFFF"
    "uint b0 \<le> 0xFFFFFFFFFFFFF" "uint b1 \<le> 0xFFFFFFFFFFFFF" "uint b2 \<le> 0xFFFFFFFFFFFFF" "uint b3 \<le> 0xFFFFFFFFFFFFF"
    using assms(1,2) by (simp_all add: a b)
  have "uint a0 + 0x10000000000000 * (uint a1 + 0x10000000000000 * (uint a2 + 0x10000000000000 * (uint a3 + 0x10000000000000 * uint a4))) =
    uint b0 + 0x10000000000000 * (uint b1 + 0x10000000000000 * (uint b2 + 0x10000000000000 * (uint b3 + 0x10000000000000 * uint b4)))"
    using assms(3) by (simp add: a b algebra_simps)
  from split [OF this uint_ge_0 l(1) uint_ge_0 l(5)]
  have e0: "uint a0 = uint b0" and "uint a1 + 0x10000000000000 * (uint a2 + 0x10000000000000 * (uint a3 + 0x10000000000000 * uint a4)) =
    uint b1 + 0x10000000000000 * (uint b2 + 0x10000000000000 * (uint b3 + 0x10000000000000 * uint b4))" by blast+
  from split [OF this(2) uint_ge_0 l(2) uint_ge_0 l(6)]
  have e1: "uint a1 = uint b1" and "uint a2 + 0x10000000000000 * (uint a3 + 0x10000000000000 * uint a4) =
    uint b2 + 0x10000000000000 * (uint b3 + 0x10000000000000 * uint b4)" by blast+
  from split [OF this(2) uint_ge_0 l(3) uint_ge_0 l(7)]
  have e2: "uint a2 = uint b2" and "uint a3 + 0x10000000000000 * uint a4 = uint b3 + 0x10000000000000 * uint b4" by blast+
  from split [OF this(2) uint_ge_0 l(4) uint_ge_0 l(8)] e0 e1 e2 show ?thesis by (simp add: a b word_uint_eq_iff)
qed

lemma fe52_val_reduced: "fe52_reduced a \<Longrightarrow> 0 \<le> fe52_val a \<and> fe52_val a < 2 ^ 256"
proof -
  assume r: "fe52_reduced a"
  obtain a0 a1 a2 a3 a4 where a: "a = Fe52 a0 a1 a2 a3 a4" by (cases a)
  have l: "uint a0 \<le> 0xFFFFFFFFFFFFF" "uint a1 \<le> 0xFFFFFFFFFFFFF" "uint a2 \<le> 0xFFFFFFFFFFFFF" "uint a3 \<le> 0xFFFFFFFFFFFFF" "uint a4 \<le> 0xFFFFFFFFFFFF"
    using r by (simp_all add: a)
  have "0 \<le> uint a0 + 0x10000000000000 * uint a1 + 0x100000000000000000000000000 * uint a2 + 0x1000000000000000000000000000000000000000 * uint a3 +
      0x10000000000000000000000000000000000000000000000000000 * uint a4" by simp
  then show ?thesis using l by (simp add: a; linarith)
qed

lemma uint_flag: "uint (flag64 b) = of_bool b" by simp

lemma fe52_reduce_flag_val:
  assumes "uint r0 \<le> 0xFFFFFFFFFFFFF" "uint r1 \<le> 0xFFFFFFFFFFFFF" "uint r2 \<le> 0xFFFFFFFFFFFFF" "uint r3 \<le> 0xFFFFFFFFFFFFF" "uint r4 \<le> 0x1000000002000"
  shows "fe52_reduce_flag (Fe52 r0 r1 r2 r3 r4) = flag64 (prime_p \<le> fe52_val (Fe52 r0 r1 r2 r3 r4))"
proof -
  note g = fe52_ge_prime [of "uint r0" "uint r1" "uint r2" "uint r3" "uint r4", OF uint_ge_0 uint_ge_0 uint_ge_0 uint_ge_0 assms(1-4)]
  have v: "fe52_val (Fe52 r0 r1 r2 r3 r4) = uint r0 + 0x10000000000000 * uint r1 + 0x100000000000000000000000000 * uint r2 +
      0x1000000000000000000000000000000000000000 * uint r3 + 0x10000000000000000000000000000000000000000000000000000 * uint r4" by simp
  have k: "uint M48 = 0xFFFFFFFFFFFF" "uint M52 = 0xFFFFFFFFFFFFF" by (simp_all add: M48_def M52_def)
  have ge: "r0 \<ge> 0xFFFFEFFFFFC2F \<longleftrightarrow> 0xFFFFEFFFFFC2F \<le> uint r0" by (simp add: word_le_def)
  show ?thesis
  proof (cases "0x1000000000000 \<le> uint r4")
    case True
    have "uint r4 div 0x1000000000000 = 1" using True assms(5) by linarith
    then have "uint (drop_bit 48 r4) = uint (1 :: u64)" by (simp add: uint_drop_bit_div)
    then have "drop_bit 48 r4 = 1" by (simp only: word_uint_eq_iff [symmetric])
    moreover have "r4 \<noteq> M48" using True k by auto
    ultimately show ?thesis using True g by (simp add: fe52_reduce_flag_def v)
  next
    case False
    then have "uint r4 div 0x1000000000000 = 0" using uint_ge_0 [of r4] by linarith
    then have "uint (drop_bit 48 r4) = uint (0 :: u64)" by (simp add: uint_drop_bit_div)
    then have d: "drop_bit 48 r4 = 0" by (simp only: word_uint_eq_iff [symmetric])
    have e: "r1 AND r2 AND r3 = M52 \<longleftrightarrow> uint r1 = 0xFFFFFFFFFFFFF \<and> uint r2 = 0xFFFFFFFFFFFFF \<and> uint r3 = 0xFFFFFFFFFFFFF"
        unfolding fe52_limbs_max [OF assms(2-4)] by (simp add: word_uint_eq_iff k)
    have "(prime_p \<le> fe52_val (Fe52 r0 r1 r2 r3 r4)) = (r4 = M48 \<and> r1 AND r2 AND r3 = M52 \<and> 0xFFFFEFFFFFC2F \<le> r0)"
      unfolding v g ge e using False by (auto simp: word_uint_eq_iff k)
    then show ?thesis unfolding fe52_reduce_flag_def fe52.case Let_def d by simp
  qed
qed

lemma fe52_normalize_val:
  assumes "fe52_loose a"
  shows "fe52_val (fe52_normalize a) = fe52_val a mod prime_p" "fe52_reduced (fe52_normalize a)"
proof -
  from fe52_foldedE [OF assms] obtain r0 r1 r2 r3 r4 x where r: "fe52_carry_pass (fe52_fold_top a) = Fe52 r0 r1 r2 r3 r4"
    "fe52_val (Fe52 r0 r1 r2 r3 r4) = fe52_val a - x * prime_p"
    "uint r0 \<le> 0xFFFFFFFFFFFFF" "uint r1 \<le> 0xFFFFFFFFFFFFF" "uint r2 \<le> 0xFFFFFFFFFFFFF" "uint r3 \<le> 0xFFFFFFFFFFFFF" "uint r4 \<le> 0x1000000002000" .
  define v where "v = fe52_val (Fe52 r0 r1 r2 r3 r4)"
  define f where "f = (of_bool (prime_p \<le> v) :: int)"
  have f: "0 \<le> f" "f \<le> 1" by (simp_all add: f_def)
  have "fe52_reduce_flag (Fe52 r0 r1 r2 r3 r4) = flag64 (prime_p \<le> v)" unfolding v_def by (rule fe52_reduce_flag_val [OF r(3-7)])
  then have fw: "uint (fe52_reduce_flag (Fe52 r0 r1 r2 r3 r4)) = f" by (simp add: f_def)
  define s0 where "s0 = r0 + fe52_reduce_flag (Fe52 r0 r1 r2 r3 r4) * 0x1000003D1"
  have "uint (fe52_reduce_flag (Fe52 r0 r1 r2 r3 r4) * 0x1000003D1) = f * 0x1000003D1"
    by (subst uint_mult64) (use f fw in simp_all)
  then have s0: "uint s0 = uint r0 + f * 0x1000003D1"
    unfolding s0_def using f r(3) by (subst uint_add64) simp_all
  have b: "uint s0 \<le> 0xFFFF000000000000" "uint r1 \<le> 0xFFFF000000000000" "uint r2 \<le> 0xFFFF000000000000"
    "uint r3 \<le> 0xFFFF000000000000" "uint r4 \<le> 0xFFFF000000000000" using s0 f r(3-7) by linarith+
  from fe52_carry_passE [OF b] obtain q0 q1 q2 q3 q4 c0 c1 c2 c3 where q: "fe52_carry_pass (Fe52 s0 r1 r2 r3 r4) = Fe52 q0 q1 q2 q3 q4"
    "uint q0 + 0x10000000000000 * c0 = uint s0" "uint q1 + 0x10000000000000 * c1 = uint r1 + c0"
    "uint q2 + 0x10000000000000 * c2 = uint r2 + c1" "uint q3 + 0x10000000000000 * c3 = uint r3 + c2" "uint q4 = uint r4 + c3"
    "uint q0 \<le> 0xFFFFFFFFFFFFF" "uint q1 \<le> 0xFFFFFFFFFFFFF" "uint q2 \<le> 0xFFFFFFFFFFFFF" "uint q3 \<le> 0xFFFFFFFFFFFFF"
    "0 \<le> c0" "0 \<le> c1" "0 \<le> c2" "0 \<le> c3" by metis
  have n: "fe52_normalize a = Fe52 q0 q1 q2 q3 (q4 AND M48)"
    by (simp add: fe52_normalize_def Let_def r(1) s0_def [symmetric] q(1))
  define h where "h = uint q4 div 0x1000000000000"
  have q4: "uint (q4 AND M48) = uint q4 - 0x1000000000000 * h" "uint (q4 AND M48) \<le> 0xFFFFFFFFFFFF"
    unfolding uint_M48 h_def by (simp_all add: minus_mult_div_eq_mod)
  have vr: "v = uint r0 + 0x10000000000000 * uint r1 + 0x100000000000000000000000000 * uint r2 +
      0x1000000000000000000000000000000000000000 * uint r3 + 0x10000000000000000000000000000000000000000000000000000 * uint r4"
    by (simp add: v_def)
  have vn: "fe52_val (fe52_normalize a) = v + f * 0x1000003D1 - 0x10000000000000000000000000000000000000000000000000000000000000000 * h"
    unfolding n fe52_val.simps vr using q(2-6) s0 q4(1) by (simp; linarith)
  show red: "fe52_reduced (fe52_normalize a)" unfolding n using q(7-10) q4(2) by simp
  have v1: "0 \<le> v" unfolding vr by simp
  have v2: "v \<le> 2 * prime_p - 1" unfolding vr prime_p_def using r(3-7) by linarith
  note v = v1 v2
  note w = fe52_val_reduced [OF red] prime_p_def
  have "fe52_val (fe52_normalize a) = v - f * prime_p"
  proof (cases "prime_p \<le> v")
    case True
    then have "f = 1" by (simp add: f_def)
    then have "h = 1" using vn w v True by (simp; linarith)
    then show ?thesis using vn \<open>f = 1\<close> by (simp add: prime_p_def)
  next
    case False
    then have "f = 0" by (simp add: f_def)
    then have "h = 0" using vn w v False by (simp; linarith)
    then show ?thesis using vn \<open>f = 0\<close> by simp
  qed
  also have "\<dots> = v mod prime_p"
  proof (cases "prime_p \<le> v")
    case True
    then have "(v - prime_p) mod prime_p = v - prime_p" using v by (intro mod_pos_pos_trivial) linarith+
    then show ?thesis using True by (simp add: f_def)
  next
    case False
    then show ?thesis using v by (simp add: f_def)
  qed
  also have "\<dots> = fe52_val a mod prime_p" unfolding v_def r(2) by (simp add: mod_diff_eq [symmetric])
  finally show "fe52_val (fe52_normalize a) = fe52_val a mod prime_p" .
qed

section \<open>Weak normalisation\<close>

text \<open>Exactly, it subtracts the prime as often as \<open>2^256\<close> fits: a value in \<open>[p, 2^256)\<close> stays as it is.\<close>

fun fe52_low_reduced :: "fe52 \<Rightarrow> bool" where
  "fe52_low_reduced (Fe52 a0 a1 a2 a3 a4) \<longleftrightarrow> uint a0 \<le> 0xFFFFFFFFFFFFF \<and> uint a1 \<le> 0xFFFFFFFFFFFFF \<and> uint a2 \<le> 0xFFFFFFFFFFFFF \<and>
     uint a3 \<le> 0xFFFFFFFFFFFFF"

lemma fe52_normalize_weak_exact:
  assumes "fe52_loose a"
  shows "fe52_val (fe52_normalize_weak a) = fe52_val a - (fe52_val a div 2 ^ 256) * prime_p"
    "fe52_low_reduced (fe52_normalize_weak a)" "mag 1 32 (fe52_normalize_weak a)"
proof -
  obtain a0 a1 a2 a3 a4 where a: "a = Fe52 a0 a1 a2 a3 a4" by (cases a)
  have b: "uint a0 \<le> 0xFFFF000000000000" "uint a1 \<le> 0xFFFF000000000000" "uint a2 \<le> 0xFFFF000000000000"
    "uint a3 \<le> 0xFFFF000000000000" "uint a4 \<le> 0xFFFF000000000000" using assms by (simp_all add: a)
  from fe52_carry_passE [OF b] obtain r0 r1 r2 r3 r4 c0 c1 c2 c3 where r: "fe52_carry_pass (Fe52 a0 a1 a2 a3 a4) = Fe52 r0 r1 r2 r3 r4"
    "uint r0 + 0x10000000000000 * c0 = uint a0" "uint r1 + 0x10000000000000 * c1 = uint a1 + c0"
    "uint r2 + 0x10000000000000 * c2 = uint a2 + c1" "uint r3 + 0x10000000000000 * c3 = uint a3 + c2" "uint r4 = uint a4 + c3"
    "uint r0 \<le> 0xFFFFFFFFFFFFF" "uint r1 \<le> 0xFFFFFFFFFFFFF" "uint r2 \<le> 0xFFFFFFFFFFFFF" "uint r3 \<le> 0xFFFFFFFFFFFFF"
    "0 \<le> c0" "0 \<le> c1" "0 \<le> c2" "0 \<le> c3" by metis
  have "uint r0 \<le> 0xFFF0000000000000" using r(7) by linarith
  from fe52_fold_topE [OF this, of r1 r2 r3 r4] obtain s0 s4 x where f:
    "fe52_fold_top (Fe52 r0 r1 r2 r3 r4) = Fe52 s0 r1 r2 r3 s4" "uint s0 = uint r0 + x * 0x1000003D1"
    "uint s4 + 0x1000000000000 * x = uint r4" "uint s4 \<le> 0xFFFFFFFFFFFF" "0 \<le> x" "x \<le> 0xFFFF" by metis
  have b': "uint s0 \<le> 0xFFFF000000000000" "uint r1 \<le> 0xFFFF000000000000" "uint r2 \<le> 0xFFFF000000000000"
    "uint r3 \<le> 0xFFFF000000000000" "uint s4 \<le> 0xFFFF000000000000" using f(2,4,5,6) r(7-10) by linarith+
  from fe52_carry_passE [OF b'] obtain q0 q1 q2 q3 q4 d0 d1 d2 d3 where q: "fe52_carry_pass (Fe52 s0 r1 r2 r3 s4) = Fe52 q0 q1 q2 q3 q4"
    "uint q0 + 0x10000000000000 * d0 = uint s0" "uint q1 + 0x10000000000000 * d1 = uint r1 + d0"
    "uint q2 + 0x10000000000000 * d2 = uint r2 + d1" "uint q3 + 0x10000000000000 * d3 = uint r3 + d2" "uint q4 = uint s4 + d3"
    "uint q0 \<le> 0xFFFFFFFFFFFFF" "uint q1 \<le> 0xFFFFFFFFFFFFF" "uint q2 \<le> 0xFFFFFFFFFFFFF" "uint q3 \<le> 0xFFFFFFFFFFFFF"
    "0 \<le> d0" "0 \<le> d1" "0 \<le> d2" "0 \<le> d3" by metis
  have n: "fe52_normalize_weak a = Fe52 q0 q1 q2 q3 q4" unfolding fe52_normalize_weak_def a r(1) f(1) q(1) ..
  have v: "fe52_val (fe52_normalize_weak a) = fe52_val a - x * prime_p"
    unfolding n unfolding a fe52_val.simps prime_p_def using r(2-6) q(2-6) f(2,3) by (simp; linarith)
  define w where "w = uint r0 + 0x10000000000000 * uint r1 + 0x100000000000000000000000000 * uint r2 + 0x1000000000000000000000000000000000000000 * uint r3 +
      0x10000000000000000000000000000000000000000000000000000 * uint s4"
  have w: "0 \<le> w" "w < 0x10000000000000000000000000000000000000000000000000000000000000000"
    using r(7-10) f(4) uint_ge_0 [of r0] uint_ge_0 [of r1] uint_ge_0 [of r2] uint_ge_0 [of r3] uint_ge_0 [of s4] unfolding w_def by linarith+
  have "fe52_val a = w + x * 0x10000000000000000000000000000000000000000000000000000000000000000"
    unfolding a fe52_val.simps w_def using r(2-6) f(3) by (simp; linarith)
  then have "fe52_val a div 2 ^ 256 = x" using w by simp
  then show "fe52_val (fe52_normalize_weak a) = fe52_val a - (fe52_val a div 2 ^ 256) * prime_p" by (simp only: v)
  show "fe52_low_reduced (fe52_normalize_weak a)" using q(7-10) by (simp add: n)
  have "d3 \<le> 1"
    using q(2-5) f(2,6) r(7-10) uint_ge_0 [of q0] uint_ge_0 [of q1] uint_ge_0 [of q2] uint_ge_0 [of q3] by linarith
  then show "mag 1 32 (fe52_normalize_weak a)" unfolding n mag.simps using q(6-10) f(4) by simp
qed

lemma fe52_normalize_weak_val:
  assumes "fe52_loose a"
  shows "fe52_val (fe52_normalize_weak a) mod prime_p = fe52_val a mod prime_p" "mag 1 32 (fe52_normalize_weak a)"
  using fe52_normalize_weak_exact [OF assms] by (simp_all add: mod_diff_eq [symmetric])

lemma fe52_low_reduced_iff:
  assumes "fe52_low_reduced a"
  shows "fe52_reduced a \<longleftrightarrow> fe52_val a < 2 ^ 256"
proof -
  obtain a0 a1 a2 a3 a4 where a: "a = Fe52 a0 a1 a2 a3 a4" by (cases a)
  have v: "fe52_val a = uint a0 + 0x10000000000000 * uint a1 + 0x100000000000000000000000000 * uint a2 + 0x1000000000000000000000000000000000000000 * uint a3 +
      0x10000000000000000000000000000000000000000000000000000 * uint a4" by (simp add: a)
  have l: "uint a0 \<le> 0xFFFFFFFFFFFFF" "uint a1 \<le> 0xFFFFFFFFFFFFF" "uint a2 \<le> 0xFFFFFFFFFFFFF" "uint a3 \<le> 0xFFFFFFFFFFFFF"
    using assms by (simp_all add: a)
  have "uint a4 \<le> 0xFFFFFFFFFFFF \<longleftrightarrow> fe52_val a < 0x10000000000000000000000000000000000000000000000000000000000000000"
    using l uint_ge_0 [of a0] uint_ge_0 [of a1] uint_ge_0 [of a2] uint_ge_0 [of a3] unfolding v by linarith
  then show ?thesis using l by (simp add: a)
qed

section \<open>The zero tests\<close>

lemma or_zero: "(x :: u64) OR y = 0 \<longleftrightarrow> x = 0 \<and> y = 0"
  by (metis or.right_neutral or_eq_0_iff)

lemma fe52_normalizes_to_zero_iff:
  assumes "fe52_loose a"
  shows "fe52_normalizes_to_zero a \<longleftrightarrow> fe52_val a mod prime_p = 0"
proof -
  obtain r0 r1 r2 r3 r4 where r: "fe52_normalize a = Fe52 r0 r1 r2 r3 r4" by (cases "fe52_normalize a")
  have "fe52_normalizes_to_zero a \<longleftrightarrow> fe52_normalize a = Fe52 0 0 0 0 0"
    unfolding fe52_normalizes_to_zero_def r fe52.case or_zero by auto
  also have "\<dots> \<longleftrightarrow> fe52_val (fe52_normalize a) = 0"
    using fe52_val_inj [OF fe52_normalize_val(2) [OF assms], of "Fe52 0 0 0 0 0"] by auto
  finally show ?thesis unfolding fe52_normalize_val(1) [OF assms] .
qed

text \<open>The early exit returns what the complete test would.\<close>

definition zero_or_prime :: "fe52 \<Rightarrow> bool" where
  "zero_or_prime a = (case a of Fe52 r0 r1 r2 r3 r4 \<Rightarrow>
     r0 OR r1 OR r2 OR r3 OR r4 = 0 \<or> (r0 XOR 0x1000003D0) AND r1 AND r2 AND r3 AND (r4 XOR 0xF000000000000) = M52)"

lemma uint_and_le: "uint (a AND b) \<le> uint a" "uint (a AND b) \<le> uint (b :: u64)"
  using word_and_le2 [of a b] word_and_le2 [of b a] by (simp_all add: word_le_def and.commute)

lemma and_max52_iff:
  assumes "uint x \<le> 0xFFFFFFFFFFFFF" "uint y \<le> 0xFFFFFFFFFFFFF"
  shows "x AND y = M52 \<longleftrightarrow> x = M52 \<and> y = M52"
proof
  assume e: "x AND y = M52"
  have "uint M52 \<le> uint x" "uint M52 \<le> uint y" using uint_and_le [of x y] unfolding e by auto
  moreover have "uint M52 = 0xFFFFFFFFFFFFF" by (simp add: M52_def)
  ultimately show "x = M52 \<and> y = M52" using assms by (simp add: word_uint_eq_iff)
qed simp

lemma xor_shift: "x XOR c = d \<longleftrightarrow> x = d XOR (c :: u64)"
  by (auto simp: xor.assoc)

lemma uint_xor_52:
  assumes "uint (x :: u64) \<le> 0xFFFFFFFFFFFFF" "uint (c :: u64) \<le> 0xFFFFFFFFFFFFF"
  shows "uint (x XOR c) \<le> 0xFFFFFFFFFFFFF"
proof -
  have t: "take_bit 52 x = x" "take_bit 52 c = c"
    using assms by (simp_all add: word_uint_eq_iff unsigned_take_bit_eq take_bit_int_eq_self)
  have "take_bit 52 (x XOR c) = x XOR c" unfolding take_bit_xor t ..
  then have "uint (x XOR c) = uint (x XOR c) mod 2 ^ 52" by (metis unsigned_take_bit_eq take_bit_eq_mod)
  also have "\<dots> < 2 ^ 52" by (rule pos_mod_bound) simp
  finally show ?thesis by simp
qed

lemma zero_or_prime_iff:
  assumes "uint r0 \<le> 0xFFFFFFFFFFFFF" "uint r1 \<le> 0xFFFFFFFFFFFFF" "uint r2 \<le> 0xFFFFFFFFFFFFF" "uint r3 \<le> 0xFFFFFFFFFFFFF" "uint r4 \<le> 0x1000000002000"
  shows "zero_or_prime (Fe52 r0 r1 r2 r3 r4) \<longleftrightarrow> fe52_val (Fe52 r0 r1 r2 r3 r4) = 0 \<or> fe52_val (Fe52 r0 r1 r2 r3 r4) = prime_p"
proof -
  have z: "r0 OR r1 OR r2 OR r3 OR r4 = 0 \<longleftrightarrow> fe52_val (Fe52 r0 r1 r2 r3 r4) = 0"
  proof -
    have "r0 OR r1 OR r2 OR r3 OR r4 = 0 \<longleftrightarrow> uint r0 = 0 \<and> uint r1 = 0 \<and> uint r2 = 0 \<and> uint r3 = 0 \<and> uint r4 = 0"
      unfolding or_zero by (simp add: word_uint_eq_iff)
    also have "\<dots> \<longleftrightarrow> fe52_val (Fe52 r0 r1 r2 r3 r4) = 0"
      by (simp add: add_nonneg_eq_0_iff)
    finally show ?thesis .
  qed
  have x: "uint (r0 XOR 0x1000003D0) \<le> 0xFFFFFFFFFFFFF" "uint (r4 XOR 0xF000000000000) \<le> 0xFFFFFFFFFFFFF"
    using assms by (intro uint_xor_52; simp)+
  have le: "uint (a AND b) \<le> 0xFFFFFFFFFFFFF" if "uint a \<le> 0xFFFFFFFFFFFFF" for a b :: u64
    using uint_and_le(1) [of a b] that by linarith
  have "(r0 XOR 0x1000003D0) AND r1 AND r2 AND r3 AND (r4 XOR 0xF000000000000) = M52 \<longleftrightarrow>
      r0 XOR 0x1000003D0 = M52 \<and> r1 = M52 \<and> r2 = M52 \<and> r3 = M52 \<and> r4 XOR 0xF000000000000 = M52"
    using assms x le by (simp add: and_max52_iff)
  also have "\<dots> \<longleftrightarrow> uint r0 = 0xFFFFEFFFFFC2F \<and> uint r1 = 0xFFFFFFFFFFFFF \<and> uint r2 = 0xFFFFFFFFFFFFF \<and> uint r3 = 0xFFFFFFFFFFFFF \<and> uint r4 = 0xFFFFFFFFFFFF"
    unfolding xor_shift by (simp add: M52_def word_uint_eq_iff)
  also have "\<dots> \<longleftrightarrow> fe52_val (Fe52 r0 r1 r2 r3 r4) = prime_p"
  proof
    assume e: "fe52_val (Fe52 r0 r1 r2 r3 r4) = prime_p"
    have "uint r4 \<le> 0xFFFFFFFFFFFF"
    proof (rule ccontr)
      assume "\<not> uint r4 \<le> 0xFFFFFFFFFFFF"
      then show False using e uint_ge_0 [of r0] uint_ge_0 [of r1] uint_ge_0 [of r2] uint_ge_0 [of r3] unfolding fe52_val.simps prime_p_def by (simp; linarith)
    qed
    then have "fe52_reduced (Fe52 r0 r1 r2 r3 r4)" using assms by simp
    moreover have "fe52_reduced (Fe52 P0 P1 P1 P1 P4)" "fe52_val (Fe52 P0 P1 P1 P1 P4) = prime_p" by (simp_all add: uint_limbs_P prime_p_def)
    ultimately have "Fe52 r0 r1 r2 r3 r4 = Fe52 P0 P1 P1 P1 P4" using e by (intro fe52_val_inj) simp_all
    then show "uint r0 = 0xFFFFEFFFFFC2F \<and> uint r1 = 0xFFFFFFFFFFFFF \<and> uint r2 = 0xFFFFFFFFFFFFF \<and> uint r3 = 0xFFFFFFFFFFFFF \<and> uint r4 = 0xFFFFFFFFFFFF"
      by (simp add: uint_limbs_P)
  qed (simp add: prime_p_def)
  finally show ?thesis unfolding zero_or_prime_def fe52.case z by blast
qed

lemma fe52_normalizes_to_zero_var_eq:
  "fe52_normalizes_to_zero_var a = zero_or_prime (fe52_carry_pass (fe52_fold_top a))"
proof -
  obtain a0 a1 a2 a3 a4 where a: "a = Fe52 a0 a1 a2 a3 a4" by (cases a)
  define z where "z = (a0 + drop_bit 48 a4 * 0x1000003D1) AND M52"
  have early: "\<not> zero_or_prime (Fe52 z r1 r2 r3 r4)" if "z \<noteq> 0 \<and> z XOR 0x1000003D0 \<noteq> M52" for r1 r2 r3 r4
  proof -
    have "z AND M52 = z" by (simp add: z_def and.assoc)
    then have "uint z \<le> 0xFFFFFFFFFFFFF" using uint_and_le(2) [of z M52] by (simp add: M52_def)
    then have "uint (z XOR 0x1000003D0) \<le> 0xFFFFFFFFFFFFF" by (rule uint_xor_52) simp
    moreover have "uint M52 \<le> uint (z XOR 0x1000003D0)" if "(z XOR 0x1000003D0) AND y = M52" for y
      using uint_and_le(1) [of "z XOR 0x1000003D0" y] that by simp
    ultimately have "(z XOR 0x1000003D0) AND y \<noteq> M52" for y
      using \<open>z \<noteq> 0 \<and> z XOR 0x1000003D0 \<noteq> M52\<close> by (fastforce simp: word_uint_eq_iff M52_def)
    then show ?thesis using that by (simp add: zero_or_prime_def or_zero)
  qed
  define t1 t2 t3 where t: "t1 = a1 + drop_bit 52 (a0 + drop_bit 48 a4 * 0x1000003D1)" "t2 = a2 + drop_bit 52 t1" "t3 = a3 + drop_bit 52 t2"
  define t4 where "t4 = (a4 AND M48) + drop_bit 52 t3"
  have r: "fe52_carry_pass (fe52_fold_top a) = Fe52 z (t1 AND M52) (t2 AND M52) (t3 AND M52) t4"
    unfolding a fe52_fold_top_def fe52_carry_pass_def fe52.case Let_def z_def t4_def t ..
  have "fe52_normalizes_to_zero_var a \<longleftrightarrow> (if z \<noteq> 0 \<and> z XOR 0x1000003D0 \<noteq> M52 then False
      else zero_or_prime (Fe52 z (t1 AND M52) (t2 AND M52) (t3 AND M52) t4))"
    unfolding a fe52_normalizes_to_zero_var_def fe52.case Let_def z_def [symmetric] t [symmetric] t4_def [symmetric] zero_or_prime_def
    by (simp only: or.assoc and.assoc)
  then show ?thesis unfolding r using early by meson
qed

lemma mod_zero_iff: "0 \<le> v \<Longrightarrow> v < 2 * prime_p \<Longrightarrow> v mod prime_p = 0 \<longleftrightarrow> v = 0 \<or> v = prime_p"
proof (cases "v < prime_p")
  case True
  assume "0 \<le> v"
  then have "v mod prime_p = v" using True by (rule mod_pos_pos_trivial)
  then show ?thesis using True by auto
next
  case False
  assume "0 \<le> v" "v < 2 * prime_p"
  then have "(v - prime_p) mod prime_p = v - prime_p" using False by (intro mod_pos_pos_trivial) linarith+
  then have "v mod prime_p = v - prime_p" by simp
  then show ?thesis using False prime_p_bounds(1) by auto
qed

lemma fe52_normalizes_to_zero_var_iff:
  assumes "fe52_loose a"
  shows "fe52_normalizes_to_zero_var a \<longleftrightarrow> fe52_val a mod prime_p = 0"
proof -
  from fe52_foldedE [OF assms] obtain r0 r1 r2 r3 r4 x where r: "fe52_carry_pass (fe52_fold_top a) = Fe52 r0 r1 r2 r3 r4"
    "fe52_val (Fe52 r0 r1 r2 r3 r4) = fe52_val a - x * prime_p"
    "uint r0 \<le> 0xFFFFFFFFFFFFF" "uint r1 \<le> 0xFFFFFFFFFFFFF" "uint r2 \<le> 0xFFFFFFFFFFFFF" "uint r3 \<le> 0xFFFFFFFFFFFFF" "uint r4 \<le> 0x1000000002000" .
  define v where "v = fe52_val (Fe52 r0 r1 r2 r3 r4)"
  have v: "0 \<le> v" "v < 2 * prime_p"
  proof -
    have vr: "v = uint r0 + 0x10000000000000 * uint r1 + 0x100000000000000000000000000 * uint r2 +
      0x1000000000000000000000000000000000000000 * uint r3 + 0x10000000000000000000000000000000000000000000000000000 * uint r4"
      by (simp add: v_def)
    show "0 \<le> v" unfolding vr by simp
    show "v < 2 * prime_p" unfolding vr prime_p_def using r(3-7) by linarith
  qed
  have "v mod prime_p = fe52_val a mod prime_p" unfolding v_def r(2) by (simp add: mod_diff_eq [symmetric])
  then show ?thesis
    unfolding fe52_normalizes_to_zero_var_eq r(1) zero_or_prime_iff [OF r(3-7)] v_def [symmetric] mod_zero_iff [OF v, symmetric] by (rule arg_cong)
qed

lemma fe52_is_zero_iff: "fe52_loose a \<Longrightarrow> fe52_is_zero a \<longleftrightarrow> fe52_val a mod prime_p = 0"
  by (simp add: fe52_is_zero_def fe52_normalizes_to_zero_var_iff)

lemma fe52_eq_iff: "fe52_loose a \<Longrightarrow> fe52_loose b \<Longrightarrow> fe52_eq a b \<longleftrightarrow> fe52_val a mod prime_p = fe52_val b mod prime_p"
  unfolding fe52_eq_def by (metis fe52_normalize_val fe52_val_inj)

section \<open>Conversions\<close>

lemma uint_or_shift:
  fixes a b :: u64
  assumes "uint a < 2 ^ k" "k \<le> 64"
  shows "uint (a OR push_bit k b) = uint a + 2 ^ k * (uint b mod 2 ^ (64 - k))"
proof -
  have p: "uint (push_bit k b) = push_bit k (take_bit (64 - k) (uint b))"
    using assms(2) by (intro bit_eqI) (auto simp: bit_simps bit_uint_iff dest: bit_imp_le_length)
  have a: "take_bit k (uint a) = uint a" using assms(1) by (simp add: take_bit_int_eq_self)
  have "uint (a OR push_bit k b) = concat_bit k (uint a) (take_bit (64 - k) (uint b))"
    unfolding unsigned_or_eq p concat_bit_def a ..
  also have "\<dots> = uint a + 2 ^ k * (uint b mod 2 ^ (64 - k))"
    unfolding concat_bit_eq a by (simp add: push_bit_eq_mult take_bit_eq_mod)
  finally show ?thesis .
qed

lemma uint_low_mask:
  "uint (x AND 0xFFFFFFFFFF :: u64) = uint x mod 2 ^ 40" "uint (x AND 0xFFFFFFF :: u64) = uint x mod 2 ^ 28" "uint (x AND 0xFFFF :: u64) = uint x mod 2 ^ 16"
proof -
  have "x AND 0xFFFFFFFFFF = take_bit 40 x" "x AND 0xFFFFFFF = take_bit 28 x" "x AND 0xFFFF = take_bit 16 x"
    by (simp_all add: take_bit_eq_mask mask_eq_exp_minus_1)
  then show "uint (x AND 0xFFFFFFFFFF :: u64) = uint x mod 2 ^ 40" "uint (x AND 0xFFFFFFF :: u64) = uint x mod 2 ^ 28" "uint (x AND 0xFFFF :: u64) = uint x mod 2 ^ 16"
    by (simp_all only: unsigned_take_bit_eq) (simp_all only: take_bit_eq_mod)
qed

lemma uint_div_less: "uint (x :: u64) div 2 ^ k < 2 ^ (64 - k)" if "k \<le> 64"
proof -
  have "uint x < 2 ^ k * 2 ^ (64 - k)" using uint_lt2p [of x] that by (simp add: power_add [symmetric])
  then have b: "uint x < 2 ^ (64 - k) * 2 ^ k" by (simp only: mult.commute)
  have d: "(uint x div 2 ^ k) * 2 ^ k \<le> uint x"
  proof -
    have "0 \<le> uint x mod 2 ^ k" by simp
    then show ?thesis using div_mult_mod_eq [of "uint x" "2 ^ k"] by linarith
  qed
  show ?thesis
  proof (rule ccontr)
    assume "\<not> uint x div 2 ^ k < 2 ^ (64 - k)"
    then have "2 ^ (64 - k) * 2 ^ k \<le> (uint x div 2 ^ k) * 2 ^ k" by (intro mult_right_mono) simp_all
    then show False using b d by linarith
  qed
qed

lemma fe52_from_4x64_val:
  "fe52_val (fe52_from_4x64_limbs l) = lval l" "fe52_reduced (fe52_from_4x64_limbs l)"
proof -
  obtain l0 l1 l2 l3 where l: "l = Limbs4 l0 l1 l2 l3" by (cases l)
  note dl = uint_div_less [of 52 l0, simplified] uint_div_less [of 40 l1, simplified] uint_div_less [of 28 l2, simplified] uint_div_less [of 16 l3, simplified]
  have w: "uint (drop_bit 52 l0 OR push_bit 12 (l1 AND 0xFFFFFFFFFF)) = uint l0 div 2 ^ 52 + 2 ^ 12 * (uint l1 mod 2 ^ 40)"
    "uint (drop_bit 40 l1 OR push_bit 24 (l2 AND 0xFFFFFFF)) = uint l1 div 2 ^ 40 + 2 ^ 24 * (uint l2 mod 2 ^ 28)"
    "uint (drop_bit 28 l2 OR push_bit 36 (l3 AND 0xFFFF)) = uint l2 div 2 ^ 28 + 2 ^ 36 * (uint l3 mod 2 ^ 16)"
  proof -
    have sh: "uint (drop_bit j x OR push_bit (64 - j) y) = uint x div 2 ^ j + 2 ^ (64 - j) * (uint y mod 2 ^ j)" if "j \<le> 64" for x y :: u64 and j
      using uint_div_less [OF that, of x] that by (subst uint_or_shift) (simp_all add: uint_drop_bit_div)
    show "uint (drop_bit 52 l0 OR push_bit 12 (l1 AND 0xFFFFFFFFFF)) = uint l0 div 2 ^ 52 + 2 ^ 12 * (uint l1 mod 2 ^ 40)"
      using sh [of 52 l0 "l1 AND 0xFFFFFFFFFF"] unfolding uint_low_mask by (simp add: mod_mod_cancel)
    show "uint (drop_bit 40 l1 OR push_bit 24 (l2 AND 0xFFFFFFF)) = uint l1 div 2 ^ 40 + 2 ^ 24 * (uint l2 mod 2 ^ 28)"
      using sh [of 40 l1 "l2 AND 0xFFFFFFF"] unfolding uint_low_mask by (simp add: mod_mod_cancel)
    show "uint (drop_bit 28 l2 OR push_bit 36 (l3 AND 0xFFFF)) = uint l2 div 2 ^ 28 + 2 ^ 36 * (uint l3 mod 2 ^ 16)"
      using sh [of 28 l2 "l3 AND 0xFFFF"] unfolding uint_low_mask by (simp add: mod_mod_cancel)
  qed
  have d: "uint l0 = uint l0 mod 2 ^ 52 + 2 ^ 52 * (uint l0 div 2 ^ 52)" "uint l1 = uint l1 mod 2 ^ 40 + 2 ^ 40 * (uint l1 div 2 ^ 40)"
    "uint l2 = uint l2 mod 2 ^ 28 + 2 ^ 28 * (uint l2 div 2 ^ 28)" "uint l3 = uint l3 mod 2 ^ 16 + 2 ^ 16 * (uint l3 div 2 ^ 16)"
    by simp_all
  have sum: "a + 2 ^ 52 * (b + 2 ^ 12 * c) + 2 ^ 104 * (d + 2 ^ 24 * e) + 2 ^ 156 * (f + 2 ^ 36 * g) + 2 ^ 208 * h =
      (a + 2 ^ 52 * b) + 2 ^ 64 * (c + 2 ^ 40 * d) + 2 ^ 128 * (e + 2 ^ 28 * f) + 2 ^ 192 * (g + 2 ^ 16 * h)" for a b c d e f g h :: int
    by (simp add: algebra_simps)
  show "fe52_val (fe52_from_4x64_limbs l) = lval l"
    unfolding l fe52_from_4x64_limbs.simps fe52_val.simps w uint_M52 uint_drop_bit_div sum lval.simps d [symmetric] ..
  show "fe52_reduced (fe52_from_4x64_limbs l)"
    unfolding l fe52_from_4x64_limbs.simps fe52_reduced.simps w uint_M52 uint_drop_bit_div
  proof (intro conjI)
    have m: "uint l0 mod 0x10000000000000 < 0x10000000000000" "uint l1 mod 0x10000000000 < 0x10000000000"
      "uint l2 mod 0x10000000 < 0x10000000" "uint l3 mod 0x10000 < 0x10000" by simp_all
    show "uint l0 mod 2 ^ 52 \<le> 0xFFFFFFFFFFFFF" using m(1) by simp
    have "a + 0x1000 * b \<le> 0xFFFFFFFFFFFFF" if "a < 0x1000" "b < 0x10000000000" for a b :: int using that by linarith
    from this [OF dl(1) m(2)] show "uint l0 div 2 ^ 52 + 2 ^ 12 * (uint l1 mod 2 ^ 40) \<le> 0xFFFFFFFFFFFFF" by simp
    have "a + 0x1000000 * b \<le> 0xFFFFFFFFFFFFF" if "a < 0x1000000" "b < 0x10000000" for a b :: int using that by linarith
    from this [OF dl(2) m(3)] show "uint l1 div 2 ^ 40 + 2 ^ 24 * (uint l2 mod 2 ^ 28) \<le> 0xFFFFFFFFFFFFF" by simp
    have "a + 0x1000000000 * b \<le> 0xFFFFFFFFFFFFF" if "a < 0x1000000000" "b < 0x10000" for a b :: int using that by linarith
    from this [OF dl(3) m(4)] show "uint l2 div 2 ^ 28 + 2 ^ 36 * (uint l3 mod 2 ^ 16) \<le> 0xFFFFFFFFFFFFF" by simp
    show "uint l3 div 2 ^ 16 \<le> 0xFFFFFFFFFFFF" using dl(4) by simp
  qed
qed

lemma lval_fe52_pack:
  assumes "fe52_reduced a"
  shows "lval (fe52_pack a) = fe52_val a"
proof -
  obtain a0 a1 a2 a3 a4 where a: "a = Fe52 a0 a1 a2 a3 a4" by (cases a)
  have l: "uint a0 < 2 ^ 52" "uint a1 < 2 ^ 52" "uint a2 < 2 ^ 52" "uint a3 < 2 ^ 52" "uint a4 < 2 ^ 48" using assms by (simp_all add: a)
  have dl: "uint a1 div 2 ^ 12 < 2 ^ 40" "uint a2 div 2 ^ 24 < 2 ^ 28" "uint a3 div 2 ^ 36 < 2 ^ 16" using l by (simp_all add: div_less_iff_less_mult)
  have w: "uint (a0 OR push_bit 52 a1) = uint a0 + 2 ^ 52 * (uint a1 mod 2 ^ 12)"
    "uint (drop_bit 12 a1 OR push_bit 40 a2) = uint a1 div 2 ^ 12 + 2 ^ 40 * (uint a2 mod 2 ^ 24)"
    "uint (drop_bit 24 a2 OR push_bit 28 a3) = uint a2 div 2 ^ 24 + 2 ^ 28 * (uint a3 mod 2 ^ 36)"
    "uint (drop_bit 36 a3 OR push_bit 16 a4) = uint a3 div 2 ^ 36 + 2 ^ 16 * uint a4"
    using l dl by (simp_all add: uint_or_shift uint_drop_bit_div)
  have d: "uint a1 = uint a1 mod 2 ^ 12 + 2 ^ 12 * (uint a1 div 2 ^ 12)" "uint a2 = uint a2 mod 2 ^ 24 + 2 ^ 24 * (uint a2 div 2 ^ 24)"
    "uint a3 = uint a3 mod 2 ^ 36 + 2 ^ 36 * (uint a3 div 2 ^ 36)" by simp_all
  have sum: "(a + 2 ^ 52 * b) + 2 ^ 64 * (c + 2 ^ 40 * d) + 2 ^ 128 * (e + 2 ^ 28 * f) + 2 ^ 192 * (g + 2 ^ 16 * h) =
      a + 2 ^ 52 * (b + 2 ^ 12 * c) + 2 ^ 104 * (d + 2 ^ 24 * e) + 2 ^ 156 * (f + 2 ^ 36 * g) + 2 ^ 208 * h" for a b c d e f g h :: int
    by (simp add: algebra_simps)
  show ?thesis unfolding a fe52_pack.simps lval.simps w sum fe52_val.simps d [symmetric] ..
qed

lemma fe52_to_fe_val:
  assumes "fe52_loose a"
  shows "fval (fe52_to_fe a) = fe52_val a mod prime_p" "fe_ok (fe52_to_fe a)"
proof -
  show v: "fval (fe52_to_fe a) = fe52_val a mod prime_p"
    by (simp add: fval_def fe52_to_fe_def lval_fe52_pack fe52_normalize_val assms)
  show "fe_ok (fe52_to_fe a)" by (rule fe_ok_mod [OF v])
qed

lemma fe52_from_fe_val: "fe52_val (fe52_from_fe fe) = fval fe" "fe52_reduced (fe52_from_fe fe)"
  by (simp_all add: fe52_from_fe_def fval_def fe52_from_4x64_val)

lemma reduced_mag: "fe52_reduced a \<Longrightarrow> mag 1 32 a"
  by (cases a) simp

lemma fe52_to_from_fe: "fe_ok fe \<Longrightarrow> fe52_to_fe (fe52_from_fe fe) = fe"
  using fe52_to_fe_val [OF mag_loose [OF reduced_mag [OF fe52_from_fe_val(2)]], of fe]
  by (simp add: fe52_from_fe_val fval_inj [symmetric])

lemma fe52_store_b32_prenorm_pack: "fe52_store_b32_prenorm a = store_be_limbs (fe52_pack a)"
  by (cases "fe52_pack a") (simp add: fe52_store_b32_prenorm_def)

text \<open>\<open>from_bytes\<close>: the early-exit comparison and the subtraction by the complement.\<close>

lemma ge_prime_var_iff: "ge_prime_var l \<longleftrightarrow> prime_p \<le> lval l"
proof -
  obtain l0 l1 l2 l3 where l: "l = Limbs4 l0 l1 l2 l3" by (cases l)
  have b: "uint l0 \<le> 0xFFFFFFFFFFFFFFFF" "uint l1 \<le> 0xFFFFFFFFFFFFFFFF" "uint l2 \<le> 0xFFFFFFFFFFFFFFFF" "uint l3 \<le> 0xFFFFFFFFFFFFFFFF"
    using uint_lt64 [of l0] uint_lt64 [of l1] uint_lt64 [of l2] uint_lt64 [of l3] by linarith+
  have g: "0 \<le> uint l0" "0 \<le> uint l1" "0 \<le> uint l2" "0 \<le> uint l3" by simp_all
  have v: "lval l = uint l0 + 0x10000000000000000 * uint l1 + 0x100000000000000000000000000000000 * uint l2 +
      0x1000000000000000000000000000000000000000000000000 * uint l3" by (simp add: l)
  have "ge_prime_var l \<longleftrightarrow> uint l3 = 0xFFFFFFFFFFFFFFFF \<and> uint l2 = 0xFFFFFFFFFFFFFFFF \<and> uint l1 = 0xFFFFFFFFFFFFFFFF \<and> 0xFFFFFFFEFFFFFC2F \<le> uint l0"
    using b by (simp add: l ge_prime_var_def PRIME_def word_less_def word_le_def; linarith)
  also have "\<dots> \<longleftrightarrow> prime_p \<le> lval l"
    unfolding v prime_p_def using b g by (intro iffI; (elim conjE)?; (intro conjI)?; linarith)
  finally show ?thesis .
qed

text \<open>Its result is the subtraction with borrows of the 4x64 code.\<close>

lemma sub_prime_noborrow_val:
  assumes "prime_p \<le> lval l"
  shows "lval (sub_prime_noborrow l) = lval l - prime_p"
proof -
  obtain l0 l1 l2 l3 where l: "l = Limbs4 l0 l1 l2 l3" by (cases l)
  have b: "uint l0 \<le> 0xFFFFFFFFFFFFFFFF" "uint l1 \<le> 0xFFFFFFFFFFFFFFFF" "uint l2 \<le> 0xFFFFFFFFFFFFFFFF" "uint l3 \<le> 0xFFFFFFFFFFFFFFFF"
    using uint_lt64 [of l0] uint_lt64 [of l1] uint_lt64 [of l2] uint_lt64 [of l3] by linarith+
  have v: "lval l = uint l0 + 0x10000000000000000 * uint l1 + 0x100000000000000000000000000000000 * uint l2 +
      0x1000000000000000000000000000000000000000000000000 * uint l3" by (simp add: l)
  have h: "uint l1 = 0xFFFFFFFFFFFFFFFF" "uint l2 = 0xFFFFFFFFFFFFFFFF" "uint l3 = 0xFFFFFFFFFFFFFFFF" "0xFFFFFFFEFFFFFC2F \<le> uint l0"
    using assms b unfolding v prime_p_def by linarith+
  then have w: "l1 = 0xFFFFFFFFFFFFFFFF" "l2 = 0xFFFFFFFFFFFFFFFF" "l3 = 0xFFFFFFFFFFFFFFFF" by (simp_all add: word_uint_eq_iff)
  define s where "s = (ucast l0 + ucast (NOT (limb0 PRIME)) + 1 :: u128)"
  have s: "uint s = uint l0 + 0x1000003D1"
    unfolding s_def using b(1) by (subst uint_add128_small; (subst uint_add128_small)?; simp add: PRIME_def)
  have "uint (drop_bit 64 s) = uint (1 :: u128)"
  proof -
    have "uint s div 0x10000000000000000 = 1" using s h(4) b(1) by linarith
    then show ?thesis by (simp add: uint_drop_bit_div)
  qed
  then have c: "drop_bit 64 s = 1" by (simp only: word_uint_eq_iff [symmetric])
  have lo: "uint (ucast s :: u64) = uint l0 + 0x1000003D1 - 0x10000000000000000"
    using u128_split [of s] s c by simp
  have r: "sub_prime_noborrow l = Limbs4 (ucast s) 0 0 0"
    unfolding l sub_prime_noborrow_def Let_def limbs4.sel s_def [symmetric] c w by (simp add: PRIME_def)
  show ?thesis unfolding r lval.simps lo v h prime_p_def by simp
qed

lemma be_limb_eq: "be_limb bs i = push_bit 56 (ucast (bs ! (i * 8))) OR push_bit 48 (ucast (bs ! (i * 8 + 1))) OR push_bit 40 (ucast (bs ! (i * 8 + 2)))
     OR push_bit 32 (ucast (bs ! (i * 8 + 3))) OR push_bit 24 (ucast (bs ! (i * 8 + 4))) OR push_bit 16 (ucast (bs ! (i * 8 + 5)))
     OR push_bit 8 (ucast (bs ! (i * 8 + 6))) OR ucast (bs ! (i * 8 + 7))"
proof -
  have u: "[0..<8] = [0, 1, 2, 3, 4, 5, 6, 7 :: nat]" by (simp add: upt_rec)
  show ?thesis unfolding be_limb_def u by (simp add: push_bit_or or.assoc)
qed

lemma be_limbs_load: "length bs = 32 \<Longrightarrow> Limbs4 (be_limb bs 3) (be_limb bs 2) (be_limb bs 1) (be_limb bs 0) = load_be_limbs bs"
  by (simp add: load_be_limbs_def load_be64_def be_limb_eq numeral_2_eq_2)

lemma fe52_from_bytes_val:
  assumes "length bs = 32"
  shows "fe52_val (fe52_from_bytes bs) = be_val bs mod prime_p" "fe52_reduced (fe52_from_bytes bs)"
proof -
  have b: "be_val bs < 2 ^ 256" using be_val_bound [of bs] by (simp add: assms)
  have m: "be_val bs mod prime_p = (if prime_p \<le> be_val bs then be_val bs - prime_p else be_val bs)"
  proof (cases "prime_p \<le> be_val bs")
    case True
    then have "(be_val bs - prime_p) mod prime_p = be_val bs - prime_p" using b prime_p_bounds by (intro mod_pos_pos_trivial) linarith+
    then show ?thesis using True by simp
  qed simp
  show "fe52_val (fe52_from_bytes bs) = be_val bs mod prime_p"
    unfolding fe52_from_bytes_def Let_def be_limbs_load [OF assms] fe52_from_4x64_val m
    using lval_load_be_limbs [of bs] assms by (simp add: ge_prime_var_iff sub_prime_noborrow_val)
  show "fe52_reduced (fe52_from_bytes bs)" unfolding fe52_from_bytes_def Let_def by (rule fe52_from_4x64_val)
qed

text \<open>\<open>to_bytes_into\<close> writes byte by byte what the packed form stores limb by limb.\<close>

lemma high_bits_52: "uint (x :: u64) \<le> 0xFFFFFFFFFFFFF \<Longrightarrow> 52 \<le> n \<Longrightarrow> \<not> bit x n"
proof -
  assume "uint x \<le> 0xFFFFFFFFFFFFF" "52 \<le> n"
  then have "take_bit 52 x = x" by (simp add: word_uint_eq_iff unsigned_take_bit_eq take_bit_int_eq_self)
  then show "\<not> bit x n" using \<open>52 \<le> n\<close> by (metis bit_take_bit_iff not_less)
qed

lemma byte_eqI:
  fixes a b :: byte
  assumes "bit a 0 = bit b 0" "bit a 1 = bit b 1" "bit a 2 = bit b 2" "bit a 3 = bit b 3" "bit a 4 = bit b 4" "bit a 5 = bit b 5" "bit a 6 = bit b 6" "bit a 7 = bit b 7"
  shows "a = b"
proof (rule bit_word_eqI)
  fix n assume "n < LENGTH(8)"
  then have "n = 0 \<or> n = 1 \<or> n = 2 \<or> n = 3 \<or> n = 4 \<or> n = 5 \<or> n = 6 \<or> n = 7" by auto
  then show "bit a n = bit b n" using assms by auto
qed

lemma bit_nibble_mask: "bit (0xF :: u64) n \<longleftrightarrow> n < 4"
proof -
  have "(0xF :: u64) = mask 4" by (simp add: mask_eq_exp_minus_1)
  then show ?thesis by (simp only: bit_mask_iff) auto
qed

lemma fe52_to_bytes_into_pack:
  "fe52_loose a \<Longrightarrow> fe52_to_bytes_into a = store_be_limbs (fe52_pack (fe52_normalize a))"
proof -
  assume "fe52_loose a"
  then have red: "fe52_reduced (fe52_normalize a)" by (rule fe52_normalize_val)
  obtain t0 t1 t2 t3 t4 where t: "fe52_normalize a = Fe52 t0 t1 t2 t3 t4" by (cases "fe52_normalize a")
  have l: "uint t0 \<le> 0xFFFFFFFFFFFFF" "uint t1 \<le> 0xFFFFFFFFFFFFF" "uint t2 \<le> 0xFFFFFFFFFFFFF" "uint t3 \<le> 0xFFFFFFFFFFFFF"
    using red by (simp_all add: t)
  note nb = high_bits_52 [OF l(1)] high_bits_52 [OF l(2)] high_bits_52 [OF l(3)] high_bits_52 [OF l(4)]
  show ?thesis
    unfolding fe52_to_bytes_into_def t fe52.case fe52_pack.simps store_be_limbs.simps store_be64_def append.simps list.inject
    by (intro conjI byte_eqI) (simp_all add: bit_simps nb bit_nibble_mask)
qed

lemma be_val_fe52_to_bytes_into: "fe52_loose a \<Longrightarrow> be_val (fe52_to_bytes_into a) = fe52_val a mod prime_p"
  by (simp add: fe52_to_bytes_into_pack be_val_store_be_limbs lval_fe52_pack fe52_normalize_val)

section \<open>Properties\<close>

lemma fe52_from_to_bytes: "fe52_loose a \<Longrightarrow> fe52_from_bytes (fe52_to_bytes_into a) = fe52_normalize a"
  using fe52_from_bytes_val [of "fe52_to_bytes_into a"] fe52_normalize_val [of a]
  by (intro fe52_val_inj) (simp_all add: fe52_to_bytes_into_pack be_val_store_be_limbs lval_fe52_pack)

lemma fe52_from_bytes_4x64: "length bs = 32 \<Longrightarrow> fe52_from_bytes bs = fe52_from_fe (fe_from_bytes bs)"
  by (intro fe52_val_inj) (simp_all add: fe52_from_bytes_val fe52_from_fe_val fval_from_bytes)

lemma fe52_to_bytes_4x64: "fe52_loose a \<Longrightarrow> fe52_to_bytes_into a = fe_to_bytes (fe52_to_fe a)"
  by (simp add: fe52_to_bytes_into_pack fe_to_bytes_def fe52_to_fe_def)

text \<open>C20: On limbs up to 0xFFF0000000000000 normalize is reduction modulo the prime, normalize_weak keeps the residue and bounds the
  limbs, the constant-time and the early-exit zero test both decide divisibility by the prime, and operator== compares residues.\<close>

theorem fe52_normalize_correct:
  assumes "fe52_loose a" "fe52_loose b"
  shows "fe52_val (fe52_normalize a) = fe52_val a mod prime_p \<and> fe52_reduced (fe52_normalize a) \<and>
    fe52_val (fe52_normalize_weak a) mod prime_p = fe52_val a mod prime_p \<and> mag 1 32 (fe52_normalize_weak a) \<and>
    (fe52_normalizes_to_zero a \<longleftrightarrow> prime_p dvd fe52_val a) \<and> (fe52_normalizes_to_zero_var a \<longleftrightarrow> prime_p dvd fe52_val a) \<and>
    (fe52_eq a b \<longleftrightarrow> fe52_val a mod prime_p = fe52_val b mod prime_p)"
  using fe52_normalize_val [OF assms(1)] fe52_normalize_weak_val [OF assms(1)] fe52_normalizes_to_zero_iff [OF assms(1)]
    fe52_normalizes_to_zero_var_iff [OF assms(1)] fe52_eq_iff [OF assms] by (simp add: dvd_eq_mod_eq_0)

theorem fe52_normalize_correct_witness:
  "\<not> fe52_normalizes_to_zero_var (Fe52 0xFFF0000000000000 0xFFF0000000000000 0xFFF0000000000000 0xFFF0000000000000 0xFFF0000000000000)"
proof -
  have l: "fe52_loose (Fe52 0xFFF0000000000000 0xFFF0000000000000 0xFFF0000000000000 0xFFF0000000000000 0xFFF0000000000000)" by simp
  have "\<not> prime_p dvd fe52_val (Fe52 0xFFF0000000000000 0xFFF0000000000000 0xFFF0000000000000 0xFFF0000000000000 0xFFF0000000000000)"
    by (simp add: prime_p_def)
  then show ?thesis using fe52_normalize_correct [OF l l] by blast
qed

text \<open>The two representations of the field agree: a canonical 4x64 element survives the conversion to 5x52 limbs and back, an
  unnormalised 5x52 element leaves as its canonical form, and reading and writing bytes in 5x52 limbs is reading and writing them in 4x64
  limbs, so bytes written are read back as the normalised element.\<close>

theorem fe52_conversions_roundtrip:
  assumes "fe_ok x" "fe52_loose a" "length bs = 32"
  shows "fe52_to_fe (fe52_from_fe x) = x \<and> fe52_from_fe (fe52_to_fe a) = fe52_normalize a \<and>
    fe52_from_bytes bs = fe52_from_fe (fe_from_bytes bs) \<and> fe52_to_bytes_into a = fe_to_bytes (fe52_to_fe a) \<and>
    fe52_from_bytes (fe52_to_bytes_into a) = fe52_normalize a"
proof -
  have "fe52_from_fe (fe52_to_fe a) = fe52_normalize a"
    using fe52_to_fe_val [OF assms(2)] fe52_normalize_val [OF assms(2)] by (intro fe52_val_inj) (simp_all add: fe52_from_fe_val)
  then show ?thesis
    using fe52_to_from_fe [OF assms(1)] fe52_from_bytes_4x64 [OF assms(3)] fe52_to_bytes_4x64 [OF assms(2)] fe52_from_to_bytes [OF assms(2)] by simp
qed

theorem fe52_conversions_roundtrip_witness:
  "fe52_from_bytes (fe52_to_bytes_into (Fe52 0xFFFFEFFFFFC30 0xFFFFFFFFFFFFF 0xFFFFFFFFFFFFF 0xFFFFFFFFFFFFF 0xFFFFFFFFFFFF)) = fe52_one"
proof -
  let ?a = "Fe52 0xFFFFEFFFFFC30 0xFFFFFFFFFFFFF 0xFFFFFFFFFFFFF 0xFFFFFFFFFFFFF 0xFFFFFFFFFFFF"
  have "fe_ok fe_one" "fe52_loose ?a" "length (replicate 32 0 :: bytes) = 32" by simp_all
  from fe52_conversions_roundtrip [OF this] have "fe52_from_bytes (fe52_to_bytes_into ?a) = fe52_normalize ?a" by blast
  also have "\<dots> = fe52_one" by code_simp
  finally show ?thesis .
qed

end
