(* ===== verification/Fe52_Mul.thy ===== *)
theory Fe52_Mul
  imports Fe52
begin

text \<open>
  The product and the square of \<open>FieldElement52\<close> in their C++ bodies (\<open>fe52_mul_inner\<close>, \<open>fe52_sqr_inner\<close> of
  field_52_impl.hpp): column sums in two 128-bit accumulators, columns 5 to 8 folded with
  \<open>R52 = 2^260 mod p\<close> while the low columns are summed. The value is the product modulo the prime for inputs of
  magnitude up to 16, and the output has magnitude one up to a small excess of the top limb.
\<close>

unbundle bit_operations_syntax

section \<open>The two kernels\<close>

text \<open>\<open>u128_mul\<close>; \<open>u128_accum_mul\<close> adds it to an accumulator.\<close>

definition u128_mul :: "u64 \<Rightarrow> u64 \<Rightarrow> u128" where "u128_mul a b = ucast a * ucast b"

definition fe52_mul_inner :: "fe52 \<Rightarrow> fe52 \<Rightarrow> fe52" where
  "fe52_mul_inner a b = (case a of Fe52 a0 a1 a2 a3 a4 \<Rightarrow> case b of Fe52 b0 b1 b2 b3 b4 \<Rightarrow>
     let d = u128_mul a0 b3 + u128_mul a1 b2 + u128_mul a2 b1 + u128_mul a3 b0;
         c = u128_mul a4 b4;
         d = d + u128_mul R52 (ucast c);
         c = drop_bit 64 c;
         t3 = ucast d AND M52; d = drop_bit 52 d;
         d = d + u128_mul a0 b4 + u128_mul a1 b3 + u128_mul a2 b2 + u128_mul a3 b1 + u128_mul a4 b0;
         d = d + u128_mul (push_bit 12 R52) (ucast c);
         t4 = ucast d AND M52; d = drop_bit 52 d;
         tx = drop_bit 48 t4; t4 = t4 AND drop_bit 4 M52;
         c = u128_mul a0 b0;
         d = d + u128_mul a1 b4 + u128_mul a2 b3 + u128_mul a3 b2 + u128_mul a4 b1;
         u0 = ucast d AND M52; d = drop_bit 52 d;
         u0 = push_bit 4 u0 OR tx;
         c = c + u128_mul u0 (drop_bit 4 R52);
         r0 = ucast c AND M52; c = drop_bit 52 c;
         c = c + u128_mul a0 b1 + u128_mul a1 b0;
         d = d + u128_mul a2 b4 + u128_mul a3 b3 + u128_mul a4 b2;
         c = c + u128_mul (ucast d AND M52) R52; d = drop_bit 52 d;
         r1 = ucast c AND M52; c = drop_bit 52 c;
         c = c + u128_mul a0 b2 + u128_mul a1 b1 + u128_mul a2 b0;
         d = d + u128_mul a3 b4 + u128_mul a4 b3;
         c = c + u128_mul R52 (ucast d); d = drop_bit 64 d;
         r2 = ucast c AND M52; c = drop_bit 52 c;
         c = c + u128_mul (push_bit 12 R52) (ucast d) + ucast t3;
         r3 = ucast c AND M52; c = drop_bit 52 c;
         c = c + ucast t4;
         r4 = ucast c
     in Fe52 r0 r1 r2 r3 r4)"

definition fe52_sqr_inner :: "fe52 \<Rightarrow> fe52" where
  "fe52_sqr_inner a = (case a of Fe52 a0 a1 a2 a3 a4 \<Rightarrow>
     let d = u128_mul (a0 * 2) a3 + u128_mul (a1 * 2) a2;
         c = u128_mul a4 a4;
         d = d + u128_mul R52 (ucast c);
         c = drop_bit 64 c;
         t3 = ucast d AND M52; d = drop_bit 52 d;
         d = d + u128_mul (a0 * 2) a4 + u128_mul (a1 * 2) a3 + u128_mul a2 a2;
         d = d + u128_mul (push_bit 12 R52) (ucast c);
         t4 = ucast d AND M52; d = drop_bit 52 d;
         tx = drop_bit 48 t4; t4 = t4 AND drop_bit 4 M52;
         c = u128_mul a0 a0;
         d = d + u128_mul (a1 * 2) a4 + u128_mul (a2 * 2) a3;
         u0 = ucast d AND M52; d = drop_bit 52 d;
         u0 = push_bit 4 u0 OR tx;
         c = c + u128_mul u0 (drop_bit 4 R52);
         r0 = ucast c AND M52; c = drop_bit 52 c;
         c = c + u128_mul (a0 * 2) a1;
         d = d + u128_mul (a2 * 2) a4 + u128_mul a3 a3;
         c = c + u128_mul (ucast d AND M52) R52; d = drop_bit 52 d;
         r1 = ucast c AND M52; c = drop_bit 52 c;
         c = c + u128_mul (a0 * 2) a2 + u128_mul a1 a1;
         d = d + u128_mul (a3 * 2) a4;
         c = c + u128_mul R52 (ucast d); d = drop_bit 64 d;
         r2 = ucast c AND M52; c = drop_bit 52 c;
         c = c + u128_mul (push_bit 12 R52) (ucast d) + ucast t3;
         r3 = ucast c AND M52; c = drop_bit 52 c;
         c = c + ucast t4;
         r4 = ucast c
     in Fe52 r0 r1 r2 r3 r4)"

text \<open>\<open>operator*\<close>, \<open>mul_assign\<close>; \<open>square\<close>, \<open>square_inplace\<close>.\<close>

definition fe52_mul :: "fe52 \<Rightarrow> fe52 \<Rightarrow> fe52" where "fe52_mul a b = fe52_mul_inner a b"
definition fe52_square :: "fe52 \<Rightarrow> fe52" where "fe52_square a = fe52_sqr_inner a"

section \<open>Column sums as integers\<close>

text \<open>
  What one step contributes: splitting an accumulator at bit 52 or 64.
\<close>

lemma acc_split52:
  "uint (ucast (d :: u128) AND M52) + 0x10000000000000 * uint (drop_bit 52 d) = uint d" "uint (ucast d AND M52) \<le> 0xFFFFFFFFFFFFF"
proof -
  have "uint (ucast d AND M52) = uint d mod 2 ^ 52"
    unfolding uint_M52 by (simp add: unsigned_ucast_eq take_bit_eq_mod mod_mod_cancel)
  then show "uint (ucast d AND M52) + 0x10000000000000 * uint (drop_bit 52 d) = uint d" "uint (ucast d AND M52) \<le> 0xFFFFFFFFFFFFF"
    using mod_mult_div_eq [of "uint d" "2 ^ 52"] by (simp_all add: uint_drop_bit_div)
qed

lemma acc_split64:
  "uint (ucast (d :: u128) :: u64) + 0x10000000000000000 * uint (drop_bit 64 d) = uint d"
  using u128_split [of d] by simp

lemma uint_ucast64_small: "uint (d :: u128) < 0x10000000000000000 \<Longrightarrow> uint (ucast d :: u64) = uint d"
  by (simp add: unsigned_ucast_eq take_bit_int_eq_self)

lemma uint_bounds64: "0 \<le> uint (x :: u64)" "uint x \<le> 0xFFFFFFFFFFFFFFFF"
  using uint_lt64 [of x] by (simp, linarith)

lemma acc_word: "x = word_of_int v \<Longrightarrow> 0 \<le> v \<Longrightarrow> v < 0x100000000000000000000000000000000 \<Longrightarrow> uint (x :: u128) = v"
  by (simp add: uint_word_of_int)

lemma u128_mul_int: "u128_mul a b = word_of_int (uint a * uint b)"
  by (simp add: u128_mul_def)

lemma u128_uint: "x = word_of_int (uint (x :: u128))" "ucast (t :: u64) = (word_of_int (uint t) :: u128)"
  by simp_all

text \<open>The columns, over the 25 partial products, and the identity they satisfy.\<close>

lemma comba_identity:
  fixes p00 :: int
  assumes e1: "clo + 0x10000000000000000 * chi = p44"
    and e2: "t3 + 0x10000000000000 * d1 = p03 + p12 + p21 + p30 + 0x1000003D10 * clo"
    and e3: "t4 + 0x1000000000000 * tx + 0x10000000000000 * d2 = d1 + p04 + p13 + p22 + p31 + p40 + 0x1000003D10000 * chi"
    and e4: "u0 + 0x10000000000000 * d3 = d2 + p14 + p23 + p32 + p41"
    and e5: "r0 + 0x10000000000000 * c1 = p00 + (16 * u0 + tx) * 0x1000003D1"
    and e6: "v + 0x10000000000000 * d4 = d3 + p24 + p33 + p42"
    and e7: "r1 + 0x10000000000000 * c2 = c1 + p01 + p10 + v * 0x1000003D10"
    and e8: "dlo + 0x10000000000000000 * dhi = d4 + p34 + p43"
    and e9: "r2 + 0x10000000000000 * c3 = c2 + p02 + p11 + p20 + 0x1000003D10 * dlo"
    and e10: "r3 + 0x10000000000000 * c4 = c3 + 0x1000003D10000 * dhi + t3"
    and e11: "r4 = c4 + t4"
  shows "p00 + 2 ^ 52 * (p01 + p10) + 2 ^ 104 * (p02 + p11 + p20) + 2 ^ 156 * (p03 + p12 + p21 + p30) +
      2 ^ 208 * (p04 + p13 + p22 + p31 + p40) + 2 ^ 260 * (p14 + p23 + p32 + p41) + 2 ^ 312 * (p24 + p33 + p42) +
      2 ^ 364 * (p34 + p43) + 2 ^ 416 * p44 =
    r0 + 2 ^ 52 * r1 + 2 ^ 104 * r2 + 2 ^ 156 * r3 + 2 ^ 208 * r4 +
      prime_p * (16 * (2 ^ 156 * clo + 2 ^ 220 * chi + u0 + 2 ^ 52 * v + 2 ^ 104 * dlo + 2 ^ 168 * dhi) + tx)"
proof -
  have "p44 = clo + 0x10000000000000000 * chi" using e1 by simp
  moreover have "p03 + p12 + p21 + p30 = t3 + 0x10000000000000 * d1 - 0x1000003D10 * clo" using e2 by simp
  moreover have "p04 + p13 + p22 + p31 + p40 = t4 + 0x1000000000000 * tx + 0x10000000000000 * d2 - d1 - 0x1000003D10000 * chi" using e3 by simp
  moreover have "p14 + p23 + p32 + p41 = u0 + 0x10000000000000 * d3 - d2" using e4 by simp
  moreover have "p00 = r0 + 0x10000000000000 * c1 - (16 * u0 + tx) * 0x1000003D1" using e5 by simp
  moreover have "p24 + p33 + p42 = v + 0x10000000000000 * d4 - d3" using e6 by simp
  moreover have "p01 + p10 = r1 + 0x10000000000000 * c2 - c1 - v * 0x1000003D10" using e7 by simp
  moreover have "p34 + p43 = dlo + 0x10000000000000000 * dhi - d4" using e8 by simp
  moreover have "p02 + p11 + p20 = r2 + 0x10000000000000 * c3 - c2 - 0x1000003D10 * dlo" using e9 by simp
  moreover have "c3 = r3 + 0x10000000000000 * c4 - 0x1000003D10000 * dhi - t3" using e10 by simp
  moreover have "c4 = r4 - t4" using e11 by simp
  ultimately show ?thesis by (simp add: prime_p_def algebra_simps)
qed

section \<open>The product\<close>

lemma limb_mul_bound: "uint (x :: u64) \<le> b \<Longrightarrow> uint (y :: u64) \<le> b' \<Longrightarrow> 0 \<le> uint x * uint y \<and> uint x * uint y \<le> b * b'"
  by (auto intro!: mult_mono intro: order_trans [OF uint_ge_0])

lemma uint_top_nibble:
  fixes w :: u64
  assumes "uint w \<le> 0xFFFFFFFFFFFFF"
  shows "uint (w AND drop_bit 4 M52) + 0x1000000000000 * uint (drop_bit 48 w) = uint w" "uint (w AND drop_bit 4 M52) \<le> 0xFFFFFFFFFFFF"
    "uint (drop_bit 48 w) \<le> 15"
proof -
  have "drop_bit 4 M52 = M48" by (simp add: M52_def M48_def)
  then show "uint (w AND drop_bit 4 M52) + 0x1000000000000 * uint (drop_bit 48 w) = uint w" "uint (w AND drop_bit 4 M52) \<le> 0xFFFFFFFFFFFF"
    using mod_mult_div_eq [of "uint w" "2 ^ 48"] by (simp_all add: uint_M48 uint_drop_bit_div)
  have "uint w div 0x1000000000000 \<le> 15" using assms by linarith
  then show "uint (drop_bit 48 w) \<le> 15" by (simp add: uint_drop_bit_div)
qed

lemma uint_shift_or:
  fixes u t :: u64
  assumes "uint u \<le> 0xFFFFFFFFFFFFF" "uint t \<le> 15"
  shows "uint (push_bit 4 u OR t) = 16 * uint u + uint t"
proof -
  have d: "push_bit 4 u AND t = 0"
  proof (rule bit_word_eqI)
    fix n assume "n < LENGTH(64)"
    have "t = take_bit 4 t"
      using assms(2) by (simp add: word_uint_eq_iff unsigned_take_bit_eq take_bit_int_eq_self)
    then have "bit t n \<Longrightarrow> n < 4" by (metis bit_take_bit_iff)
    then show "bit (push_bit 4 u AND t) n \<longleftrightarrow> bit 0 n" by (auto simp: bit_simps)
  qed
  have p: "uint (push_bit 4 u) = 16 * uint u"
  proof -
    have "push_bit 4 u = u * 16" by (simp add: push_bit_eq_mult)
    then show ?thesis using assms(1) uint_mult64 [of u 16] by simp
  qed
  have "push_bit 4 u OR t = push_bit 4 u + t" using d by (simp add: disjunctive_add_eq_or)
  then show ?thesis using assms p by (simp add: uint_add64)
qed

text \<open>
  The accumulators are bounded by products of magnitudes: low limbs with low limbs, low with top, top with top.
  Two operands of magnitude up to 16 are within these bounds.
\<close>

lemma mag_products:
  assumes "mag l h (Fe52 a0 a1 a2 a3 a4)" "mag l' h' (Fe52 b0 b1 b2 b3 b4)" "l * l' \<le> 256" "l * h' \<le> 8192" "h * l' \<le> 8192" "h * h' \<le> 262144"
    and x: "x \<in> {a0, a1, a2, a3}" and y: "y \<in> {b0, b1, b2, b3}"
  shows "0 \<le> uint x * uint y \<and> uint x * uint y \<le> 0xFFFFFFFFFFFFFF * 0xFFFFFFFFFFFFFF"
    "0 \<le> uint x * uint b4 \<and> uint x * uint b4 \<le> 0xFFFFFFFFFFFFFF * 0x10000000000000"
    "0 \<le> uint a4 * uint y \<and> uint a4 * uint y \<le> 0x10000000000000 * 0xFFFFFFFFFFFFFF"
    "0 \<le> uint a4 * uint b4 \<and> uint a4 * uint b4 \<le> 0x10000000000000 * 0x10000000000000"
proof -
  have a: "uint x \<le> l * 0xFFFFFFFFFFFFF" "uint y \<le> l' * 0xFFFFFFFFFFFFF" "uint a4 \<le> h * 0x80000000000" "uint b4 \<le> h' * 0x80000000000"
    using assms(1,2) x y by auto
  have m: "0 \<le> uint u * uint w \<and> uint u * uint w \<le> (p * q) * (c * d)" if "uint u \<le> p * c" "uint w \<le> q * d" for u w :: u64 and p q c d
    using limb_mul_bound [OF that] by (simp add: ac_simps)
  show "0 \<le> uint x * uint y \<and> uint x * uint y \<le> 0xFFFFFFFFFFFFFF * 0xFFFFFFFFFFFFFF" using m [OF a(1,2)] assms(3) by simp
  show "0 \<le> uint x * uint b4 \<and> uint x * uint b4 \<le> 0xFFFFFFFFFFFFFF * 0x10000000000000" using m [OF a(1,4)] assms(4) by simp
  show "0 \<le> uint a4 * uint y \<and> uint a4 * uint y \<le> 0x10000000000000 * 0xFFFFFFFFFFFFFF" using m [OF a(3,2)] assms(5) by simp
  show "0 \<le> uint a4 * uint b4 \<and> uint a4 * uint b4 \<le> 0x10000000000000 * 0x10000000000000" using m [OF a(3,4)] assms(6) by simp
qed

lemma fe52_val_mult:
  fixes a0 :: int
  shows "(a0 + 2 ^ 52 * a1 + 2 ^ 104 * a2 + 2 ^ 156 * a3 + 2 ^ 208 * a4) * (b0 + 2 ^ 52 * b1 + 2 ^ 104 * b2 + 2 ^ 156 * b3 + 2 ^ 208 * b4) =
    a0 * b0 + 2 ^ 52 * (a0 * b1 + a1 * b0) + 2 ^ 104 * (a0 * b2 + a1 * b1 + a2 * b0) + 2 ^ 156 * (a0 * b3 + a1 * b2 + a2 * b1 + a3 * b0) +
      2 ^ 208 * (a0 * b4 + a1 * b3 + a2 * b2 + a3 * b1 + a4 * b0) + 2 ^ 260 * (a1 * b4 + a2 * b3 + a3 * b2 + a4 * b1) +
      2 ^ 312 * (a2 * b4 + a3 * b3 + a4 * b2) + 2 ^ 364 * (a3 * b4 + a4 * b3) + 2 ^ 416 * (a4 * b4)"
  by (simp add: algebra_simps)

lemma fe52_mul_inner_val:
  assumes "mag l h a" "mag l' h' b" "l * l' \<le> 256" "l * h' \<le> 8192" "h * l' \<le> 8192" "h * h' \<le> 262144"
  shows "fe52_val (fe52_mul_inner a b) mod prime_p = fe52_val a * fe52_val b mod prime_p" "mag 1 33 (fe52_mul_inner a b)"
proof -
  obtain a0 a1 a2 a3 a4 where a: "a = Fe52 a0 a1 a2 a3 a4" by (cases a)
  obtain b0 b1 b2 b3 b4 where b: "b = Fe52 b0 b1 b2 b3 b4" by (cases b)
  note mp = mag_products [OF assms(1) [unfolded a] assms(2) [unfolded b] assms(3-6)]
  note bound = mp(1) mp(2) [where y = b0] mp(3) [where x = a0] mp(4) [where x = a0 and y = b0]
  define p00 where "p00 = uint a0 * uint b0"
  define p01 where "p01 = uint a0 * uint b1"
  define p02 where "p02 = uint a0 * uint b2"
  define p03 where "p03 = uint a0 * uint b3"
  define p04 where "p04 = uint a0 * uint b4"
  define p10 where "p10 = uint a1 * uint b0"
  define p11 where "p11 = uint a1 * uint b1"
  define p12 where "p12 = uint a1 * uint b2"
  define p13 where "p13 = uint a1 * uint b3"
  define p14 where "p14 = uint a1 * uint b4"
  define p20 where "p20 = uint a2 * uint b0"
  define p21 where "p21 = uint a2 * uint b1"
  define p22 where "p22 = uint a2 * uint b2"
  define p23 where "p23 = uint a2 * uint b3"
  define p24 where "p24 = uint a2 * uint b4"
  define p30 where "p30 = uint a3 * uint b0"
  define p31 where "p31 = uint a3 * uint b1"
  define p32 where "p32 = uint a3 * uint b2"
  define p33 where "p33 = uint a3 * uint b3"
  define p34 where "p34 = uint a3 * uint b4"
  define p40 where "p40 = uint a4 * uint b0"
  define p41 where "p41 = uint a4 * uint b1"
  define p42 where "p42 = uint a4 * uint b2"
  define p43 where "p43 = uint a4 * uint b3"
  define p44 where "p44 = uint a4 * uint b4"
  have p: "0 \<le> p00 \<and> p00 \<le> 0xFFFFFFFFFFFFFF * 0xFFFFFFFFFFFFFF"
    "0 \<le> p01 \<and> p01 \<le> 0xFFFFFFFFFFFFFF * 0xFFFFFFFFFFFFFF"
    "0 \<le> p02 \<and> p02 \<le> 0xFFFFFFFFFFFFFF * 0xFFFFFFFFFFFFFF"
    "0 \<le> p03 \<and> p03 \<le> 0xFFFFFFFFFFFFFF * 0xFFFFFFFFFFFFFF"
    "0 \<le> p04 \<and> p04 \<le> 0xFFFFFFFFFFFFFF * 0x10000000000000"
    "0 \<le> p10 \<and> p10 \<le> 0xFFFFFFFFFFFFFF * 0xFFFFFFFFFFFFFF"
    "0 \<le> p11 \<and> p11 \<le> 0xFFFFFFFFFFFFFF * 0xFFFFFFFFFFFFFF"
    "0 \<le> p12 \<and> p12 \<le> 0xFFFFFFFFFFFFFF * 0xFFFFFFFFFFFFFF"
    "0 \<le> p13 \<and> p13 \<le> 0xFFFFFFFFFFFFFF * 0xFFFFFFFFFFFFFF"
    "0 \<le> p14 \<and> p14 \<le> 0xFFFFFFFFFFFFFF * 0x10000000000000"
    "0 \<le> p20 \<and> p20 \<le> 0xFFFFFFFFFFFFFF * 0xFFFFFFFFFFFFFF"
    "0 \<le> p21 \<and> p21 \<le> 0xFFFFFFFFFFFFFF * 0xFFFFFFFFFFFFFF"
    "0 \<le> p22 \<and> p22 \<le> 0xFFFFFFFFFFFFFF * 0xFFFFFFFFFFFFFF"
    "0 \<le> p23 \<and> p23 \<le> 0xFFFFFFFFFFFFFF * 0xFFFFFFFFFFFFFF"
    "0 \<le> p24 \<and> p24 \<le> 0xFFFFFFFFFFFFFF * 0x10000000000000"
    "0 \<le> p30 \<and> p30 \<le> 0xFFFFFFFFFFFFFF * 0xFFFFFFFFFFFFFF"
    "0 \<le> p31 \<and> p31 \<le> 0xFFFFFFFFFFFFFF * 0xFFFFFFFFFFFFFF"
    "0 \<le> p32 \<and> p32 \<le> 0xFFFFFFFFFFFFFF * 0xFFFFFFFFFFFFFF"
    "0 \<le> p33 \<and> p33 \<le> 0xFFFFFFFFFFFFFF * 0xFFFFFFFFFFFFFF"
    "0 \<le> p34 \<and> p34 \<le> 0xFFFFFFFFFFFFFF * 0x10000000000000"
    "0 \<le> p40 \<and> p40 \<le> 0x10000000000000 * 0xFFFFFFFFFFFFFF"
    "0 \<le> p41 \<and> p41 \<le> 0x10000000000000 * 0xFFFFFFFFFFFFFF"
    "0 \<le> p42 \<and> p42 \<le> 0x10000000000000 * 0xFFFFFFFFFFFFFF"
    "0 \<le> p43 \<and> p43 \<le> 0x10000000000000 * 0xFFFFFFFFFFFFFF"
    "0 \<le> p44 \<and> p44 \<le> 0x10000000000000 * 0x10000000000000"
    unfolding p00_def p01_def p02_def p03_def p04_def p10_def p11_def p12_def p13_def p14_def p20_def p21_def p22_def p23_def p24_def p30_def p31_def p32_def p33_def p34_def p40_def p41_def p42_def p43_def p44_def
    by (intro bound; simp)+
  have m: "u128_mul a0 b0 = word_of_int p00" "u128_mul a0 b1 = word_of_int p01" "u128_mul a0 b2 = word_of_int p02" "u128_mul a0 b3 = word_of_int p03" "u128_mul a0 b4 = word_of_int p04" "u128_mul a1 b0 = word_of_int p10" "u128_mul a1 b1 = word_of_int p11" "u128_mul a1 b2 = word_of_int p12" "u128_mul a1 b3 = word_of_int p13" "u128_mul a1 b4 = word_of_int p14" "u128_mul a2 b0 = word_of_int p20" "u128_mul a2 b1 = word_of_int p21" "u128_mul a2 b2 = word_of_int p22" "u128_mul a2 b3 = word_of_int p23" "u128_mul a2 b4 = word_of_int p24" "u128_mul a3 b0 = word_of_int p30" "u128_mul a3 b1 = word_of_int p31" "u128_mul a3 b2 = word_of_int p32" "u128_mul a3 b3 = word_of_int p33" "u128_mul a3 b4 = word_of_int p34" "u128_mul a4 b0 = word_of_int p40" "u128_mul a4 b1 = word_of_int p41" "u128_mul a4 b2 = word_of_int p42" "u128_mul a4 b3 = word_of_int p43" "u128_mul a4 b4 = word_of_int p44"
    by (simp_all only: u128_mul_int p00_def p01_def p02_def p03_def p04_def p10_def p11_def p12_def p13_def p14_def p20_def p21_def p22_def p23_def p24_def p30_def p31_def p32_def p33_def p34_def p40_def p41_def p42_def p43_def p44_def)
  note pl = p [THEN conjunct1] and pu = p [THEN conjunct2, simplified]
  have k: "uint R52 = 0x1000003D10" "uint (push_bit 12 R52) = 0x1000003D10000" "uint (drop_bit 4 R52) = 0x1000003D1"
    by (simp_all add: R52_def)
  note kw = u128_mul_int [of R52] u128_mul_int [of "push_bit 12 R52"] u128_mul_int [of _ R52] u128_mul_int [of _ "drop_bit 4 R52"]
  define w1 where "w1 = u128_mul a4 b4"
  have w1: "uint w1 = p44"
    by (rule acc_word; use pl(25) pu(25)  in \<open>(simp add: w1_def m kw k; fail) | linarith\<close>)
  define clo where "clo = (ucast w1 :: u64)"
  define chi where "chi = drop_bit 64 w1"
  note chi = acc_split64 [of w1, folded clo_def chi_def] uint_bounds64 [of clo]
  have chi': "uint chi \<le> 0x10000000000" "0 \<le> uint chi" using chi w1 pl(25) pu(25)  by - (linarith, rule uint_ge_0)
  have chic: "uint (ucast chi :: u64) = uint chi" by (rule uint_ucast64_small) (use chi' in simp)
  define w2 where "w2 = u128_mul a0 b3 + u128_mul a1 b2 + u128_mul a2 b1 + u128_mul a3 b0 + u128_mul R52 clo"
  have w2: "uint w2 = p03 + p12 + p21 + p30 + 0x1000003D10 * uint clo"
    by (rule acc_word; use pl(4,8,12,16) pu(4,8,12,16) chi in \<open>(simp add: w2_def m kw k; fail) | linarith\<close>)
  define t3 where "t3 = (ucast w2 :: u64) AND M52"
  define d1 where "d1 = drop_bit 52 w2"
  note d1 = acc_split52 [of w2, folded t3_def d1_def]
  have d1': "0 \<le> uint d1" by simp
  define w3 where "w3 = d1 + u128_mul a0 b4 + u128_mul a1 b3 + u128_mul a2 b2 + u128_mul a3 b1 + u128_mul a4 b0 + u128_mul (push_bit 12 R52) (ucast chi)"
  have w3: "uint w3 = uint d1 + p04 + p13 + p22 + p31 + p40 + 0x1000003D10000 * uint chi"
    by (rule acc_word; use pl(5,9,13,17,21) pu(5,9,13,17,21) pl(4,8,12,16) pu(4,8,12,16) chi chi' w2 d1 d1' uint_ge_0 [of t3] in \<open>(simp add: w3_def m kw k chic; fail) | linarith\<close>)
  define t4x where "t4x = (ucast w3 :: u64) AND M52"
  define d2 where "d2 = drop_bit 52 w3"
  note d2 = acc_split52 [of w3, folded t4x_def d2_def]
  have d2': "0 \<le> uint d2" "uint d2 \<le> 0x10000000000000000" using d2 w3 pl(5,9,13,17,21,4,8,12,16) pu(5,9,13,17,21,4,8,12,16) d1 w2 chi chi' uint_ge_0 [of t4x] uint_ge_0 [of t3] by - (rule uint_ge_0, linarith)
  define tx where "tx = drop_bit 48 t4x"
  define t4 where "t4 = t4x AND drop_bit 4 M52"
  note t4 = uint_top_nibble [OF d2(2), folded tx_def t4_def]
  define w4 where "w4 = d2 + u128_mul a1 b4 + u128_mul a2 b3 + u128_mul a3 b2 + u128_mul a4 b1"
  have w4: "uint w4 = uint d2 + p14 + p23 + p32 + p41"
    by (rule acc_word; use pl(10,14,18,22) pu(10,14,18,22) d2' in \<open>(simp add: w4_def m kw k; fail) | linarith\<close>)
  define u0x where "u0x = (ucast w4 :: u64) AND M52"
  define d3 where "d3 = drop_bit 52 w4"
  note d3 = acc_split52 [of w4, folded u0x_def d3_def]
  have d3': "0 \<le> uint d3" "uint d3 \<le> 0x10000000000000000" using d3 w4 pl(10,14,18,22) pu(10,14,18,22) d2' uint_ge_0 [of u0x] by - (rule uint_ge_0, linarith)
  define u0 where "u0 = push_bit 4 u0x OR tx"
  have u0: "uint u0 = 16 * uint u0x + uint tx" unfolding u0_def by (rule uint_shift_or [OF d3(2) t4(3)])
  have u0x: "0 \<le> uint u0x" "0 \<le> uint tx" by simp_all
  define w5 where "w5 = u128_mul a0 b0 + u128_mul u0 (drop_bit 4 R52)"
  have w5: "uint w5 = p00 + (16 * uint u0x + uint tx) * 0x1000003D1"
    by (rule acc_word; use pl(1) pu(1) d3 t4(3) u0x in \<open>(simp add: w5_def m kw k u0; fail) | linarith\<close>)
  define r0 where "r0 = (ucast w5 :: u64) AND M52"
  define c1 where "c1 = drop_bit 52 w5"
  note c1 = acc_split52 [of w5, folded r0_def c1_def]
  have c1': "0 \<le> uint c1" "uint c1 \<le> 0x20000000000000000" using c1 w5 [unfolded distrib_right] pl(1) pu(1) d3 t4(3) u0x uint_ge_0 [of r0] by - (rule uint_ge_0, linarith)
  define w6 where "w6 = d3 + u128_mul a2 b4 + u128_mul a3 b3 + u128_mul a4 b2"
  have w6: "uint w6 = uint d3 + p24 + p33 + p42"
    by (rule acc_word; use pl(15,19,23) pu(15,19,23) d3' in \<open>(simp add: w6_def m kw k; fail) | linarith\<close>)
  define v where "v = (ucast w6 :: u64) AND M52"
  define d4 where "d4 = drop_bit 52 w6"
  note d4 = acc_split52 [of w6, folded v_def d4_def]
  have d4': "0 \<le> uint d4" "uint d4 \<le> 0x10000000000000000" using d4 w6 pl(15,19,23) pu(15,19,23) d3' uint_ge_0 [of v] by - (rule uint_ge_0, linarith)
  have v: "0 \<le> uint v" by simp
  define w7 where "w7 = c1 + u128_mul a0 b1 + u128_mul a1 b0 + u128_mul v R52"
  have w7: "uint w7 = uint c1 + p01 + p10 + uint v * 0x1000003D10"
    by (rule acc_word; use pl(2,6) pu(2,6) c1' d4 v in \<open>(simp add: w7_def m kw k; fail) | linarith\<close>)
  define r1 where "r1 = (ucast w7 :: u64) AND M52"
  define c2 where "c2 = drop_bit 52 w7"
  note c2 = acc_split52 [of w7, folded r1_def c2_def]
  have c2': "0 \<le> uint c2" "uint c2 \<le> 0x20000000000000000" using c2 w7 pl(2,6) pu(2,6) c1' d4 uint_ge_0 [of r1] by - (rule uint_ge_0, linarith)
  define w8 where "w8 = d4 + u128_mul a3 b4 + u128_mul a4 b3"
  have w8: "uint w8 = uint d4 + p34 + p43"
    by (rule acc_word; use pl(20,24) pu(20,24) d4' in \<open>(simp add: w8_def m kw k; fail) | linarith\<close>)
  define dlo where "dlo = (ucast w8 :: u64)"
  define dhi where "dhi = drop_bit 64 w8"
  note dhi = acc_split64 [of w8, folded dlo_def dhi_def] uint_bounds64 [of dlo]
  have dhi': "uint dhi \<le> 0x300000000000" "0 \<le> uint dhi" using dhi w8 pl(20,24) pu(20,24) d4' by - (linarith, rule uint_ge_0)
  have dhic: "uint (ucast dhi :: u64) = uint dhi" by (rule uint_ucast64_small) (use dhi' in simp)
  define w9 where "w9 = c2 + u128_mul a0 b2 + u128_mul a1 b1 + u128_mul a2 b0 + u128_mul R52 dlo"
  have w9: "uint w9 = uint c2 + p02 + p11 + p20 + 0x1000003D10 * uint dlo"
    by (rule acc_word; use pl(3,7,11) pu(3,7,11) c2' dhi in \<open>(simp add: w9_def m kw k; fail) | linarith\<close>)
  define r2 where "r2 = (ucast w9 :: u64) AND M52"
  define c3 where "c3 = drop_bit 52 w9"
  note c3 = acc_split52 [of w9, folded r2_def c3_def]
  have c3': "0 \<le> uint c3" "uint c3 \<le> 0x20000000000000000" using c3 w9 pl(3,7,11) pu(3,7,11) c2' dhi uint_ge_0 [of r2] by - (rule uint_ge_0, linarith)
  have t: "0 \<le> uint t3" "0 \<le> uint t4" by simp_all
  define w10 where "w10 = c3 + u128_mul (push_bit 12 R52) (ucast dhi) + ucast t3"
  have w10: "uint w10 = uint c3 + 0x1000003D10000 * uint dhi + uint t3"
    by (rule acc_word; use  c3' dhi' d1 t in \<open>(simp add: w10_def m kw k dhic; fail) | linarith\<close>)
  define r3 where "r3 = (ucast w10 :: u64) AND M52"
  define c4 where "c4 = drop_bit 52 w10"
  note c4 = acc_split52 [of w10, folded r3_def c4_def]
  have c4': "0 \<le> uint c4" "uint c4 \<le> 0x60000000000" using c4 w10 c3' dhi' d1 uint_ge_0 [of r3] by - (rule uint_ge_0, linarith)
  define w11 where "w11 = c4 + ucast t4"
  have w11: "uint w11 = uint c4 + uint t4"
    by (rule acc_word; use  c4' t4 t in \<open>(simp add: w11_def m kw k; fail) | linarith\<close>)
  have r4: "uint (ucast w11 :: u64) = uint c4 + uint t4"
    unfolding w11 [symmetric] by (rule uint_ucast64_small) (use w11 c4' t4 in linarith)
  have r: "fe52_mul_inner a b = Fe52 r0 r1 r2 r3 (ucast w11)"
    unfolding a b fe52_mul_inner_def fe52.case Let_def
    unfolding w1_def [symmetric] clo_def [symmetric] chi_def [symmetric] w2_def [symmetric] t3_def [symmetric] d1_def [symmetric] w3_def [symmetric] t4x_def [symmetric] d2_def [symmetric] tx_def [symmetric] t4_def [symmetric] w4_def [symmetric] u0x_def [symmetric] d3_def [symmetric] u0_def [symmetric] w5_def [symmetric] r0_def [symmetric] c1_def [symmetric] w6_def [symmetric] v_def [symmetric] d4_def [symmetric] w7_def [symmetric] r1_def [symmetric] c2_def [symmetric] w8_def [symmetric] dlo_def [symmetric] dhi_def [symmetric] w9_def [symmetric] r2_def [symmetric] c3_def [symmetric] w10_def [symmetric] r3_def [symmetric] c4_def [symmetric] w11_def [symmetric] ..
  have e3: "uint t4 + 0x1000000000000 * uint tx + 0x10000000000000 * uint d2 = uint d1 + p04 + p13 + p22 + p31 + p40 + 0x1000003D10000 * uint chi"
    using d2(1) t4(1) w3 by linarith
  note id = comba_identity [OF chi(1) [unfolded w1] d1(1) [unfolded w2] e3 d3(1) [unfolded w4] c1(1) [unfolded w5] d4(1) [unfolded w6]
    c2(1) [unfolded w7] dhi(1) [unfolded w8] c3(1) [unfolded w9] c4(1) [unfolded w10] r4]
  have "fe52_val a * fe52_val b = fe52_val (fe52_mul_inner a b) +
      prime_p * (16 * (2 ^ 156 * uint clo + 2 ^ 220 * uint chi + uint u0x + 2 ^ 52 * uint v + 2 ^ 104 * uint dlo + 2 ^ 168 * uint dhi) + uint tx)"
    unfolding r unfolding a b fe52_val.simps fe52_val_mult
    by (rule id [unfolded p00_def p01_def p02_def p03_def p04_def p10_def p11_def p12_def p13_def p14_def p20_def p21_def p22_def p23_def p24_def p30_def p31_def p32_def p33_def p34_def p40_def p41_def p42_def p43_def p44_def])
  then show "fe52_val (fe52_mul_inner a b) mod prime_p = fe52_val a * fe52_val b mod prime_p" by simp
  show "mag 1 33 (fe52_mul_inner a b)"
    unfolding r mag.simps r4 using c1 c2 c3 c4 c4' t4 by simp
qed

section \<open>The square\<close>

text \<open>With no doubled limb wrapping, the square is the product: the column sums agree as words.\<close>

lemma u128_mul_dbl: "uint x \<le> 0xFFFFFFFFFFFFFF \<Longrightarrow> u128_mul (x * 2) y = u128_mul x y + u128_mul y x"
  by (simp add: u128_mul_int uint_mult64 algebra_simps)

lemma fe52_sqr_inner_eq:
  assumes "mag l h a" "l \<le> 16"
  shows "fe52_sqr_inner a = fe52_mul_inner a a"
proof -
  obtain a0 a1 a2 a3 a4 where a: "a = Fe52 a0 a1 a2 a3 a4" by (cases a)
  have "uint a0 \<le> l * 0xFFFFFFFFFFFFF" "uint a1 \<le> l * 0xFFFFFFFFFFFFF" "uint a2 \<le> l * 0xFFFFFFFFFFFFF" "uint a3 \<le> l * 0xFFFFFFFFFFFFF"
    using assms(1) by (simp_all add: a)
  then have l: "uint a0 \<le> 0xFFFFFFFFFFFFFF" "uint a1 \<le> 0xFFFFFFFFFFFFFF" "uint a2 \<le> 0xFFFFFFFFFFFFFF" "uint a3 \<le> 0xFFFFFFFFFFFFFF"
    using assms(2) by linarith+
  have s: "u128_mul (a0 * 2) a3 + u128_mul (a1 * 2) a2 = u128_mul a0 a3 + u128_mul a1 a2 + u128_mul a2 a1 + u128_mul a3 a0"
    "d + u128_mul (a0 * 2) a4 + u128_mul (a1 * 2) a3 + u128_mul a2 a2 = d + u128_mul a0 a4 + u128_mul a1 a3 + u128_mul a2 a2 + u128_mul a3 a1 + u128_mul a4 a0"
    "d + u128_mul (a1 * 2) a4 + u128_mul (a2 * 2) a3 = d + u128_mul a1 a4 + u128_mul a2 a3 + u128_mul a3 a2 + u128_mul a4 a1"
    "d + u128_mul (a0 * 2) a1 = d + u128_mul a0 a1 + u128_mul a1 a0"
    "d + u128_mul (a2 * 2) a4 + u128_mul a3 a3 = d + u128_mul a2 a4 + u128_mul a3 a3 + u128_mul a4 a2"
    "d + u128_mul (a0 * 2) a2 + u128_mul a1 a1 = d + u128_mul a0 a2 + u128_mul a1 a1 + u128_mul a2 a0"
    "d + u128_mul (a3 * 2) a4 = d + u128_mul a3 a4 + u128_mul a4 a3" for d
    by (simp_all add: u128_mul_dbl l)
  show ?thesis unfolding a fe52_sqr_inner_def fe52_mul_inner_def fe52.case s ..
qed

text \<open>Nonnegative bounds, as every element has them.\<close>

lemma mag_nonneg: "mag l h a \<Longrightarrow> 0 \<le> l \<and> 0 \<le> h"
proof (cases a)
  case (Fe52 a0 a1 a2 a3 a4)
  assume "mag l h a"
  then have "0 \<le> l * 0xFFFFFFFFFFFFF" "0 \<le> h * 0x80000000000"
    using uint_ge_0 [of a0] uint_ge_0 [of a4] unfolding Fe52 mag.simps by linarith+
  then show ?thesis by simp
qed

lemma fe52_mul_val:
  assumes "mag l h a" "mag l' h' b" "l * l' \<le> 256" "l * h' \<le> 8192" "h * l' \<le> 8192" "h * h' \<le> 262144"
  shows "fe52_val (fe52_mul a b) mod prime_p = fe52_val a * fe52_val b mod prime_p" "mag 1 33 (fe52_mul a b)"
  using fe52_mul_inner_val [OF assms] by (simp_all add: fe52_mul_def)

lemma mag_16:
  assumes "mag l h a" "mag l' h' b" "l \<le> 16" "h \<le> 512" "l' \<le> 16" "h' \<le> 512"
  shows "l * l' \<le> 256" "l * h' \<le> 8192" "h * l' \<le> 8192" "h * h' \<le> 262144"
  using mult_mono [of l 16 l' 16] mult_mono [of l 16 h' 512] mult_mono [of h 512 l' 16] mult_mono [of h 512 h' 512]
    mag_nonneg [OF assms(1)] mag_nonneg [OF assms(2)] assms(3-6) by simp_all

lemma fe52_square_val:
  assumes "mag l h a" "l \<le> 16" "h \<le> 512"
  shows "fe52_val (fe52_square a) mod prime_p = fe52_val a * fe52_val a mod prime_p" "mag 1 33 (fe52_square a)"
  using fe52_mul_inner_val [OF assms(1,1) mag_16 [OF assms(1,1,2,3,2,3)]]
  by (simp_all add: fe52_square_def fe52_sqr_inner_eq [OF assms(1,2)])

section \<open>The magnitudes of the code\<close>

text \<open>The predicate of the code, for the magnitudes below its saturation, and the bounds of the proofs.\<close>

lemma uint_ceil_div:
  assumes "1 < uint m"
  shows "uint (ceil_div x m) = uint x div uint m + of_bool (uint x mod uint m \<noteq> 0)"
proof -
  have m0: "x mod m \<noteq> 0 \<longleftrightarrow> uint x mod uint m \<noteq> 0" by (simp add: word_uint_eq_iff uint_mod_distrib)
  have "uint x div uint m \<le> uint x div 2" using assms by (intro zdiv_mono2) simp_all
  then have "uint (x div m) + uint (if x mod m \<noteq> 0 then 1 else (0 :: u64)) < 0x10000000000000000"
    using uint_lt64 [of x] by (simp add: uint_div_distrib; linarith)
  then show ?thesis unfolding ceil_div_def by (simp only: uint_add64) (simp add: uint_div_distrib m0)
qed

lemma ceil_div_le_iff:
  assumes "1 < uint m"
  shows "uint (ceil_div x m) \<le> k \<longleftrightarrow> uint x \<le> k * uint m"
proof -
  define q r where "q = uint x div uint m" and "r = uint x mod uint m"
  have x: "uint x = q * uint m + r" "0 \<le> r" "r < uint m" using assms by (simp_all add: q_def r_def)
  have "q + of_bool (r \<noteq> 0) \<le> k \<longleftrightarrow> q * uint m + r \<le> k * uint m"
  proof (cases "r = 0")
    case True
    then show ?thesis using assms by simp
  next
    case False
    have "q + 1 \<le> k \<longleftrightarrow> q < k" by linarith
    also have "\<dots> \<longleftrightarrow> q * uint m + r \<le> k * uint m"
    proof
      assume "q < k"
      then have "(q + 1) * uint m \<le> k * uint m" using assms by (intro mult_right_mono) simp_all
      then show "q * uint m + r \<le> k * uint m" using x(3) by (simp add: algebra_simps)
    next
      assume "q * uint m + r \<le> k * uint m"
      then have "q * uint m < k * uint m" using False x(2) by linarith
      then show "q < k" using assms by (simp add: mult_less_cancel_right)
    qed
    finally show ?thesis using False by simp
  qed
  then have "uint (ceil_div x m) \<le> k \<longleftrightarrow> q * uint m + r \<le> k * uint m"
    by (simp only: uint_ceil_div [OF assms] q_def [symmetric] r_def [symmetric])
  then show ?thesis by (simp only: x(1) [symmetric])
qed

lemma u64_max: "uint (if x > y then x else y :: u64) \<le> k \<longleftrightarrow> uint x \<le> k \<and> uint y \<le> k"
  by (auto simp: word_less_def)

lemma magnitude_ok_iff:
  assumes "uint m < 0xFFFFFFFF"
  shows "magnitude_ok (Fe52 a0 a1 a2 a3 a4) m \<longleftrightarrow>
    uint a0 \<le> uint m * 0xFFFFFFFFFFFFF \<and> uint a1 \<le> uint m * 0xFFFFFFFFFFFFF \<and> uint a2 \<le> uint m * 0xFFFFFFFFFFFFF \<and>
    uint a3 \<le> uint m * 0xFFFFFFFFFFFFF \<and> uint a4 \<le> uint m * 0xFFFFFFFFFFFF"
proof -
  have k: "1 < uint M52" "1 < uint M48" "uint M52 = 0xFFFFFFFFFFFFF" "uint M48 = 0xFFFFFFFFFFFF" by (simp_all add: M52_def M48_def)
  define mx where "mx = (\<lambda>x y :: u64. if x > y then x else y)"
  define M where "M = mx (ceil_div a4 M48) (mx (ceil_div a3 M52) (mx (ceil_div a2 M52) (mx (ceil_div a1 M52) (mx (ceil_div a0 M52) 0))))"
  have e: "magnitude_of (Fe52 a0 a1 a2 a3 a4) = (if M > 0xFFFFFFFF then 0xFFFFFFFF else ucast M)"
    unfolding magnitude_of.simps Let_def M_def mx_def by simp
  have M: "uint M \<le> j \<longleftrightarrow> uint a0 \<le> j * 0xFFFFFFFFFFFFF \<and> uint a1 \<le> j * 0xFFFFFFFFFFFFF \<and> uint a2 \<le> j * 0xFFFFFFFFFFFFF \<and>
    uint a3 \<le> j * 0xFFFFFFFFFFFFF \<and> uint a4 \<le> j * 0xFFFFFFFFFFFF" if "0 \<le> j" for j
    unfolding M_def mx_def u64_max ceil_div_le_iff [OF k(1)] ceil_div_le_iff [OF k(2)] k(3,4) using that by auto
  have "magnitude_of (Fe52 a0 a1 a2 a3 a4) \<le> m \<longleftrightarrow> uint M \<le> uint m"
  proof (cases "M > 0xFFFFFFFF")
    case True
    then have "0xFFFFFFFF < uint M" by (simp add: word_less_def)
    then show ?thesis using True assms unfolding e by (simp add: word_le_def)
  next
    case False
    then have "uint M \<le> 0xFFFFFFFF" by (simp add: word_less_def)
    then have "uint (ucast M :: u32) = uint M" by (simp add: unsigned_ucast_eq take_bit_eq_mod)
    then show ?thesis using False unfolding e by (simp add: word_le_def)
  qed
  then show ?thesis unfolding magnitude_ok_def M [OF uint_ge_0] by simp
qed

lemma magnitude_ok_mag: "magnitude_ok a m \<Longrightarrow> uint m < 0xFFFFFFFF \<Longrightarrow> mag (uint m) (32 * uint m) a"
proof (cases a)
  case (Fe52 a0 a1 a2 a3 a4)
  assume a: "magnitude_ok a m" "uint m < 0xFFFFFFFF"
  note b = a(1) [unfolded Fe52 magnitude_ok_iff [OF a(2)]]
  then have "uint a4 \<le> 32 * uint m * 0x80000000000" using uint_ge_0 [of m] by linarith
  then show ?thesis using b by (simp add: Fe52)
qed

lemma mag_magnitude_ok: "mag 1 33 a \<Longrightarrow> magnitude_ok a 2"
  by (cases a) (simp add: magnitude_ok_iff)

definition top_limbs :: fe52 where
  "top_limbs = Fe52 0xFFFFFFFFFFFFF 0xFFFFFFFFFFFFF 0xFFFFFFFFFFFFF 0xFFFFFFFFFFFFF 0xFFFFFFFFFFFF"

lemma top_limbs_product: "magnitude_of top_limbs = 1" "magnitude_of (fe52_mul top_limbs top_limbs) = 2"
  by code_simp+

lemma fe52_square_mul: "mag l h a \<Longrightarrow> l \<le> 16 \<Longrightarrow> fe52_square a = fe52_mul a a"
  by (simp add: fe52_square_def fe52_mul_def fe52_sqr_inner_eq)

text \<open>C3: The products of the 5x52 field are exact modulo the prime for all operands of magnitude up to 16, as magnitude_ok
  measures it: nothing wraps in the 128-bit columns. The result has magnitude at most 2, and a product of operands of magnitude 1
  can have magnitude 2. The squaring kernel returns the very limbs of the multiplication.\<close>

theorem fe52_products_correct:
  assumes "magnitude_ok a 16" "magnitude_ok b 16"
  shows "fe52_val (fe52_mul a b) mod prime_p = fe52_val a * fe52_val b mod prime_p \<and> magnitude_ok (fe52_mul a b) 2 \<and>
    fe52_square a = fe52_mul a a \<and> (\<exists>x. magnitude_of x = 1 \<and> magnitude_of (fe52_mul x x) = 2)"
proof -
  have m: "mag 16 512 a" "mag 16 512 b" using magnitude_ok_mag [OF assms(1)] magnitude_ok_mag [OF assms(2)] by simp_all
  show ?thesis
    using fe52_mul_val [OF m] fe52_square_mul [OF m(1)] top_limbs_product by (auto intro: mag_magnitude_ok)
qed

theorem fe52_products_correct_witness:
  "fe52_val (fe52_mul (fe52_mul_int 16 top_limbs) (fe52_mul_int 16 top_limbs)) mod prime_p =
    (16 * (2 ^ 256 - 1)) ^ 2 mod prime_p"
proof -
  have "magnitude_ok (fe52_mul_int 16 top_limbs) 16" by (simp add: top_limbs_def magnitude_ok_iff)
  from fe52_products_correct [OF this this] have "fe52_val (fe52_mul (fe52_mul_int 16 top_limbs) (fe52_mul_int 16 top_limbs)) mod prime_p =
    fe52_val (fe52_mul_int 16 top_limbs) * fe52_val (fe52_mul_int 16 top_limbs) mod prime_p" by blast
  moreover have "fe52_val (fe52_mul_int 16 top_limbs) = 16 * (2 ^ 256 - 1)" by (simp add: top_limbs_def)
  ultimately show ?thesis by (simp only: power2_eq_square)
qed

end
