(* ===== verification/Fe52_Pow.thy ===== *)
theory Fe52_Pow
  imports Fe52_Norm Fe52_Mul
begin

text \<open>
  Powers in the 5x52 field: \<open>FieldElement52::inverse\<close> and \<open>FieldElement52::sqrt\<close> of field_52.cpp (the bodies that stay in
  5x52) and \<open>FieldElement::sqrt\<close> where it goes through them. The chains never normalise: every product and square returns
  to magnitude at most 2, so the exponents alone matter.
\<close>

section \<open>The chains\<close>

fun fe52_sqr_n :: "nat \<Rightarrow> fe52 \<Rightarrow> fe52" where
  "fe52_sqr_n 0 r = r"
| "fe52_sqr_n (Suc n) r = fe52_sqr_n n (fe52_square r)"

definition fe52_inverse :: "fe52 \<Rightarrow> fe52" where
  "fe52_inverse a =
     (let x2 = fe52_square a; x2 = fe52_mul x2 a;
          x3 = fe52_square x2; x3 = fe52_mul x3 a;
          x6 = fe52_mul (fe52_sqr_n 3 x3) x3;
          x9 = fe52_mul (fe52_sqr_n 3 x6) x3;
          x11 = fe52_mul (fe52_sqr_n 2 x9) x2;
          x22 = fe52_mul (fe52_sqr_n 11 x11) x11;
          x44 = fe52_mul (fe52_sqr_n 22 x22) x22;
          x88 = fe52_mul (fe52_sqr_n 44 x44) x44;
          x176 = fe52_mul (fe52_sqr_n 88 x88) x88;
          x220 = fe52_mul (fe52_sqr_n 44 x176) x44;
          x223 = fe52_mul (fe52_sqr_n 3 x220) x3;
          t = x223;
          t = fe52_mul (fe52_sqr_n 23 t) x22;
          t = fe52_mul (fe52_sqr_n 5 t) a;
          t = fe52_mul (fe52_sqr_n 3 t) x2;
          t = fe52_mul (fe52_sqr_n 2 t) a
      in t)"

definition fe52_sqrt :: "fe52 \<Rightarrow> fe52" where
  "fe52_sqrt a =
     (let x2 = fe52_square a; x2 = fe52_mul x2 a;
          x3 = fe52_square x2; x3 = fe52_mul x3 a;
          x6 = fe52_mul (fe52_sqr_n 3 x3) x3;
          x9 = fe52_mul (fe52_sqr_n 3 x6) x3;
          x11 = fe52_mul (fe52_sqr_n 2 x9) x2;
          x22 = fe52_mul (fe52_sqr_n 11 x11) x11;
          x44 = fe52_mul (fe52_sqr_n 22 x22) x22;
          x88 = fe52_mul (fe52_sqr_n 44 x44) x44;
          x176 = fe52_mul (fe52_sqr_n 88 x88) x88;
          x220 = fe52_mul (fe52_sqr_n 44 x176) x44;
          x223 = fe52_mul (fe52_sqr_n 3 x220) x3;
          t = x223;
          t = fe52_mul (fe52_sqr_n 23 t) x22;
          t = fe52_mul (fe52_sqr_n 6 t) x2;
          t = fe52_square t;
          t = fe52_square t
      in t)"

text \<open>\<open>FieldElement::sqrt\<close> where the 5x52 kernels are available.\<close>

definition fe_sqrt_fe52 :: "field_element \<Rightarrow> field_element" where
  "fe_sqrt_fe52 x =
     (let fe52 = fe52_from_fe x;
          r52 = fe52_sqrt fe52
      in fe52_to_fe r52)"

section \<open>Exponents\<close>

definition pow52 :: "fe52 \<Rightarrow> nat \<Rightarrow> fe52 \<Rightarrow> bool" where
  "pow52 a e r \<longleftrightarrow> mag 16 512 r \<and> fe52_val r mod prime_p = fe52_val a ^ e mod prime_p"

lemma pow52_base: "mag 16 512 a \<Longrightarrow> pow52 a 1 a"
  by (simp add: pow52_def)

lemma pow52_mul_small:
  assumes "pow52 a e r" "pow52 a d m"
  shows "pow52 a (e + d) (fe52_mul r m)" "mag 1 33 (fe52_mul r m)"
proof -
  have m: "mag 16 512 r" "mag 16 512 m" using assms by (simp_all add: pow52_def)
  note v = fe52_mul_val [OF m]
  show s: "mag 1 33 (fe52_mul r m)" using v(2) by simp
  have "fe52_val (fe52_mul r m) mod prime_p = (fe52_val r mod prime_p) * (fe52_val m mod prime_p) mod prime_p"
    using v(1) by (simp add: mod_mult_eq)
  also have "\<dots> = fe52_val a ^ (e + d) mod prime_p" using assms by (simp only: pow52_def mod_mult_eq power_add)
  finally show "pow52 a (e + d) (fe52_mul r m)" using mag_mono [OF s, of 16 512] by (simp add: pow52_def)
qed

lemma pow52_square:
  assumes "pow52 a e r"
  shows "pow52 a (e * 2) (fe52_square r)" "mag 1 33 (fe52_square r)"
proof -
  have m: "mag 16 512 r" using assms by (simp add: pow52_def)
  have "fe52_square r = fe52_mul r r" by (rule fe52_square_mul [OF m]) simp
  then show "pow52 a (e * 2) (fe52_square r)" "mag 1 33 (fe52_square r)" using pow52_mul_small [OF assms assms] by (simp_all add: mult_2_right)
qed

lemma pow52_sqr_n: "pow52 a e r \<Longrightarrow> pow52 a (e * 2 ^ n) (fe52_sqr_n n r)"
proof (induction n arbitrary: e r)
  case (Suc n)
  from Suc.IH [OF pow52_square(1) [OF Suc.prems]] show ?case by (simp add: mult.assoc)
qed simp

lemma pow52_step: "pow52 a e r \<Longrightarrow> pow52 a d m \<Longrightarrow> e * 2 ^ n + d = k \<Longrightarrow> pow52 a k (fe52_mul (fe52_sqr_n n r) m)"
  using pow52_mul_small(1) [OF pow52_sqr_n] by blast

lemma pow52_let: "pow52 a d x \<Longrightarrow> (\<And>x. pow52 a d x \<Longrightarrow> P (f x)) \<Longrightarrow> P (let x = x in f x)"
  by simp

text \<open>The blocks of ones both chains build.\<close>

lemma chain_blocks52:
  assumes a: "mag 16 512 a"
    and f: "\<And>x2 x22 x223. pow52 a 3 x2 \<Longrightarrow> pow52 a (2 ^ 22 - 1) x22 \<Longrightarrow> pow52 a (2 ^ 223 - 1) x223 \<Longrightarrow> P (f x2 x22 x223)"
  shows "P (let x2 = fe52_square a; x2 = fe52_mul x2 a; x3 = fe52_square x2; x3 = fe52_mul x3 a;
      x6 = fe52_mul (fe52_sqr_n 3 x3) x3; x9 = fe52_mul (fe52_sqr_n 3 x6) x3; x11 = fe52_mul (fe52_sqr_n 2 x9) x2;
      x22 = fe52_mul (fe52_sqr_n 11 x11) x11; x44 = fe52_mul (fe52_sqr_n 22 x22) x22; x88 = fe52_mul (fe52_sqr_n 44 x44) x44;
      x176 = fe52_mul (fe52_sqr_n 88 x88) x88; x220 = fe52_mul (fe52_sqr_n 44 x176) x44; x223 = fe52_mul (fe52_sqr_n 3 x220) x3
    in f x2 x22 x223)"
proof -
  note b = pow52_base [OF a]
  define x2 where "x2 = fe52_mul (fe52_square a) a"
  define x3 where "x3 = fe52_mul (fe52_square x2) a"
  have 2: "pow52 a 3 x2" using pow52_mul_small(1) [OF pow52_square(1) [OF b] b] by (simp add: x2_def)
  have 3: "pow52 a 7 x3" using pow52_mul_small(1) [OF pow52_square(1) [OF 2] b] by (simp add: x3_def)
  have 9: "pow52 a 511 (fe52_mul (fe52_sqr_n 3 (fe52_mul (fe52_sqr_n 3 x3) x3)) x3)"
    by (rule pow52_step [OF pow52_step [OF 3 3 refl] 3]) simp
  have "P (let x9 = fe52_mul (fe52_sqr_n 3 (fe52_mul (fe52_sqr_n 3 x3) x3)) x3; x11 = fe52_mul (fe52_sqr_n 2 x9) x2;
      x22 = fe52_mul (fe52_sqr_n 11 x11) x11; x44 = fe52_mul (fe52_sqr_n 22 x22) x22; x88 = fe52_mul (fe52_sqr_n 44 x44) x44;
      x176 = fe52_mul (fe52_sqr_n 88 x88) x88; x220 = fe52_mul (fe52_sqr_n 44 x176) x44; x223 = fe52_mul (fe52_sqr_n 3 x220) x3
    in f x2 x22 x223)"
    apply (rule pow52_let [OF 9])
    apply (rule pow52_let [where d = "2 ^ 11 - 1"], rule pow52_step [OF _ 2], assumption, simp)
    apply (rule pow52_let [where d = "2 ^ 22 - 1"], rule pow52_step, assumption, assumption, simp)
    apply (rule pow52_let [where d = "2 ^ 44 - 1"], rule pow52_step, assumption, assumption, simp)
    apply (rule pow52_let [where d = "2 ^ 88 - 1"], rule pow52_step, assumption, assumption, simp)
    apply (rule pow52_let [where d = "2 ^ 176 - 1"], rule pow52_step, assumption, assumption, simp)
    apply (rule pow52_let [where d = "2 ^ 220 - 1"], rule pow52_step, assumption, assumption, simp)
    apply (rule pow52_let [where d = "2 ^ 223 - 1"], rule pow52_step [OF _ 3], assumption, simp)
    apply (rule f [OF 2], assumption+)
    done
  then show ?thesis unfolding x2_def x3_def Let_def .
qed

lemma fe52_inverse_pow:
  assumes "mag 16 512 a"
  shows "pow52 a (nat (prime_p - 2)) (fe52_inverse a) \<and> mag 1 33 (fe52_inverse a)"
  unfolding fe52_inverse_def
proof (rule chain_blocks52 [OF assms, where P = "\<lambda>r. pow52 a (nat (prime_p - 2)) r \<and> mag 1 33 r"])
  fix x2 x22 x223
  assume c: "pow52 a 3 x2" "pow52 a (2 ^ 22 - 1) x22" "pow52 a (2 ^ 223 - 1) x223"
  note b = pow52_base [OF assms]
  define t1 where "t1 = fe52_mul (fe52_sqr_n 5 (fe52_mul (fe52_sqr_n 23 x223) x22)) a"
  define t2 where "t2 = fe52_mul (fe52_sqr_n 3 t1) x2"
  have "pow52 a (((2 ^ 223 - 1) * 2 ^ 23 + (2 ^ 22 - 1)) * 2 ^ 5 + 1) t1"
    unfolding t1_def by (rule pow52_step [OF pow52_step [OF c(3,2) refl] b refl])
  from pow52_step [OF this c(1) refl, of 3] have t2: "pow52 a ((((2 ^ 223 - 1) * 2 ^ 23 + (2 ^ 22 - 1)) * 2 ^ 5 + 1) * 2 ^ 3 + 3) t2"
    by (simp only: t2_def)
  have "pow52 a (nat (prime_p - 2)) (fe52_mul (fe52_sqr_n 2 t2) a)"
    by (rule pow52_step [OF t2 b]) (simp add: prime_p_def)
  moreover have "mag 1 33 (fe52_mul (fe52_sqr_n 2 t2) a)" by (rule pow52_mul_small(2) [OF pow52_sqr_n [OF t2] b])
  ultimately show "pow52 a (nat (prime_p - 2))
      (let t = x223; t = fe52_mul (fe52_sqr_n 23 t) x22; t = fe52_mul (fe52_sqr_n 5 t) a; t = fe52_mul (fe52_sqr_n 3 t) x2;
           t = fe52_mul (fe52_sqr_n 2 t) a in t) \<and>
    mag 1 33
      (let t = x223; t = fe52_mul (fe52_sqr_n 23 t) x22; t = fe52_mul (fe52_sqr_n 5 t) a; t = fe52_mul (fe52_sqr_n 3 t) x2;
           t = fe52_mul (fe52_sqr_n 2 t) a in t)"
    by (simp only: Let_def t1_def t2_def)
qed

lemma fe52_sqrt_pow:
  assumes "mag 16 512 a"
  shows "pow52 a (nat ((prime_p + 1) div 4)) (fe52_sqrt a) \<and> mag 1 33 (fe52_sqrt a)"
  unfolding fe52_sqrt_def
proof (rule chain_blocks52 [OF assms, where P = "\<lambda>r. pow52 a (nat ((prime_p + 1) div 4)) r \<and> mag 1 33 r"])
  fix x2 x22 x223
  assume c: "pow52 a 3 x2" "pow52 a (2 ^ 22 - 1) x22" "pow52 a (2 ^ 223 - 1) x223"
  define t1 where "t1 = fe52_mul (fe52_sqr_n 6 (fe52_mul (fe52_sqr_n 23 x223) x22)) x2"
  have "pow52 a (((2 ^ 223 - 1) * 2 ^ 23 + (2 ^ 22 - 1)) * 2 ^ 6 + 3) t1"
    unfolding t1_def by (rule pow52_step [OF pow52_step [OF c(3,2) refl] c(1) refl])
  note q = pow52_square(1) [OF this]
  have e: "(((2 ^ 223 - 1) * 2 ^ 23 + (2 ^ 22 - 1)) * 2 ^ 6 + 3) * 2 * 2 = nat ((prime_p + 1) div 4)" by (simp add: prime_p_def)
  have "pow52 a (nat ((prime_p + 1) div 4)) (fe52_square (fe52_square t1))" using pow52_square(1) [OF q] unfolding e .
  moreover have "mag 1 33 (fe52_square (fe52_square t1))" by (rule pow52_square(2) [OF q])
  ultimately show "pow52 a (nat ((prime_p + 1) div 4))
      (let t = x223; t = fe52_mul (fe52_sqr_n 23 t) x22; t = fe52_mul (fe52_sqr_n 6 t) x2; t = fe52_square t; t = fe52_square t in t) \<and>
    mag 1 33 (let t = x223; t = fe52_mul (fe52_sqr_n 23 t) x22; t = fe52_mul (fe52_sqr_n 6 t) x2; t = fe52_square t; t = fe52_square t in t)"
    by (simp only: Let_def t1_def)
qed

lemma fe_sqrt_fe52_pow: "fval (fe_sqrt_fe52 x) = fval x ^ nat ((prime_p + 1) div 4) mod prime_p" "fe_ok (fe_sqrt_fe52 x)"
proof -
  have m: "mag 16 512 (fe52_from_fe x)" by (rule mag_mono [OF reduced_mag [OF fe52_from_fe_val(2)]]) simp_all
  have l: "fe52_loose (fe52_sqrt (fe52_from_fe x))" by (rule mag_loose [OF conjunct2 [OF fe52_sqrt_pow [OF m]]]) simp_all
  from fe52_to_fe_val [OF l] fe52_sqrt_pow [OF m]
  show "fval (fe_sqrt_fe52 x) = fval x ^ nat ((prime_p + 1) div 4) mod prime_p" "fe_ok (fe_sqrt_fe52 x)"
    by (simp_all add: fe_sqrt_fe52_def pow52_def fe52_from_fe_val)
qed

lemma sqrt_of_square:
  assumes "fe_ok y" "fval y ^ nat ((prime_p - 1) div 2) mod prime_p \<in> {1, prime_p - 1}"
  shows "fe_sqrt_fe52 (fe_square y) \<in> {y, fe_negate y}"
proof -
  define m where "m = nat ((prime_p - 1) div 2)"
  have e: "2 * nat ((prime_p + 1) div 4) = Suc m" by (simp add: m_def prime_p_def)
  have "fval (fe_sqrt_fe52 (fe_square y)) = (fval y ^ 2 mod prime_p) ^ nat ((prime_p + 1) div 4) mod prime_p"
    by (simp add: fe_sqrt_fe52_pow fval_square power2_eq_square)
  also have "\<dots> = fval y ^ (2 * nat ((prime_p + 1) div 4)) mod prime_p" by (simp only: power_mod power_mult)
  also have "\<dots> = fval y * (fval y ^ m mod prime_p) mod prime_p" unfolding e power_Suc by (rule mod_mult_right_eq [symmetric])
  finally have v: "fval (fe_sqrt_fe52 (fe_square y)) = fval y * (fval y ^ m mod prime_p) mod prime_p" .
  from assms(2) have "fval y ^ m mod prime_p = 1 \<or> fval y ^ m mod prime_p = prime_p - 1" by (simp add: m_def)
  then show ?thesis
  proof
    assume "fval y ^ m mod prime_p = 1"
    then have "fval (fe_sqrt_fe52 (fe_square y)) = fval y" using v assms(1) by simp
    then show ?thesis by (simp add: fval_inj)
  next
    assume "fval y ^ m mod prime_p = prime_p - 1"
    then have "fval (fe_sqrt_fe52 (fe_square y)) = fval y * (prime_p - 1) mod prime_p" using v by simp
    also have "\<dots> = (- fval y) mod prime_p" by (simp add: right_diff_distrib mod_diff_left_eq [symmetric])
    also have "\<dots> = fval (fe_negate y)" using assms(1) by (simp add: fval_negate)
    finally show ?thesis by (simp add: fval_inj)
  qed
qed

section \<open>Properties\<close>

text \<open>C24: On operands of magnitude up to 16 the 5x52 chains compute the powers p - 2 and (p + 1) / 4 and return magnitude at most 2;
  FieldElement::sqrt by way of them returns the canonical power of any element, and on the square of y whose Euler power
  (p - 1) / 2 is 1 or -1 it returns y or its negation.\<close>

theorem fe52_chains_correct:
  assumes "magnitude_ok a 16"
  shows "fe52_val (fe52_inverse a) mod prime_p = fe52_val a ^ nat (prime_p - 2) mod prime_p \<and> magnitude_ok (fe52_inverse a) 2 \<and>
    fe52_val (fe52_sqrt a) mod prime_p = fe52_val a ^ nat ((prime_p + 1) div 4) mod prime_p \<and> magnitude_ok (fe52_sqrt a) 2 \<and>
    (\<forall>x. fval (fe_sqrt_fe52 x) = fval x ^ nat ((prime_p + 1) div 4) mod prime_p) \<and>
    (\<forall>y. fe_ok y \<longrightarrow> fval y ^ nat ((prime_p - 1) div 2) mod prime_p \<in> {1, prime_p - 1} \<longrightarrow> fe_sqrt_fe52 (fe_square y) \<in> {y, fe_negate y})"
proof -
  have m: "mag 16 512 a" using magnitude_ok_mag [OF assms] by simp
  from fe52_inverse_pow [OF m] fe52_sqrt_pow [OF m] fe_sqrt_fe52_pow(1) sqrt_of_square mag_magnitude_ok show ?thesis unfolding pow52_def by blast
qed

theorem fe52_chains_correct_witness:
  "fe52_val (fe52_sqrt (fe52_mul_int 16 top_limbs)) mod prime_p = (16 * (2 ^ 256 - 1)) ^ nat ((prime_p + 1) div 4) mod prime_p \<and>
   fe_sqrt_fe52 fe_one \<in> {fe_one, fe_negate fe_one}"
proof -
  have "magnitude_ok (fe52_mul_int 16 top_limbs) 16" by (simp add: top_limbs_def magnitude_ok_iff)
  note t = fe52_chains_correct [OF this]
  have v: "fe52_val (fe52_mul_int 16 top_limbs) = 16 * (2 ^ 256 - 1)" by (simp add: top_limbs_def)
  have o: "fval fe_one = 1" "fe_ok fe_one" by (simp_all add: val_simps)
  have "1 mod prime_p = 1" by (simp add: prime_p_def)
  then have "fval fe_one ^ nat ((prime_p - 1) div 2) mod prime_p \<in> {1, prime_p - 1}" by (simp only: o(1) power_one) simp
  moreover have "fe_square fe_one = fe_one" by (simp only: fval_inj [symmetric] fval_square o(1)) (simp add: prime_p_def)
  ultimately show ?thesis using t o(2) unfolding v by metis
qed

end
