(* ===== verification/Fp.thy ===== *)
theory Fp
  imports Field
begin

text \<open>
  The residues modulo the field prime as a commutative ring, so that the point formulas can be checked
  with the ring automation, and the curve: its points, and the chord-and-tangent addition as an
  inductive relation in which a division is a multiplication by a given inverse. (Nothing rests on the
  primality of \<open>p\<close>; where a formula needs a denominator to be invertible, the relation says so.)
\<close>

section \<open>The ring of residues\<close>

typedef fp = "{0..<prime_p}"
  morphisms fp_int Abs_fp
  using prime_p_bounds by auto

setup_lifting type_definition_fp

instantiation fp :: comm_ring_1
begin

lift_definition zero_fp :: fp is 0 using prime_p_bounds by simp
lift_definition one_fp :: fp is 1 by (simp add: prime_p_def)
lift_definition plus_fp :: "fp \<Rightarrow> fp \<Rightarrow> fp" is "\<lambda>x y. (x + y) mod prime_p" using prime_p_bounds by simp
lift_definition minus_fp :: "fp \<Rightarrow> fp \<Rightarrow> fp" is "\<lambda>x y. (x - y) mod prime_p" using prime_p_bounds by simp
lift_definition uminus_fp :: "fp \<Rightarrow> fp" is "\<lambda>x. (- x) mod prime_p" using prime_p_bounds by simp
lift_definition times_fp :: "fp \<Rightarrow> fp \<Rightarrow> fp" is "\<lambda>x y. (x * y) mod prime_p" using prime_p_bounds by simp

instance
proof
  fix a b c :: fp
  show "a * b * c = a * (b * c)" by transfer (simp add: mod_simps mult.assoc)
  show "a * b = b * a" by transfer (simp add: mult.commute)
  show "1 * a = a" by transfer simp
  show "a + b + c = a + (b + c)" by transfer (simp add: mod_simps add.assoc)
  show "a + b = b + a" by transfer (simp add: add.commute)
  show "0 + a = a" by transfer simp
  show "- a + a = 0" by transfer (simp add: mod_simps)
  show "a - b = a + - b" by transfer (simp add: mod_simps)
  show "(a + b) * c = a * c + b * c" by transfer (simp add: mod_simps distrib_right)
  show "(0 :: fp) \<noteq> 1" by transfer simp
qed

end

instantiation fp :: equal
begin

definition equal_fp :: "fp \<Rightarrow> fp \<Rightarrow> bool" where "equal_fp a b \<longleftrightarrow> fp_int a = fp_int b"

instance by standard (simp add: equal_fp_def fp_int_inject)

end

lemma fp_int_of_int: "fp_int (of_int x) = x mod prime_p"
proof -
  have nat: "fp_int (of_nat n) = int n mod prime_p" for n
    by (induction n) (simp_all add: zero_fp.rep_eq plus_fp.rep_eq one_fp.rep_eq mod_simps)
  show ?thesis
  proof (cases x)
    case (neg n)
    then have "of_int x = - (of_nat (Suc n) :: fp)" by simp
    then show ?thesis unfolding neg by (simp only: uminus_fp.rep_eq nat mod_minus_eq)
  qed (simp add: nat)
qed

lemma fp_eq_iff: "(of_int x :: fp) = of_int y \<longleftrightarrow> x mod prime_p = y mod prime_p"
  by (metis fp_int_inject fp_int_of_int)

lemma fp_prime [simp]: "(of_int prime_p :: fp) = 0"
  using fp_eq_iff [of prime_p 0] by simp

lemma fp_mod [simp]: "(of_int (x mod prime_p) :: fp) = of_int x"
  by (simp add: fp_eq_iff)

lemma fp_zero_iff: "(of_int x :: fp) = 0 \<longleftrightarrow> x mod prime_p = 0"
  using fp_eq_iff [of x 0] by simp

text \<open>Invertible elements.\<close>

definition fp_unit :: "fp \<Rightarrow> bool" where
  "fp_unit a \<longleftrightarrow> (\<exists>b. a * b = 1)"

lemma fp_unit_mult [intro]: "fp_unit a \<Longrightarrow> fp_unit b \<Longrightarrow> fp_unit (a * b)"
proof -
  assume "fp_unit a" "fp_unit b"
  then obtain a' b' where "a * a' = 1" "b * b' = 1" by (auto simp: fp_unit_def)
  then have "(a * b) * (a' * b') = 1" by (metis mult.left_commute mult.assoc mult_1_right)
  then show ?thesis by (auto simp: fp_unit_def)
qed

lemma fp_unit_one [simp, intro]: "fp_unit 1"
  by (auto simp: fp_unit_def)

lemma fp_unit_two [simp, intro]: "fp_unit 2"
proof -
  have "(of_int (2 * ((prime_p + 1) div 2)) :: fp) = of_int 1"
    unfolding fp_eq_iff by (simp add: prime_p_def)
  then have "(2 :: fp) * of_int ((prime_p + 1) div 2) = 1" by (simp only: of_int_mult of_int_numeral of_int_1)
  then show ?thesis unfolding fp_unit_def by blast
qed

lemma fp_unit_power [intro]: "fp_unit a \<Longrightarrow> fp_unit (a ^ n)"
  by (induction n) auto

lemma fp_unit_minus [intro]: "fp_unit a \<Longrightarrow> fp_unit (- a)"
  by (metis fp_unit_def minus_mult_minus)

lemma fp_unit_cancel: "fp_unit a \<Longrightarrow> a * x = a * y \<longleftrightarrow> x = y"
proof
  assume "fp_unit a" "a * x = a * y"
  then obtain b where b: "a * b = 1" and "(a * b) * x = (a * b) * y" by (metis fp_unit_def mult.assoc mult.commute)
  then show "x = y" by simp
qed simp

lemma fp_two_cancel: "(2 :: fp) * x = 2 * y \<Longrightarrow> x = y"
  using fp_unit_cancel [OF fp_unit_two] by blast

lemma fp_unit_nonzero: "fp_unit a \<Longrightarrow> a \<noteq> 0"
  by (auto simp: fp_unit_def)

section \<open>The curve\<close>

datatype curve_point = Infinity | Affine fp fp

fun on_curve :: "curve_point \<Rightarrow> bool" where
  "on_curve Infinity \<longleftrightarrow> True"
| "on_curve (Affine x y) \<longleftrightarrow> y ^ 2 = x ^ 3 + 7"

text \<open>The addition of the curve: \<open>w\<close> is the inverse of the denominator of the slope.\<close>

inductive ec_add :: "curve_point \<Rightarrow> curve_point \<Rightarrow> curve_point \<Rightarrow> bool" where
  left: "ec_add Infinity Q Q"
| right: "ec_add P Infinity P"
| opposite: "y \<noteq> - y \<Longrightarrow> ec_add (Affine x y) (Affine x (- y)) Infinity"
| chord: "(x2 - x1) * w = 1 \<Longrightarrow> s = (y2 - y1) * w \<Longrightarrow> x3 = s ^ 2 - x1 - x2 \<Longrightarrow>
    ec_add (Affine x1 y1) (Affine x2 y2) (Affine x3 (s * (x1 - x3) - y1))"
| tangent: "(2 * y) * w = 1 \<Longrightarrow> s = 3 * x ^ 2 * w \<Longrightarrow> x3 = s ^ 2 - 2 * x \<Longrightarrow>
    ec_add (Affine x y) (Affine x y) (Affine x3 (s * (x - x3) - y))"

fun ec_neg :: "curve_point \<Rightarrow> curve_point" where
  "ec_neg Infinity = Infinity"
| "ec_neg (Affine x y) = Affine x (- y)"

inductive_cases ec_add_leftE: "ec_add Infinity Q R"
inductive_cases ec_add_rightE: "ec_add P Infinity R"

text \<open>The relation stays on the curve and is single-valued.\<close>

lemma chord_on_curve:
  fixes x1 y1 x2 y2 s x3 :: fp
  assumes "y1 ^ 2 = x1 ^ 3 + 7" "y2 ^ 2 = x2 ^ 3 + 7" "fp_unit (x2 - x1)" "s * (x2 - x1) = y2 - y1" "x3 = s ^ 2 - x1 - x2"
  shows "(s * (x1 - x3) - y1) ^ 2 = x3 ^ 3 + 7"
proof -
  define g where "g = x2 ^ 2 + x2 * x1 + x1 ^ 2 - s ^ 2 * (x2 - x1) - 2 * s * y1"
  have "(x2 - x1) * g = x2 ^ 3 - x1 ^ 3 - (s * (x2 - x1)) ^ 2 - 2 * (s * (x2 - x1)) * y1"
    unfolding g_def by (simp add: algebra_simps power2_eq_square power3_eq_cube)
  also have "\<dots> = (x2 ^ 3 + 7) - (x1 ^ 3 + 7) - y2 ^ 2 + y1 ^ 2"
    unfolding assms(4) by (simp add: algebra_simps power2_eq_square)
  also have "\<dots> = (x2 - x1) * 0" unfolding assms(1,2) [symmetric] by simp
  finally have g: "g = 0" using fp_unit_cancel [OF assms(3)] by blast
  have "x3 ^ 3 + 7 - (s * (x1 - x3) - y1) ^ 2 = (x1 ^ 3 + 7 - y1 ^ 2) + (x3 - x1) * g"
    unfolding g_def assms(5) by (simp add: algebra_simps power2_eq_square power3_eq_cube)
  then show ?thesis using assms(1) g by simp
qed

lemma tangent_on_curve:
  fixes x y s x3 :: fp
  assumes "y ^ 2 = x ^ 3 + 7" "s * (2 * y) = 3 * x ^ 2" "x3 = s ^ 2 - 2 * x"
  shows "(s * (x - x3) - y) ^ 2 = x3 ^ 3 + 7"
proof -
  have "x3 ^ 3 + 7 - (s * (x - x3) - y) ^ 2 = (x ^ 3 + 7 - y ^ 2) + (x3 - x) * (3 * x ^ 2 - s * (2 * y))"
    unfolding assms(3) by (simp add: algebra_simps power2_eq_square power3_eq_cube)
  then show ?thesis using assms(1,2) by simp
qed

lemma ec_add_on_curve: "ec_add P Q R \<Longrightarrow> on_curve P \<Longrightarrow> on_curve Q \<Longrightarrow> on_curve R"
proof (induction rule: ec_add.induct)
  case (chord x2 x1 w s y2 y1 x3)
  then have "fp_unit (x2 - x1)" by (auto simp: fp_unit_def)
  moreover have "s * (x2 - x1) = (y2 - y1) * ((x2 - x1) * w)" unfolding chord(2) by (simp only: ac_simps)
  then have "s * (x2 - x1) = y2 - y1" unfolding chord(1) by simp
  ultimately show ?case using chord(3-5) unfolding on_curve.simps by (intro chord_on_curve) simp_all
next
  case (tangent y w s x x3)
  have "s * (2 * y) = 3 * x ^ 2 * ((2 * y) * w)" unfolding tangent(2) by (simp only: ac_simps)
  then have "s * (2 * y) = 3 * x ^ 2" unfolding tangent(1) by simp
  then show ?case using tangent(3,4) unfolding on_curve.simps by (intro tangent_on_curve) simp_all
qed simp_all

text \<open>The coordinates of the sum, in the form the formulas need.\<close>

lemma ec_add_affineE:
  assumes "ec_add (Affine x1 y1) (Affine x2 y2) R"
  obtains (chord) w s where "(x2 - x1) * w = 1" "s * (x2 - x1) = y2 - y1" "R = Affine (s ^ 2 - x1 - x2) (s * (x1 - (s ^ 2 - x1 - x2)) - y1)"
  | (tangent) s where "x2 = x1" "y2 = y1" "fp_unit y1" "s * (2 * y1) = 3 * x1 ^ 2" "R = Affine (s ^ 2 - 2 * x1) (s * (x1 - (s ^ 2 - 2 * x1)) - y1)"
  | (opposite) "x2 = x1" "y2 = - y1" "y1 \<noteq> - y1" "R = Infinity"
proof -
  from assms consider
      (c) w s where "(x2 - x1) * w = 1" "s = (y2 - y1) * w" "R = Affine (s ^ 2 - x1 - x2) (s * (x1 - (s ^ 2 - x1 - x2)) - y1)"
    | (t) w s where "x2 = x1" "y2 = y1" "(2 * y1) * w = 1" "s = 3 * x1 ^ 2 * w" "R = Affine (s ^ 2 - 2 * x1) (s * (x1 - (s ^ 2 - 2 * x1)) - y1)"
    | (o) "x2 = x1" "y2 = - y1" "y1 \<noteq> - y1" "R = Infinity"
    by (cases rule: ec_add.cases) blast+
  then show ?thesis
  proof cases
    case (c w s)
    have "s * (x2 - x1) = (y2 - y1) * ((x2 - x1) * w)" unfolding c(2) by (simp only: ac_simps)
    then have "s * (x2 - x1) = y2 - y1" unfolding c(1) by simp
    from chord [OF c(1) this c(3)] show ?thesis .
  next
    case (t w s)
    have "s * (2 * y1) = 3 * x1 ^ 2 * ((2 * y1) * w)" unfolding t(4) by (simp only: ac_simps)
    then have s: "s * (2 * y1) = 3 * x1 ^ 2" unfolding t(3) by simp
    have "y1 * (2 * w) = (2 * y1) * w" by (simp only: ac_simps)
    then have "fp_unit y1" unfolding fp_unit_def t(3) by blast
    then show ?thesis using tangent t(1,2,5) s by blast
  next
    case o
    then show ?thesis by (rule opposite)
  qed
qed

lemma ec_add_left_iff: "ec_add Infinity Q R \<longleftrightarrow> R = Q"
  by (rule iffI, erule ec_add_leftE) (simp_all add: ec_add.left)

lemma ec_add_right_iff: "ec_add P Infinity R \<longleftrightarrow> R = P"
  by (rule iffI, erule ec_add_rightE) (simp_all add: ec_add.right)

lemma ec_add_unique: "ec_add P Q R \<Longrightarrow> ec_add P Q R' \<Longrightarrow> R' = R"
proof -
  assume a: "ec_add P Q R" "ec_add P Q R'"
  consider "P = Infinity" | "Q = Infinity" | x1 y1 x2 y2 where "P = Affine x1 y1" "Q = Affine x2 y2"
    by (cases P; cases Q) blast+
  then show "R' = R"
  proof cases
    case 3
    have chords: "s' = s" if "(x2 - x1) * w = 1" "s * (x2 - x1) = y2 - y1" "s' * (x2 - x1) = y2 - y1" for w s s'
    proof -
      have "fp_unit (x2 - x1)" using that(1) by (auto simp: fp_unit_def)
      moreover have "(x2 - x1) * s' = (x2 - x1) * s" using that(2,3) by (simp add: mult.commute)
      ultimately show ?thesis using fp_unit_cancel by blast
    qed
    have tangents: "s' = s" if "fp_unit y1" "s * (2 * y1) = 3 * x1 ^ 2" "s' * (2 * y1) = 3 * x1 ^ 2" for s s'
    proof -
      have "fp_unit (2 * y1)" using that(1) by blast
      moreover have "(2 * y1) * s' = (2 * y1) * s" using that(2,3) by (simp add: mult.commute)
      ultimately show ?thesis using fp_unit_cancel by blast
    qed
    have apart: False if "(x2 - x1) * w = 1" "x2 = x1" for w using that by simp
    have two: False if "y2 = y1" "y2 = - y1" "y1 \<noteq> - y1" using that by simp
    note e = a [unfolded 3]
    from e(1) show ?thesis
    proof (cases rule: ec_add_affineE)
      case c: (chord w s)
      from e(2) show ?thesis
      proof (cases rule: ec_add_affineE)
        case c': (chord w' s')
        then show ?thesis unfolding c(3) c'(3) chords [OF c(1,2) c'(2)] by simp
      qed (use apart [OF c(1)] in blast)+
    next
      case t: (tangent s)
      from e(2) show ?thesis
      proof (cases rule: ec_add_affineE)
        case (chord w' s')
        then show ?thesis using apart t(1) by blast
      next
        case t': (tangent s')
        then show ?thesis unfolding t(5) t'(5) tangents [OF t(3,4) t'(4)] by simp
      next
        case opposite
        then show ?thesis using two t(2) by blast
      qed
    next
      case o: opposite
      from e(2) show ?thesis
      proof (cases rule: ec_add_affineE)
        case (chord w' s')
        then show ?thesis using apart o(1) by blast
      next
        case tangent
        then show ?thesis using two o(2,3) by blast
      next
        case opposite
        then show ?thesis using o(4) by simp
      qed
    qed
  next
    case 1
    then show ?thesis using a by (simp add: ec_add_left_iff)
  next
    case 2
    then show ?thesis using a by (simp add: ec_add_right_iff)
  qed
qed

end
