(* ===== verification/Gen_Multiples.thy ===== *)
theory Gen_Multiples
  imports Fp
begin

text \<open>
  The generator of secp256k1 and some of its multiples with their coordinates, checked against the addition of the
  curve. They are the concrete points on which the refinement theorems are applied.
\<close>

section \<open>Sums from integers\<close>

definition pt :: "int \<times> int \<Rightarrow> curve_point" where
  "pt c = Affine (of_int (fst c)) (of_int (snd c))"

text \<open>The slopes and inverses are given with the multiples of the prime that make the equations exact.\<close>

lemma fp_of_int_eq: "a = b + q * prime_p \<Longrightarrow> (of_int a :: fp) = of_int b"
  by simp

lemma ec_add_chordI:
  assumes "(x2 - x1) * w = 1 + qa * prime_p" "(y2 - y1) * w = s + qb * prime_p" "s * s - x1 - x2 = x3 + qc * prime_p"
    "s * (x1 - x3) - y1 = y3 + qd * prime_p"
  shows "ec_add (pt (x1, y1)) (pt (x2, y2)) (pt (x3, y3))"
proof -
  have 1: "(of_int x2 - of_int x1 :: fp) * of_int w = 1" using fp_of_int_eq [OF assms(1)] by simp
  have 2: "(of_int s :: fp) = (of_int y2 - of_int y1) * of_int w" using fp_of_int_eq [OF assms(2)] by simp
  have 3: "(of_int x3 :: fp) = of_int s ^ 2 - of_int x1 - of_int x2" using fp_of_int_eq [OF assms(3)] by (simp add: power2_eq_square)
  have "(of_int y3 :: fp) = of_int s * (of_int x1 - of_int x3) - of_int y1" using fp_of_int_eq [OF assms(4)] by simp
  with ec_add.chord [OF 1 2 3] show ?thesis by (simp add: pt_def)
qed

lemma ec_add_tangentI:
  assumes "2 * y * w = 1 + qa * prime_p" "3 * (x * x) * w = s + qb * prime_p" "s * s - 2 * x = x3 + qc * prime_p"
    "s * (x - x3) - y = y3 + qd * prime_p"
  shows "ec_add (pt (x, y)) (pt (x, y)) (pt (x3, y3))"
proof -
  have 1: "(2 * of_int y :: fp) * of_int w = 1" using fp_of_int_eq [OF assms(1)] by simp
  have 2: "(of_int s :: fp) = 3 * of_int x ^ 2 * of_int w" using fp_of_int_eq [OF assms(2)] by (simp add: power2_eq_square)
  have 3: "(of_int x3 :: fp) = of_int s ^ 2 - 2 * of_int x" using fp_of_int_eq [OF assms(3)] by (simp add: power2_eq_square)
  have "(of_int y3 :: fp) = of_int s * (of_int x - of_int x3) - of_int y" using fp_of_int_eq [OF assms(4)] by simp
  with ec_add.tangent [OF 1 2 3] show ?thesis by (simp add: pt_def)
qed

section \<open>The multiples\<close>

definition mulG1 :: "int \<times> int" where
  "mulG1 =
    (0x79BE667EF9DCBBAC55A06295CE870B07029BFCDB2DCE28D959F2815B16F81798,
     0x483ADA7726A3C4655DA4FBFC0E1108A8FD17B448A68554199C47D08FFB10D4B8)"

definition mulG2 :: "int \<times> int" where
  "mulG2 =
    (0xC6047F9441ED7D6D3045406E95C07CD85C778E4B8CEF3CA7ABAC09B95C709EE5,
     0x1AE168FEA63DC339A3C58419466CEAEEF7F632653266D0E1236431A950CFE52A)"

definition mulG3 :: "int \<times> int" where
  "mulG3 =
    (0xF9308A019258C31049344F85F89D5229B531C845836F99B08601F113BCE036F9,
     0x388F7B0F632DE8140FE337E62A37F3566500A99934C2231B6CB9FD7584B8E672)"

definition mulG5 :: "int \<times> int" where
  "mulG5 =
    (0x2F8BDE4D1A07209355B4A7250A5C5128E88B84BDDC619AB7CBA8D569B240EFE4,
     0xD8AC222636E5E3D6D4DBA9DDA6C9C426F788271BAB0D6840DCA87D3AA6AC62D6)"

definition mulG7 :: "int \<times> int" where
  "mulG7 =
    (0x5CBDF0646E5DB4EAA398F365F2EA7A0E3D419B7E0330E39CE92BDDEDCAC4F9BC,
     0x6AEBCA40BA255960A3178D6D861A54DBA813D0B813FDE7B5A5082628087264DA)"

definition mulG9 :: "int \<times> int" where
  "mulG9 =
    (0xACD484E2F0C7F65309AD178A9F559ABDE09796974C57E714C35F110DFC27CCBE,
     0xCC338921B0A7D9FD64380971763B61E9ADD888A4375F8E0F05CC262AC64F9C37)"

definition mulG11 :: "int \<times> int" where
  "mulG11 =
    (0x774AE7F858A9411E5EF4246B70C65AAC5649980BE5C17891BBEC17895DA008CB,
     0xD984A032EB6B5E190243DD56D7B7B365372DB1E2DFF9D6A8301D74C9C953C61B)"

definition mulG13 :: "int \<times> int" where
  "mulG13 =
    (0xF28773C2D975288BC7D1D205C3748651B075FBC6610E58CDDEEDDF8F19405AA8,
     0xAB0902E8D880A89758212EB65CDAF473A1A06DA521FA91F29B5CB52DB03ED81)"

definition mulG15 :: "int \<times> int" where
  "mulG15 =
    (0xD7924D4F7D43EA965A465AE3095FF41131E5946F3C85F79E44ADBCF8E27E080E,
     0x581E2872A86C72A683842EC228CC6DEFEA40AF2BD896D3A5C504DC9FF6A26B58)"

definition negphiG :: "int \<times> int" where
  "negphiG =
    (0xBCACE2E99DA01887AB0102B696902325872844067F15E98DA7BBA04400B88FCB,
     0xB7C52588D95C3B9AA25B0403F1EEF75702E84BB7597AABE663B82F6F04EF2777)"

definition sumG :: "int \<times> int" where
  "sumG =
    (0x8BF665711CA00FB3FF16312A102145FAAB1CD8F489E8606330FF6BD804D1C8B6,
     0xCA55C309117E3771E03CE637C605DC03E04E15DCD52279CB47A4E61E87148D4E)"

lemmas mulG_defs = mulG1_def mulG2_def mulG3_def mulG5_def mulG7_def mulG9_def mulG11_def mulG13_def mulG15_def negphiG_def sumG_def

lemma gen_double: "ec_add (pt mulG1) (pt mulG1) (pt mulG2)"
  unfolding mulG_defs
  by (rule ec_add_tangentI [where w = "0xB7E31A064ED74D314DE79011C5F0A46AC155602353DC3D340FBEAEEC9767A6A6" and s = "0xCB35B28428101A303EB9D1235992AC63F58857C2F631EE6936D3AEBBEDDCD1B1"
      and qa = "0x67C44B654C2C763114CFD32A47C1FB6C755CEC58BB467CAB5D8470DD8293D891" and qb = "0x7CC3574ADF0A27CDD76ABD64D1C85301A8755ED144EF0103EC1563183BF332FB0CFD8C7C5F7EEFE66371C5DC3337F4604BC29379673C022C491039F657337F61"
      and qc = "0xA14E3460FEBE2C2316BFCCCC1B764790C3B7D9FF92663EA740240F16B583E774" and qd = "- 0x3C8B95972F12B04B3CA25330B2BD449E8E938229D1FD14F76CAE42249CE0DC11"];
    simp add: prime_p_def)

lemma gen_odd_3: "ec_add (pt mulG2) (pt mulG1) (pt mulG3)"
  unfolding mulG_defs
  by (rule ec_add_chordI [where w = "0x536B9083263314472A67FC18C382ED55C6A4D1481A65745EE68BD20ABD03962B" and s = "0x342119815C0F816F31F431A9FE98A6C76D11425ECAEAECF2D0EF6DEF197C56B0"
      and qa = "- 0x18DAC67CE39EFBFAA60769921DE9A320D9032A33C96EB155E2FAD3E1E3C5FB10" and qb = "0xEC70DC60A5BE927D5A509689C407B5C45021125BB424F6FB110A817A97B4BF6"
      and qc = "0xA9D76A4234A8DED7AF964EC3F6F871CE09D7F68349A3BC2D7D569CB7F027896" and qd = "- 0xA6B8FE4B50A031C6B95E6A27EB270E940A444B7E1A6A43C3D59CE63AB90A164"];
    simp add: prime_p_def)

lemma gen_odd_5: "ec_add (pt mulG2) (pt mulG3) (pt mulG5)"
  unfolding mulG_defs
  by (rule ec_add_chordI [where w = "0x7C16E6CE2F93FCEA6149860B672CE14CD753DC1E66AA9621539643D0D93340A5" and s = "0xB96755A5AA4A37E34D58D463A547B56FCF0CEEE65A20052241A3425B10FDC015"
      and qa = "0x18CDE8F8A0AA23EC557AE6443A45F62DDEB6A77F2BB4029EAFD5DFEEE39F118D" and qb = "0xE62F877F4C63F4CB9F69F82AAB38F8F4985524EF92DFE2FD447B12172431E1D"
      and qc = "0x8646837F7815BAC9BCC2448FDCF2BEA1D56E42109FD65EF7E5AC9593445FE2B9" and qd = "0x6CF9E96CBCDAD4B6630BE9AA64903A00BB7F06E9A596070C6E50AE7210913FFB"];
    simp add: prime_p_def)

lemma gen_odd_7: "ec_add (pt mulG2) (pt mulG5) (pt mulG7)"
  unfolding mulG_defs
  by (rule ec_add_chordI [where w = "0x960A9FD7258D24D94229A37A8D813F688EEEDBD4818467B6B7129C75561A5576" and s = "0x34B624A49FA5ACA121C4301A49339F74E51B7A580650E8E53EFCABD644B87C4"
      and qa = "- 0x5830ED295FB5935AA37E1C644F218814C87F9706F0B1A15419FEDCE889B97739" and qb = "0x6F3CA8E8D4662D7C90FC8918410142EC093805599E358BE5882A893EB2FAE1BC"
      and qc = "0xADA807B002D047673356E19A81239E44CF295C7A7FBBCCFE44481F14C6965" and qd = "0x15AD3C5121F705BD7B62703FAD17AB948C9C634436ABE38635167276BAAC5A0"];
    simp add: prime_p_def)

lemma gen_odd_9: "ec_add (pt mulG2) (pt mulG7) (pt mulG9)"
  unfolding mulG_defs
  by (rule ec_add_chordI [where w = "0xC05CB34570AC7A3BFF0D73ED33674E1F094D5248B8516818725D5BF5D6EC8400" and s = "0xCBE159DAF398EE5FB621F8A916221C8CE6BDCD3E2295D44D29EC8A87924B2B63"
      and qa = "- 0x4F1B0A783854B330F473C34CD16EB32A4377A911E0BC0D85B6ADA049827AE6CF" and qb = "0x3C24C4B97AB4BA4F76812A2B330EC64728454E9FAEA7A8124144AE50F1930CF3"
      and qc = "0xA25F2AE050BEB582ED183F9EB676F373318584F9FE66EE8885895EC358C3FF36" and qd = "0x140F37CD2A2BCB39CF9CDA7D017F180CBF370B4802F906035F4C401219E4498C"];
    simp add: prime_p_def)

lemma gen_odd_11: "ec_add (pt mulG2) (pt mulG9) (pt mulG11)"
  unfolding mulG_defs
  by (rule ec_add_chordI [where w = "0xD06DC22C1F15AC17EB961496C4D6B5BFA9E70328C67F8C36C7888DD2C297F363" and s = "0x53FACBED580953C9D1732DA8795D9DB5AD651182FF845923BF0ED9EFAF075C88"
      and qa = "- 0x1481C83882B671F1C89EC4E891D471058BBB83D83EB73E606398431768D843CA" and qb = "0x905EC092F361AA698D7BB812EB60BAF1D4535E20A6B57E9160E7FB42468918B1"
      and qc = "0x1B8C95EED51844376E6B645CA507DFEF4FD970C4E760C01C29453BA0D8963ACE" and qd = "0x19D34C1BC2FF93E8ABC73899C975AF99E856C2D93DEAD4B0EA8E34FA13E2D465"];
    simp add: prime_p_def)

lemma gen_odd_13: "ec_add (pt mulG2) (pt mulG11) (pt mulG13)"
  unfolding mulG_defs
  by (rule ec_add_chordI [where w = "0x4943802A9F5CDCCB3CBB42F62A94B86C1F2783C9571865F94A946CCF84EC2ED2" and s = "0x59A555539AA1E85F024B89E7B3299ADC3DC9D56459D9C4F71711ED3CF915F3AD"
      and qa = "- 0x1687AE380A952A06F5B5B7933307C7F67AE5C866DC9EB2D4CF65C759FAF219BB" and qb = "0x368ECEE6B375D3A04B2A6FE9FF4A3F1244164A669ECE30F6A3E57FF1733C160B"
      and qc = "0x1F64601B3BBA8844C0C4725CEEFF46E067B5A42ECE305CBAEFB10E58B6FFFF3F" and qd = "- 0xF96462199216600E4F31794ACE6110E7B529A6CB569184844A0ADA2AA92E22E"];
    simp add: prime_p_def)

lemma gen_odd_15: "ec_add (pt mulG2) (pt mulG13) (pt mulG15)"
  unfolding mulG_defs
  by (rule ec_add_chordI [where w = "0x6B1CC34AF3DF51E0205A36777AC11EB79049F3CF58475DAE5E819D47BB4261E6" and s = "0x37757E9AD5F9B72ECC0A64292BB6A15916D5C53CCA0ADC067D420985FBB3CF81"
      and qa = "0x129FBC56F6AF7C57FB2453DCAC91E4AC1948E3FCF2C1ABEA490B90B8FEA37D9F" and qb = "- 0x6C63C50A3C854936CEE3813A0E305B28B6FA26C49408D10C8CA6883A7DAB259"
      and qc = "0xC03B2538015AB3F800EEC1AB1299DFC4E30E8ECD76AA968A80D7F715659817A" and qd = "- 0x3CD85B0A98DB5736E9381EC3DF7C3ED07E7EB39157C03A72FD6FD052D39ABC5"];
    simp add: prime_p_def)

lemma gen_sum_phi: "ec_add (pt mulG5) (pt negphiG) (pt sumG)"
  unfolding mulG_defs
  by (rule ec_add_chordI [where w = "0xFC86DD636638F77D2D89860EB7990178B73A6174CF1532E5A1DA88C5C96DDD8" and s = "0x1A0DE19A3CC0C60F15974735FC40400C726DC5B519C2C63C6227EF470DC9599"
      and qa = "0x8B36D9DEC891EBC77C6A3F43EC76CCAC1D0A26548403C68DDBDD74AC7E0BBC9" and qb = "- 0x2074B60750FD5D413DC1DDF4A1D9E26E370137559D5B24DB4DE9AAAF0C0360F"
      and qc = "0x2A6D29404D1CF87306AA7EED9E1E07B21515F6E4B055AA0176EF4C8CFE4B4" and qd = "- 0x967D493D3E22B111234F9FB46FB02296870CE7136843B6845736D114F3F33A"];
    simp add: prime_p_def)

definition gen_point :: curve_point where "gen_point = pt mulG1"

lemma gen_point_on_curve: "on_curve gen_point"
proof -
  have "(of_int (snd mulG1 * snd mulG1) :: fp) = of_int (fst mulG1 * fst mulG1 * fst mulG1 + 7)"
    by (rule fp_of_int_eq [where q = "- 0x1B888E01A06E974017A28A5B4DA436169761C9730B7AEEDF75FC60F6A33CFC7792FE74711F025D590B10E57F1B3A7CE38FFC4C885C515894B45C19C9F413E5E9"]) (simp add: mulG1_def prime_p_def)
  then show ?thesis by (simp add: gen_point_def pt_def power2_eq_square power3_eq_cube mult.assoc)
qed

end
