(* ===== verification/Curve_Steps.thy ===== *)
theory Curve_Steps
  imports Gen_Multiples
begin

text \<open>
  The contract every representation of curve points offers its clients: a doubling and an addition that refine the
  addition of the curve, the cases of infinity, of equal and of opposite points included. What a client computes by
  a sequence of such steps then stands for the point the same steps reach on the curve, whichever representation it
  uses, and that point is unique and on the curve.
\<close>

section \<open>Sequences of steps\<close>

datatype 'j group_step = Double | Add 'j

primrec apply_step :: "('j \<Rightarrow> 'j) \<Rightarrow> ('j \<Rightarrow> 'j \<Rightarrow> 'j) \<Rightarrow> 'j group_step \<Rightarrow> 'j \<Rightarrow> 'j" where
  "apply_step dbl add Double p = dbl p"
| "apply_step dbl add (Add q) p = add p q"

definition run_steps :: "('j \<Rightarrow> 'j) \<Rightarrow> ('j \<Rightarrow> 'j \<Rightarrow> 'j) \<Rightarrow> 'j group_step list \<Rightarrow> 'j \<Rightarrow> 'j" where
  "run_steps dbl add = fold (apply_step dbl add)"

text \<open>The same steps on the curve.\<close>

inductive ec_step :: "curve_point group_step \<Rightarrow> curve_point \<Rightarrow> curve_point \<Rightarrow> bool" where
  double: "ec_add P P R \<Longrightarrow> ec_step Double P R"
| add: "ec_add P Q R \<Longrightarrow> ec_step (Add Q) P R"

inductive ec_steps :: "curve_point group_step list \<Rightarrow> curve_point \<Rightarrow> curve_point \<Rightarrow> bool" where
  empty: "ec_steps [] P P"
| more: "ec_step s P Q \<Longrightarrow> ec_steps ss Q R \<Longrightarrow> ec_steps (s # ss) P R"

inductive_cases ec_step_DoubleE: "ec_step Double P R"
inductive_cases ec_step_AddE: "ec_step (Add Q) P R"
inductive_cases ec_steps_NilE: "ec_steps [] P R"
inductive_cases ec_steps_ConsE: "ec_steps (s # ss) P R"

lemma ec_step_unique: "ec_step s P R \<Longrightarrow> ec_step s P R' \<Longrightarrow> R' = R"
  by (cases s) (auto elim!: ec_step_DoubleE ec_step_AddE intro: ec_add_unique)

lemma ec_steps_unique: "ec_steps ss P R \<Longrightarrow> ec_steps ss P R' \<Longrightarrow> R' = R"
proof (induction arbitrary: R' rule: ec_steps.induct)
  case (empty P)
  then show ?case by (auto elim: ec_steps_NilE)
next
  case (more s P Q ss R)
  from more.prems obtain Q' where "ec_step s P Q'" "ec_steps ss Q' R'" by (auto elim: ec_steps_ConsE)
  with ec_step_unique [OF more.hyps(1)] more.IH show ?case by blast
qed

definition step_on_curve :: "curve_point group_step \<Rightarrow> bool" where
  "step_on_curve s \<longleftrightarrow> (case s of Double \<Rightarrow> True | Add Q \<Rightarrow> on_curve Q)"

lemma ec_steps_on_curve: "ec_steps ss P R \<Longrightarrow> on_curve P \<Longrightarrow> \<forall>s\<in>set ss. step_on_curve s \<Longrightarrow> on_curve R"
proof (induction rule: ec_steps.induct)
  case (more s P Q ss R)
  have "on_curve Q"
    using more.hyps(1) more.prems ec_add_on_curve by (cases s) (auto simp: step_on_curve_def elim!: ec_step_DoubleE ec_step_AddE)
  with more show ?case by simp
qed simp

section \<open>The contract\<close>

locale curve_arith =
  fixes rep :: "'j \<Rightarrow> curve_point \<Rightarrow> bool" and dbl :: "'j \<Rightarrow> 'j" and add :: "'j \<Rightarrow> 'j \<Rightarrow> 'j"
  assumes dbl_rep: "rep p P \<Longrightarrow> ec_add P P R \<Longrightarrow> rep (dbl p) R"
    and add_rep: "rep p P \<Longrightarrow> rep q Q \<Longrightarrow> ec_add P Q R \<Longrightarrow> rep (add p q) R"
begin

lemma step_rep:
  assumes "rel_group_step rep s S" "rep p P" "ec_step S P R"
  shows "rep (apply_step dbl add s p) R"
  using assms by (cases s; cases S) (auto elim!: ec_step_DoubleE ec_step_AddE intro: dbl_rep add_rep)

lemma steps_rep:
  "list_all2 (rel_group_step rep) ss SS \<Longrightarrow> rep p P \<Longrightarrow> ec_steps SS P R \<Longrightarrow> rep (run_steps dbl add ss p) R"
proof (induction ss SS arbitrary: p P rule: list_all2_induct)
  case Nil
  then show ?case by (auto simp: run_steps_def elim: ec_steps_NilE)
next
  case (Cons s ss S SS)
  from Cons.prems(2) obtain Q where q: "ec_step S P Q" "ec_steps SS Q R" by (auto elim: ec_steps_ConsE)
  from Cons.IH [OF step_rep [OF Cons.hyps(1) Cons.prems(1) q(1)] q(2)] show ?case by (simp add: run_steps_def)
qed

text \<open>The outcome is the one point the curve admits, and it is on the curve.\<close>

lemma steps_correct:
  assumes "list_all2 (rel_group_step rep) ss SS" "rep p P" "ec_steps SS P R"
    "on_curve P" "\<forall>s\<in>set SS. step_on_curve s"
  shows "rep (run_steps dbl add ss p) R \<and> on_curve R \<and> (\<forall>R'. ec_steps SS P R' \<longrightarrow> R' = R)"
  using steps_rep [OF assms(1-3)] ec_steps_on_curve [OF assms(3-5)] ec_steps_unique [OF assms(3)] by blast

end

section \<open>A sequence through every case\<close>

text \<open>From infinity: to the generator and back by its opposite, then to the generator again, its double and its triple.\<close>

lemma gen_opposite: "ec_add (pt mulG1) (ec_neg (pt mulG1)) Infinity"
proof -
  obtain x y where g: "pt mulG1 = Affine x y" by (simp add: pt_def)
  obtain x2 y2 where g2: "pt mulG2 = Affine x2 y2" by (simp add: pt_def)
  have "fp_unit y" using gen_double [unfolded g g2] by (cases rule: ec_add_affineE) auto
  then have "y \<noteq> 0" by (rule fp_unit_nonzero)
  have "y \<noteq> - y"
  proof
    assume "y = - y"
    then have "y + y = 0" by (metis add.right_inverse)
    then have "2 * y = 2 * 0" by (simp only: mult_2 add_0)
    then show False using fp_two_cancel \<open>y \<noteq> 0\<close> by blast
  qed
  then show ?thesis by (simp add: g ec_add.opposite)
qed

definition sample_steps :: "curve_point group_step list" where
  "sample_steps = [Add (pt mulG1), Add (ec_neg (pt mulG1)), Add (pt mulG1), Double, Add (pt mulG1)]"

lemma sample_steps: "ec_steps sample_steps Infinity (pt mulG3)"
  unfolding sample_steps_def
  by (rule ec_steps.intros ec_step.intros ec_add.left gen_opposite gen_double gen_odd_3)+

lemma sample_steps_on_curve: "\<forall>s\<in>set sample_steps. step_on_curve s"
  using gen_point_on_curve by (simp add: sample_steps_def step_on_curve_def gen_point_def pt_def)

end
