(* ===== verification/Jac52.thy ===== *)
theory Jac52
  imports Curve_Steps Fe52_Norm Fe52_Mul
begin

text \<open>
  The 5x52 point formulas of point.cpp (\<open>jac52_*\<close>): Jacobian points \<open>(X, Y, Z)\<close> stand for
  \<open>(X / Z^2, Y / Z^3)\<close>; none of the formulas normalises in between, so each lemma tracks the magnitude of every
  intermediate beside its residue. Each operation refines the addition of the curve and returns coordinates
  within \<open>GEJ_X_MAGNITUDE_MAX = 8\<close>, \<open>GEJ_Y_MAGNITUDE_MAX = 4\<close>, \<open>GEJ_Z_MAGNITUDE_MAX = 1\<close>
  in the four low limbs; the top limb, which starts from products slightly above one unit, stays less than one unit above them.
\<close>

section \<open>Residues with magnitudes\<close>

definition rep52 :: "int \<Rightarrow> int \<Rightarrow> fp \<Rightarrow> fe52 \<Rightarrow> bool" where
  "rep52 l h x a \<longleftrightarrow> mag l h a \<and> of_int (fe52_val a) = x"

lemma rep52_mono: "rep52 l h x a \<Longrightarrow> l \<le> l' \<Longrightarrow> h \<le> h' \<Longrightarrow> rep52 l' h' x a"
  unfolding rep52_def using mag_mono by blast

lemma rep52_add:
  "rep52 l h x a \<Longrightarrow> rep52 l' h' y b \<Longrightarrow> l + l' \<le> 4095 \<Longrightarrow> h + h' \<le> 2000000 \<Longrightarrow> rep52 (l + l') (h + h') (x + y) (fe52_add a b)"
  unfolding rep52_def using fe52_add_val [of l h a l' h' b] by auto

lemma rep52_negate:
  "rep52 l h x a \<Longrightarrow> uint m < 2000 \<Longrightarrow> l \<le> uint m \<Longrightarrow> h \<le> 32 * uint m + 31 \<Longrightarrow>
    rep52 (uint m + 1) (32 * (uint m + 1)) (- x) (fe52_negate m a)"
  unfolding rep52_def using fe52_negate_val [of l h a m] by auto

lemma rep52_mul_wide:
  assumes "rep52 l h x a" "rep52 l' h' y b" "l * l' \<le> 256" "l * h' \<le> 8192" "h * l' \<le> 8192" "h * h' \<le> 262144"
  shows "rep52 1 33 (x * y) (fe52_mul a b)"
proof -
  have "(of_int (fe52_val (fe52_mul a b)) :: fp) = of_int (fe52_val a * fe52_val b)"
    using fe52_mul_val(1) [of l h a l' h' b] assms unfolding fp_eq_iff rep52_def by auto
  then show ?thesis using assms fe52_mul_val(2) [of l h a l' h' b] by (auto simp: rep52_def)
qed

lemma rep52_mul:
  assumes "rep52 l h x a" "rep52 l' h' y b" "l \<le> 16" "h \<le> 512" "l' \<le> 16" "h' \<le> 512"
  shows "rep52 1 33 (x * y) (fe52_mul a b)"
  using assms by (intro rep52_mul_wide [OF assms(1,2)]) (auto simp: rep52_def intro: mag_16)

lemma rep52_square:
  assumes "rep52 l h x a" "l \<le> 16" "h \<le> 512"
  shows "rep52 1 33 (x * x) (fe52_square a)"
proof -
  have "(of_int (fe52_val (fe52_square a)) :: fp) = of_int (fe52_val a * fe52_val a)"
    using fe52_square_val(1) [of l h a] assms unfolding fp_eq_iff rep52_def by auto
  then show ?thesis using assms fe52_square_val(2) [of l h a] by (auto simp: rep52_def)
qed

lemma rep52_mul_int:
  assumes "rep52 l h x a" "0 \<le> l" "0 \<le> h" "l * uint c \<le> 4095" "h * uint c \<le> 2000000"
  shows "rep52 (l * uint c) (h * uint c) (of_int (uint c) * x) (fe52_mul_int c a)"
  using fe52_mul_int_val [of l h a c] assms by (auto simp: rep52_def)

lemma rep52_half:
  assumes "rep52 l h x a" "2 * y = x" "l \<le> 4000" "h \<le> 100000" "l + 3 \<le> 2 * l'" "h + 32 \<le> 2 * h'"
  shows "rep52 l' h' y (fe52_half a)"
proof -
  have "2 * fe52_val (fe52_half a) = fe52_val a + (uint (n0 a) mod 2) * prime_p" "mag l' h' (fe52_half a)"
    using fe52_half_val [of l h a l' h'] assms by (auto simp: rep52_def)
  moreover from this(1) have "(of_int (2 * fe52_val (fe52_half a)) :: fp) = of_int (fe52_val a)" by (simp only:) simp
  then have "2 * of_int (fe52_val (fe52_half a)) = 2 * y" using assms(1,2) by (simp add: rep52_def)
  ultimately show ?thesis by (auto simp: rep52_def dest: fp_two_cancel)
qed

lemma rep52_normalize_weak:
  assumes "rep52 l h x a" "l \<le> 4095" "h \<le> 2000000"
  shows "rep52 1 32 x (fe52_normalize_weak a)"
proof -
  have "fe52_loose a" using assms by (auto simp: rep52_def intro: mag_loose)
  from fe52_normalize_weak_val [OF this] show ?thesis using assms(1) by (simp add: rep52_def fp_eq_iff [symmetric])
qed

lemma rep52_zero_var:
  assumes "rep52 l h x a" "l \<le> 4095" "h \<le> 2000000"
  shows "fe52_normalizes_to_zero_var a \<longleftrightarrow> x = 0"
proof -
  have "fe52_loose a" using assms by (auto simp: rep52_def intro: mag_loose)
  from fe52_normalizes_to_zero_var_iff [OF this] show ?thesis using assms(1) by (simp add: rep52_def fp_zero_iff [symmetric])
qed

lemma rep52_const: "rep52 1 33 0 fe52_zero" "rep52 1 33 1 fe52_one"
  by (simp_all add: rep52_def fe52_zero_def fe52_one_def)

text \<open>The product does not depend on the order of its factors, so neither does anything computed from it.\<close>

lemma u128_mul_comm: "u128_mul a b = u128_mul b a"
  by (simp add: u128_mul_def mult.commute)

lemma fe52_mul_comm: "fe52_mul a b = fe52_mul b a"
proof -
  obtain a0 a1 a2 a3 a4 where a: "a = Fe52 a0 a1 a2 a3 a4" by (cases a)
  obtain b0 b1 b2 b3 b4 where b: "b = Fe52 b0 b1 b2 b3 b4" by (cases b)
  have s: "u128_mul a0 b3 + u128_mul a1 b2 + u128_mul a2 b1 + u128_mul a3 b0 = u128_mul b0 a3 + u128_mul b1 a2 + u128_mul b2 a1 + u128_mul b3 a0"
    "d + u128_mul a0 b4 + u128_mul a1 b3 + u128_mul a2 b2 + u128_mul a3 b1 + u128_mul a4 b0 = d + u128_mul b0 a4 + u128_mul b1 a3 + u128_mul b2 a2 + u128_mul b3 a1 + u128_mul b4 a0"
    "d + u128_mul a1 b4 + u128_mul a2 b3 + u128_mul a3 b2 + u128_mul a4 b1 = d + u128_mul b1 a4 + u128_mul b2 a3 + u128_mul b3 a2 + u128_mul b4 a1"
    "d + u128_mul a0 b1 + u128_mul a1 b0 = d + u128_mul b0 a1 + u128_mul b1 a0"
    "d + u128_mul a2 b4 + u128_mul a3 b3 + u128_mul a4 b2 = d + u128_mul b2 a4 + u128_mul b3 a3 + u128_mul b4 a2"
    "d + u128_mul a0 b2 + u128_mul a1 b1 + u128_mul a2 b0 = d + u128_mul b0 a2 + u128_mul b1 a1 + u128_mul b2 a0"
    "d + u128_mul a3 b4 + u128_mul a4 b3 = d + u128_mul b3 a4 + u128_mul b4 a3"
    "u128_mul a4 b4 = u128_mul b4 a4" "u128_mul a0 b0 = u128_mul b0 a0" for d
    by (simp_all only: u128_mul_comm [of _ b0] u128_mul_comm [of _ b1] u128_mul_comm [of _ b2] u128_mul_comm [of _ b3] u128_mul_comm [of _ b4] ac_simps)
  show ?thesis unfolding fe52_mul_def a b fe52_mul_inner_def fe52.case s ..
qed

section \<open>The operations\<close>

record jac52 =
  jx :: fe52
  jy :: fe52
  jz :: fe52
  jinf :: bool

record aff52 =
  ax :: fe52
  ay :: fe52

abbreviation jac52_infinity :: jac52 where
  "jac52_infinity \<equiv> \<lparr>jx = fe52_zero, jy = fe52_one, jz = fe52_zero, jinf = True\<rparr>"

definition jac52_double_coords :: "fe52 \<Rightarrow> fe52 \<Rightarrow> fe52 \<Rightarrow> fe52 \<times> fe52 \<times> fe52" where
  "jac52_double_coords x y z =
     (let s = fe52_square y;
          l = fe52_square x;
          l = fe52_mul_int 3 l;
          l = fe52_half l;
          z = fe52_mul z y;
          y = fe52_negate 1 s;
          y = fe52_mul y x;
          x = fe52_square l;
          x = fe52_add x y;
          x = fe52_add x y;
          s = fe52_square s;
          y = fe52_add y x;
          y = fe52_mul y l;
          y = fe52_add y s;
          y = fe52_negate 2 y
      in (x, y, z))"

definition jac52_double :: "jac52 \<Rightarrow> jac52" where
  "jac52_double p =
     (if jinf p then jac52_infinity
      else case jac52_double_coords (jx p) (jy p) (jz p) of (x, y, z) \<Rightarrow> \<lparr>jx = x, jy = y, jz = z, jinf = False\<rparr>)"

definition jac52_double_to :: "fe52 \<Rightarrow> fe52 \<Rightarrow> fe52 \<Rightarrow> fe52 \<times> fe52 \<times> fe52" where
  "jac52_double_to in_x in_y in_z =
     (let out_z = fe52_mul in_y in_z;
          s = fe52_square in_y;
          l = fe52_square in_x;
          l = fe52_mul_int 3 l;
          l = fe52_half l;
          t = fe52_negate 1 s;
          t = fe52_mul t in_x;
          out_x = fe52_square l;
          out_x = fe52_add out_x t;
          out_x = fe52_add out_x t;
          s = fe52_square s;
          t = fe52_add t out_x;
          out_y = fe52_mul t l;
          out_y = fe52_add out_y s;
          out_y = fe52_negate 2 out_y
      in (out_x, out_y, out_z))"

definition jac52_double_z1_to :: "fe52 \<Rightarrow> fe52 \<Rightarrow> fe52 \<times> fe52 \<times> fe52" where
  "jac52_double_z1_to in_x in_y =
     (let out_z = in_y;
          s = fe52_square in_y;
          l = fe52_square in_x;
          l = fe52_mul_int 3 l;
          l = fe52_half l;
          t = fe52_negate 1 s;
          t = fe52_mul t in_x;
          out_x = fe52_square l;
          out_x = fe52_add out_x t;
          out_x = fe52_add out_x t;
          s = fe52_square s;
          t = fe52_add t out_x;
          out_y = fe52_mul t l;
          out_y = fe52_add out_y s;
          out_y = fe52_negate 2 out_y
      in (out_x, out_y, out_z))"

text \<open>The in-place doubling leaves the flag alone; on infinity it runs on unused coordinates.\<close>

definition jac52_double_inplace :: "jac52 \<Rightarrow> jac52" where
  "jac52_double_inplace p =
     (case jac52_double_coords (jx p) (jy p) (jz p) of (x, y, z) \<Rightarrow> p\<lparr>jx := x, jy := y, jz := z\<rparr>)"

definition jac52_add_mixed_inplace :: "jac52 \<Rightarrow> aff52 \<Rightarrow> jac52" where
  "jac52_add_mixed_inplace p q =
     (if jinf p then \<lparr>jx = ax q, jy = ay q, jz = fe52_one, jinf = False\<rparr>
      else
        let zz = fe52_square (jz p);
            u2 = fe52_mul (ax q) zz;
            s2 = fe52_mul (ay q) zz;
            s2 = fe52_mul s2 (jz p);
            negX1 = fe52_negate 8 (jx p);
            h = fe52_add u2 negX1
        in if fe52_normalizes_to_zero_var h
           then (let negY1 = fe52_negate 4 (jy p);
                     diff = fe52_add s2 negY1
                 in if fe52_normalizes_to_zero_var diff then jac52_double_inplace p else jac52_infinity)
           else
             (let z = fe52_mul (jz p) h;
                  negS2 = fe52_negate 1 s2;
                  i_val = fe52_add (jy p) negS2;
                  h2 = fe52_square h;
                  i2 = fe52_square i_val;
                  h2 = fe52_negate 1 h2;
                  h3 = fe52_mul h2 h;
                  t = fe52_mul (jx p) h2;
                  x = fe52_add i2 h3;
                  x = fe52_add x t;
                  x = fe52_add x t;
                  t = fe52_add t x;
                  h3 = fe52_mul h3 (jy p);
                  y = fe52_mul t i_val;
                  y = fe52_add y h3
              in \<lparr>jx = x, jy = y, jz = z, jinf = False\<rparr>))"

definition jac52_add_mixed :: "jac52 \<Rightarrow> aff52 \<Rightarrow> jac52" where
  "jac52_add_mixed p q = jac52_add_mixed_inplace p q"

definition jac52_add_mixed_neg_inplace :: "jac52 \<Rightarrow> aff52 \<Rightarrow> jac52" where
  "jac52_add_mixed_neg_inplace p q =
     (if jinf p then \<lparr>jx = ax q, jy = fe52_negate 1 (ay q), jz = fe52_one, jinf = False\<rparr>
      else
        let zz = fe52_square (jz p);
            u2 = fe52_mul (ax q) zz;
            s2 = fe52_mul (ay q) zz;
            s2 = fe52_mul s2 (jz p);
            negX1 = fe52_negate 8 (jx p);
            h = fe52_add u2 negX1
        in if fe52_normalizes_to_zero_var h
           then (let sum = fe52_add (jy p) s2
                 in if fe52_normalizes_to_zero_var sum then jac52_double_inplace p else jac52_infinity)
           else
             (let z = fe52_mul (jz p) h;
                  i_val = fe52_add (jy p) s2;
                  h2 = fe52_square h;
                  i2 = fe52_square i_val;
                  h2 = fe52_negate 1 h2;
                  h3 = fe52_mul h2 h;
                  t = fe52_mul (jx p) h2;
                  x = fe52_add i2 h3;
                  x = fe52_add x t;
                  x = fe52_add x t;
                  t = fe52_add t x;
                  h3 = fe52_mul h3 (jy p);
                  y = fe52_mul t i_val;
                  y = fe52_add y h3
              in \<lparr>jx = x, jy = y, jz = z, jinf = False\<rparr>))"

definition jac52_add_mixed_to :: "fe52 \<Rightarrow> fe52 \<Rightarrow> fe52 \<Rightarrow> bool \<Rightarrow> fe52 \<Rightarrow> fe52 \<Rightarrow> jac52" where
  "jac52_add_mixed_to in_x in_y in_z in_infinity q_x q_y =
     (if in_infinity then \<lparr>jx = q_x, jy = q_y, jz = fe52_one, jinf = False\<rparr>
      else
        let zz = fe52_square in_z;
            u2 = fe52_mul q_x zz;
            s2 = fe52_mul q_y zz;
            s2 = fe52_mul s2 in_z;
            negX1 = fe52_negate 8 in_x;
            h = fe52_add u2 negX1
        in if fe52_normalizes_to_zero_var h
           then (let negY1 = fe52_negate 4 in_y;
                     diff = fe52_add s2 negY1
                 in if fe52_normalizes_to_zero_var diff
                    then (case jac52_double_to in_x in_y in_z of (x, y, z) \<Rightarrow> \<lparr>jx = x, jy = y, jz = z, jinf = False\<rparr>)
                    else jac52_infinity)
           else
             (let out_z = fe52_mul in_z h;
                  negS2 = fe52_negate 1 s2;
                  i_val = fe52_add in_y negS2;
                  h2 = fe52_square h;
                  i2 = fe52_square i_val;
                  h2 = fe52_negate 1 h2;
                  h3 = fe52_mul h2 h;
                  t = fe52_mul in_x h2;
                  out_x = fe52_add i2 h3;
                  out_x = fe52_add out_x t;
                  out_x = fe52_add out_x t;
                  t = fe52_add t out_x;
                  out_y = fe52_mul t i_val;
                  h3 = fe52_mul h3 in_y;
                  out_y = fe52_add out_y h3
              in \<lparr>jx = out_x, jy = out_y, jz = out_z, jinf = False\<rparr>))"

text \<open>\<open>mul_var\<close>, whose portable kernel (\<open>fe52_mul_inner_var\<close>) has the body of \<open>fe52_mul_inner\<close>.\<close>

definition fe52_mul_var :: "fe52 \<Rightarrow> fe52 \<Rightarrow> fe52" where "fe52_mul_var a b = fe52_mul_inner a b"

definition jac52_add_zinv_inplace :: "jac52 \<Rightarrow> aff52 \<Rightarrow> fe52 \<Rightarrow> jac52" where
  "jac52_add_zinv_inplace p b bzinv =
     (if jinf p
      then (let bzinv2 = fe52_square bzinv;
                bzinv3 = fe52_mul_var bzinv2 bzinv
            in \<lparr>jx = fe52_mul_var (ax b) bzinv2, jy = fe52_mul_var (ay b) bzinv3, jz = fe52_one, jinf = False\<rparr>)
      else
        let az = fe52_mul_var (jz p) bzinv;
            az2 = fe52_square az;
            u2 = fe52_mul_var (ax b) az2;
            s2 = fe52_mul_var (ay b) az2;
            s2 = fe52_mul_var s2 az;
            negX1 = fe52_negate 8 (jx p);
            h = fe52_add u2 negX1
        in if fe52_normalizes_to_zero_var h
           then (let negS2_chk = fe52_negate 1 s2;
                     diff = fe52_add (jy p) negS2_chk
                 in if fe52_normalizes_to_zero_var diff then jac52_double_inplace p else jac52_infinity)
           else
             (let z = fe52_mul_var (jz p) h;
                  negS2 = fe52_negate 1 s2;
                  i_val = fe52_add (jy p) negS2;
                  h2 = fe52_square h;
                  i_sq = fe52_square i_val;
                  h2 = fe52_negate 1 h2;
                  h3 = fe52_mul_var h2 h;
                  t = fe52_mul_var (jx p) h2;
                  x = fe52_add i_sq h3;
                  x = fe52_add x t;
                  x = fe52_add x t;
                  t = fe52_add t x;
                  h3 = fe52_mul_var h3 (jy p);
                  y = fe52_mul_var t i_val;
                  y = fe52_add y h3
              in \<lparr>jx = x, jy = y, jz = z, jinf = False\<rparr>))"

definition jac52_add_inplace :: "jac52 \<Rightarrow> jac52 \<Rightarrow> jac52" where
  "jac52_add_inplace p q =
     (if jinf p then q else if jinf q then p
      else
        let z1z1 = fe52_square (jz p);
            z2z2 = fe52_square (jz q);
            u1 = fe52_mul (jx p) z2z2;
            u2 = fe52_mul (jx q) z1z1;
            s1 = fe52_mul (fe52_mul (jy p) (jz q)) z2z2;
            s2 = fe52_mul (fe52_mul (jy q) (jz p)) z1z1;
            negU1 = fe52_negate 1 u1;
            h = fe52_add u2 negU1
        in if fe52_normalizes_to_zero_var h
           then (let negS1 = fe52_negate 1 s1;
                     diff = fe52_add s2 negS1
                 in if fe52_normalizes_to_zero_var diff then jac52_double_inplace p else jac52_infinity)
           else
             (let h2 = fe52_add h h;
                  i = fe52_square h2;
                  j_val = fe52_mul h i;
                  s1j = fe52_mul s1 j_val;
                  j_val = fe52_negate 1 j_val;
                  negS1 = fe52_negate 1 s1;
                  r = fe52_add s2 negS1;
                  r = fe52_add r r;
                  v = fe52_mul u1 i;
                  r_sq = fe52_square r;
                  negV = fe52_negate 1 v;
                  x3 = fe52_add (fe52_add (fe52_add r_sq j_val) negV) negV;
                  negX3 = fe52_negate 7 x3;
                  vx3 = fe52_add v negX3;
                  r = fe52_mul r vx3;
                  s1j = fe52_add s1j s1j;
                  s1j = fe52_negate 2 s1j;
                  r = fe52_add r s1j;
                  z = fe52_add (jz p) (jz q);
                  z = fe52_square z;
                  z1z1 = fe52_negate 1 z1z1;
                  z2z2 = fe52_negate 1 z2z2;
                  z = fe52_add z z1z1;
                  z = fe52_add z z2z2;
                  z = fe52_mul z h
              in \<lparr>jx = x3, jy = r, jz = z, jinf = False\<rparr>))"

definition jac52_add :: "jac52 \<Rightarrow> jac52 \<Rightarrow> jac52" where
  "jac52_add p q = jac52_add_inplace p q"

definition jac52_negate :: "jac52 \<Rightarrow> jac52" where
  "jac52_negate p = p\<lparr>jy := fe52_normalize_weak (fe52_negate 1 (fe52_normalize_weak (jy p)))\<rparr>"

section \<open>Doubling\<close>

lemmas fp_poly = algebra_simps power2_eq_square power3_eq_cube

lemma rep52_eq: "rep52 l h x a \<Longrightarrow> x = y \<Longrightarrow> rep52 l h y a"
  by simp

lemma jac52_double_coords_rep:
  assumes X: "rep52 8 287 (x * z ^ 2) X" and Y: "rep52 4 159 (y * z ^ 3) Y" and Z: "rep52 1 33 z Z"
    and s: "s * (2 * y) = 3 * x ^ 2"
    and r: "jac52_double_coords X Y Z = (X3, Y3, Z3)"
  shows "rep52 3 99 ((s ^ 2 - 2 * x) * (y * z ^ 4) ^ 2) X3" "rep52 3 96 ((s * (x - (s ^ 2 - 2 * x)) - y) * (y * z ^ 4) ^ 3) Y3"
    "rep52 1 33 (y * z ^ 4) Z3"
proof -
  have z4: "z ^ 4 = z * z * z * z" by (simp add: power4_eq_xxxx)
  define S where "S = fe52_square Y"
  define L where "L = fe52_half (fe52_mul_int 3 (fe52_square X))"
  define T where "T = fe52_mul (fe52_negate 1 S) X"
  define R where "R = fe52_add (fe52_add (fe52_square L) T) T"
  have v: "X3 = R" "Y3 = fe52_negate 2 (fe52_add (fe52_mul (fe52_add T R) L) (fe52_square S))" "Z3 = fe52_mul Z Y"
    using r unfolding jac52_double_coords_def Let_def S_def L_def T_def R_def by auto
  have S: "rep52 1 33 (y * z ^ 3 * (y * z ^ 3)) S" unfolding S_def by (rule rep52_square [OF Y]) simp_all
  have "rep52 3 99 (3 * (x * z ^ 2 * (x * z ^ 2))) (fe52_mul_int 3 (fe52_square X))"
    using rep52_mul_int [OF rep52_square [OF X], of 3] by simp
  moreover have "2 * (s * y * z ^ 4) = 3 * (x * z ^ 2 * (x * z ^ 2))"
  proof -
    have "2 * (s * y * z ^ 4) = s * (2 * y) * z ^ 4" by (simp add: ac_simps)
    also have "\<dots> = 3 * (x * z ^ 2 * (x * z ^ 2))" unfolding s z4 by (simp add: fp_poly)
    finally show ?thesis .
  qed
  ultimately have L: "rep52 3 66 (s * y * z ^ 4) L" unfolding L_def by (rule rep52_half) simp_all
  have "rep52 2 64 (- (y * z ^ 3 * (y * z ^ 3))) (fe52_negate 1 S)" using rep52_negate [OF S, of 1] by simp
  then have T: "rep52 1 33 (- (y * z ^ 3 * (y * z ^ 3)) * (x * z ^ 2)) T" unfolding T_def using X by (rule rep52_mul) simp_all
  have "rep52 1 33 (s * y * z ^ 4 * (s * y * z ^ 4)) (fe52_square L)" by (rule rep52_square [OF L]) simp_all
  from rep52_add [OF rep52_add [OF this T] T]
  have "rep52 3 99 (s * y * z ^ 4 * (s * y * z ^ 4) + - (y * z ^ 3 * (y * z ^ 3)) * (x * z ^ 2) + - (y * z ^ 3 * (y * z ^ 3)) * (x * z ^ 2)) R"
    by (simp add: R_def)
  then have R: "rep52 3 99 ((s ^ 2 - 2 * x) * (y * z ^ 4) ^ 2) R" by (rule rep52_eq) (simp add: z4 fp_poly)
  then show "rep52 3 99 ((s ^ 2 - 2 * x) * (y * z ^ 4) ^ 2) X3" by (simp only: v)
  have "rep52 4 132 (- (y * z ^ 3 * (y * z ^ 3)) * (x * z ^ 2) + (s ^ 2 - 2 * x) * (y * z ^ 4) ^ 2) (fe52_add T R)"
    using rep52_add [OF T R] by simp
  from rep52_mul [OF this L]
  have M: "rep52 1 33 ((- (y * z ^ 3 * (y * z ^ 3)) * (x * z ^ 2) + (s ^ 2 - 2 * x) * (y * z ^ 4) ^ 2) * (s * y * z ^ 4)) (fe52_mul (fe52_add T R) L)" by simp
  have "rep52 1 33 (y * z ^ 3 * (y * z ^ 3) * (y * z ^ 3 * (y * z ^ 3))) (fe52_square S)" by (rule rep52_square [OF S]) simp_all
  from rep52_negate [OF rep52_add [OF M this], of 2]
  have "rep52 3 96 (- ((- (y * z ^ 3 * (y * z ^ 3)) * (x * z ^ 2) + (s ^ 2 - 2 * x) * (y * z ^ 4) ^ 2) * (s * y * z ^ 4) +
      y * z ^ 3 * (y * z ^ 3) * (y * z ^ 3 * (y * z ^ 3)))) Y3"
    by (simp add: v)
  then show "rep52 3 96 ((s * (x - (s ^ 2 - 2 * x)) - y) * (y * z ^ 4) ^ 3) Y3"
    by (rule rep52_eq) (simp add: z4 fp_poly)
  have "rep52 1 33 (z * (y * z ^ 3)) Z3" unfolding v by (rule rep52_mul [OF Z Y]) simp_all
  then show "rep52 1 33 (y * z ^ 4) Z3" by (rule rep52_eq) (simp add: z4 fp_poly)
qed

text \<open>The copying doublings compute the same words.\<close>

lemma jac52_double_to_eq: "jac52_double_to x y z = jac52_double_coords x y z"
  unfolding jac52_double_to_def jac52_double_coords_def Let_def by (simp only: fe52_mul_comm [of y z])

section \<open>Points\<close>

text \<open>A Jacobian point with its magnitudes; the coordinates of infinity are not read.\<close>

definition jac_rep :: "jac52 \<Rightarrow> curve_point \<Rightarrow> bool" where
  "jac_rep p P \<longleftrightarrow> (if jinf p then P = Infinity
     else \<exists>x y z. P = Affine x y \<and> fp_unit z \<and> rep52 8 287 (x * z ^ 2) (jx p) \<and> rep52 4 159 (y * z ^ 3) (jy p) \<and> rep52 1 33 z (jz p))"

fun aff_rep :: "aff52 \<Rightarrow> curve_point \<Rightarrow> bool" where
  "aff_rep q Infinity \<longleftrightarrow> False"
| "aff_rep q (Affine x y) \<longleftrightarrow> rep52 8 287 x (ax q) \<and> rep52 4 159 y (ay q)"

lemma jac_rep_intro:
  "rep52 8 287 (x * z ^ 2) X \<Longrightarrow> rep52 4 159 (y * z ^ 3) Y \<Longrightarrow> rep52 1 33 z Z \<Longrightarrow> fp_unit z \<Longrightarrow>
    jac_rep \<lparr>jx = X, jy = Y, jz = Z, jinf = False\<rparr> (Affine x y)"
  by (auto simp: jac_rep_def)

lemma jac_rep_infinity [simp]: "jac_rep p Infinity \<longleftrightarrow> jinf p"
  by (simp add: jac_rep_def)

lemma jac_repE:
  assumes "jac_rep p P" "\<not> jinf p"
  obtains x y z where "P = Affine x y" "fp_unit z" "rep52 8 287 (x * z ^ 2) (jx p)" "rep52 4 159 (y * z ^ 3) (jy p)" "rep52 1 33 z (jz p)"
  using assms by (auto simp: jac_rep_def)

text \<open>Doubling a point of the curve, infinity included.\<close>

lemma tangent_rep:
  assumes X: "rep52 8 287 (x * z ^ 2) X" and Y: "rep52 4 159 (y * z ^ 3) Y" and Z: "rep52 1 33 z Z" and "fp_unit z" "fp_unit y"
    and s: "s * (2 * y) = 3 * x ^ 2"
    and r: "jac52_double_coords X Y Z = (X3, Y3, Z3)"
  shows "jac_rep \<lparr>jx = X3, jy = Y3, jz = Z3, jinf = False\<rparr> (Affine (s ^ 2 - 2 * x) (s * (x - (s ^ 2 - 2 * x)) - y))"
  using jac52_double_coords_rep [OF X Y Z s r] assms(4,5)
  by (intro jac_rep_intro [where z = "y * z ^ 4"]) (auto intro: rep52_mono)

lemma jac52_double_inplace_rep:
  assumes "jac_rep p P" "ec_add P P R"
  shows "jac_rep (jac52_double_inplace p) R"
proof (cases "jinf p")
  case True
  then have "R = Infinity" using assms by (simp add: jac_rep_def ec_add_left_iff)
  then show ?thesis using True by (simp add: jac52_double_inplace_def split: prod.split)
next
  case False
  from jac_repE [OF assms(1) False] obtain x y z where p: "P = Affine x y" "fp_unit z"
    "rep52 8 287 (x * z ^ 2) (jx p)" "rep52 4 159 (y * z ^ 3) (jy p)" "rep52 1 33 z (jz p)" .
  obtain X3 Y3 Z3 where r: "jac52_double_coords (jx p) (jy p) (jz p) = (X3, Y3, Z3)" by (metis prod_cases3)
  have e: "jac52_double_inplace p = \<lparr>jx = X3, jy = Y3, jz = Z3, jinf = False\<rparr>"
    using False by (simp add: jac52_double_inplace_def r)
  from assms(2) [unfolded p(1)] show ?thesis
  proof (cases rule: ec_add_affineE)
    case (chord w s)
    then show ?thesis by simp
  next
    case (tangent s)
    show ?thesis unfolding e tangent(5) by (rule tangent_rep [OF p(3-5) p(2) tangent(3,4) r])
  next
    case opposite
    then show ?thesis by simp
  qed
qed

lemma jac52_double_rep: "jac_rep p P \<Longrightarrow> ec_add P P R \<Longrightarrow> jac_rep (jac52_double p) R"
  using jac52_double_inplace_rep [of p P R]
  by (cases "jinf p") (auto simp: jac52_double_def jac52_double_inplace_def jac_rep_def ec_add_left_iff split: prod.splits)

section \<open>Addition\<close>

text \<open>
  What the mixed additions compute once \<open>h\<close> and \<open>i\<close> are known: on a chord, \<open>h = (x2 - x1) z^2\<close> and
  \<open>i = (y1 - y2) z^3\<close>.
\<close>

definition chord_tail :: "fe52 \<Rightarrow> fe52 \<Rightarrow> fe52 \<Rightarrow> fe52 \<Rightarrow> fe52 \<Rightarrow> jac52" where
  "chord_tail X Y Z h i =
     (let h2 = fe52_negate 1 (fe52_square h);
          h3 = fe52_mul h2 h;
          t = fe52_mul X h2;
          x = fe52_add (fe52_add (fe52_add (fe52_square i) h3) t) t
      in \<lparr>jx = x, jy = fe52_add (fe52_mul (fe52_add t x) i) (fe52_mul h3 Y), jz = fe52_mul Z h, jinf = False\<rparr>)"

lemma chord_tail_rep:
  assumes X: "rep52 8 287 (x * z ^ 2) X" and Y: "rep52 4 159 (y * z ^ 3) Y" and Z: "rep52 1 33 z Z" and u: "fp_unit z" "fp_unit d"
    and h: "rep52 10 321 (d * z ^ 2) h" and i: "rep52 6 223 (- (s * d) * z ^ 3) i"
  shows "jac_rep (chord_tail X Y Z h i) (Affine (s ^ 2 - x - (x + d)) (s * (x - (s ^ 2 - x - (x + d))) - y))"
proof -
  define h2 where "h2 = fe52_negate 1 (fe52_square h)"
  define h3 where "h3 = fe52_mul h2 h"
  define t where "t = fe52_mul X h2"
  define R where "R = fe52_add (fe52_add (fe52_add (fe52_square i) h3) t) t"
  have h2: "rep52 2 64 (- (d * z ^ 2 * (d * z ^ 2))) h2"
    using rep52_negate [OF rep52_square [OF h], of 1] by (simp add: h2_def)
  have h3: "rep52 1 33 (- (d * z ^ 2 * (d * z ^ 2)) * (d * z ^ 2)) h3" unfolding h3_def by (rule rep52_mul [OF h2 h]) simp_all
  have t: "rep52 1 33 (x * z ^ 2 * - (d * z ^ 2 * (d * z ^ 2))) t" unfolding t_def by (rule rep52_mul [OF X h2]) simp_all
  have "rep52 1 33 (- (s * d) * z ^ 3 * (- (s * d) * z ^ 3)) (fe52_square i)" by (rule rep52_square [OF i]) simp_all
  from rep52_add [OF rep52_add [OF rep52_add [OF this h3] t] t]
  have "rep52 4 132 (- (s * d) * z ^ 3 * (- (s * d) * z ^ 3) + - (d * z ^ 2 * (d * z ^ 2)) * (d * z ^ 2) +
      x * z ^ 2 * - (d * z ^ 2 * (d * z ^ 2)) + x * z ^ 2 * - (d * z ^ 2 * (d * z ^ 2))) R" by (simp add: R_def)
  then have R: "rep52 4 132 ((s ^ 2 - x - (x + d)) * (d * z ^ 3) ^ 2) R" by (rule rep52_eq) (simp add: fp_poly)
  have "rep52 5 165 (x * z ^ 2 * - (d * z ^ 2 * (d * z ^ 2)) + (s ^ 2 - x - (x + d)) * (d * z ^ 3) ^ 2) (fe52_add t R)"
    using rep52_add [OF t R] by simp
  from rep52_mul [OF this i]
  have "rep52 1 33 ((x * z ^ 2 * - (d * z ^ 2 * (d * z ^ 2)) + (s ^ 2 - x - (x + d)) * (d * z ^ 3) ^ 2) * (- (s * d) * z ^ 3)) (fe52_mul (fe52_add t R) i)"
    by simp
  moreover have "rep52 1 33 (- (d * z ^ 2 * (d * z ^ 2)) * (d * z ^ 2) * (y * z ^ 3)) (fe52_mul h3 Y)" by (rule rep52_mul [OF h3 Y]) simp_all
  ultimately have "rep52 2 66 ((x * z ^ 2 * - (d * z ^ 2 * (d * z ^ 2)) + (s ^ 2 - x - (x + d)) * (d * z ^ 3) ^ 2) * (- (s * d) * z ^ 3) +
      - (d * z ^ 2 * (d * z ^ 2)) * (d * z ^ 2) * (y * z ^ 3)) (fe52_add (fe52_mul (fe52_add t R) i) (fe52_mul h3 Y))"
    using rep52_add by fastforce
  then have Y3: "rep52 2 66 ((s * (x - (s ^ 2 - x - (x + d))) - y) * (d * z ^ 3) ^ 3) (fe52_add (fe52_mul (fe52_add t R) i) (fe52_mul h3 Y))"
    by (rule rep52_eq) (simp add: fp_poly)
  have "rep52 1 33 (z * (d * z ^ 2)) (fe52_mul Z h)" by (rule rep52_mul [OF Z h]) simp_all
  then have Z3: "rep52 1 33 (d * z ^ 3) (fe52_mul Z h)" by (rule rep52_eq) (simp add: fp_poly)
  have "chord_tail X Y Z h i = \<lparr>jx = R, jy = fe52_add (fe52_mul (fe52_add t R) i) (fe52_mul h3 Y), jz = fe52_mul Z h, jinf = False\<rparr>"
    unfolding chord_tail_def Let_def h2_def h3_def t_def R_def ..
  also have "jac_rep \<dots> (Affine (s ^ 2 - x - (x + d)) (s * (x - (s ^ 2 - x - (x + d))) - y))"
    by (rule jac_rep_intro [OF rep52_mono [OF R] rep52_mono [OF Y3] Z3]) (use u in auto)
  finally show ?thesis .
qed

text \<open>
  All mixed additions, given what they compare: \<open>h\<close> decides whether the abscissas agree, \<open>e\<close> whether the
  ordinates do.
\<close>

lemma mixed_add_rep:
  assumes p: "\<not> jinf p" "jac_rep p (Affine x y)" and z: "fp_unit z" "rep52 8 287 (x * z ^ 2) (jx p)" "rep52 4 159 (y * z ^ 3) (jy p)" "rep52 1 33 z (jz p)"
    and R: "ec_add (Affine x y) (Affine x2 y2) R"
    and h: "rep52 10 321 ((x2 - x) * z ^ 2) h" and i: "rep52 6 223 ((y - y2) * z ^ 3) i"
    and e: "rep52 10 1000 ((y2 - y) * z ^ 3) e \<or> rep52 10 1000 ((y - y2) * z ^ 3) e"
  shows "jac_rep (if fe52_normalizes_to_zero_var h
     then (if fe52_normalizes_to_zero_var e then jac52_double_inplace p else jac52_infinity)
     else chord_tail (jx p) (jy p) (jz p) h i) R"
proof -
  have zu: "fp_unit (z ^ 2)" "fp_unit (z ^ 3)" using z(1) by blast+
  have zero: "a * b = 0 \<longleftrightarrow> a = 0" if "fp_unit b" for a b :: fp
    using fp_unit_cancel [OF that, of a 0] by (simp add: mult.commute)
  have h0: "fe52_normalizes_to_zero_var h \<longleftrightarrow> x2 = x" unfolding rep52_zero_var [OF h, simplified] zero [OF zu(1)] by auto
  have e0: "fe52_normalizes_to_zero_var e \<longleftrightarrow> y2 = y"
    using e by (elim disjE) (auto dest!: rep52_zero_var simp: zero [OF zu(2)])
  from R show ?thesis
  proof (cases rule: ec_add_affineE)
    case (chord w s)
    have d: "fp_unit (x2 - x)" using chord(1) by (auto simp: fp_unit_def)
    have "x2 \<noteq> x" using fp_unit_nonzero [OF d] by auto
    have "y - y2 = - (y2 - y)" by simp
    then have "rep52 6 223 (- (s * (x2 - x)) * z ^ 3) i" using i by (simp only: chord(2))
    from chord_tail_rep [OF z(2-4) z(1) d h this] show ?thesis using \<open>x2 \<noteq> x\<close> by (simp add: h0 chord(3))
  next
    case (tangent s)
    then show ?thesis using jac52_double_inplace_rep [OF p(2), of R] R by (simp add: h0 e0)
  next
    case opposite
    then have "y2 \<noteq> y" by auto
    then show ?thesis using opposite by (simp add: h0 e0)
  qed
qed

text \<open>The comparison values of a mixed addition of \<open>(x2, y2)\<close>, the second point scaled by the first's \<open>Z\<close>.\<close>

lemma mixed_parts:
  assumes X: "rep52 8 287 (x * z ^ 2) X" and Y: "rep52 4 159 (y * z ^ 3) Y"
    and u2: "rep52 1 33 (x2 * z ^ 2) u2" and s2: "rep52 1 33 (y2 * z ^ 3) s2"
  shows "rep52 10 321 ((x2 - x) * z ^ 2) (fe52_add u2 (fe52_negate 8 X))"
    "rep52 6 223 ((y - y2) * z ^ 3) (fe52_add Y (fe52_negate 1 s2))"
    "rep52 10 1000 ((y2 - y) * z ^ 3) (fe52_add s2 (fe52_negate 4 Y))"
    "rep52 6 223 ((y - - y2) * z ^ 3) (fe52_add Y s2)"
proof -
  have "rep52 9 288 (- (x * z ^ 2)) (fe52_negate 8 X)" using rep52_negate [OF X, of 8] by simp
  from rep52_add [OF u2 this] have "rep52 10 321 (x2 * z ^ 2 + - (x * z ^ 2)) (fe52_add u2 (fe52_negate 8 X))" by simp
  then show "rep52 10 321 ((x2 - x) * z ^ 2) (fe52_add u2 (fe52_negate 8 X))" by (rule rep52_eq) (simp add: algebra_simps)
  have "rep52 2 64 (- (y2 * z ^ 3)) (fe52_negate 1 s2)" using rep52_negate [OF s2, of 1] by simp
  from rep52_add [OF Y this] have "rep52 6 223 (y * z ^ 3 + - (y2 * z ^ 3)) (fe52_add Y (fe52_negate 1 s2))" by simp
  then show "rep52 6 223 ((y - y2) * z ^ 3) (fe52_add Y (fe52_negate 1 s2))" by (rule rep52_eq) (simp add: algebra_simps)
  have "rep52 5 160 (- (y * z ^ 3)) (fe52_negate 4 Y)" using rep52_negate [OF Y, of 4] by simp
  from rep52_add [OF s2 this] have "rep52 6 193 (y2 * z ^ 3 + - (y * z ^ 3)) (fe52_add s2 (fe52_negate 4 Y))" by simp
  then have "rep52 6 193 ((y2 - y) * z ^ 3) (fe52_add s2 (fe52_negate 4 Y))" by (rule rep52_eq) (simp add: algebra_simps)
  then show "rep52 10 1000 ((y2 - y) * z ^ 3) (fe52_add s2 (fe52_negate 4 Y))" by (rule rep52_mono) simp_all
  have "rep52 5 192 (y * z ^ 3 + y2 * z ^ 3) (fe52_add Y s2)" using rep52_add [OF Y s2] by simp
  then have "rep52 5 192 ((y - - y2) * z ^ 3) (fe52_add Y s2)" by (rule rep52_eq) (simp add: algebra_simps)
  then show "rep52 6 223 ((y - - y2) * z ^ 3) (fe52_add Y s2)" by (rule rep52_mono) simp_all
qed

lemma scaled_parts:
  assumes Z: "rep52 1 33 z Z" and Q: "rep52 8 287 x2 qx" "rep52 4 159 y2 qy"
  shows "rep52 1 33 (x2 * z ^ 2) (fe52_mul qx (fe52_square Z))" "rep52 1 33 (y2 * z ^ 3) (fe52_mul (fe52_mul qy (fe52_square Z)) Z)"
proof -
  have zz: "rep52 1 33 (z * z) (fe52_square Z)" by (rule rep52_square [OF Z]) simp_all
  show "rep52 1 33 (x2 * z ^ 2) (fe52_mul qx (fe52_square Z))"
    by (rule rep52_eq [OF rep52_mul [OF Q(1) zz]]) (simp_all add: fp_poly)
  have "rep52 1 33 (y2 * (z * z)) (fe52_mul qy (fe52_square Z))" by (rule rep52_mul [OF Q(2) zz]) simp_all
  from rep52_mul [OF this Z] have "rep52 1 33 (y2 * (z * z) * z) (fe52_mul (fe52_mul qy (fe52_square Z)) Z)" by simp
  then show "rep52 1 33 (y2 * z ^ 3) (fe52_mul (fe52_mul qy (fe52_square Z)) Z)"
    by (rule rep52_eq) (simp add: power3_eq_cube mult.assoc)
qed

lemma aff_repE:
  assumes "aff_rep q Q"
  obtains x2 y2 where "Q = Affine x2 y2" "rep52 8 287 x2 (ax q)" "rep52 4 159 y2 (ay q)"
  using assms by (cases Q) auto

lemma jac_rep_affine: "rep52 8 287 x X \<Longrightarrow> rep52 4 159 y Y \<Longrightarrow> jac_rep \<lparr>jx = X, jy = Y, jz = fe52_one, jinf = False\<rparr> (Affine x y)"
  by (rule jac_rep_intro [where z = 1]) (simp_all add: rep52_const)

lemma jac52_add_mixed_inplace_eq:
  "jac52_add_mixed_inplace p q = (if jinf p then \<lparr>jx = ax q, jy = ay q, jz = fe52_one, jinf = False\<rparr> else
     let u2 = fe52_mul (ax q) (fe52_square (jz p)); s2 = fe52_mul (fe52_mul (ay q) (fe52_square (jz p))) (jz p);
         h = fe52_add u2 (fe52_negate 8 (jx p)); e = fe52_add s2 (fe52_negate 4 (jy p))
     in if fe52_normalizes_to_zero_var h then (if fe52_normalizes_to_zero_var e then jac52_double_inplace p else jac52_infinity)
        else chord_tail (jx p) (jy p) (jz p) h (fe52_add (jy p) (fe52_negate 1 s2)))"
  unfolding jac52_add_mixed_inplace_def chord_tail_def Let_def ..

lemma jac52_add_mixed_inplace_rep:
  assumes "jac_rep p P" "aff_rep q Q" "ec_add P Q R"
  shows "jac_rep (jac52_add_mixed_inplace p q) R"
proof -
  from aff_repE [OF assms(2)] obtain x2 y2 where q: "Q = Affine x2 y2" "rep52 8 287 x2 (ax q)" "rep52 4 159 y2 (ay q)" .
  show ?thesis
  proof (cases "jinf p")
    case True
    then have "P = Infinity" using assms(1) by (simp add: jac_rep_def)
    then have "R = Affine x2 y2" using assms(3) by (simp add: ec_add_left_iff q(1))
    then show ?thesis using True jac_rep_affine [OF q(2,3)] by (simp add: jac52_add_mixed_inplace_def)
  next
    case False
    from jac_repE [OF assms(1) False] obtain x y z where p: "P = Affine x y" "fp_unit z"
      "rep52 8 287 (x * z ^ 2) (jx p)" "rep52 4 159 (y * z ^ 3) (jy p)" "rep52 1 33 z (jz p)" .
    note m = mixed_parts [OF p(3,4) scaled_parts [OF p(5) q(2,3)]]
    from mixed_add_rep [OF False _ p(2-5) _ m(1,2) disjI1 [OF m(3)]] assms(1,3)
    show ?thesis using False by (simp add: jac52_add_mixed_inplace_eq Let_def p(1) q(1))
  qed
qed

lemma jac52_add_mixed_neg_inplace_eq:
  "jac52_add_mixed_neg_inplace p q = (if jinf p then \<lparr>jx = ax q, jy = fe52_negate 1 (ay q), jz = fe52_one, jinf = False\<rparr> else
     let u2 = fe52_mul (ax q) (fe52_square (jz p)); s2 = fe52_mul (fe52_mul (ay q) (fe52_square (jz p))) (jz p);
         h = fe52_add u2 (fe52_negate 8 (jx p)); e = fe52_add (jy p) s2
     in if fe52_normalizes_to_zero_var h then (if fe52_normalizes_to_zero_var e then jac52_double_inplace p else jac52_infinity)
        else chord_tail (jx p) (jy p) (jz p) h (fe52_add (jy p) s2))"
  unfolding jac52_add_mixed_neg_inplace_def chord_tail_def Let_def ..

text \<open>The subtraction of \<open>q\<close>, whose ordinate has magnitude one when the sum starts from infinity.\<close>

lemma jac52_add_mixed_neg_inplace_rep:
  assumes "jac_rep p P" "aff_rep q Q" "mag 1 63 (ay q)" "ec_add P (ec_neg Q) R"
  shows "jac_rep (jac52_add_mixed_neg_inplace p q) R"
proof -
  from aff_repE [OF assms(2)] obtain x2 y2 where q: "Q = Affine x2 y2" "rep52 8 287 x2 (ax q)" "rep52 4 159 y2 (ay q)" .
  show ?thesis
  proof (cases "jinf p")
    case True
    then have "P = Infinity" using assms(1) by (simp add: jac_rep_def)
    then have r: "R = Affine x2 (- y2)" using assms(4) by (simp add: ec_add_left_iff q(1))
    have "rep52 1 63 y2 (ay q)" using q(3) assms(3) by (simp add: rep52_def)
    from rep52_negate [OF this, of 1] have "rep52 4 159 (- y2) (fe52_negate 1 (ay q))" by (auto intro: rep52_mono)
    then show ?thesis using True jac_rep_affine [OF q(2)] by (simp add: jac52_add_mixed_neg_inplace_def r)
  next
    case False
    from jac_repE [OF assms(1) False] obtain x y z where p: "P = Affine x y" "fp_unit z"
      "rep52 8 287 (x * z ^ 2) (jx p)" "rep52 4 159 (y * z ^ 3) (jy p)" "rep52 1 33 z (jz p)" .
    note m = mixed_parts [OF p(3,4) scaled_parts [OF p(5) q(2,3)]]
    have e: "rep52 10 1000 ((y - - y2) * z ^ 3) (fe52_add (jy p) (fe52_mul (fe52_mul (ay q) (fe52_square (jz p))) (jz p)))"
      by (rule rep52_mono [OF m(4)]) simp_all
    from mixed_add_rep [OF False _ p(2-5) _ m(1) m(4) disjI2 [OF e]] assms(1,4)
    show ?thesis using False by (simp add: jac52_add_mixed_neg_inplace_eq Let_def p(1) q(1))
  qed
qed

text \<open>The copying variant is the in-place one on the point its inputs make.\<close>

lemma jac52_add_mixed_to_eq:
  "jac52_add_mixed_to X Y Z f qx qy = jac52_add_mixed_inplace \<lparr>jx = X, jy = Y, jz = Z, jinf = f\<rparr> \<lparr>ax = qx, ay = qy\<rparr>"
  unfolding jac52_add_mixed_to_def jac52_add_mixed_inplace_def Let_def jac52_double_to_eq jac52_double_inplace_def
  by (simp split: prod.split)

lemma fe52_mul_var_eq: "fe52_mul_var a b = fe52_mul a b"
  by (simp add: fe52_mul_var_def fe52_mul_def)

lemma jac52_add_zinv_inplace_eq:
  "jac52_add_zinv_inplace p b c = (if jinf p
     then \<lparr>jx = fe52_mul (ax b) (fe52_square c), jy = fe52_mul (ay b) (fe52_mul (fe52_square c) c), jz = fe52_one, jinf = False\<rparr> else
     let az = fe52_mul (jz p) c; u2 = fe52_mul (ax b) (fe52_square az); s2 = fe52_mul (fe52_mul (ay b) (fe52_square az)) az;
         h = fe52_add u2 (fe52_negate 8 (jx p)); e = fe52_add (jy p) (fe52_negate 1 s2)
     in if fe52_normalizes_to_zero_var h then (if fe52_normalizes_to_zero_var e then jac52_double_inplace p else jac52_infinity)
        else chord_tail (jx p) (jy p) (jz p) h (fe52_add (jy p) (fe52_negate 1 s2)))"
  unfolding jac52_add_zinv_inplace_def chord_tail_def Let_def fe52_mul_var_eq ..

text \<open>
  \<open>b\<close> stands for the point with \<open>Z = 1 / bzinv\<close>: its coordinates times \<open>bzinv^2\<close> and \<open>bzinv^3\<close>.
\<close>

lemma jac52_add_zinv_inplace_rep:
  assumes "jac_rep p P" "rep52 8 287 bx (ax b)" "rep52 4 159 by' (ay b)" "rep52 1 33 c bzinv"
    and R: "ec_add P (Affine (bx * c ^ 2) (by' * c ^ 3)) R"
  shows "jac_rep (jac52_add_zinv_inplace p b bzinv) R"
proof (cases "jinf p")
  case True
  then have "P = Infinity" using assms(1) by (simp add: jac_rep_def)
  then have r: "R = Affine (bx * c ^ 2) (by' * c ^ 3)" using R by (simp add: ec_add_left_iff)
  have c2: "rep52 1 33 (c * c) (fe52_square bzinv)" by (rule rep52_square [OF assms(4)]) simp_all
  have c3: "rep52 1 33 (c * c * c) (fe52_mul (fe52_square bzinv) bzinv)" by (rule rep52_mul [OF c2 assms(4)]) simp_all
  have "rep52 1 33 (bx * (c * c)) (fe52_mul (ax b) (fe52_square bzinv))" by (rule rep52_mul [OF assms(2) c2]) simp_all
  then have x: "rep52 8 287 (bx * c ^ 2) (fe52_mul (ax b) (fe52_square bzinv))"
    unfolding power2_eq_square by (rule rep52_mono) simp_all
  have "rep52 1 33 (by' * (c * c * c)) (fe52_mul (ay b) (fe52_mul (fe52_square bzinv) bzinv))" by (rule rep52_mul [OF assms(3) c3]) simp_all
  then have y: "rep52 4 159 (by' * c ^ 3) (fe52_mul (ay b) (fe52_mul (fe52_square bzinv) bzinv))"
    unfolding power3_eq_cube by (rule rep52_mono) simp_all
  show ?thesis unfolding jac52_add_zinv_inplace_eq r using True jac_rep_affine [OF x y] by simp
next
  case False
  from jac_repE [OF assms(1) False] obtain x y z where p: "P = Affine x y" "fp_unit z"
    "rep52 8 287 (x * z ^ 2) (jx p)" "rep52 4 159 (y * z ^ 3) (jy p)" "rep52 1 33 z (jz p)" .
  have az: "rep52 1 33 (z * c) (fe52_mul (jz p) bzinv)" by (rule rep52_mul [OF p(5) assms(4)]) simp_all
  note sc = scaled_parts [OF az assms(2,3)]
  have u2: "rep52 1 33 (bx * c ^ 2 * z ^ 2) (fe52_mul (ax b) (fe52_square (fe52_mul (jz p) bzinv)))"
    by (rule rep52_eq [OF sc(1)]) (simp add: power_mult_distrib ac_simps)
  have s2: "rep52 1 33 (by' * c ^ 3 * z ^ 3) (fe52_mul (fe52_mul (ay b) (fe52_square (fe52_mul (jz p) bzinv))) (fe52_mul (jz p) bzinv))"
    by (rule rep52_eq [OF sc(2)]) (simp add: power_mult_distrib ac_simps)
  note m = mixed_parts [OF p(3,4) u2 s2]
  have e: "rep52 10 1000 ((y - by' * c ^ 3) * z ^ 3)
      (fe52_add (jy p) (fe52_negate 1 (fe52_mul (fe52_mul (ay b) (fe52_square (fe52_mul (jz p) bzinv))) (fe52_mul (jz p) bzinv))))"
    by (rule rep52_mono [OF m(2)]) simp_all
  from mixed_add_rep [OF False _ p(2-5) _ m(1) m(2) disjI2 [OF e]] assms(1) R
  show ?thesis using False by (simp add: jac52_add_zinv_inplace_eq Let_def p(1))
qed

section \<open>The full Jacobian addition\<close>

text \<open>Its chord branch, over the four cross products and \<open>h\<close>.\<close>

definition add_tail :: "fe52 \<Rightarrow> fe52 \<Rightarrow> fe52 \<Rightarrow> fe52 \<Rightarrow> fe52 \<Rightarrow> fe52 \<Rightarrow> jac52" where
  "add_tail Z1 Z2 u1 s1 s2 h =
     (let i = fe52_square (fe52_add h h);
          j = fe52_mul h i;
          r = fe52_add s2 (fe52_negate 1 s1);
          r = fe52_add r r;
          v = fe52_mul u1 i;
          x3 = fe52_add (fe52_add (fe52_add (fe52_square r) (fe52_negate 1 j)) (fe52_negate 1 v)) (fe52_negate 1 v);
          s1j = fe52_mul s1 j;
          y3 = fe52_add (fe52_mul r (fe52_add v (fe52_negate 7 x3))) (fe52_negate 2 (fe52_add s1j s1j));
          z3 = fe52_mul (fe52_add (fe52_add (fe52_square (fe52_add Z1 Z2)) (fe52_negate 1 (fe52_square Z1))) (fe52_negate 1 (fe52_square Z2))) h
      in \<lparr>jx = x3, jy = y3, jz = z3, jinf = False\<rparr>)"

lemma add_tail_rep:
  assumes Z: "rep52 1 33 z Z1" "rep52 1 33 z' Z2" and u: "fp_unit z" "fp_unit z'" "fp_unit d"
    and u1: "rep52 1 33 (x * (z * z') ^ 2) u1" and s1: "rep52 1 33 (y * (z * z') ^ 3) s1" and s2: "rep52 1 33 ((y + s * d) * (z * z') ^ 3) s2"
    and h: "rep52 3 97 (d * (z * z') ^ 2) h"
  shows "jac_rep (add_tail Z1 Z2 u1 s1 s2 h) (Affine (s ^ 2 - x - (x + d)) (s * (x - (s ^ 2 - x - (x + d))) - y))"
proof -
  define k where "k = z * z'"
  define i where "i = fe52_square (fe52_add h h)"
  define j where "j = fe52_mul h i"
  define r where "r = fe52_add (fe52_add s2 (fe52_negate 1 s1)) (fe52_add s2 (fe52_negate 1 s1))"
  define v where "v = fe52_mul u1 i"
  define x3 where "x3 = fe52_add (fe52_add (fe52_add (fe52_square r) (fe52_negate 1 j)) (fe52_negate 1 v)) (fe52_negate 1 v)"
  define s1j where "s1j = fe52_mul s1 j"
  note kd = k_def [symmetric]
  have "rep52 6 194 (d * k ^ 2 + d * k ^ 2) (fe52_add h h)" using rep52_add [OF h h] by (simp add: kd)
  from rep52_square [OF this] have i: "rep52 1 33 (4 * d ^ 2 * k ^ 4) i"
    unfolding i_def by (rule rep52_eq) (simp_all add: fp_poly power4_eq_xxxx)
  have j: "rep52 1 33 (d * k ^ 2 * (4 * d ^ 2 * k ^ 4)) j" unfolding j_def by (rule rep52_mul [OF h [unfolded kd] i]) simp_all
  have v: "rep52 1 33 (x * k ^ 2 * (4 * d ^ 2 * k ^ 4)) v" unfolding v_def by (rule rep52_mul [OF u1 [unfolded kd] i]) simp_all
  have "rep52 2 64 (- (y * k ^ 3)) (fe52_negate 1 s1)" using rep52_negate [OF s1, of 1] by (simp add: kd)
  from rep52_add [OF s2 this] have "rep52 3 97 ((y + s * d) * k ^ 3 + - (y * k ^ 3)) (fe52_add s2 (fe52_negate 1 s1))" by (simp add: kd)
  then have "rep52 3 97 (s * d * k ^ 3) (fe52_add s2 (fe52_negate 1 s1))" by (rule rep52_eq) (simp add: algebra_simps)
  from rep52_add [OF this this] have r: "rep52 6 194 (s * d * k ^ 3 + s * d * k ^ 3) r" by (simp add: r_def)
  have nv: "rep52 2 64 (- (x * k ^ 2 * (4 * d ^ 2 * k ^ 4))) (fe52_negate 1 v)" using rep52_negate [OF v, of 1] by simp
  have nj: "rep52 2 64 (- (d * k ^ 2 * (4 * d ^ 2 * k ^ 4))) (fe52_negate 1 j)" using rep52_negate [OF j, of 1] by simp
  have "rep52 1 33 ((s * d * k ^ 3 + s * d * k ^ 3) * (s * d * k ^ 3 + s * d * k ^ 3)) (fe52_square r)" by (rule rep52_square [OF r]) simp_all
  from rep52_add [OF rep52_add [OF rep52_add [OF this nj] nv] nv]
  have "rep52 7 225 ((s * d * k ^ 3 + s * d * k ^ 3) * (s * d * k ^ 3 + s * d * k ^ 3) + - (d * k ^ 2 * (4 * d ^ 2 * k ^ 4)) +
      - (x * k ^ 2 * (4 * d ^ 2 * k ^ 4)) + - (x * k ^ 2 * (4 * d ^ 2 * k ^ 4))) x3" by (simp add: x3_def)
  then have x3: "rep52 7 225 ((s ^ 2 - x - (x + d)) * (2 * d * k ^ 3) ^ 2) x3" by (rule rep52_eq) (simp add: fp_poly power4_eq_xxxx)
  have "rep52 8 256 (- ((s ^ 2 - x - (x + d)) * (2 * d * k ^ 3) ^ 2)) (fe52_negate 7 x3)" using rep52_negate [OF x3, of 7] by simp
  from rep52_add [OF v this] have "rep52 9 289 (x * k ^ 2 * (4 * d ^ 2 * k ^ 4) + - ((s ^ 2 - x - (x + d)) * (2 * d * k ^ 3) ^ 2)) (fe52_add v (fe52_negate 7 x3))"
    by simp
  from rep52_mul [OF r this] have m: "rep52 1 33 ((s * d * k ^ 3 + s * d * k ^ 3) * (x * k ^ 2 * (4 * d ^ 2 * k ^ 4) + - ((s ^ 2 - x - (x + d)) * (2 * d * k ^ 3) ^ 2)))
      (fe52_mul r (fe52_add v (fe52_negate 7 x3)))" by simp
  have s1j: "rep52 1 33 (y * k ^ 3 * (d * k ^ 2 * (4 * d ^ 2 * k ^ 4))) s1j" unfolding s1j_def by (rule rep52_mul [OF s1 [unfolded kd] j]) simp_all
  have "rep52 3 96 (- (y * k ^ 3 * (d * k ^ 2 * (4 * d ^ 2 * k ^ 4)) + y * k ^ 3 * (d * k ^ 2 * (4 * d ^ 2 * k ^ 4)))) (fe52_negate 2 (fe52_add s1j s1j))"
    using rep52_negate [OF rep52_add [OF s1j s1j], of 2] by simp
  from rep52_add [OF m this] have "rep52 4 129 ((s * d * k ^ 3 + s * d * k ^ 3) * (x * k ^ 2 * (4 * d ^ 2 * k ^ 4) + - ((s ^ 2 - x - (x + d)) * (2 * d * k ^ 3) ^ 2)) +
      - (y * k ^ 3 * (d * k ^ 2 * (4 * d ^ 2 * k ^ 4)) + y * k ^ 3 * (d * k ^ 2 * (4 * d ^ 2 * k ^ 4))))
      (fe52_add (fe52_mul r (fe52_add v (fe52_negate 7 x3))) (fe52_negate 2 (fe52_add s1j s1j)))" by simp
  then have y3: "rep52 4 129 ((s * (x - (s ^ 2 - x - (x + d))) - y) * (2 * d * k ^ 3) ^ 3)
      (fe52_add (fe52_mul r (fe52_add v (fe52_negate 7 x3))) (fe52_negate 2 (fe52_add s1j s1j)))"
    by (rule rep52_eq) (simp add: fp_poly power4_eq_xxxx)
  have n: "rep52 2 64 (- (z * z)) (fe52_negate 1 (fe52_square Z1))" "rep52 2 64 (- (z' * z')) (fe52_negate 1 (fe52_square Z2))"
    using rep52_negate [OF rep52_square [OF Z(1)], of 1] rep52_negate [OF rep52_square [OF Z(2)], of 1] by simp_all
  have "rep52 2 66 (z + z') (fe52_add Z1 Z2)" using rep52_add [OF Z] by simp
  from rep52_square [OF this] have "rep52 1 33 ((z + z') * (z + z')) (fe52_square (fe52_add Z1 Z2))" by simp
  from rep52_add [OF rep52_add [OF this n(1)] n(2)]
  have "rep52 5 161 ((z + z') * (z + z') + - (z * z) + - (z' * z'))
      (fe52_add (fe52_add (fe52_square (fe52_add Z1 Z2)) (fe52_negate 1 (fe52_square Z1))) (fe52_negate 1 (fe52_square Z2)))" by simp
  from rep52_mul [OF this h] have "rep52 1 33 (((z + z') * (z + z') + - (z * z) + - (z' * z')) * (d * (z * z') ^ 2))
      (fe52_mul (fe52_add (fe52_add (fe52_square (fe52_add Z1 Z2)) (fe52_negate 1 (fe52_square Z1))) (fe52_negate 1 (fe52_square Z2))) h)" by simp
  then have z3: "rep52 1 33 (2 * d * k ^ 3)
      (fe52_mul (fe52_add (fe52_add (fe52_square (fe52_add Z1 Z2)) (fe52_negate 1 (fe52_square Z1))) (fe52_negate 1 (fe52_square Z2))) h)"
    by (rule rep52_eq) (simp add: fp_poly k_def)
  have "fp_unit (2 * d * k ^ 3)" unfolding k_def using u by blast
  with jac_rep_intro [OF rep52_mono [OF x3] rep52_mono [OF y3] z3] show ?thesis
    unfolding add_tail_def Let_def x3_def [symmetric] i_def [symmetric] j_def [symmetric] r_def [symmetric] v_def [symmetric] s1j_def [symmetric]
    by (simp add: x3_def [symmetric])
qed

lemma jac52_add_inplace_eq:
  "jac52_add_inplace p q = (if jinf p then q else if jinf q then p else
     let u1 = fe52_mul (jx p) (fe52_square (jz q)); u2 = fe52_mul (jx q) (fe52_square (jz p));
         s1 = fe52_mul (fe52_mul (jy p) (jz q)) (fe52_square (jz q)); s2 = fe52_mul (fe52_mul (jy q) (jz p)) (fe52_square (jz p));
         h = fe52_add u2 (fe52_negate 1 u1); e = fe52_add s2 (fe52_negate 1 s1)
     in if fe52_normalizes_to_zero_var h then (if fe52_normalizes_to_zero_var e then jac52_double_inplace p else jac52_infinity)
        else add_tail (jz p) (jz q) u1 s1 s2 h)"
  unfolding jac52_add_inplace_def add_tail_def Let_def ..

lemma fp_mult_zero: "fp_unit b \<Longrightarrow> a * b = 0 \<longleftrightarrow> a = 0"
  using fp_unit_cancel [of b a 0] by (simp add: mult.commute)

lemma jac52_add_inplace_rep:
  assumes "jac_rep p P" "jac_rep q Q" "ec_add P Q R"
  shows "jac_rep (jac52_add_inplace p q) R"
proof -
  consider "jinf p" | "\<not> jinf p" "jinf q" | "\<not> jinf p" "\<not> jinf q" by blast
  then show ?thesis
  proof cases
    case 1
    then have "P = Infinity" using assms(1) by (simp add: jac_rep_def)
    then show ?thesis using 1 assms(2,3) by (simp add: jac52_add_inplace_def ec_add_left_iff)
  next
    case 2
    then have "Q = Infinity" using assms(2) by (simp add: jac_rep_def)
    then show ?thesis using 2 assms(1,3) by (simp add: jac52_add_inplace_def ec_add_right_iff)
  next
    case 3
    from jac_repE [OF assms(1) 3(1)] obtain x y z where p: "P = Affine x y" "fp_unit z"
      "rep52 8 287 (x * z ^ 2) (jx p)" "rep52 4 159 (y * z ^ 3) (jy p)" "rep52 1 33 z (jz p)" .
    from jac_repE [OF assms(2) 3(2)] obtain x2 y2 z' where q: "Q = Affine x2 y2" "fp_unit z'"
      "rep52 8 287 (x2 * z' ^ 2) (jx q)" "rep52 4 159 (y2 * z' ^ 3) (jy q)" "rep52 1 33 z' (jz q)" .
    define u1 where "u1 = fe52_mul (jx p) (fe52_square (jz q))"
    define u2 where "u2 = fe52_mul (jx q) (fe52_square (jz p))"
    define s1 where "s1 = fe52_mul (fe52_mul (jy p) (jz q)) (fe52_square (jz q))"
    define s2 where "s2 = fe52_mul (fe52_mul (jy q) (jz p)) (fe52_square (jz p))"
    have zz: "rep52 1 33 (z * z) (fe52_square (jz p))" "rep52 1 33 (z' * z') (fe52_square (jz q))"
      using rep52_square [OF p(5)] rep52_square [OF q(5)] by simp_all
    have "rep52 1 33 (x * z ^ 2 * (z' * z')) u1" "rep52 1 33 (x2 * z' ^ 2 * (z * z)) u2"
      unfolding u1_def u2_def by (rule rep52_mul [OF p(3) zz(2)] rep52_mul [OF q(3) zz(1)]; simp)+
    then have u: "rep52 1 33 (x * (z * z') ^ 2) u1" "rep52 1 33 (x2 * (z * z') ^ 2) u2"
      by (auto elim!: rep52_eq simp: power2_eq_square ac_simps)
    have "rep52 1 33 (y * z ^ 3 * z') (fe52_mul (jy p) (jz q))" "rep52 1 33 (y2 * z' ^ 3 * z) (fe52_mul (jy q) (jz p))"
      by (rule rep52_mul [OF p(4) q(5)] rep52_mul [OF q(4) p(5)]; simp)+
    from rep52_mul [OF this(1) zz(2)] rep52_mul [OF this(2) zz(1)]
    have "rep52 1 33 (y * z ^ 3 * z' * (z' * z')) s1" "rep52 1 33 (y2 * z' ^ 3 * z * (z * z)) s2"
      unfolding s1_def s2_def by simp_all
    then have s: "rep52 1 33 (y * (z * z') ^ 3) s1" "rep52 1 33 (y2 * (z * z') ^ 3) s2"
      by (auto elim!: rep52_eq simp: power3_eq_cube ac_simps)
    have "rep52 2 64 (- (x * (z * z') ^ 2)) (fe52_negate 1 u1)" "rep52 2 64 (- (y * (z * z') ^ 3)) (fe52_negate 1 s1)"
      using rep52_negate [OF u(1), of 1] rep52_negate [OF s(1), of 1] by simp_all
    from rep52_add [OF u(2) this(1)] rep52_add [OF s(2) this(2)]
    have "rep52 3 97 (x2 * (z * z') ^ 2 + - (x * (z * z') ^ 2)) (fe52_add u2 (fe52_negate 1 u1))"
      "rep52 3 97 (y2 * (z * z') ^ 3 + - (y * (z * z') ^ 3)) (fe52_add s2 (fe52_negate 1 s1))" by simp_all
    then have he: "rep52 3 97 ((x2 - x) * (z * z') ^ 2) (fe52_add u2 (fe52_negate 1 u1))"
      "rep52 3 97 ((y2 - y) * (z * z') ^ 3) (fe52_add s2 (fe52_negate 1 s1))" by (auto elim!: rep52_eq simp: left_diff_distrib)
    have k: "fp_unit ((z * z') ^ 2)" "fp_unit ((z * z') ^ 3)" using p(2) q(2) by blast+
    have h0: "fe52_normalizes_to_zero_var (fe52_add u2 (fe52_negate 1 u1)) \<longleftrightarrow> x2 = x"
      "fe52_normalizes_to_zero_var (fe52_add s2 (fe52_negate 1 s1)) \<longleftrightarrow> y2 = y"
      using rep52_zero_var [OF he(1)] rep52_zero_var [OF he(2)] by (simp_all only: fp_mult_zero [OF k(1)] fp_mult_zero [OF k(2)]) simp_all
    have e: "jac52_add_inplace p q = (if x2 = x then (if y2 = y then jac52_double_inplace p else jac52_infinity)
        else add_tail (jz p) (jz q) u1 s1 s2 (fe52_add u2 (fe52_negate 1 u1)))"
      using 3 unfolding jac52_add_inplace_eq Let_def u1_def [symmetric] u2_def [symmetric] s1_def [symmetric] s2_def [symmetric] h0 by simp
    from assms(3) [unfolded p(1) q(1)] show ?thesis
    proof (cases rule: ec_add_affineE)
      case (chord w t)
      have d: "fp_unit (x2 - x)" using chord(1) by (auto simp: fp_unit_def)
      have ne: "x2 \<noteq> x" using fp_unit_nonzero [OF d] by auto
      have "y + t * (x2 - x) = y2" using chord(2) by simp
      with s(2) have s2: "rep52 1 33 ((y + t * (x2 - x)) * (z * z') ^ 3) s2" by simp
      from add_tail_rep [OF p(5) q(5) p(2) q(2) d u(1) s(1) s2 he(1)] show ?thesis
        using ne by (simp add: e chord(3))
    next
      case (tangent t)
      then have "ec_add P P R" using assms(3) by (simp add: p(1) q(1))
      then show ?thesis using jac52_double_inplace_rep [OF assms(1)] tangent(1,2) by (simp add: e)
    next
      case opposite
      then have "y2 \<noteq> y" by auto
      then show ?thesis using opposite by (simp add: e)
    qed
  qed
qed

lemma jac52_negate_rep: "jac_rep p P \<Longrightarrow> jac_rep (jac52_negate p) (ec_neg P)"
proof (cases "jinf p")
  case False
  assume "jac_rep p P"
  from jac_repE [OF this False] obtain x y z where p: "P = Affine x y" "fp_unit z"
    "rep52 8 287 (x * z ^ 2) (jx p)" "rep52 4 159 (y * z ^ 3) (jy p)" "rep52 1 33 z (jz p)" .
  have "rep52 1 32 (y * z ^ 3) (fe52_normalize_weak (jy p))" by (rule rep52_normalize_weak [OF p(4)]) simp_all
  from rep52_negate [OF this, of 1] have "rep52 2 64 (- (y * z ^ 3)) (fe52_negate 1 (fe52_normalize_weak (jy p)))" by simp
  then have "rep52 1 32 (- y * z ^ 3) (fe52_normalize_weak (fe52_negate 1 (fe52_normalize_weak (jy p))))"
    by (simp add: rep52_normalize_weak)
  then have "rep52 4 159 (- y * z ^ 3) (jy (jac52_negate p))" by (simp add: jac52_negate_def rep52_mono)
  then show ?thesis using p False by (auto simp: jac_rep_def jac52_negate_def)
qed (simp add: jac_rep_def jac52_negate_def)

section \<open>Properties\<close>

lemma jac52_add_rep: "jac_rep p P \<Longrightarrow> jac_rep q Q \<Longrightarrow> ec_add P Q R \<Longrightarrow> jac_rep (jac52_add p q) R"
  unfolding jac52_add_def by (rule jac52_add_inplace_rep)

interpretation j52: curve_arith jac_rep jac52_double jac52_add
  by unfold_locales (rule jac52_double_rep, assumption+, rule jac52_add_rep)

text \<open>Concrete coordinates, as the limbs of an integer.\<close>

definition fe52_of_int :: "int \<Rightarrow> fe52" where
  "fe52_of_int v =
     (let qa = v div 2 ^ 52; qb = qa div 2 ^ 52; qc = qb div 2 ^ 52; qd = qc div 2 ^ 52
      in Fe52 (word_of_int (v mod 2 ^ 52)) (word_of_int (qa mod 2 ^ 52)) (word_of_int (qb mod 2 ^ 52)) (word_of_int (qc mod 2 ^ 52)) (word_of_int qd))"

lemma divmod_52: "a = a mod 2 ^ 52 + 0x10000000000000 * (a div 2 ^ 52)" "0 \<le> a mod 2 ^ 52" "a mod 2 ^ 52 \<le> 0xFFFFFFFFFFFFF" for a :: int
  using pos_mod_bound [of "2 ^ 52" a] by simp_all

lemma fe52_of_int:
  assumes "0 \<le> v" "v < 2 ^ 256"
  shows "fe52_val (fe52_of_int v) = v" "fe52_reduced (fe52_of_int v)"
proof -
  define qa qb qc qd where q: "qa = v div 2 ^ 52" "qb = qa div 2 ^ 52" "qc = qb div 2 ^ 52" "qd = qc div 2 ^ 52"
  define ra rb rc rd where r: "ra = v mod 2 ^ 52" "rb = qa mod 2 ^ 52" "rc = qb mod 2 ^ 52" "rd = qc mod 2 ^ 52"
  note e = divmod_52 [of v, folded q r] divmod_52 [of qa, folded q r] divmod_52 [of qb, folded q r] divmod_52 [of qc, folded q r]
  have v: "v < 0x10000000000000000000000000000000000000000000000000000000000000000" using assms(2) by simp
  have t: "0 \<le> qd" "qd \<le> 0xFFFFFFFFFFFF" using assms(1) v e by linarith+
  have u: "uint (word_of_int a :: u64) = a" if "0 \<le> a" "a \<le> 0xFFFFFFFFFFFFF" for a
    using that by (simp add: uint_word_of_int_eq take_bit_int_eq_self)
  have w: "fe52_of_int v = Fe52 (word_of_int ra) (word_of_int rb) (word_of_int rc) (word_of_int rd) (word_of_int qd)"
    unfolding fe52_of_int_def Let_def q [symmetric] r [symmetric] ..
  have n: "uint (word_of_int ra :: u64) = ra" "uint (word_of_int rb :: u64) = rb" "uint (word_of_int rc :: u64) = rc"
    "uint (word_of_int rd :: u64) = rd" "uint (word_of_int qd :: u64) = qd"
    using e t by (intro u; linarith)+
  have "fe52_val (fe52_of_int v) = ra + 0x10000000000000 * (rb + 0x10000000000000 * (rc + 0x10000000000000 * (rd + 0x10000000000000 * qd)))"
    unfolding w fe52_val.simps n by simp
  also have "\<dots> = v" using e(1,4,7,10) by simp
  finally show "fe52_val (fe52_of_int v) = v" .
  show "fe52_reduced (fe52_of_int v)" unfolding w fe52_reduced.simps n using e t by simp
qed

lemma rep52_of_int: "0 \<le> v \<Longrightarrow> v < 2 ^ 256 \<Longrightarrow> rep52 1 32 (of_int v) (fe52_of_int v)"
  using fe52_of_int reduced_mag by (simp add: rep52_def)

definition jac52_of :: "int \<times> int \<Rightarrow> jac52" where
  "jac52_of c = \<lparr>jx = fe52_of_int (fst c), jy = fe52_of_int (snd c), jz = fe52_one, jinf = False\<rparr>"

definition aff52_of :: "int \<times> int \<Rightarrow> aff52" where
  "aff52_of c = \<lparr>ax = fe52_of_int (fst c), ay = fe52_of_int (snd c)\<rparr>"

definition coords_ok :: "int \<times> int \<Rightarrow> bool" where
  "coords_ok c \<longleftrightarrow> 0 \<le> fst c \<and> fst c < 2 ^ 256 \<and> 0 \<le> snd c \<and> snd c < 2 ^ 256"

lemma coords_ok_mulG: "coords_ok mulG1" "coords_ok mulG2" "coords_ok mulG3"
  by (simp_all add: coords_ok_def mulG1_def mulG2_def mulG3_def)

lemma aff52_of_rep: "coords_ok c \<Longrightarrow> aff_rep (aff52_of c) (pt c)" "coords_ok c \<Longrightarrow> mag 1 63 (ay (aff52_of c))"
  unfolding coords_ok_def aff52_of_def pt_def
  using rep52_of_int [of "fst c"] rep52_of_int [of "snd c"] by (auto simp: rep52_def intro: mag_mono)

lemma jac52_of_rep: "coords_ok c \<Longrightarrow> jac_rep (jac52_of c) (pt c)"
  using aff52_of_rep(1) [of c] jac_rep_affine unfolding jac52_of_def aff52_of_def pt_def by simp

lemma jac52_negate_of_rep: "coords_ok c \<Longrightarrow> jac_rep (jac52_negate (jac52_of c)) (ec_neg (pt c))"
  by (rule jac52_negate_rep [OF jac52_of_rep])

definition sample52 :: "jac52 group_step list" where
  "sample52 = [Add (jac52_of mulG1), Add (jac52_negate (jac52_of mulG1)), Add (jac52_of mulG1), Double, Add (jac52_of mulG1)]"

lemma sample52: "list_all2 (rel_group_step jac_rep) sample52 sample_steps"
  by (simp add: sample52_def sample_steps_def jac52_of_rep jac52_negate_of_rep coords_ok_mulG)



text \<open>The mixed additions of an affine point, in place, copying and with its negation, refine the addition of the curve in every case:
  from infinity, on a chord, doubling, and cancelling.\<close>

theorem jac52_mixed_correct:
  assumes "jac_rep p P" "aff_rep q Q" "mag 1 63 (ay q)" "ec_add P Q R" "ec_add P (ec_neg Q) S"
  shows "jac_rep (jac52_add_mixed p q) R \<and> jac_rep (jac52_add_mixed_inplace p q) R \<and>
    jac_rep (jac52_add_mixed_to (jx p) (jy p) (jz p) (jinf p) (ax q) (ay q)) R \<and> jac_rep (jac52_add_mixed_neg_inplace p q) S"
proof -
  have "jac52_add_mixed_to (jx p) (jy p) (jz p) (jinf p) (ax q) (ay q) = jac52_add_mixed_inplace p q"
    by (cases p; cases q) (simp add: jac52_add_mixed_to_eq)
  then show ?thesis using jac52_add_mixed_inplace_rep [OF assms(1,2,4)] jac52_add_mixed_neg_inplace_rep [OF assms(1,2,3,5)]
    by (simp add: jac52_add_mixed_def)
qed

theorem jac52_mixed_correct_witness:
  "jac_rep (jac52_add_mixed (jac52_of mulG1) (aff52_of mulG1)) (pt mulG2) \<and> jinf (jac52_add_mixed_neg_inplace (jac52_of mulG1) (aff52_of mulG1))"
  using jac52_mixed_correct [OF jac52_of_rep aff52_of_rep gen_double gen_opposite] coords_ok_mulG by simp

end
