(* ===== verification/Glv52.thy ===== *)
theory Glv52
  imports Jac52
begin

text \<open>
  The tables and the ladder of the variable-base multiplication (\<open>build_glv52_table_zr\<close>,
  \<open>derive_phi52_table\<close>, \<open>apply_wnaf_mixed52\<close>, \<open>shamir_2stream_glv52\<close> of point.cpp): odd multiples built
  with co-Z additions and rescaled to one shared \<open>Z\<close>, so that the entries are affine points of an isomorphic curve,
  and the doubling chain that adds a table entry for every nonzero digit.
\<close>

unbundle bit_operations_syntax

section \<open>Co-Z formulas\<close>

definition jac52_dblu :: "fe52 \<Rightarrow> fe52 \<Rightarrow> fe52 \<Rightarrow> fe52 \<times> fe52 \<times> fe52 \<times> fe52 \<times> fe52" where
  "jac52_dblu x y zin =
     (let A = fe52_square x;
          B = fe52_square y;
          C = fe52_square B;
          t = fe52_add x B;
          t = fe52_square t;
          t = fe52_add t (fe52_negate 1 A);
          t = fe52_add t (fe52_negate 1 C);
          D = fe52_add t t;
          E = fe52_mul_int 3 A;
          F = fe52_square E;
          twoD = fe52_add D D;
          X2 = fe52_add F (fe52_negate 20 twoD);
          dmx = fe52_add D (fe52_negate 22 X2);
          Y2 = fe52_mul E dmx;
          eightC = fe52_mul_int 8 C;
          Y2 = fe52_add Y2 (fe52_negate 8 eightC);
          Z = fe52_add y y;
          Z = fe52_mul Z zin;
          X2 = fe52_normalize_weak X2; Y2 = fe52_normalize_weak Y2;
          D = fe52_normalize_weak D; eightC = fe52_normalize_weak eightC; Z = fe52_normalize_weak Z
      in (X2, Y2, D, eightC, Z))"

text \<open>
  \<open>jac52_zaddu_zr\<close>: the updated first operand, the updated \<open>Z\<close>, the sum and the ratio, or \<open>None\<close> where
  the code returns false.
\<close>

definition jac52_zaddu_zr :: "fe52 \<Rightarrow> fe52 \<Rightarrow> fe52 \<Rightarrow> fe52 \<Rightarrow> fe52 \<Rightarrow> (fe52 \<times> fe52 \<times> fe52 \<times> fe52 \<times> fe52 \<times> fe52) option" where
  "jac52_zaddu_zr x1 y1 x2 y2 z =
     (let dx = fe52_add x2 (fe52_negate 8 x1)
      in if fe52_normalizes_to_zero_var dx then None
         else
           let dy = fe52_add y2 (fe52_negate 8 y1);
               A = fe52_square dx;
               B = fe52_mul x1 A;
               C = fe52_mul x2 A;
               D = fe52_square dy;
               x3 = fe52_add D (fe52_negate 1 B);
               x3 = fe52_add x3 (fe52_negate 1 C);
               cb = fe52_add C (fe52_negate 1 B);
               y1cb = fe52_mul y1 cb;
               bx3 = fe52_add B (fe52_negate 5 x3);
               y3 = fe52_mul dy bx3;
               y3 = fe52_add y3 (fe52_negate 1 y1cb)
           in Some (B, y1cb, fe52_mul z dx, x3, y3, dx))"

section \<open>The table\<close>

text \<open>
  The forward loop over \<open>k\<close> remaining entries: the doubled point \<open>(dX, dY)\<close>, the last entry \<open>(aX, aY)\<close>, their common
  \<open>Z\<close>, and the table and the ratios so far.
\<close>

fun zr_loop :: "nat \<Rightarrow> fe52 \<times> fe52 \<Rightarrow> fe52 \<times> fe52 \<Rightarrow> fe52 \<Rightarrow> aff52 list \<Rightarrow> fe52 list \<Rightarrow> (aff52 list \<times> fe52 list \<times> fe52) option" where
  "zr_loop 0 d acc chainZ tbl zr = Some (tbl, zr, chainZ)"
| "zr_loop (Suc k) (dX, dY) (aX, aY) chainZ tbl zr =
     (case jac52_zaddu_zr dX dY aX aY chainZ of
        None \<Rightarrow> None
      | Some (dX, dY, chainZ, sx, sy, zr_i) \<Rightarrow>
          zr_loop k (dX, dY) (sx, sy) chainZ (tbl @ [\<lparr>ax = sx, ay = sy\<rparr>]) (zr @ [zr_i]))"

text \<open>The backward sweep from index \<open>idx\<close> down; \<open>n\<close> is the table size.\<close>

fun zr_sweep :: "nat \<Rightarrow> nat \<Rightarrow> fe52 list \<Rightarrow> fe52 \<Rightarrow> aff52 list \<Rightarrow> aff52 list" where
  "zr_sweep n 0 zr zs tbl = tbl"
| "zr_sweep n (Suc idx) zr zs tbl =
     (let zs = (if idx \<noteq> n - 2 then fe52_mul zs (zr ! (idx + 1)) else zs);
          zs2 = fe52_square zs;
          zs3 = fe52_mul zs2 zs;
          e = tbl ! idx
      in zr_sweep n idx zr zs (tbl[idx := \<lparr>ax = fe52_mul (ax e) zs2, ay = fe52_mul (ay e) zs3\<rparr>]))"

definition build_glv52_table_zr :: "jac52 \<Rightarrow> nat \<Rightarrow> (aff52 list \<times> fe52) option" where
  "build_glv52_table_zr P52 table_size =
     (case jac52_dblu (jx P52) (jy P52) (jz P52) of (dX, dY, aX, aY, chainZ) \<Rightarrow>
        case zr_loop (table_size - 1) (dX, dY) (aX, aY) chainZ [\<lparr>ax = aX, ay = aY\<rparr>] [fe52_one] of
          None \<Rightarrow> None
        | Some (tbl, zr, chainZ) \<Rightarrow>
            let globalz = chainZ;
                tbl = zr_sweep table_size (table_size - 1) zr (zr ! (table_size - 1)) tbl;
                e = tbl ! (table_size - 1)
            in Some (tbl[table_size - 1 := \<lparr>ax = fe52_normalize_weak (ax e), ay = fe52_normalize_weak (ay e)\<rparr>], globalz))"

definition derive_phi52_table :: "fe52 \<Rightarrow> aff52 list \<Rightarrow> bool \<Rightarrow> aff52 list" where
  "derive_phi52_table kBeta52_pt tbl_P flip_phi =
     map (\<lambda>e. \<lparr>ax = fe52_mul (ax e) kBeta52_pt, ay = (if flip_phi then fe52_negate 1 (ay e) else ay e)\<rparr>) tbl_P"

section \<open>The ladder\<close>

definition apply_wnaf_mixed52 :: "jac52 \<Rightarrow> aff52 list \<Rightarrow> u32 \<Rightarrow> jac52" where
  "apply_wnaf_mixed52 result table d =
     (if d \<noteq> 0 then
        let sign32 = signed_drop_bit 31 d;
            abs_d = (d XOR sign32) - sign32;
            pt = table ! unat (signed_drop_bit 1 (abs_d - 1));
            pt = pt\<lparr>ay := fe52_conditional_negate sign32 (ay pt)\<rparr>
        in jac52_add_mixed_inplace result pt
      else result)"

text \<open>\<open>i + 1\<close> iterations remain; the digit buffers are as long as the longer of the two expansions.\<close>

fun shamir_loop :: "nat \<Rightarrow> aff52 list \<Rightarrow> aff52 list \<Rightarrow> u32 list \<Rightarrow> u32 list \<Rightarrow> jac52 \<Rightarrow> jac52" where
  "shamir_loop 0 tbl_P tbl_phiP wnaf1 wnaf2 r = r"
| "shamir_loop (Suc i) tbl_P tbl_phiP wnaf1 wnaf2 r =
     (let r = jac52_double_inplace r;
          r = apply_wnaf_mixed52 r tbl_P (wnaf1 ! i);
          r = apply_wnaf_mixed52 r tbl_phiP (wnaf2 ! i)
      in shamir_loop i tbl_P tbl_phiP wnaf1 wnaf2 r)"

definition shamir_2stream_glv52 :: "aff52 list \<Rightarrow> aff52 list \<Rightarrow> u32 list \<Rightarrow> nat \<Rightarrow> u32 list \<Rightarrow> nat \<Rightarrow> jac52" where
  "shamir_2stream_glv52 tbl_P tbl_phiP wnaf1 wnaf1_len wnaf2 wnaf2_len =
     (let max_len = (if wnaf1_len > wnaf2_len then wnaf1_len else wnaf2_len)
      in shamir_loop max_len tbl_P tbl_phiP wnaf1 wnaf2 jac52_infinity)"

section \<open>What the co-Z formulas compute\<close>

text \<open>
  The doubling keeps the point itself on the new \<open>Z = 2 y z^4\<close>.
\<close>

lemma jac52_dblu_rep:
  assumes X: "rep52 8 287 (x * z ^ 2) X" and Y: "rep52 4 159 (y * z ^ 3) Y" and Z: "rep52 1 33 z Z"
    and s: "s * (2 * y) = 3 * x ^ 2" and k: "k = 2 * y * z ^ 4"
    and r: "jac52_dblu X Y Z = (X2, Y2, D, E8, Z3)"
  shows "rep52 1 32 ((s ^ 2 - 2 * x) * k ^ 2) X2" "rep52 1 32 ((s * (x - (s ^ 2 - 2 * x)) - y) * k ^ 3) Y2"
    "rep52 1 32 (x * k ^ 2) D" "rep52 1 32 (y * k ^ 3) E8" "rep52 1 32 k Z3"
proof -
  define A where "A = fe52_square X"
  define B where "B = fe52_square Y"
  define C where "C = fe52_square B"
  define t where "t = fe52_add (fe52_add (fe52_square (fe52_add X B)) (fe52_negate 1 A)) (fe52_negate 1 C)"
  define D' where "D' = fe52_add t t"
  define E where "E = fe52_mul_int 3 A"
  define X2' where "X2' = fe52_add (fe52_square E) (fe52_negate 20 (fe52_add D' D'))"
  define C8 where "C8 = fe52_mul_int 8 C"
  define Y2' where "Y2' = fe52_add (fe52_mul E (fe52_add D' (fe52_negate 22 X2'))) (fe52_negate 8 C8)"
  define Z' where "Z' = fe52_mul (fe52_add Y Y) Z"
  have v: "X2 = fe52_normalize_weak X2'" "Y2 = fe52_normalize_weak Y2'" "D = fe52_normalize_weak D'" "E8 = fe52_normalize_weak C8" "Z3 = fe52_normalize_weak Z'"
    using r unfolding jac52_dblu_def Let_def A_def [symmetric] B_def [symmetric] C_def [symmetric] t_def [symmetric] D'_def [symmetric] E_def [symmetric]
      X2'_def [symmetric] C8_def [symmetric] Y2'_def [symmetric] Z'_def [symmetric] by simp_all
  note ex = fp_poly eval_nat_numeral
  have A: "rep52 1 33 (x ^ 2 * z ^ 4) A" unfolding A_def by (rule rep52_eq [OF rep52_square [OF X]]) (simp_all add: ex)
  have B: "rep52 1 33 (y ^ 2 * z ^ 6) B" unfolding B_def by (rule rep52_eq [OF rep52_square [OF Y]]) (simp_all add: ex)
  have C: "rep52 1 33 (y ^ 4 * z ^ 12) C" unfolding C_def by (rule rep52_eq [OF rep52_square [OF B]]) (simp_all add: ex)
  have "rep52 9 320 (x * z ^ 2 + y ^ 2 * z ^ 6) (fe52_add X B)" using rep52_add [OF X B] by simp
  then have "rep52 1 33 ((x * z ^ 2 + y ^ 2 * z ^ 6) * (x * z ^ 2 + y ^ 2 * z ^ 6)) (fe52_square (fe52_add X B))" by (rule rep52_square) simp_all
  moreover have "rep52 2 64 (- (x ^ 2 * z ^ 4)) (fe52_negate 1 A)" "rep52 2 64 (- (y ^ 4 * z ^ 12)) (fe52_negate 1 C)"
    using rep52_negate [OF A, of 1] rep52_negate [OF C, of 1] by simp_all
  ultimately have "rep52 5 161 ((x * z ^ 2 + y ^ 2 * z ^ 6) * (x * z ^ 2 + y ^ 2 * z ^ 6) + - (x ^ 2 * z ^ 4) + - (y ^ 4 * z ^ 12)) t"
    unfolding t_def using rep52_add [OF rep52_add] by fastforce
  then have t: "rep52 5 161 (2 * x * y ^ 2 * z ^ 8) t" by (rule rep52_eq) (simp add: ex)
  from rep52_add [OF this this] have "rep52 10 322 (2 * x * y ^ 2 * z ^ 8 + 2 * x * y ^ 2 * z ^ 8) D'" by (simp add: D'_def)
  then have D: "rep52 10 322 (x * k ^ 2) D'" by (rule rep52_eq) (simp add: k ex)
  have "3 * (x ^ 2 * z ^ 4) = s * k" unfolding k using arg_cong [OF s, of "\<lambda>a. a * z ^ 4"] by (simp add: ac_simps)
  with rep52_mul_int [OF A, of 3] have E: "rep52 3 99 (s * k) E" by (simp add: E_def)
  have "rep52 20 644 (x * k ^ 2 + x * k ^ 2) (fe52_add D' D')" using rep52_add [OF D D] by simp
  then have "rep52 21 672 (- (x * k ^ 2 + x * k ^ 2)) (fe52_negate 20 (fe52_add D' D'))" using rep52_negate [of 20 644 _ _ 20] by simp
  moreover have "rep52 1 33 (s * k * (s * k)) (fe52_square E)" by (rule rep52_square [OF E]) simp_all
  ultimately have "rep52 22 705 (s * k * (s * k) + - (x * k ^ 2 + x * k ^ 2)) X2'" unfolding X2'_def using rep52_add by fastforce
  then have X2: "rep52 22 705 ((s ^ 2 - 2 * x) * k ^ 2) X2'" by (rule rep52_eq) (simp add: fp_poly)
  have "rep52 23 736 (- ((s ^ 2 - 2 * x) * k ^ 2)) (fe52_negate 22 X2')" using rep52_negate [OF X2, of 22] by simp
  from rep52_add [OF D this] have "rep52 33 1058 (x * k ^ 2 + - ((s ^ 2 - 2 * x) * k ^ 2)) (fe52_add D' (fe52_negate 22 X2'))" by simp
  from rep52_mul_wide [OF E this] have m: "rep52 1 33 (s * k * (x * k ^ 2 + - ((s ^ 2 - 2 * x) * k ^ 2))) (fe52_mul E (fe52_add D' (fe52_negate 22 X2')))" by simp
  have "rep52 8 264 (8 * (y ^ 4 * z ^ 12)) C8" using rep52_mul_int [OF C, of 8] by (simp add: C8_def)
  then have C8: "rep52 8 264 (y * k ^ 3) C8" by (rule rep52_eq) (simp add: k ex)
  have "rep52 9 288 (- (y * k ^ 3)) (fe52_negate 8 C8)" using rep52_negate [OF C8, of 8] by simp
  from rep52_add [OF m this] have "rep52 10 321 (s * k * (x * k ^ 2 + - ((s ^ 2 - 2 * x) * k ^ 2)) + - (y * k ^ 3)) Y2'" by (simp add: Y2'_def)
  then have Y2: "rep52 10 321 ((s * (x - (s ^ 2 - 2 * x)) - y) * k ^ 3) Y2'" by (rule rep52_eq) (simp add: fp_poly)
  have "rep52 8 318 (y * z ^ 3 + y * z ^ 3) (fe52_add Y Y)" using rep52_add [OF Y Y] by simp
  from rep52_mul [OF this Z] have "rep52 1 33 ((y * z ^ 3 + y * z ^ 3) * z) Z'" by (simp add: Z'_def)
  then have Z': "rep52 1 33 k Z'" by (rule rep52_eq) (simp add: k ex)
  show "rep52 1 32 ((s ^ 2 - 2 * x) * k ^ 2) X2" "rep52 1 32 ((s * (x - (s ^ 2 - 2 * x)) - y) * k ^ 3) Y2"
    "rep52 1 32 (x * k ^ 2) D" "rep52 1 32 (y * k ^ 3) E8" "rep52 1 32 k Z3"
    unfolding v by (rule rep52_normalize_weak [OF X2] rep52_normalize_weak [OF Y2] rep52_normalize_weak [OF D] rep52_normalize_weak [OF C8] rep52_normalize_weak [OF Z']; simp)+
qed

text \<open>The addition of two points with the same \<open>z\<close>: sum and first operand on \<open>z d z^2\<close>, \<open>d\<close> the difference of the abscissas.\<close>

lemma jac52_zaddu_zr_rep:
  assumes x1: "rep52 1 33 (x1 * z ^ 2) X1" and y1: "rep52 1 33 (y1 * z ^ 3) Y1" and x2: "rep52 5 161 (x2 * z ^ 2) X2" and y2: "rep52 3 97 (y2 * z ^ 3) Y2"
    and Z: "rep52 1 33 z Z" and u: "fp_unit z"
  shows "jac52_zaddu_zr X1 Y1 X2 Y2 Z = None \<longleftrightarrow> x2 = x1"
    "jac52_zaddu_zr X1 Y1 X2 Y2 Z = Some (X1', Y1', Z', SX, SY, ZR) \<Longrightarrow> s * (x2 - x1) = y2 - y1 \<Longrightarrow> k = z * ((x2 - x1) * z ^ 2) \<Longrightarrow>
      rep52 1 33 (x1 * k ^ 2) X1' \<and> rep52 1 33 (y1 * k ^ 3) Y1' \<and> rep52 1 33 k Z' \<and> rep52 14 449 ((x2 - x1) * z ^ 2) ZR \<and>
      rep52 5 161 ((s ^ 2 - x1 - x2) * k ^ 2) SX \<and> rep52 3 97 ((s * (x1 - (s ^ 2 - x1 - x2)) - y1) * k ^ 3) SY"
proof -
  define dx where "dx = fe52_add X2 (fe52_negate 8 X1)"
  define dy where "dy = fe52_add Y2 (fe52_negate 8 Y1)"
  have "rep52 9 288 (- (x1 * z ^ 2)) (fe52_negate 8 X1)" "rep52 9 288 (- (y1 * z ^ 3)) (fe52_negate 8 Y1)"
    using rep52_negate [OF x1, of 8] rep52_negate [OF y1, of 8] by simp_all
  from rep52_add [OF x2 this(1)] rep52_add [OF y2 this(2)]
  have "rep52 14 449 (x2 * z ^ 2 + - (x1 * z ^ 2)) dx" "rep52 12 385 (y2 * z ^ 3 + - (y1 * z ^ 3)) dy" by (simp_all add: dx_def dy_def)
  then have dx: "rep52 14 449 ((x2 - x1) * z ^ 2) dx" and dy: "rep52 12 385 ((y2 - y1) * z ^ 3) dy"
    by (auto elim!: rep52_eq simp: left_diff_distrib)
  have "fp_unit (z ^ 2)" using u by blast
  then have z: "fe52_normalizes_to_zero_var dx \<longleftrightarrow> x2 = x1" using rep52_zero_var [OF dx] by (simp add: fp_mult_zero)
  show "jac52_zaddu_zr X1 Y1 X2 Y2 Z = None \<longleftrightarrow> x2 = x1"
    unfolding jac52_zaddu_zr_def Let_def dx_def [symmetric] z by simp
  assume r: "jac52_zaddu_zr X1 Y1 X2 Y2 Z = Some (X1', Y1', Z', SX, SY, ZR)" and s: "s * (x2 - x1) = y2 - y1" and k: "k = z * ((x2 - x1) * z ^ 2)"
  define A where "A = fe52_square dx"
  define B where "B = fe52_mul X1 A"
  define C where "C = fe52_mul X2 A"
  define R where "R = fe52_add (fe52_add (fe52_square dy) (fe52_negate 1 B)) (fe52_negate 1 C)"
  define W where "W = fe52_mul Y1 (fe52_add C (fe52_negate 1 B))"
  have v: "X1' = B" "Y1' = W" "Z' = fe52_mul Z dx" "SX = R" "SY = fe52_add (fe52_mul dy (fe52_add B (fe52_negate 5 R))) (fe52_negate 1 W)" "ZR = dx"
    using r unfolding jac52_zaddu_zr_def Let_def dx_def [symmetric] dy_def [symmetric] A_def [symmetric] B_def [symmetric] C_def [symmetric] R_def [symmetric] W_def [symmetric]
    by (auto split: if_splits)
  define d where "d = x2 - x1"
  have e: "x2 = x1 + d" "y2 = y1 + s * d" "k = d * z ^ 3" using s by (simp_all add: d_def k power3_eq_cube power2_eq_square ac_simps)
  have dx': "rep52 14 449 (d * z ^ 2) dx" and dy': "rep52 12 385 (s * d * z ^ 3) dy" using dx dy by (simp_all add: d_def s)
  have A: "rep52 1 33 (d * z ^ 2 * (d * z ^ 2)) A" unfolding A_def by (rule rep52_square [OF dx']) simp_all
  have "rep52 1 33 (x1 * z ^ 2 * (d * z ^ 2 * (d * z ^ 2))) B" unfolding B_def by (rule rep52_mul [OF x1 A]) simp_all
  then have B: "rep52 1 33 (x1 * k ^ 2) B" by (rule rep52_eq) (simp add: e(3) fp_poly)
  have "rep52 1 33 (x2 * z ^ 2 * (d * z ^ 2 * (d * z ^ 2))) C" unfolding C_def by (rule rep52_mul [OF x2 A]) simp_all
  then have C: "rep52 1 33 (x2 * k ^ 2) C" by (rule rep52_eq) (simp add: e(3) fp_poly)
  have n: "rep52 2 64 (- (x1 * k ^ 2)) (fe52_negate 1 B)" "rep52 2 64 (- (x2 * k ^ 2)) (fe52_negate 1 C)"
    using rep52_negate [OF B, of 1] rep52_negate [OF C, of 1] by simp_all
  have "rep52 1 33 (s * d * z ^ 3 * (s * d * z ^ 3)) (fe52_square dy)" by (rule rep52_square [OF dy']) simp_all
  from rep52_add [OF rep52_add [OF this n(1)] n(2)]
  have "rep52 5 161 (s * d * z ^ 3 * (s * d * z ^ 3) + - (x1 * k ^ 2) + - (x2 * k ^ 2)) R" by (simp add: R_def)
  then have R: "rep52 5 161 ((s ^ 2 - x1 - x2) * k ^ 2) R" by (rule rep52_eq) (simp add: e(3) fp_poly)
  have "rep52 3 97 (x2 * k ^ 2 + - (x1 * k ^ 2)) (fe52_add C (fe52_negate 1 B))" using rep52_add [OF C n(1)] by simp
  from rep52_mul [OF y1 this] have "rep52 1 33 (y1 * z ^ 3 * (x2 * k ^ 2 + - (x1 * k ^ 2))) W" by (simp add: W_def)
  then have W: "rep52 1 33 (y1 * k ^ 3) W" by (rule rep52_eq) (simp add: e(1,3) fp_poly)
  have "rep52 6 192 (- ((s ^ 2 - x1 - x2) * k ^ 2)) (fe52_negate 5 R)" using rep52_negate [OF R, of 5] by simp
  from rep52_add [OF B this] have "rep52 7 225 (x1 * k ^ 2 + - ((s ^ 2 - x1 - x2) * k ^ 2)) (fe52_add B (fe52_negate 5 R))" by simp
  from rep52_mul [OF dy' this] have "rep52 1 33 (s * d * z ^ 3 * (x1 * k ^ 2 + - ((s ^ 2 - x1 - x2) * k ^ 2))) (fe52_mul dy (fe52_add B (fe52_negate 5 R)))" by simp
  moreover have "rep52 2 64 (- (y1 * k ^ 3)) (fe52_negate 1 W)" using rep52_negate [OF W, of 1] by simp
  ultimately have "rep52 3 97 (s * d * z ^ 3 * (x1 * k ^ 2 + - ((s ^ 2 - x1 - x2) * k ^ 2)) + - (y1 * k ^ 3)) SY"
    unfolding v using rep52_add by fastforce
  then have SY: "rep52 3 97 ((s * (x1 - (s ^ 2 - x1 - x2)) - y1) * k ^ 3) SY" by (rule rep52_eq) (simp add: e(3) fp_poly)
  have "rep52 1 33 (z * (d * z ^ 2)) Z'" unfolding v by (rule rep52_mul [OF Z dx']) simp_all
  then have "rep52 1 33 k Z'" by (rule rep52_eq) (simp add: e(3) fp_poly)
  with B W R SY dx show "rep52 1 33 (x1 * k ^ 2) X1' \<and> rep52 1 33 (y1 * k ^ 3) Y1' \<and> rep52 1 33 k Z' \<and> rep52 14 449 ((x2 - x1) * z ^ 2) ZR \<and>
      rep52 5 161 ((s ^ 2 - x1 - x2) * k ^ 2) SX \<and> rep52 3 97 ((s * (x1 - (s ^ 2 - x1 - x2)) - y1) * k ^ 3) SY"
    by (simp add: v)
qed

section \<open>The isomorphic curve\<close>

text \<open>
  Scaling the coordinates by \<open>c^2\<close> and \<open>c^3\<close> keeps sums: the addition formulas do not use the constant of the curve.
\<close>

fun scale_point :: "fp \<Rightarrow> curve_point \<Rightarrow> curve_point" where
  "scale_point c Infinity = Infinity"
| "scale_point c (Affine x y) = Affine (x * c ^ 2) (y * c ^ 3)"

lemma scale_point_Infinity_iff [simp]: "scale_point c P = Infinity \<longleftrightarrow> P = Infinity"
  by (cases P) simp_all

lemma ec_add_scale:
  assumes c: "c * c' = 1" and "ec_add P Q R"
  shows "ec_add (scale_point c P) (scale_point c Q) (scale_point c R)"
  using assms(2)
proof (induction rule: ec_add.induct)
  case (opposite y x)
  have "fp_unit (c ^ 3)" using c by (intro fp_unit_power) (auto simp: fp_unit_def)
  then have "y * c ^ 3 \<noteq> - (y * c ^ 3)" using opposite fp_unit_cancel [of "c ^ 3" y "- y"] by (simp add: mult.commute)
  then show ?case using ec_add.opposite [of "y * c ^ 3" "x * c ^ 2"] by simp
next
  case (chord x2 x1 w s y2 y1 x3)
  have c2: "c ^ 2 * c' ^ 2 = 1" using c by (simp add: power_mult_distrib [symmetric])
  have "ec_add (Affine (x1 * c ^ 2) (y1 * c ^ 3)) (Affine (x2 * c ^ 2) (y2 * c ^ 3))
      (Affine (x3 * c ^ 2) ((s * c) * (x1 * c ^ 2 - x3 * c ^ 2) - y1 * c ^ 3))"
  proof (rule ec_add.chord)
    have "(x2 * c ^ 2 - x1 * c ^ 2) * (w * c' ^ 2) = ((x2 - x1) * w) * (c ^ 2 * c' ^ 2)" by (simp add: algebra_simps)
    then show "(x2 * c ^ 2 - x1 * c ^ 2) * (w * c' ^ 2) = 1" using chord(1) c2 by simp
    have "(y2 * c ^ 3 - y1 * c ^ 3) * (w * c' ^ 2) = ((y2 - y1) * w) * c * (c ^ 2 * c' ^ 2)" by (simp add: fp_poly)
    then show "s * c = (y2 * c ^ 3 - y1 * c ^ 3) * (w * c' ^ 2)" using chord(2) c2 by simp
    show "x3 * c ^ 2 = (s * c) ^ 2 - x1 * c ^ 2 - x2 * c ^ 2" unfolding chord(3) by (simp add: fp_poly)
  qed
  then show ?case by (simp add: fp_poly)
next
  case (tangent y w s x x3)
  have c3: "c ^ 3 * c' ^ 3 = 1" using c by (simp add: power_mult_distrib [symmetric])
  have "ec_add (Affine (x * c ^ 2) (y * c ^ 3)) (Affine (x * c ^ 2) (y * c ^ 3))
      (Affine (x3 * c ^ 2) ((s * c) * (x * c ^ 2 - x3 * c ^ 2) - y * c ^ 3))"
  proof (rule ec_add.tangent)
    have "2 * (y * c ^ 3) * (w * c' ^ 3) = (2 * y * w) * (c ^ 3 * c' ^ 3)" by (simp add: algebra_simps)
    then show "2 * (y * c ^ 3) * (w * c' ^ 3) = 1" using tangent(1) c3 by simp
    have "3 * (x * c ^ 2) ^ 2 * (w * c' ^ 3) = (3 * x ^ 2 * w) * c * (c ^ 3 * c' ^ 3)" by (simp add: fp_poly)
    then show "s * c = 3 * (x * c ^ 2) ^ 2 * (w * c' ^ 3)" using tangent(2) c3 by simp
    show "x3 * c ^ 2 = (s * c) ^ 2 - 2 * (x * c ^ 2)" unfolding tangent(3) by (simp add: fp_poly)
  qed
  then show ?case by (simp add: fp_poly)
qed (simp_all add: ec_add.left ec_add.right)

text \<open>A table entry: an affine point at magnitude one.\<close>

fun tbl_rep :: "aff52 \<Rightarrow> curve_point \<Rightarrow> bool" where
  "tbl_rep q Infinity \<longleftrightarrow> False"
| "tbl_rep q (Affine x y) \<longleftrightarrow> rep52 1 33 x (ax q) \<and> rep52 1 33 y (ay q)"

section \<open>The table holds the chain\<close>

text \<open>
  Entry \<open>i\<close> of the chain has the coordinates \<open>(mx i, my i)\<close>; the forward loop leaves it on the scale \<open>zr_scale i\<close>.
\<close>

fun zr_scale :: "fp \<Rightarrow> (nat \<Rightarrow> fp) \<Rightarrow> fp \<Rightarrow> nat \<Rightarrow> fp" where
  "zr_scale xd mx k0 0 = k0"
| "zr_scale xd mx k0 (Suc i) = zr_scale xd mx k0 i * ((mx i - xd) * zr_scale xd mx k0 i ^ 2)"

definition loop_inv :: "fp \<Rightarrow> (nat \<Rightarrow> fp) \<Rightarrow> (nat \<Rightarrow> fp) \<Rightarrow> fp \<Rightarrow> nat \<Rightarrow> aff52 list \<Rightarrow> fe52 list \<Rightarrow> bool" where
  "loop_inv xd mx my k0 i tbl zr \<longleftrightarrow> length tbl = Suc i \<and> length zr = Suc i \<and>
     (\<forall>j\<le>i. rep52 5 161 (mx j * zr_scale xd mx k0 j ^ 2) (ax (tbl ! j)) \<and> rep52 3 97 (my j * zr_scale xd mx k0 j ^ 3) (ay (tbl ! j))) \<and>
     (\<forall>j<i. rep52 14 449 ((mx j - xd) * zr_scale xd mx k0 j ^ 2) (zr ! Suc j))"

lemma loop_inv_step:
  assumes "loop_inv xd mx my k0 i tbl zr"
    "rep52 5 161 (mx (Suc i) * zr_scale xd mx k0 (Suc i) ^ 2) X" "rep52 3 97 (my (Suc i) * zr_scale xd mx k0 (Suc i) ^ 3) Y"
    "rep52 14 449 ((mx i - xd) * zr_scale xd mx k0 i ^ 2) r"
  shows "loop_inv xd mx my k0 (Suc i) (tbl @ [\<lparr>ax = X, ay = Y\<rparr>]) (zr @ [r])"
  using assms unfolding loop_inv_def by (auto simp: nth_append le_Suc_eq less_Suc_eq simp del: zr_scale.simps(2))

definition chord_step :: "fp \<Rightarrow> fp \<Rightarrow> fp \<Rightarrow> fp \<Rightarrow> fp \<Rightarrow> fp \<Rightarrow> bool" where
  "chord_step xd yd x y x' y' \<longleftrightarrow> (\<exists>w s. (x - xd) * w = 1 \<and> s * (x - xd) = y - yd \<and> x' = s ^ 2 - xd - x \<and> y' = s * (xd - x') - yd)"

lemma chord_stepI: "ec_add (Affine xd yd) (Affine x y) (Affine x' y') \<Longrightarrow> x \<noteq> xd \<Longrightarrow> chord_step xd yd x y x' y'"
  by (erule ec_add_affineE) (auto simp: chord_step_def)

lemma zr_loop_rep:
  assumes "\<And>j. i \<le> j \<Longrightarrow> j < i + n \<Longrightarrow> chord_step xd yd (mx j) (my j) (mx (Suc j)) (my (Suc j))"
    and "loop_inv xd mx my k0 i tbl zr" and "fp_unit (zr_scale xd mx k0 i)"
    and "rep52 1 33 (xd * zr_scale xd mx k0 i ^ 2) dX" "rep52 1 33 (yd * zr_scale xd mx k0 i ^ 3) dY"
    and "rep52 5 161 (mx i * zr_scale xd mx k0 i ^ 2) aX" "rep52 3 97 (my i * zr_scale xd mx k0 i ^ 3) aY"
    and "rep52 1 33 (zr_scale xd mx k0 i) Z"
  shows "\<exists>tbl' zr' Z'. zr_loop n (dX, dY) (aX, aY) Z tbl zr = Some (tbl', zr', Z') \<and> loop_inv xd mx my k0 (i + n) tbl' zr' \<and>
    rep52 1 33 (zr_scale xd mx k0 (i + n)) Z' \<and> fp_unit (zr_scale xd mx k0 (i + n))"
  using assms
proof (induction n arbitrary: i tbl zr dX dY aX aY Z)
  case (Suc n)
  let ?k = "zr_scale xd mx k0"
  from Suc.prems(1) [of i] obtain w s where c: "(mx i - xd) * w = 1" "s * (mx i - xd) = my i - yd" "mx (Suc i) = s ^ 2 - xd - mx i"
    "my (Suc i) = s * (xd - mx (Suc i)) - yd" by (auto simp: chord_step_def)
  have d: "fp_unit (mx i - xd)" using c(1) by (auto simp: fp_unit_def)
  have ne: "mx i \<noteq> xd" using fp_unit_nonzero [OF d] by auto
  note za = jac52_zaddu_zr_rep [OF Suc.prems(4,5,6,7,8,3)]
  from za(1) ne obtain X1 Y1 Z' SX SY r where e: "jac52_zaddu_zr dX dY aX aY Z = Some (X1, Y1, Z', SX, SY, r)"
    by (cases "jac52_zaddu_zr dX dY aX aY Z") auto
  from za(2) [OF e c(2) zr_scale.simps(2) [of xd mx k0 i]]
  have v: "rep52 1 33 (xd * ?k (Suc i) ^ 2) X1" "rep52 1 33 (yd * ?k (Suc i) ^ 3) Y1" "rep52 1 33 (?k (Suc i)) Z'" "rep52 14 449 ((mx i - xd) * ?k i ^ 2) r"
    "rep52 5 161 (mx (Suc i) * ?k (Suc i) ^ 2) SX" "rep52 3 97 (my (Suc i) * ?k (Suc i) ^ 3) SY"
    unfolding c(4) c(3) by blast+
  have u: "fp_unit (?k (Suc i))" unfolding zr_scale.simps using Suc.prems(3) d by blast
  have "\<exists>tbl' zr' Z''. zr_loop n (X1, Y1) (SX, SY) Z' (tbl @ [\<lparr>ax = SX, ay = SY\<rparr>]) (zr @ [r]) = Some (tbl', zr', Z'') \<and>
      loop_inv xd mx my k0 (Suc i + n) tbl' zr' \<and> rep52 1 33 (?k (Suc i + n)) Z'' \<and> fp_unit (?k (Suc i + n))"
    by (rule Suc.IH [OF _ loop_inv_step [OF Suc.prems(2) v(5,6,4)] u v(1,2,5,6,3)]) (use Suc.prems(1) in simp)
  then show ?case by (simp add: e del: zr_scale.simps(2))
qed simp

text \<open>The sweep multiplies entry \<open>j\<close> by the powers of what separates its scale from the last one.\<close>

lemma zr_sweep_rep:
  fixes xd k0 :: fp and mx my :: "nat \<Rightarrow> fp"
  defines "k \<equiv> zr_scale xd mx k0"
  assumes n: "Suc idx \<le> n" and l: "length tbl = n"
    and zr: "\<And>j. Suc j < n \<Longrightarrow> rep52 14 449 ((mx j - xd) * k j ^ 2) (zr ! Suc j)"
    and lo: "\<And>j. j < idx \<Longrightarrow> rep52 5 161 (mx j * k j ^ 2) (ax (tbl ! j)) \<and> rep52 3 97 (my j * k j ^ 3) (ay (tbl ! j))"
    and hi: "\<And>j. idx \<le> j \<Longrightarrow> Suc j < n \<Longrightarrow> rep52 1 33 (mx j * k (n - 1) ^ 2) (ax (tbl ! j)) \<and> rep52 1 33 (my j * k (n - 1) ^ 3) (ay (tbl ! j))"
    and zs: "0 < idx \<Longrightarrow> rep52 14 449 v zs \<and> (if idx = n - 1 then k (idx - 1) * v = k (n - 1) else k idx * v = k (n - 1))"
  shows "length (zr_sweep n idx zr zs tbl) = n \<and> zr_sweep n idx zr zs tbl ! (n - 1) = tbl ! (n - 1) \<and>
    (\<forall>j. Suc j < n \<longrightarrow> rep52 1 33 (mx j * k (n - 1) ^ 2) (ax (zr_sweep n idx zr zs tbl ! j)) \<and> rep52 1 33 (my j * k (n - 1) ^ 3) (ay (zr_sweep n idx zr zs tbl ! j)))"
  using n l lo hi zs
proof (induction idx arbitrary: tbl zs v)
  case (Suc idx)
  define zs' where "zs' = (if idx \<noteq> n - 2 then fe52_mul zs (zr ! (idx + 1)) else zs)"
  define v' where "v' = (if idx \<noteq> n - 2 then v * ((mx idx - xd) * k idx ^ 2) else v)"
  have k: "k (Suc i) = k i * ((mx i - xd) * k i ^ 2)" for i by (simp add: k_def)
  from Suc.prems(5) have zv: "rep52 14 449 v zs" "if Suc idx = n - 1 then k idx * v = k (n - 1) else k (Suc idx) * v = k (n - 1)"
    using Suc.prems(5) [OF zero_less_Suc, unfolded diff_Suc_1] by blast+
  have z': "rep52 14 449 v' zs'"
  proof (cases "idx = n - 2")
    case False
    have "rep52 1 33 (v * ((mx idx - xd) * k idx ^ 2)) (fe52_mul zs (zr ! Suc idx))"
      using rep52_mul [OF zv(1) zr [of idx]] Suc.prems(1) by simp
    then show ?thesis using False by (simp add: zs'_def v'_def rep52_mono)
  qed (use zv in \<open>simp add: zs'_def v'_def\<close>)
  have kv: "k idx * v' = k (n - 1)"
  proof (cases "idx = n - 2")
    case True
    then have "Suc idx = n - 1" using Suc.prems(1) by simp
    then show ?thesis using zv(2) True by (simp add: v'_def)
  next
    case False
    then have "Suc idx \<noteq> n - 1" using Suc.prems(1) by auto
    then show ?thesis using zv(2) False by (simp add: v'_def k ac_simps)
  qed
  have z2: "rep52 1 33 (v' * v') (fe52_square zs')" by (rule rep52_square [OF z']) simp_all
  have z3: "rep52 1 33 (v' * v' * v') (fe52_mul (fe52_square zs') zs')" by (rule rep52_mul [OF z2 z']) simp_all
  define e where "e = \<lparr>ax = fe52_mul (ax (tbl ! idx)) (fe52_square zs'), ay = fe52_mul (ay (tbl ! idx)) (fe52_mul (fe52_square zs') zs')\<rparr>"
  from Suc.prems(3) [of idx] have en: "rep52 5 161 (mx idx * k idx ^ 2) (ax (tbl ! idx))" "rep52 3 97 (my idx * k idx ^ 3) (ay (tbl ! idx))" by simp_all
  have "rep52 1 33 (mx idx * k idx ^ 2 * (v' * v')) (ax e)" "rep52 1 33 (my idx * k idx ^ 3 * (v' * v' * v')) (ay e)"
    unfolding e_def using rep52_mul [OF en(1) z2] rep52_mul [OF en(2) z3] by simp_all
  then have ee: "rep52 1 33 (mx idx * k (n - 1) ^ 2) (ax e)" "rep52 1 33 (my idx * k (n - 1) ^ 3) (ay e)"
    unfolding kv [symmetric] by (simp_all add: power2_eq_square power3_eq_cube ac_simps)
  have il: "idx < n - 1" using Suc.prems(1) by simp
  have "length (zr_sweep n idx zr zs' (tbl[idx := e])) = n \<and> zr_sweep n idx zr zs' (tbl[idx := e]) ! (n - 1) = tbl[idx := e] ! (n - 1) \<and>
      (\<forall>j. Suc j < n \<longrightarrow> rep52 1 33 (mx j * k (n - 1) ^ 2) (ax (zr_sweep n idx zr zs' (tbl[idx := e]) ! j)) \<and>
        rep52 1 33 (my j * k (n - 1) ^ 3) (ay (zr_sweep n idx zr zs' (tbl[idx := e]) ! j)))"
  proof (rule Suc.IH)
    show "Suc idx \<le> n" "length (tbl[idx := e]) = n" using Suc.prems(1,2) by simp_all
    show "rep52 5 161 (mx j * k j ^ 2) (ax (tbl[idx := e] ! j)) \<and> rep52 3 97 (my j * k j ^ 3) (ay (tbl[idx := e] ! j))" if j: "j < idx" for j
      using Suc.prems(3) [of j] j by simp
    show "rep52 1 33 (mx j * k (n - 1) ^ 2) (ax (tbl[idx := e] ! j)) \<and> rep52 1 33 (my j * k (n - 1) ^ 3) (ay (tbl[idx := e] ! j))" if j: "idx \<le> j" "Suc j < n" for j
      using Suc.prems(2) Suc.prems(4) [of j] j ee by (cases "j = idx") simp_all
    show "rep52 14 449 v' zs' \<and> (if idx = n - 1 then k (idx - 1) * v' = k (n - 1) else k idx * v' = k (n - 1))"
      using z' kv il by simp
  qed
  then show ?case using il unfolding zr_sweep.simps Let_def zs'_def [symmetric] e_def [symmetric] by simp
qed auto

text \<open>The whole table.\<close>

lemma build_glv52_table_zr_rep:
  assumes p: "fp_unit z" "rep52 8 287 (x * z ^ 2) (jx p)" "rep52 4 159 (y * z ^ 3) (jy p)" "rep52 1 33 z (jz p)"
    and y: "fp_unit y" and s: "s * (2 * y) = 3 * x ^ 2" and xd: "xd = s ^ 2 - 2 * x" and yd: "yd = s * (x - xd) - y"
    and m0: "mx 0 = x" "my 0 = y" and n: "0 < n"
    and chain: "\<And>j. Suc j < n \<Longrightarrow> chord_step xd yd (mx j) (my j) (mx (Suc j)) (my (Suc j))"
  shows "\<exists>tbl gz K. build_glv52_table_zr p n = Some (tbl, gz) \<and> length tbl = n \<and> rep52 1 33 K gz \<and> fp_unit K \<and>
    (\<forall>j<n. rep52 1 33 (mx j * K ^ 2) (ax (tbl ! j)) \<and> rep52 1 33 (my j * K ^ 3) (ay (tbl ! j)))"
proof -
  define k0 where "k0 = 2 * y * z ^ 4"
  define k where "k = zr_scale xd mx k0"
  have k00: "zr_scale xd mx k0 0 = k0" by simp
  obtain dX dY aX aY Z where d: "jac52_dblu (jx p) (jy p) (jz p) = (dX, dY, aX, aY, Z)" by (metis prod_cases5)
  note db = jac52_dblu_rep [OF p(2-4) s k0_def d]
  have u: "fp_unit k0" unfolding k0_def using y p(1) by blast
  have inv0: "loop_inv xd mx my k0 0 [\<lparr>ax = aX, ay = aY\<rparr>] [fe52_one]"
    unfolding loop_inv_def using rep52_mono [OF db(3)] rep52_mono [OF db(4)] by (simp add: m0)
  have "\<exists>tbl' zr' Z'. zr_loop (n - 1) (dX, dY) (aX, aY) Z [\<lparr>ax = aX, ay = aY\<rparr>] [fe52_one] = Some (tbl', zr', Z') \<and> loop_inv xd mx my k0 (0 + (n - 1)) tbl' zr' \<and>
      rep52 1 33 (zr_scale xd mx k0 (0 + (n - 1))) Z' \<and> fp_unit (zr_scale xd mx k0 (0 + (n - 1)))"
  proof (rule zr_loop_rep [OF _ inv0])
    show "chord_step xd yd (mx j) (my j) (mx (Suc j)) (my (Suc j))" if "j < 0 + (n - 1)" for j using that chain [of j] by simp
    show "fp_unit (zr_scale xd mx k0 0)" using u by simp
    show "rep52 1 33 (xd * zr_scale xd mx k0 0 ^ 2) dX" "rep52 1 33 (yd * zr_scale xd mx k0 0 ^ 3) dY"
      unfolding k00 by (rule rep52_mono [OF db(1) [folded xd]] rep52_mono [OF db(2) [folded xd, folded yd]]; simp)+
    show "rep52 5 161 (mx 0 * zr_scale xd mx k0 0 ^ 2) aX" "rep52 3 97 (my 0 * zr_scale xd mx k0 0 ^ 3) aY"
      unfolding k00 m0 by (rule rep52_mono [OF db(3)] rep52_mono [OF db(4)]; simp)+
    show "rep52 1 33 (zr_scale xd mx k0 0) Z" unfolding k00 by (rule rep52_mono [OF db(5)]) simp_all
  qed
  then obtain tbl zr Z' where l: "zr_loop (n - 1) (dX, dY) (aX, aY) Z [\<lparr>ax = aX, ay = aY\<rparr>] [fe52_one] = Some (tbl, zr, Z')"
    "loop_inv xd mx my k0 (n - 1) tbl zr" "rep52 1 33 (k (n - 1)) Z'" "fp_unit (k (n - 1))" unfolding k_def by auto
  have len: "length tbl = n" using l(2) n by (simp add: loop_inv_def)
  have lo: "rep52 5 161 (mx j * k j ^ 2) (ax (tbl ! j)) \<and> rep52 3 97 (my j * k j ^ 3) (ay (tbl ! j))" if "j \<le> n - 1" for j
    using l(2) that by (simp add: loop_inv_def k_def)
  have zr: "rep52 14 449 ((mx j - xd) * k j ^ 2) (zr ! Suc j)" if "Suc j < n" for j
    using l(2) that by (simp add: loop_inv_def k_def)
  define tbl2 where "tbl2 = zr_sweep n (n - 1) zr (zr ! (n - 1)) tbl"
  have sw: "length tbl2 = n \<and> tbl2 ! (n - 1) = tbl ! (n - 1) \<and>
    (\<forall>j. Suc j < n \<longrightarrow> rep52 1 33 (mx j * k (n - 1) ^ 2) (ax (tbl2 ! j)) \<and> rep52 1 33 (my j * k (n - 1) ^ 3) (ay (tbl2 ! j)))"
    unfolding tbl2_def k_def
  proof (rule zr_sweep_rep [where v = "(mx (n - 2) - xd) * k (n - 2) ^ 2"])
    show "rep52 14 449 ((mx j - xd) * zr_scale xd mx k0 j ^ 2) (zr ! Suc j)" if "Suc j < n" for j using zr [OF that] by (simp add: k_def)
    show "rep52 5 161 (mx j * zr_scale xd mx k0 j ^ 2) (ax (tbl ! j)) \<and> rep52 3 97 (my j * zr_scale xd mx k0 j ^ 3) (ay (tbl ! j))" if "j < n - 1" for j
      using lo [of j] that by (simp add: k_def)
    assume "0 < n - 1"
    then have e: "n - 1 = Suc (n - 2)" "n - 1 - 1 = n - 2" "Suc (n - 2) < n" by simp_all
    show "rep52 14 449 ((mx (n - 2) - xd) * k (n - 2) ^ 2) (zr ! (n - 1)) \<and>
      (if n - 1 = n - 1 then zr_scale xd mx k0 (n - 1 - 1) * ((mx (n - 2) - xd) * k (n - 2) ^ 2) = zr_scale xd mx k0 (n - 1)
       else zr_scale xd mx k0 (n - 1) * ((mx (n - 2) - xd) * k (n - 2) ^ 2) = zr_scale xd mx k0 (n - 1))"
      using zr [OF e(3)] unfolding e(2) unfolding e(1) k_def by simp
  qed (use n len in simp_all)
  define tbl3 where "tbl3 = tbl2[n - 1 := \<lparr>ax = fe52_normalize_weak (ax (tbl2 ! (n - 1))), ay = fe52_normalize_weak (ay (tbl2 ! (n - 1)))\<rparr>]"
  have b: "build_glv52_table_zr p n = Some (tbl3, Z')"
    unfolding build_glv52_table_zr_def d prod.case l(1) option.case Let_def tbl2_def [symmetric] tbl3_def [symmetric] ..
  have last: "rep52 1 32 (mx (n - 1) * k (n - 1) ^ 2) (fe52_normalize_weak (ax (tbl2 ! (n - 1))))"
    "rep52 1 32 (my (n - 1) * k (n - 1) ^ 3) (fe52_normalize_weak (ay (tbl2 ! (n - 1))))"
    using sw lo [of "n - 1"] rep52_normalize_weak by fastforce+
  have "rep52 1 33 (mx j * k (n - 1) ^ 2) (ax (tbl3 ! j)) \<and> rep52 1 33 (my j * k (n - 1) ^ 3) (ay (tbl3 ! j))" if "j < n" for j
  proof (cases "j = n - 1")
    case True
    then show ?thesis using rep52_mono [OF last(1)] rep52_mono [OF last(2)] sw n by (simp add: tbl3_def)
  next
    case False
    then have "Suc j < n" using that by simp
    then show ?thesis using sw False by (simp add: tbl3_def)
  qed
  then show ?thesis using b l(3,4) sw by (auto simp: tbl3_def)
qed

section \<open>Digits\<close>

text \<open>The branch-free sign and magnitude of an \<open>int32_t\<close> digit.\<close>

lemma digit_sign: "signed_drop_bit 31 d = (if sint (d :: u32) < 0 then - 1 else 0)"
proof -
  have b: "- 0x80000000 \<le> sint d" "sint d < 0x80000000" using sint_ge [of d] sint_lt [of d] by simp_all
  have "sint (signed_drop_bit 31 d) = sint d div 0x80000000" by (simp add: sint_signed_drop_bit_eq drop_bit_eq_div)
  also have "\<dots> = sint (if sint d < 0 then - 1 else 0 :: u32)" using b by (auto simp: int_div_pos_eq zdiv_eq_0_iff)
  finally show ?thesis by (rule signed_word_eqI)
qed

lemma sint_zero_iff: "sint (d :: u32) = 0 \<longleftrightarrow> d = 0"
  using signed_word_eqI [of d 0] by auto

lemma digit_abs: "(d XOR signed_drop_bit 31 d) - signed_drop_bit 31 d = word_of_int \<bar>sint (d :: u32)\<bar>"
proof (cases "sint d < 0")
  case True
  have "(d XOR - 1) - - 1 = NOT d + 1" by simp
  also have "\<dots> = - d" by (simp only: minus_eq_not_plus_1)
  also have "\<dots> = word_of_int (- sint d)" by simp
  finally show ?thesis using True by (simp only: digit_sign if_True abs_if)
next
  case False
  then show ?thesis by (simp only: digit_sign if_False abs_if xor.right_neutral diff_zero) simp
qed

lemma unat_sint: "0 \<le> sint (w :: u32) \<Longrightarrow> unat w = nat (sint w)"
proof -
  assume a: "0 \<le> sint w"
  have b: "sint w < 2 ^ 31" using sint_lt [of w] by simp
  have "uint w = take_bit 32 (sint w)" by (simp add: uint_sint)
  then have "uint w = sint w" using a b by (simp add: take_bit_int_eq_self)
  then show ?thesis by (metis nat_uint_eq)
qed

lemma digit_index:
  assumes "d \<noteq> 0" "\<bar>sint (d :: u32)\<bar> < 0x40000000"
  shows "unat (signed_drop_bit 1 ((d XOR signed_drop_bit 31 d) - signed_drop_bit 31 d - 1)) = nat ((\<bar>sint d\<bar> - 1) div 2)"
proof -
  define a where "a = \<bar>sint d\<bar> - 1"
  have a: "0 \<le> a" "a < 0x40000000" using assms sint_zero_iff [of d] by (simp_all add: a_def)
  have "(d XOR signed_drop_bit 31 d) - signed_drop_bit 31 d - 1 = word_of_int a"
    unfolding digit_abs by (simp add: a_def)
  moreover have s: "sint (word_of_int a :: u32) = a" using a by (simp add: sint_sbintrunc' signed_take_bit_int_eq_self)
  ultimately have r: "sint (signed_drop_bit 1 ((d XOR signed_drop_bit 31 d) - signed_drop_bit 31 d - 1)) = a div 2"
    by (simp only: sint_signed_drop_bit_eq) (simp add: drop_bit_eq_div)
  show ?thesis unfolding a_def [symmetric] r [symmetric] by (rule unat_sint) (use r a in simp)
qed

section \<open>The ladder\<close>

text \<open>Adding the table point of a digit, and the doubling chain over the digit pairs, most significant first.\<close>

inductive add_digit :: "curve_point list \<Rightarrow> int \<Rightarrow> curve_point \<Rightarrow> curve_point \<Rightarrow> bool" where
  zero: "add_digit T 0 P P"
| positive: "0 < d \<Longrightarrow> ec_add P (T ! nat ((d - 1) div 2)) R \<Longrightarrow> add_digit T d P R"
| negative: "d < 0 \<Longrightarrow> ec_add P (ec_neg (T ! nat ((- d - 1) div 2))) R \<Longrightarrow> add_digit T d P R"

inductive ladder :: "curve_point list \<Rightarrow> curve_point list \<Rightarrow> (int \<times> int) list \<Rightarrow> curve_point \<Rightarrow> curve_point \<Rightarrow> bool" where
  finish: "ladder T1 T2 [] R R"
| step: "ec_add R R D \<Longrightarrow> add_digit T1 d1 D E \<Longrightarrow> add_digit T2 d2 E F \<Longrightarrow> ladder T1 T2 ds F G \<Longrightarrow> ladder T1 T2 ((d1, d2) # ds) R G"

inductive_cases add_digitE: "add_digit T d P R"
inductive_cases ladder_NilE: "ladder T1 T2 [] R G"
inductive_cases ladder_ConsE: "ladder T1 T2 ((d1, d2) # ds) R G"

definition digit_ok :: "nat \<Rightarrow> u32 \<Rightarrow> bool" where
  "digit_ok n d \<longleftrightarrow> \<bar>sint d\<bar> \<le> 2 * int n \<and> n \<le> 1000"

text \<open>
  An entry whose ordinate is at magnitude one, or is the negation of one: on the second, which the endomorphism table may
  hold, the conditional negation restores the original limbs.
\<close>

fun entry_rep :: "aff52 \<Rightarrow> curve_point \<Rightarrow> bool" where
  "entry_rep q Infinity \<longleftrightarrow> False"
| "entry_rep q (Affine x y) \<longleftrightarrow> rep52 1 33 x (ax q) \<and> (rep52 1 33 y (ay q) \<or> (\<exists>a. ay q = fe52_negate 1 a \<and> rep52 1 33 (- y) a))"

lemma conditional_negate_0: "fe52_conditional_negate 0 a = a"
  by (cases a) simp

lemma conditional_negate_1: "fe52_conditional_negate (- 1) a = fe52_negate 1 a"
  by (cases a) (simp add: xor.assoc [symmetric] Let_def)

lemma negate_negate: "fe52_negate 1 (fe52_negate 1 a) = a"
  by (cases a) (simp add: Let_def)

lemma entry_rep_y:
  assumes "entry_rep q (Affine x y)"
  shows "rep52 4 159 y (fe52_conditional_negate 0 (ay q))" "rep52 4 159 (- y) (fe52_conditional_negate (- 1) (ay q))"
proof -
  have n: "rep52 4 159 (- v) (fe52_negate 1 a)" if "rep52 1 33 v a" for v a
    using rep52_negate [OF that, of 1] by (auto intro: rep52_mono)
  from assms consider "rep52 1 33 y (ay q)" | a where "ay q = fe52_negate 1 a" "rep52 1 33 (- y) a" by auto
  then show "rep52 4 159 y (fe52_conditional_negate 0 (ay q))" "rep52 4 159 (- y) (fe52_conditional_negate (- 1) (ay q))"
    by (cases; use n in \<open>fastforce simp: conditional_negate_0 conditional_negate_1 negate_negate intro: rep52_mono\<close>)+
qed

lemma apply_wnaf_mixed52_rep:
  assumes "jac_rep r R" "length T = length tbl" "\<And>i. i < length tbl \<Longrightarrow> entry_rep (tbl ! i) (T ! i)" "digit_ok (length tbl) d"
    and add: "add_digit T (sint d) R R'"
  shows "jac_rep (apply_wnaf_mixed52 r tbl d) R'"
proof (cases "d = 0")
  case True
  then have "R' = R" using add by (auto elim: add_digitE)
  then show ?thesis using assms(1) True by (simp add: apply_wnaf_mixed52_def)
next
  case False
  then have nz: "sint d \<noteq> 0" by (simp add: sint_zero_iff)
  have small: "\<bar>sint d\<bar> < 0x40000000" "\<bar>sint d\<bar> \<le> 2 * int (length tbl)" using assms(4) by (simp_all add: digit_ok_def)
  define i where "i = nat ((\<bar>sint d\<bar> - 1) div 2)"
  have i: "i < length tbl" using small(2) nz unfolding i_def by (simp add: nat_less_iff)
  obtain x y where T: "T ! i = Affine x y" "entry_rep (tbl ! i) (Affine x y)" using assms(3) [OF i] by (cases "T ! i") auto
  define q where "q = (tbl ! i)\<lparr>ay := fe52_conditional_negate (signed_drop_bit 31 d) (ay (tbl ! i))\<rparr>"
  have e: "apply_wnaf_mixed52 r tbl d = jac52_add_mixed_inplace r q"
    using False unfolding apply_wnaf_mixed52_def Let_def digit_index [OF False small(1)] i_def [symmetric] q_def by simp
  have X: "rep52 8 287 x (ax q)" using T(2) by (auto simp: q_def intro: rep52_mono)
  show ?thesis
  proof (cases "0 < sint d")
    case True
    then have "aff_rep q (T ! i)" using X entry_rep_y(1) [OF T(2)] by (simp add: T(1) q_def digit_sign)
    moreover have "ec_add R (T ! i) R'" using add True nz by (auto elim: add_digitE simp: i_def)
    ultimately show ?thesis unfolding e by (rule jac52_add_mixed_inplace_rep [OF assms(1)])
  next
    case False
    then have "aff_rep q (ec_neg (T ! i))" using X entry_rep_y(2) [OF T(2)] nz by (simp add: T(1) q_def digit_sign)
    moreover have "ec_add R (ec_neg (T ! i)) R'" using add False nz by (auto elim: add_digitE simp: i_def)
    ultimately show ?thesis unfolding e by (rule jac52_add_mixed_inplace_rep [OF assms(1)])
  qed
qed

text \<open>The digit pairs the loop reads, in its order.\<close>

definition digit_pairs :: "u32 list \<Rightarrow> u32 list \<Rightarrow> nat \<Rightarrow> (int \<times> int) list" where
  "digit_pairs w1 w2 n = map (\<lambda>i. (sint (w1 ! i), sint (w2 ! i))) (rev [0..<n])"

lemma shamir_loop_rep:
  assumes "jac_rep r R" "ladder T1 T2 (digit_pairs w1 w2 n) R G"
    and t: "length T1 = length tbl1" "\<And>i. i < length tbl1 \<Longrightarrow> entry_rep (tbl1 ! i) (T1 ! i)"
      "length T2 = length tbl2" "\<And>i. i < length tbl2 \<Longrightarrow> entry_rep (tbl2 ! i) (T2 ! i)"
    and d: "\<And>i. i < n \<Longrightarrow> digit_ok (length tbl1) (w1 ! i) \<and> digit_ok (length tbl2) (w2 ! i)"
  shows "jac_rep (shamir_loop n tbl1 tbl2 w1 w2 r) G"
  using assms(1,2) d
proof (induction n arbitrary: r R)
  case 0
  then show ?case by (auto simp: digit_pairs_def elim: ladder_NilE)
next
  case (Suc n)
  have "digit_pairs w1 w2 (Suc n) = (sint (w1 ! n), sint (w2 ! n)) # digit_pairs w1 w2 n" by (simp add: digit_pairs_def)
  with Suc.prems(2) obtain D E F where l: "ec_add R R D" "add_digit T1 (sint (w1 ! n)) D E" "add_digit T2 (sint (w2 ! n)) E F"
    "ladder T1 T2 (digit_pairs w1 w2 n) F G" by (auto elim: ladder_ConsE)
  have "jac_rep (jac52_double_inplace r) D" by (rule jac52_double_inplace_rep [OF Suc.prems(1) l(1)])
  then have "jac_rep (apply_wnaf_mixed52 (jac52_double_inplace r) tbl1 (w1 ! n)) E"
    by (rule apply_wnaf_mixed52_rep [OF _ t(1,2) _ l(2)]) (use Suc.prems(3) [of n] in simp_all)
  then have "jac_rep (apply_wnaf_mixed52 (apply_wnaf_mixed52 (jac52_double_inplace r) tbl1 (w1 ! n)) tbl2 (w2 ! n)) F"
    by (rule apply_wnaf_mixed52_rep [OF _ t(3,4) _ l(3)]) (use Suc.prems(3) [of n] in simp_all)
  from Suc.IH [OF this l(4)] Suc.prems(3) show ?case by simp
qed

text \<open>On the isomorphic curve the same chain runs over the scaled points.\<close>

lemma scale_neg: "scale_point c (ec_neg P) = ec_neg (scale_point c P)"
  by (cases P) simp_all

lemma add_digit_scale:
  assumes "c * c' = 1" "add_digit T d P R" "\<bar>d\<bar> \<le> 2 * int (length T)"
  shows "add_digit (map (scale_point c) T) d (scale_point c P) (scale_point c R)"
  using assms(2)
proof cases
  case zero
  then show ?thesis by (simp add: add_digit.zero)
next
  case positive
  then have "nat ((d - 1) div 2) < length T" using assms(3) by (simp add: nat_less_iff)
  then show ?thesis using ec_add_scale [OF assms(1) positive(2)] positive(1) by (intro add_digit.positive) simp_all
next
  case negative
  then have "nat ((- d - 1) div 2) < length T" using assms(3) by (simp add: nat_less_iff)
  then show ?thesis using ec_add_scale [OF assms(1) negative(2)] negative(1) by (intro add_digit.negative) (simp_all add: scale_neg)
qed

lemma ladder_scale:
  assumes "ladder T1 T2 ds R G" "c * c' = 1" "\<forall>p\<in>set ds. \<bar>fst p\<bar> \<le> 2 * int (length T1) \<and> \<bar>snd p\<bar> \<le> 2 * int (length T2)"
  shows "ladder (map (scale_point c) T1) (map (scale_point c) T2) ds (scale_point c R) (scale_point c G)"
  using assms(1,3)
proof (induction rule: ladder.induct)
  case (step R D T1 d1 E T2 d2 F ds G)
  from step.prems have b: "\<bar>d1\<bar> \<le> 2 * int (length T1)" "\<bar>d2\<bar> \<le> 2 * int (length T2)" by simp_all
  show ?case
    by (rule ladder.step [OF ec_add_scale [OF assms(2) step(1)] add_digit_scale [OF assms(2) step(2) b(1)] add_digit_scale [OF assms(2) step(3) b(2)]])
      (use step in simp)
qed (simp add: ladder.finish)

text \<open>Multiplying \<open>Z\<close> by the common scale comes back from the isomorphic curve.\<close>

lemma jac_rep_unscale:
  assumes "jac_rep r (scale_point K G)" "rep52 1 33 K gz" "fp_unit K"
  shows "jac_rep (if \<not> jinf r then r\<lparr>jz := fe52_mul (jz r) gz\<rparr> else r) G"
proof (cases "jinf r")
  case True
  then show ?thesis using assms(1) by (simp add: jac_rep_def)
next
  case False
  from jac_repE [OF assms(1) False] obtain x y z where p: "scale_point K G = Affine x y" "fp_unit z"
    "rep52 8 287 (x * z ^ 2) (jx r)" "rep52 4 159 (y * z ^ 3) (jy r)" "rep52 1 33 z (jz r)" .
  from p(1) obtain x0 y0 where g: "G = Affine x0 y0" "x = x0 * K ^ 2" "y = y0 * K ^ 3" by (cases G) auto
  have "rep52 1 33 (z * K) (fe52_mul (jz r) gz)" by (rule rep52_mul [OF p(5) assms(2)]) simp_all
  moreover have "fp_unit (z * K)" using p(2) assms(3) by blast
  ultimately show ?thesis using False p(3,4) by (auto simp: jac_rep_def g power_mult_distrib ac_simps intro!: exI [of _ "z * K"])
qed

section \<open>Variable-base multiplication from the digits on\<close>

definition glv_BETA :: bytes where
  "glv_BETA = [0x7a, 0xe9, 0x6a, 0x2b, 0x65, 0x7c, 0x07, 0x10, 0x6e, 0x64, 0x47, 0x9e, 0xac, 0x34, 0x34, 0xe9,
     0x9c, 0xf0, 0x49, 0x75, 0x12, 0xf5, 0x89, 0x95, 0xc1, 0x39, 0x6c, 0x28, 0x71, 0x95, 0x01, 0xee]"

definition kBeta52_pt :: fe52 where "kBeta52_pt = fe52_from_fe (fe_from_bytes glv_BETA)"

text \<open>
  The part of \<open>scalar_mul_glv52\<close> after the decomposition: the table of the (possibly negated) base, the endomorphism's
  table, the ladder, and the shared \<open>Z\<close> put back. \<open>None\<close> is the branch to the 4x64 fallback.
\<close>

definition glv52_mul_digits :: "jac52 \<Rightarrow> bool \<Rightarrow> u32 list \<Rightarrow> nat \<Rightarrow> u32 list \<Rightarrow> nat \<Rightarrow> jac52 option" where
  "glv52_mul_digits P52 flip_phi wnaf1 wnaf1_len wnaf2 wnaf2_len =
     (case build_glv52_table_zr P52 8 of
        None \<Rightarrow> None
      | Some (tbl_P, globalz) \<Rightarrow>
          let tbl_phiP = derive_phi52_table kBeta52_pt tbl_P flip_phi;
              result52 = shamir_2stream_glv52 tbl_P tbl_phiP wnaf1 wnaf1_len wnaf2 wnaf2_len
          in Some (if \<not> jinf result52 then result52\<lparr>jz := fe52_mul (jz result52) globalz\<rparr> else result52))"

text \<open>The endomorphism \<open>(x, y) \<mapsto> (\<beta> x, y)\<close>, composed with the negation where the signs of the halves differ.\<close>

definition beta :: fp where "beta = of_int (be_val glv_BETA)"

fun phi_point :: "bool \<Rightarrow> curve_point \<Rightarrow> curve_point" where
  "phi_point flip Infinity = Infinity"
| "phi_point flip (Affine x y) = Affine (x * beta) (if flip then - y else y)"

lemma beta_cube: "beta ^ 3 = 1"
proof -
  have "be_val glv_BETA = 0x7ae96a2b657c07106e64479eac3434e99cf0497512f58995c1396c28719501ee"
    by (simp add: glv_BETA_def)
  then have "beta ^ 3 = of_int (0x7ae96a2b657c07106e64479eac3434e99cf0497512f58995c1396c28719501ee ^ 3)" by (simp only: beta_def of_int_power)
  also have "\<dots> = of_int 1" unfolding fp_eq_iff by (simp add: prime_p_def)
  finally show ?thesis by simp
qed

lemma phi_on_curve: "on_curve P \<Longrightarrow> on_curve (phi_point flip P)"
  by (cases P) (simp_all add: power_mult_distrib beta_cube)

lemma phi_scale: "phi_point flip (scale_point c P) = scale_point c (phi_point flip P)"
  by (cases P) (simp_all add: ac_simps)

lemma kBeta52_rep: "rep52 1 33 beta kBeta52_pt"
proof -
  have l: "length glv_BETA = 32" by (simp add: glv_BETA_def)
  have "rep52 1 32 (of_int (fval (fe_from_bytes glv_BETA))) kBeta52_pt"
    unfolding rep52_def kBeta52_pt_def using fe52_from_fe_val [of "fe_from_bytes glv_BETA"] reduced_mag by simp
  moreover have "(of_int (fval (fe_from_bytes glv_BETA)) :: fp) = beta" unfolding beta_def fval_from_bytes [OF l] by simp
  ultimately show ?thesis by (simp add: rep52_mono)
qed

lemma derive_phi52_table_rep:
  assumes "i < length tbl" "tbl_rep (tbl ! i) P"
  shows "entry_rep (derive_phi52_table kBeta52_pt tbl flip ! i) (phi_point flip P)"
proof -
  obtain x y where P: "P = Affine x y" "rep52 1 33 x (ax (tbl ! i))" "rep52 1 33 y (ay (tbl ! i))" using assms(2) by (cases P) auto
  have "rep52 1 33 (x * beta) (fe52_mul (ax (tbl ! i)) kBeta52_pt)" by (rule rep52_mul [OF P(2) kBeta52_rep]) simp_all
  then show ?thesis using P assms(1) by (auto simp: derive_phi52_table_def)
qed

text \<open>The chain of odd multiples: the point, its double, and each entry the double plus the one before, on a chord.\<close>

fun same_x :: "curve_point \<Rightarrow> curve_point \<Rightarrow> bool" where
  "same_x (Affine x y) (Affine x' y') \<longleftrightarrow> x = x'"
| "same_x _ _ \<longleftrightarrow> False"

definition odd_chain :: "(nat \<Rightarrow> curve_point) \<Rightarrow> nat \<Rightarrow> bool" where
  "odd_chain M n \<longleftrightarrow> (\<exists>D. D \<noteq> Infinity \<and> ec_add (M 0) (M 0) D \<and> (\<forall>i<n. M i \<noteq> Infinity) \<and>
     (\<forall>i. Suc i < n \<longrightarrow> ec_add D (M i) (M (Suc i)) \<and> \<not> same_x D (M i)))"

lemma build_table_chain:
  assumes p: "jac_rep p (M 0)" and chain: "odd_chain M n" and n: "0 < n"
  shows "\<exists>tbl gz K. build_glv52_table_zr p n = Some (tbl, gz) \<and> length tbl = n \<and> rep52 1 33 K gz \<and> fp_unit K \<and>
    (\<forall>i<n. tbl_rep (tbl ! i) (scale_point K (M i)))"
proof -
  from chain obtain D where D: "D \<noteq> Infinity" "ec_add (M 0) (M 0) D" "\<forall>i<n. M i \<noteq> Infinity"
    "\<forall>i. Suc i < n \<longrightarrow> ec_add D (M i) (M (Suc i)) \<and> \<not> same_x D (M i)" by (auto simp: odd_chain_def)
  define mx where "mx i = (case M i of Affine x y \<Rightarrow> x | Infinity \<Rightarrow> 0)" for i
  define my where "my i = (case M i of Affine x y \<Rightarrow> y | Infinity \<Rightarrow> 0)" for i
  have M: "M i = Affine (mx i) (my i)" if "i < n" for i using D(3) that by (cases "M i") (auto simp: mx_def my_def)
  have "\<not> jinf p" using p M [OF n] by (auto simp: jac_rep_def)
  from jac_repE [OF p this] obtain z where z: "fp_unit z" "rep52 8 287 (mx 0 * z ^ 2) (jx p)" "rep52 4 159 (my 0 * z ^ 3) (jy p)" "rep52 1 33 z (jz p)"
    using M [OF n] by auto
  obtain xd yd where d: "D = Affine xd yd" using D(1) by (cases D) auto
  from D(2) [unfolded M [OF n] d] obtain s where s: "fp_unit (my 0)" "s * (2 * my 0) = 3 * mx 0 ^ 2" "xd = s ^ 2 - 2 * mx 0" "yd = s * (mx 0 - xd) - my 0"
    by (cases rule: ec_add_affineE) auto
  have ch: "chord_step xd yd (mx j) (my j) (mx (Suc j)) (my (Suc j))" if j: "Suc j < n" for j
  proof (rule chord_stepI)
    show "ec_add (Affine xd yd) (Affine (mx j) (my j)) (Affine (mx (Suc j)) (my (Suc j)))"
      using D(4) j by (simp only: M [of "Suc j", symmetric] M [of j, symmetric] d [symmetric] Suc_lessD)
    show "mx j \<noteq> xd" using D(4) j M [of j] by (auto simp: d)
  qed
  from build_glv52_table_zr_rep [OF z s refl refl n ch]
  obtain tbl gz K where t: "build_glv52_table_zr p n = Some (tbl, gz)" "length tbl = n" "rep52 1 33 K gz" "fp_unit K"
    "\<forall>j<n. rep52 1 33 (mx j * K ^ 2) (ax (tbl ! j)) \<and> rep52 1 33 (my j * K ^ 3) (ay (tbl ! j))" by blast
  then show ?thesis using M by (intro exI [of _ tbl] exI [of _ gz] exI [of _ K]) simp
qed

lemma glv52_mul_digits_rep:
  assumes p: "jac_rep p (M 0)" and chain: "odd_chain M 8"
    and digits: "\<forall>i<max len1 len2. digit_ok 8 (w1 ! i) \<and> digit_ok 8 (w2 ! i)"
    and run: "ladder (map M [0..<8]) (map (\<lambda>i. phi_point flip (M i)) [0..<8]) (digit_pairs w1 w2 (max len1 len2)) Infinity G"
  shows "\<exists>r. glv52_mul_digits p flip w1 len1 w2 len2 = Some r \<and> jac_rep r G"
proof -
  from build_table_chain [OF p chain] obtain tbl gz K where t: "build_glv52_table_zr p 8 = Some (tbl, gz)" "length tbl = 8" "rep52 1 33 K gz" "fp_unit K"
    "\<forall>i<8. tbl_rep (tbl ! i) (scale_point K (M i))" by auto
  from t(4) obtain K' where K: "K * K' = 1" by (auto simp: fp_unit_def)
  define T1 where "T1 = map (scale_point K) (map M [0..<8])"
  define T2 where "T2 = map (scale_point K) (map (\<lambda>i. phi_point flip (M i)) [0..<8])"
  define tbl2 where "tbl2 = derive_phi52_table kBeta52_pt tbl flip"
  have l2: "length tbl2 = 8" by (simp add: tbl2_def derive_phi52_table_def t(2))
  have e1: "entry_rep (tbl ! i) (T1 ! i)" if i: "i < length tbl" for i
  proof -
    have "tbl_rep (tbl ! i) (scale_point K (M i))" using t(2,5) i by simp
    then show ?thesis using i t(2) by (cases "scale_point K (M i)") (simp_all add: T1_def)
  qed
  have e2: "entry_rep (tbl2 ! i) (T2 ! i)" if i: "i < length tbl2" for i
  proof -
    have j: "i < length tbl" "i < 8" using i l2 t(2) by simp_all
    then have "tbl_rep (tbl ! i) (scale_point K (M i))" using t(5) by simp
    from derive_phi52_table_rep [OF j(1) this, of flip] show ?thesis using j(2) by (simp add: tbl2_def T2_def phi_scale)
  qed
  have "ladder T1 T2 (digit_pairs w1 w2 (max len1 len2)) (scale_point K Infinity) (scale_point K G)"
    unfolding T1_def T2_def by (rule ladder_scale [OF run K]) (use digits in \<open>auto simp: digit_pairs_def digit_ok_def\<close>)
  then have lad: "ladder T1 T2 (digit_pairs w1 w2 (max len1 len2)) Infinity (scale_point K G)" by simp
  have "jac_rep (shamir_loop (max len1 len2) tbl tbl2 w1 w2 jac52_infinity) (scale_point K G)"
    by (rule shamir_loop_rep [OF _ lad _ e1 _ e2]) (use digits t(2) l2 in \<open>simp_all add: T1_def T2_def\<close>)
  moreover have "(if len1 > len2 then len1 else len2) = max len1 len2" by simp
  ultimately have "jac_rep (shamir_2stream_glv52 tbl tbl2 w1 len1 w2 len2) (scale_point K G)"
    unfolding shamir_2stream_glv52_def Let_def by simp
  from jac_rep_unscale [OF this t(3,4)] show ?thesis
    unfolding glv52_mul_digits_def t(1) option.case prod.case Let_def tbl2_def [symmetric] by simp
qed

section \<open>Properties\<close>

lemma on_curve_neg: "on_curve (ec_neg P) \<longleftrightarrow> on_curve P"
  by (cases P) simp_all

lemma add_digit_on_curve:
  assumes "add_digit T d P R" "on_curve P" "\<forall>Q\<in>set T. on_curve Q" "\<bar>d\<bar> \<le> 2 * int (length T)"
  shows "on_curve R"
  using assms
proof (cases rule: add_digit.cases)
  case positive
  then have "nat ((d - 1) div 2) < length T" using assms(4) by linarith
  then have "on_curve (T ! nat ((d - 1) div 2))" using assms(3) by simp
  then show ?thesis using ec_add_on_curve positive(2) assms(2) by blast
next
  case negative
  then have "nat ((- d - 1) div 2) < length T" using assms(4) by linarith
  then have "on_curve (ec_neg (T ! nat ((- d - 1) div 2)))" using assms(3) by (simp add: on_curve_neg)
  then show ?thesis using ec_add_on_curve negative(2) assms(2) by blast
qed simp

lemma ladder_on_curve:
  assumes "ladder T1 T2 ds R G" "on_curve R" "\<forall>Q\<in>set T1. on_curve Q" "\<forall>Q\<in>set T2. on_curve Q"
    "\<forall>(d1, d2)\<in>set ds. \<bar>d1\<bar> \<le> 2 * int (length T1) \<and> \<bar>d2\<bar> \<le> 2 * int (length T2)"
  shows "on_curve G"
  using assms
proof (induction rule: ladder.induct)
  case (step R D T1 d1 E T2 d2 F ds G)
  have "on_curve D" using ec_add_on_curve [OF step.hyps(1)] step.prems(1) by blast
  then have "on_curve E" by (rule add_digit_on_curve [OF step.hyps(2)]) (use step.prems in auto)
  then have "on_curve F" by (rule add_digit_on_curve [OF step.hyps(3)]) (use step.prems in auto)
  then show ?case using step by auto
qed simp

lemma odd_chain_on_curve:
  assumes "odd_chain M n" "on_curve (M 0)" "i < n"
  shows "on_curve (M i)"
proof -
  from assms(1) obtain D where D: "ec_add (M 0) (M 0) D" "\<forall>i. Suc i < n \<longrightarrow> ec_add D (M i) (M (Suc i))" by (auto simp: odd_chain_def)
  have d: "on_curve D" using ec_add_on_curve [OF D(1)] assms(2) by blast
  from assms(3) show ?thesis
  proof (induction i)
    case (Suc i)
    then show ?case using ec_add_on_curve [OF D(2) [rule_format, OF Suc.prems]] d by simp
  qed (rule assms(2))
qed

text \<open>The odd multiples of the generator, and two digit strings: \<open>5\<close> copies of it (the digits \<open>1\<close>, \<open>3\<close>) less one of its image.\<close>

definition gen_odds :: "curve_point list" where
  "gen_odds = [pt mulG1, pt mulG3, pt mulG5, pt mulG7, pt mulG9, pt mulG11, pt mulG13, pt mulG15]"

lemma coords_apart:
  assumes "0 \<le> fst a" "fst a < prime_p" "0 \<le> fst b" "fst b < prime_p" "fst a \<noteq> fst b"
  shows "\<not> same_x (pt a) (pt b)"
  using assms by (simp add: pt_def fp_eq_iff)

lemma double_apart:
  "\<not> same_x (pt mulG2) (pt mulG1)" "\<not> same_x (pt mulG2) (pt mulG3)" "\<not> same_x (pt mulG2) (pt mulG5)"
  "\<not> same_x (pt mulG2) (pt mulG7)" "\<not> same_x (pt mulG2) (pt mulG9)" "\<not> same_x (pt mulG2) (pt mulG11)" "\<not> same_x (pt mulG2) (pt mulG13)"
  by (rule coords_apart; simp add: mulG_defs prime_p_def)+

lemma gen_odds_chain: "odd_chain (\<lambda>i. gen_odds ! i) 8"
proof -
  have "\<forall>Q\<in>set gen_odds. Q \<noteq> Infinity" "length gen_odds = 8" by (simp_all add: gen_odds_def pt_def)
  then have "\<forall>i<8. gen_odds ! i \<noteq> Infinity" by simp
  moreover have "ec_add (pt mulG2) (gen_odds ! i) (gen_odds ! Suc i) \<and> \<not> same_x (pt mulG2) (gen_odds ! i)" if "Suc i < 8" for i
  proof -
    have "i = 0 \<or> i = 1 \<or> i = 2 \<or> i = 3 \<or> i = 4 \<or> i = 5 \<or> i = 6" using that by auto
    then show ?thesis
      using double_apart gen_odd_3 gen_odd_5 gen_odd_7 gen_odd_9 gen_odd_11 gen_odd_13 gen_odd_15 by (auto simp: gen_odds_def)
  qed
  moreover have "pt mulG2 \<noteq> Infinity" by (simp add: pt_def)
  moreover have "ec_add (gen_odds ! 0) (gen_odds ! 0) (pt mulG2)" using gen_double by (simp add: gen_odds_def)
  ultimately show ?thesis unfolding odd_chain_def by blast
qed

lemma phi_generator: "ec_neg (phi_point False (pt mulG1)) = pt negphiG"
proof -
  have b: "be_val glv_BETA = 0x7ae96a2b657c07106e64479eac3434e99cf0497512f58995c1396c28719501ee" by (simp add: glv_BETA_def)
  have "(of_int (fst mulG1 * be_val glv_BETA) :: fp) = of_int (fst negphiG)"
    unfolding b by (rule fp_of_int_eq [where q = "0x3a73bda14653802611b9bd905282c9c5457276c52117e06fda604798139d168b"]) (simp add: mulG1_def negphiG_def prime_p_def)
  moreover have "(of_int (- snd mulG1) :: fp) = of_int (snd negphiG)"
    by (rule fp_of_int_eq [where q = "-1"]) (simp add: mulG1_def negphiG_def prime_p_def)
  ultimately show ?thesis by (simp add: pt_def beta_def)
qed

definition sample_digits1 :: "u32 list" where "sample_digits1 = [3, 1]"
definition sample_digits2 :: "u32 list" where "sample_digits2 = [- 1, 0]"

lemma sample_pairs: "digit_pairs sample_digits1 sample_digits2 2 = [(1, 0), (3, - 1)]"
  by (simp add: digit_pairs_def sample_digits1_def sample_digits2_def numeral_2_eq_2)

lemma sample_ladder:
  "ladder (map (\<lambda>i. gen_odds ! i) [0..<8]) (map (\<lambda>i. phi_point False (gen_odds ! i)) [0..<8]) [(1, 0), (3, - 1)] Infinity (pt sumG)"
proof -
  have l: "ladder T1 T2 [(1, 0), (3, - 1)] Infinity (pt sumG)"
    if "T1 ! 0 = pt mulG1" "T1 ! 1 = pt mulG3" "ec_neg (T2 ! 0) = pt negphiG" for T1 T2
  proof (rule ladder.step [OF ec_add.left _ add_digit.zero ladder.step [OF gen_double _ _ ladder.finish]])
    show "add_digit T1 1 Infinity (pt mulG1)" by (rule add_digit.positive) (simp_all add: that ec_add.left)
    show "add_digit T1 3 (pt mulG2) (pt mulG5)" by (rule add_digit.positive) (simp_all add: that(2) [simplified] gen_odd_5)
    show "add_digit T2 (- 1) (pt mulG5) (pt sumG)" by (rule add_digit.negative) (simp_all add: that(3) gen_sum_phi)
  qed
  show ?thesis by (rule l) (simp_all add: gen_odds_def phi_generator)
qed

lemma coords_ok_1: "coords_ok mulG1"
  by (simp add: coords_ok_def mulG1_def)

text \<open>C6: From the decomposition on, variable-base multiplication of any representation of a point computes, for all digit strings
  whose digits fit the tables, the point which the same doublings and digit additions reach on the curve: the co-Z chain builds a
  table of the odd multiples over one shared Z, the endomorphism's table is its image with the sign of the flip, the ladder reads
  both, and the shared Z is put back. The result is on the curve whenever the base is. The table never falls back, provided the
  odd multiples are distinct from the double.\<close>

theorem glv52_mul_correct:
  assumes "jac_rep p (M 0)" "odd_chain M 8"
    and "\<forall>i<max len1 len2. digit_ok 8 (w1 ! i) \<and> digit_ok 8 (w2 ! i)"
    and "ladder (map M [0..<8]) (map (\<lambda>i. phi_point flip (M i)) [0..<8]) (digit_pairs w1 w2 (max len1 len2)) Infinity R"
  shows "\<exists>r. glv52_mul_digits p flip w1 len1 w2 len2 = Some r \<and> jac_rep r R \<and> (on_curve (M 0) \<longrightarrow> on_curve R)"
proof -
  have "on_curve R" if "on_curve (M 0)"
    by (rule ladder_on_curve [OF assms(4)])
      (use odd_chain_on_curve [OF assms(2) that] phi_on_curve assms(3) in \<open>auto simp: digit_pairs_def digit_ok_def\<close>)
  then show ?thesis using glv52_mul_digits_rep [OF assms] by blast
qed

theorem glv52_mul_correct_witness:
  "\<exists>r. glv52_mul_digits (jac52_of mulG1) False sample_digits1 2 sample_digits2 2 = Some r \<and> jac_rep r (pt sumG) \<and> on_curve (pt sumG)"
proof -
  have 1: "jac_rep (jac52_of mulG1) (gen_odds ! 0)" using jac52_of_rep [OF coords_ok_1] by (simp add: gen_odds_def)
  have "\<forall>i<2. digit_ok 8 (sample_digits1 ! i) \<and> digit_ok 8 (sample_digits2 ! i)"
    by (auto simp: sample_digits1_def sample_digits2_def digit_ok_def less_2_cases_iff)
  moreover have "on_curve (gen_odds ! 0)" using gen_point_on_curve by (simp add: gen_odds_def gen_point_def)
  ultimately show ?thesis
    using glv52_mul_correct [where M = "\<lambda>i. gen_odds ! i" and ?len1.0 = 2 and ?len2.0 = 2, OF 1 gen_odds_chain, of sample_digits1 sample_digits2 False "pt sumG"] sample_ladder sample_pairs by simp
qed

end
