(* ===== verification/Jac64.thy ===== *)
theory Jac64
  imports Jac52
begin

text \<open>
  The 4x64 point formulas of point.cpp (\<open>jacobian_*\<close>), which builds without \<open>__int128\<close> use: the same Jacobian
  coordinates over \<open>FieldElement\<close>, whose operations return reduced values, so that only residues have to be
  followed. Every operation refines the addition of the curve.
\<close>

section \<open>The operations\<close>

record jac64 =
  px :: field_element
  py :: field_element
  pz :: field_element
  pinf :: bool

record aff64 =
  qx :: field_element
  qy :: field_element

abbreviation jac64_infinity :: jac64 where
  "jac64_infinity \<equiv> \<lparr>px = fe_zero, py = fe_one, pz = fe_zero, pinf = True\<rparr>"

definition fe_is_one_raw :: "field_element \<Rightarrow> bool" where
  "fe_is_one_raw z \<longleftrightarrow> limb0 (fe_limbs z) = 1 \<and> limb1 (fe_limbs z) = 0 \<and> limb2 (fe_limbs z) = 0 \<and> limb3 (fe_limbs z) = 0"

definition jacobian_double_inplace :: "jac64 \<Rightarrow> jac64" where
  "jacobian_double_inplace p =
     (if pinf p then jac64_infinity
      else
        let A = fe_square (px p);
            B = fe_square (py p);
            C = fe_square B;
            temp = fe_add (px p) B;
            temp = fe_square temp;
            temp = fe_sub (fe_sub temp A) C;
            D = fe_add temp temp;
            E = fe_add A A; E = fe_add E A;
            F = fe_square E;
            two_D = fe_add D D;
            x3 = fe_sub F two_D;
            y3 = fe_mul E (fe_sub D x3);
            eight_C = fe_add C C; eight_C = fe_add eight_C eight_C; eight_C = fe_add eight_C eight_C;
            y3 = fe_sub y3 eight_C;
            z3 = fe_mul (py p) (pz p);
            z3 = fe_add z3 z3
        in \<lparr>px = x3, py = y3, pz = z3, pinf = False\<rparr>)"

definition jacobian_double :: "jac64 \<Rightarrow> jac64" where
  "jacobian_double p = jacobian_double_inplace p"

definition jacobian_add_mixed_inplace :: "jac64 \<Rightarrow> aff64 \<Rightarrow> jac64" where
  "jacobian_add_mixed_inplace p q =
     (if pinf p then \<lparr>px = qx q, py = qy q, pz = fe_one, pinf = False\<rparr>
      else
        let z1z1 = fe_square (pz p);
            u2 = fe_mul (qx q) z1z1;
            s2 = fe_mul (fe_mul (qy q) (pz p)) z1z1
        in if fe_eq (px p) u2
           then (if fe_eq (py p) s2 then jacobian_double_inplace p else jac64_infinity)
           else
             let h = fe_sub u2 (px p);
                 hh = fe_square h;
                 i = fe_add (fe_add (fe_add hh hh) hh) hh;
                 j = fe_mul h i;
                 r = fe_add (fe_sub s2 (py p)) (fe_sub s2 (py p));
                 v = fe_mul (px p) i;
                 x3 = fe_square r;
                 x3 = fe_sub x3 (fe_add (fe_add j v) v);
                 y1j = fe_mul (py p) j;
                 y3 = fe_sub (fe_mul r (fe_sub v x3)) (fe_add y1j y1j);
                 z3 = fe_add (pz p) h; z3 = fe_square z3; z3 = fe_sub z3 (fe_add z1z1 hh)
             in \<lparr>px = x3, py = y3, pz = z3, pinf = False\<rparr>)"

definition jacobian_add_mixed :: "jac64 \<Rightarrow> aff64 \<Rightarrow> jac64" where
  "jacobian_add_mixed p q = jacobian_add_mixed_inplace p q"

definition jacobian_add_inplace :: "jac64 \<Rightarrow> jac64 \<Rightarrow> jac64" where
  "jacobian_add_inplace p q =
     (if pinf p then q else if pinf q then p
      else
        let z1z1 = fe_square (pz p);
            z2z2 = fe_square (pz q);
            u1 = fe_mul (px p) z2z2;
            u2 = fe_mul (px q) z1z1;
            s1 = fe_mul (fe_mul (py p) (pz q)) z2z2;
            s2 = fe_mul (fe_mul (py q) (pz p)) z1z1
        in if fe_eq u1 u2
           then (if fe_eq s1 s2 then jacobian_double_inplace p else jac64_infinity)
           else
             let h = fe_sub u2 u1;
                 i = fe_add h h; i = fe_square i;
                 j = fe_mul h i;
                 r = fe_add (fe_sub s2 s1) (fe_sub s2 s1);
                 v = fe_mul u1 i;
                 x3 = fe_square r;
                 x3 = fe_sub x3 (fe_add (fe_add j v) v);
                 s1j = fe_mul s1 j;
                 y3 = fe_sub (fe_mul r (fe_sub v x3)) (fe_add s1j s1j);
                 temp_z = fe_add (pz p) (pz q); temp_z = fe_square temp_z;
                 z3 = fe_mul (fe_sub (fe_sub temp_z z1z1) z2z2) h
             in \<lparr>px = x3, py = y3, pz = z3, pinf = False\<rparr>)"

definition jacobian_add :: "jac64 \<Rightarrow> jac64 \<Rightarrow> jac64" where
  "jacobian_add p q =
     (if pinf p then q else if pinf q then p
      else
        let z1z1 = fe_square (pz p);
            z2z2 = fe_square (pz q);
            u1 = fe_mul (px p) z2z2;
            u2 = fe_mul (px q) z1z1;
            s1 = fe_mul (fe_mul (py p) (pz q)) z2z2;
            s2 = fe_mul (fe_mul (py q) (pz p)) z1z1
        in if fe_eq u1 u2
           then (if fe_eq s1 s2 then jacobian_double p else jac64_infinity)
           else
             let h = fe_sub u2 u1;
                 i = fe_add h h; i = fe_square i;
                 j = fe_mul h i;
                 r = fe_add (fe_sub s2 s1) (fe_sub s2 s1);
                 v = fe_mul u1 i;
                 x3 = fe_square r;
                 x3 = fe_sub x3 (fe_add (fe_add j v) v);
                 s1j = fe_mul s1 j;
                 y3 = fe_sub (fe_mul r (fe_sub v x3)) (fe_add s1j s1j);
                 temp_z = fe_add (pz p) (pz q); temp_z = fe_square temp_z;
                 z3 = fe_mul (fe_sub (fe_sub temp_z z1z1) z2z2) h
             in \<lparr>px = x3, py = y3, pz = z3, pinf = False\<rparr>)"

section \<open>Residues\<close>

definition rep64 :: "fp \<Rightarrow> field_element \<Rightarrow> bool" where
  "rep64 x a \<longleftrightarrow> fe_ok a \<and> of_int (fval a) = x"

lemma rep64_eq: "rep64 x a \<Longrightarrow> x = y \<Longrightarrow> rep64 y a"
  by simp

lemma rep64_add: "rep64 x a \<Longrightarrow> rep64 y b \<Longrightarrow> rep64 (x + y) (fe_add a b)"
  by (auto simp: rep64_def fval_add)

lemma rep64_sub: "rep64 x a \<Longrightarrow> rep64 y b \<Longrightarrow> rep64 (x - y) (fe_sub a b)"
  by (auto simp: rep64_def fval_sub)

lemma rep64_mul: "rep64 x a \<Longrightarrow> rep64 y b \<Longrightarrow> rep64 (x * y) (fe_mul a b)"
  by (auto simp: rep64_def fval_mul)

lemma rep64_square: "rep64 x a \<Longrightarrow> rep64 (x * x) (fe_square a)"
  by (auto simp: rep64_def fval_square)

lemma rep64_const: "rep64 0 fe_zero" "rep64 1 fe_one"
  by (simp_all add: rep64_def fval_small)

lemma rep64_fe_eq: "rep64 x a \<Longrightarrow> rep64 y b \<Longrightarrow> fe_eq a b \<longleftrightarrow> x = y"
  by (auto simp: rep64_def fe_eq_iff fp_eq_iff)

lemmas rep64_ops = rep64_add rep64_sub rep64_mul rep64_square

definition jac64_rep :: "jac64 \<Rightarrow> curve_point \<Rightarrow> bool" where
  "jac64_rep p P \<longleftrightarrow> (if pinf p then P = Infinity
     else \<exists>x y z. P = Affine x y \<and> fp_unit z \<and> rep64 (x * z ^ 2) (px p) \<and> rep64 (y * z ^ 3) (py p) \<and> rep64 z (pz p))"

fun aff64_rep :: "aff64 \<Rightarrow> curve_point \<Rightarrow> bool" where
  "aff64_rep q Infinity \<longleftrightarrow> False"
| "aff64_rep q (Affine x y) \<longleftrightarrow> rep64 x (qx q) \<and> rep64 y (qy q)"

lemma jac64_repE:
  assumes "jac64_rep p P" "\<not> pinf p"
  obtains x y z where "P = Affine x y" "fp_unit z" "rep64 (x * z ^ 2) (px p)" "rep64 (y * z ^ 3) (py p)" "rep64 z (pz p)"
  using assms by (auto simp: jac64_rep_def)

lemma jac64_rep_intro:
  "rep64 X a \<Longrightarrow> rep64 Y b \<Longrightarrow> rep64 z c \<Longrightarrow> X = x * z ^ 2 \<Longrightarrow> Y = y * z ^ 3 \<Longrightarrow> fp_unit z \<Longrightarrow>
    jac64_rep \<lparr>px = a, py = b, pz = c, pinf = False\<rparr> (Affine x y)"
  by (auto simp: jac64_rep_def)

lemma jac64_rep_infinity [simp]: "jac64_rep p Infinity \<longleftrightarrow> pinf p"
  by (simp add: jac64_rep_def)

lemmas fp_expand = algebra_simps power2_eq_square power3_eq_cube power4_eq_xxxx

section \<open>Refinement\<close>

lemma jacobian_double_inplace_rep:
  assumes "jac64_rep p P" "ec_add P P R"
  shows "jac64_rep (jacobian_double_inplace p) R"
proof (cases "pinf p")
  case True
  then show ?thesis using assms by (simp add: jac64_rep_def ec_add_left_iff jacobian_double_inplace_def)
next
  case False
  from jac64_repE [OF assms(1) False] obtain x y z where p: "P = Affine x y" "fp_unit z"
    "rep64 (x * z ^ 2) (px p)" "rep64 (y * z ^ 3) (py p)" "rep64 z (pz p)" .
  from assms(2) [unfolded p(1)] show ?thesis
  proof (cases rule: ec_add_affineE)
    case (tangent s)
    define k where "k = 2 * (y * z ^ 4)"
    define A B where AB: "A = fe_square (px p)" "B = fe_square (py p)"
    define C where "C = fe_square B"
    define T where "T = fe_sub (fe_sub (fe_square (fe_add (px p) B)) A) C"
    define D where "D = fe_add T T"
    define E where "E = fe_add (fe_add A A) A"
    define X3 where "X3 = fe_sub (fe_square E) (fe_add D D)"
    define C2 where "C2 = fe_add C C"
    define C8 where "C8 = fe_add (fe_add C2 C2) (fe_add C2 C2)"
    define Y3 where "Y3 = fe_sub (fe_mul E (fe_sub D X3)) C8"
    define Z3 where "Z3 = fe_add (fe_mul (py p) (pz p)) (fe_mul (py p) (pz p))"
    have e: "jacobian_double_inplace p = \<lparr>px = X3, py = Y3, pz = Z3, pinf = False\<rparr>"
      using False by (simp add: jacobian_double_inplace_def Let_def AB C_def T_def D_def E_def X3_def C2_def C8_def Y3_def Z3_def)
    have A: "rep64 (x ^ 2 * z ^ 4) A" unfolding AB by (rule rep64_eq [OF rep64_square [OF p(3)]]) (simp add: fp_expand)
    have B: "rep64 (y * z ^ 3 * (y * z ^ 3)) B" unfolding AB by (rule rep64_square [OF p(4)])
    have C: "rep64 (y * z ^ 3 * (y * z ^ 3) * (y * z ^ 3 * (y * z ^ 3))) C" unfolding C_def by (rule rep64_square [OF B])
    have "rep64 ((x * z ^ 2 + y * z ^ 3 * (y * z ^ 3)) * (x * z ^ 2 + y * z ^ 3 * (y * z ^ 3)) - x ^ 2 * z ^ 4 -
        y * z ^ 3 * (y * z ^ 3) * (y * z ^ 3 * (y * z ^ 3))) T"
      unfolding T_def by (intro rep64_ops p(3) A B C)
    then have T: "rep64 (2 * (x * y ^ 2) * z ^ 8) T"
      by (rule rep64_eq) (simp add: fp_expand eval_nat_numeral)
    have "3 * (x ^ 2 * z ^ 4) = s * k" unfolding k_def using arg_cong [OF tangent(4), of "\<lambda>a. a * z ^ 4"] by (simp add: ac_simps)
    moreover have "rep64 (x ^ 2 * z ^ 4 + x ^ 2 * z ^ 4 + x ^ 2 * z ^ 4) E" unfolding E_def by (intro rep64_ops A)
    ultimately have E: "rep64 (s * k) E" by (elim rep64_eq) (simp add: algebra_simps)
    have "rep64 (2 * (x * y ^ 2) * z ^ 8 + 2 * (x * y ^ 2) * z ^ 8) D" unfolding D_def by (intro rep64_ops T)
    then have D: "rep64 (x * k ^ 2) D" by (rule rep64_eq) (simp add: k_def fp_expand eval_nat_numeral)
    have "rep64 (s * k * (s * k) - (x * k ^ 2 + x * k ^ 2)) X3" unfolding X3_def by (intro rep64_ops E D)
    then have X3: "rep64 ((s ^ 2 - 2 * x) * k ^ 2) X3" by (rule rep64_eq) (simp add: fp_expand)
    have C2: "rep64 (y * z ^ 3 * (y * z ^ 3) * (y * z ^ 3 * (y * z ^ 3)) + y * z ^ 3 * (y * z ^ 3) * (y * z ^ 3 * (y * z ^ 3))) C2"
      unfolding C2_def by (rule rep64_add [OF C C])
    have "8 * (y * z ^ 3 * (y * z ^ 3) * (y * z ^ 3 * (y * z ^ 3))) = y * k ^ 3" by (simp add: k_def fp_expand eval_nat_numeral)
    with rep64_add [OF rep64_add [OF C2 C2] rep64_add [OF C2 C2]] have C8: "rep64 (y * k ^ 3) C8"
      unfolding C8_def by (elim rep64_eq) (simp add: algebra_simps)
    have Y3: "rep64 (s * k * (x * k ^ 2 - (s ^ 2 - 2 * x) * k ^ 2) - y * k ^ 3) Y3" unfolding Y3_def by (intro rep64_ops E D X3 C8)
    have "rep64 (y * z ^ 3 * z + y * z ^ 3 * z) Z3" unfolding Z3_def by (intro rep64_ops p(4,5))
    then have Z3: "rep64 k Z3" by (rule rep64_eq) (simp add: k_def fp_expand)
    have "fp_unit k" unfolding k_def using p(2) tangent(3) by blast
    then show ?thesis unfolding e tangent(5)
      by (intro jac64_rep_intro [OF X3 Y3 Z3]) (simp_all add: fp_expand)
  qed simp_all
qed

text \<open>
  On a chord both additions compute \<open>h = (x2 - x) k^2\<close>, \<open>r = 2 (y2 - y) k^3\<close> for the common scale \<open>k\<close>,
  and the new scale \<open>2 (x2 - x) k^3\<close>.
\<close>

lemma chord64_rep:
  assumes u1: "rep64 (x * k ^ 2) u1" and s1: "rep64 (y * k ^ 3) s1" and s2: "rep64 ((y + s * d) * k ^ 3) s2"
    and h: "rep64 (d * k ^ 2) h" and i: "rep64 (4 * (d * k ^ 2) * (d * k ^ 2)) i" and z3: "rep64 (2 * d * k ^ 3) z3" and u: "fp_unit k" "fp_unit d"
  shows "let j = fe_mul h i; r = fe_add (fe_sub s2 s1) (fe_sub s2 s1); v = fe_mul u1 i; x3 = fe_sub (fe_square r) (fe_add (fe_add j v) v);
      s1j = fe_mul s1 j; y3 = fe_sub (fe_mul r (fe_sub v x3)) (fe_add s1j s1j)
    in jac64_rep \<lparr>px = x3, py = y3, pz = z3, pinf = False\<rparr> (Affine (s ^ 2 - x - (x + d)) (s * (x - (s ^ 2 - x - (x + d))) - y))"
proof -
  define j where "j = fe_mul h i"
  define r where "r = fe_add (fe_sub s2 s1) (fe_sub s2 s1)"
  define v where "v = fe_mul u1 i"
  define x3 where "x3 = fe_sub (fe_square r) (fe_add (fe_add j v) v)"
  define s1j where "s1j = fe_mul s1 j"
  define y3 where "y3 = fe_sub (fe_mul r (fe_sub v x3)) (fe_add s1j s1j)"
  have j: "rep64 (d * k ^ 2 * (4 * (d * k ^ 2) * (d * k ^ 2))) j" unfolding j_def by (rule rep64_mul [OF h i])
  have v: "rep64 (x * k ^ 2 * (4 * (d * k ^ 2) * (d * k ^ 2))) v" unfolding v_def by (rule rep64_mul [OF u1 i])
  have "rep64 ((y + s * d) * k ^ 3 - y * k ^ 3 + ((y + s * d) * k ^ 3 - y * k ^ 3)) r" unfolding r_def by (intro rep64_ops s1 s2)
  then have r: "rep64 (2 * s * d * k ^ 3) r" by (rule rep64_eq) (simp add: fp_expand)
  have "rep64 (2 * s * d * k ^ 3 * (2 * s * d * k ^ 3) - (d * k ^ 2 * (4 * (d * k ^ 2) * (d * k ^ 2)) +
      x * k ^ 2 * (4 * (d * k ^ 2) * (d * k ^ 2)) + x * k ^ 2 * (4 * (d * k ^ 2) * (d * k ^ 2)))) x3"
    unfolding x3_def by (intro rep64_ops r j v)
  then have x3: "rep64 ((s ^ 2 - x - (x + d)) * (2 * d * k ^ 3) ^ 2) x3" by (rule rep64_eq) (simp add: fp_expand)
  have s1j: "rep64 (y * k ^ 3 * (d * k ^ 2 * (4 * (d * k ^ 2) * (d * k ^ 2)))) s1j" unfolding s1j_def by (rule rep64_mul [OF s1 j])
  have y3: "rep64 (2 * s * d * k ^ 3 * (x * k ^ 2 * (4 * (d * k ^ 2) * (d * k ^ 2)) - (s ^ 2 - x - (x + d)) * (2 * d * k ^ 3) ^ 2) -
      (y * k ^ 3 * (d * k ^ 2 * (4 * (d * k ^ 2) * (d * k ^ 2))) + y * k ^ 3 * (d * k ^ 2 * (4 * (d * k ^ 2) * (d * k ^ 2))))) y3"
    unfolding y3_def by (intro rep64_ops r v x3 s1j)
  have y3': "rep64 ((s * (x - (s ^ 2 - x - (x + d))) - y) * (2 * d * k ^ 3) ^ 3) y3"
    by (rule rep64_eq [OF y3]) (simp add: fp_expand)
  have "fp_unit (2 * d * k ^ 3)" using u by blast
  then have "jac64_rep \<lparr>px = x3, py = y3, pz = z3, pinf = False\<rparr> (Affine (s ^ 2 - x - (x + d)) (s * (x - (s ^ 2 - x - (x + d))) - y))"
    by (intro jac64_rep_intro [OF x3 y3' z3]) simp_all
  then show ?thesis unfolding Let_def y3_def s1j_def x3_def v_def r_def j_def .
qed

lemma fp_unit_mult_zero: "fp_unit b \<Longrightarrow> a * b = c * b \<longleftrightarrow> a = c"
  using fp_unit_cancel [of b a c] by (simp add: mult.commute)

lemma jacobian_add_mixed_inplace_rep:
  assumes "jac64_rep p P" "aff64_rep q Q" "ec_add P Q R"
  shows "jac64_rep (jacobian_add_mixed_inplace p q) R"
proof -
  obtain x2 y2 where q: "Q = Affine x2 y2" "rep64 x2 (qx q)" "rep64 y2 (qy q)" using assms(2) by (cases Q) auto
  show ?thesis
  proof (cases "pinf p")
    case True
    then have "R = Affine x2 y2" using assms(1,3) by (simp add: jac64_rep_def ec_add_left_iff q(1))
    moreover have "jac64_rep \<lparr>px = qx q, py = qy q, pz = fe_one, pinf = False\<rparr> (Affine x2 y2)"
      by (rule jac64_rep_intro [OF q(2,3) rep64_const(2)]) simp_all
    ultimately show ?thesis using True by (simp add: jacobian_add_mixed_inplace_def)
  next
    case False
    from jac64_repE [OF assms(1) False] obtain x y z where p: "P = Affine x y" "fp_unit z"
      "rep64 (x * z ^ 2) (px p)" "rep64 (y * z ^ 3) (py p)" "rep64 z (pz p)" .
    define zz where "zz = fe_square (pz p)"
    define u2 where "u2 = fe_mul (qx q) zz"
    define s2 where "s2 = fe_mul (fe_mul (qy q) (pz p)) zz"
    define h where "h = fe_sub u2 (px p)"
    define hh where "hh = fe_square h"
    define i where "i = fe_add (fe_add (fe_add hh hh) hh) hh"
    define z3 where "z3 = fe_sub (fe_square (fe_add (pz p) h)) (fe_add zz hh)"
    have zz: "rep64 (z * z) zz" unfolding zz_def by (rule rep64_square [OF p(5)])
    have u2: "rep64 (x2 * z ^ 2) u2" unfolding u2_def by (rule rep64_eq [OF rep64_mul [OF q(2) zz]]) (simp add: fp_expand)
    have s2: "rep64 (y2 * z ^ 3) s2" unfolding s2_def by (rule rep64_eq [OF rep64_mul [OF rep64_mul [OF q(3) p(5)] zz]]) (simp add: fp_expand)
    have zu: "fp_unit (z ^ 2)" "fp_unit (z ^ 3)" using p(2) by blast+
    have eq: "fe_eq (px p) u2 \<longleftrightarrow> x2 = x" "fe_eq (py p) s2 \<longleftrightarrow> y2 = y"
      using rep64_fe_eq [OF p(3) u2] rep64_fe_eq [OF p(4) s2] by (auto simp: fp_unit_mult_zero [OF zu(1)] fp_unit_mult_zero [OF zu(2)])
    note unf = jacobian_add_mixed_inplace_def zz_def [symmetric] u2_def [symmetric] s2_def [symmetric] h_def [symmetric] hh_def [symmetric]
      i_def [symmetric] z3_def [symmetric]
    from assms(3) [unfolded p(1) q(1)] show ?thesis
    proof (cases rule: ec_add_affineE)
      case (chord w t)
      have d: "fp_unit (x2 - x)" using chord(1) by (auto simp: fp_unit_def)
      have ne: "x2 \<noteq> x" using fp_unit_nonzero [OF d] by auto
      have h: "rep64 ((x2 - x) * z ^ 2) h" unfolding h_def by (rule rep64_eq [OF rep64_sub [OF u2 p(3)]]) (simp add: fp_expand)
      have hh: "rep64 ((x2 - x) * z ^ 2 * ((x2 - x) * z ^ 2)) hh" unfolding hh_def by (rule rep64_square [OF h])
      have "rep64 ((x2 - x) * z ^ 2 * ((x2 - x) * z ^ 2) + (x2 - x) * z ^ 2 * ((x2 - x) * z ^ 2) + (x2 - x) * z ^ 2 * ((x2 - x) * z ^ 2) +
          (x2 - x) * z ^ 2 * ((x2 - x) * z ^ 2)) i" unfolding i_def by (intro rep64_ops hh)
      then have i: "rep64 (4 * ((x2 - x) * z ^ 2) * ((x2 - x) * z ^ 2)) i" by (rule rep64_eq) (simp add: algebra_simps)
      have "rep64 ((z + (x2 - x) * z ^ 2) * (z + (x2 - x) * z ^ 2) - (z * z + (x2 - x) * z ^ 2 * ((x2 - x) * z ^ 2))) z3"
        unfolding z3_def by (intro rep64_ops p(5) h zz hh)
      then have z3: "rep64 (2 * (x2 - x) * z ^ 3) z3" by (rule rep64_eq) (simp add: fp_expand)
      have "y + t * (x2 - x) = y2" using chord(2) by simp
      with s2 have s2: "rep64 ((y + t * (x2 - x)) * z ^ 3) s2" by simp
      from chord64_rep [OF p(3,4) s2 h i z3 p(2) d] show ?thesis
        using False ne unfolding unf Let_def eq chord(3) by simp
    next
      case (tangent t)
      then have "ec_add P P R" using assms(3) by (simp add: p(1) q(1))
      then show ?thesis using jacobian_double_inplace_rep [OF assms(1)] tangent(1,2) False unfolding unf Let_def eq by simp
    next
      case opposite
      then have "y2 \<noteq> y" by auto
      then show ?thesis using opposite(1,4) False unfolding unf Let_def eq by simp
    qed
  qed
qed

lemma jacobian_add_eq: "jacobian_add p q = jacobian_add_inplace p q"
  unfolding jacobian_add_def jacobian_add_inplace_def jacobian_double_def ..

lemma jacobian_add_inplace_rep:
  assumes "jac64_rep p P" "jac64_rep q Q" "ec_add P Q R"
  shows "jac64_rep (jacobian_add_inplace p q) R"
proof -
  consider "pinf p" | "\<not> pinf p" "pinf q" | "\<not> pinf p" "\<not> pinf q" by blast
  then show ?thesis
  proof cases
    case 1
    then show ?thesis using assms by (simp add: jac64_rep_def ec_add_left_iff jacobian_add_inplace_def)
  next
    case 2
    then show ?thesis using assms by (simp add: jac64_rep_def ec_add_right_iff jacobian_add_inplace_def)
  next
    case 3
    from jac64_repE [OF assms(1) 3(1)] obtain x y z where p: "P = Affine x y" "fp_unit z"
      "rep64 (x * z ^ 2) (px p)" "rep64 (y * z ^ 3) (py p)" "rep64 z (pz p)" .
    from jac64_repE [OF assms(2) 3(2)] obtain x2 y2 z' where q: "Q = Affine x2 y2" "fp_unit z'"
      "rep64 (x2 * z' ^ 2) (px q)" "rep64 (y2 * z' ^ 3) (py q)" "rep64 z' (pz q)" .
    define k where "k = z * z'"
    define zz where "zz = fe_square (pz p)"
    define zz' where "zz' = fe_square (pz q)"
    define u1 where "u1 = fe_mul (px p) zz'"
    define u2 where "u2 = fe_mul (px q) zz"
    define s1 where "s1 = fe_mul (fe_mul (py p) (pz q)) zz'"
    define s2 where "s2 = fe_mul (fe_mul (py q) (pz p)) zz"
    define h where "h = fe_sub u2 u1"
    define i where "i = fe_square (fe_add h h)"
    define z3 where "z3 = fe_mul (fe_sub (fe_sub (fe_square (fe_add (pz p) (pz q))) zz) zz') h"
    have zz: "rep64 (z * z) zz" "rep64 (z' * z') zz'" unfolding zz_def zz'_def by (rule rep64_square [OF p(5)] rep64_square [OF q(5)])+
    have u: "rep64 (x * k ^ 2) u1" "rep64 (x2 * k ^ 2) u2" unfolding u1_def u2_def k_def
      by (rule rep64_eq [OF rep64_mul [OF p(3) zz(2)]] rep64_eq [OF rep64_mul [OF q(3) zz(1)]]; simp add: fp_expand)+
    have s: "rep64 (y * k ^ 3) s1" "rep64 (y2 * k ^ 3) s2" unfolding s1_def s2_def k_def
      by (rule rep64_eq [OF rep64_mul [OF rep64_mul [OF p(4) q(5)] zz(2)]] rep64_eq [OF rep64_mul [OF rep64_mul [OF q(4) p(5)] zz(1)]]; simp add: fp_expand)+
    have k: "fp_unit k" "fp_unit (k ^ 2)" "fp_unit (k ^ 3)" unfolding k_def using p(2) q(2) by blast+
    have eq: "fe_eq u1 u2 \<longleftrightarrow> x2 = x" "fe_eq s1 s2 \<longleftrightarrow> y2 = y"
      using rep64_fe_eq [OF u] rep64_fe_eq [OF s] by (auto simp: fp_unit_mult_zero [OF k(2)] fp_unit_mult_zero [OF k(3)])
    note unf = jacobian_add_inplace_def zz_def [symmetric] zz'_def [symmetric] u1_def [symmetric] u2_def [symmetric] s1_def [symmetric]
      s2_def [symmetric] h_def [symmetric] i_def [symmetric] z3_def [symmetric]
    from assms(3) [unfolded p(1) q(1)] show ?thesis
    proof (cases rule: ec_add_affineE)
      case (chord w t)
      have d: "fp_unit (x2 - x)" using chord(1) by (auto simp: fp_unit_def)
      have ne: "x2 \<noteq> x" using fp_unit_nonzero [OF d] by auto
      have h: "rep64 ((x2 - x) * k ^ 2) h" unfolding h_def by (rule rep64_eq [OF rep64_sub [OF u(2,1)]]) (simp add: fp_expand)
      have "rep64 (((x2 - x) * k ^ 2 + (x2 - x) * k ^ 2) * ((x2 - x) * k ^ 2 + (x2 - x) * k ^ 2)) i" unfolding i_def by (intro rep64_ops h)
      then have i: "rep64 (4 * ((x2 - x) * k ^ 2) * ((x2 - x) * k ^ 2)) i" by (rule rep64_eq) (simp add: algebra_simps)
      have "rep64 (((z + z') * (z + z') - z * z - z' * z') * ((x2 - x) * k ^ 2)) z3" unfolding z3_def by (intro rep64_ops p(5) q(5) zz h)
      then have z3: "rep64 (2 * (x2 - x) * k ^ 3) z3" by (rule rep64_eq) (simp add: k_def fp_expand)
      have "y + t * (x2 - x) = y2" using chord(2) by simp
      with s(2) have s2: "rep64 ((y + t * (x2 - x)) * k ^ 3) s2" by simp
      from chord64_rep [OF u(1) s(1) s2 h i z3 k(1) d] show ?thesis
        using 3 ne unfolding unf Let_def eq chord(3) by simp
    next
      case (tangent t)
      then have "ec_add P P R" using assms(3) by (simp add: p(1) q(1))
      then show ?thesis using jacobian_double_inplace_rep [OF assms(1)] tangent(1,2) 3 unfolding unf Let_def eq by simp
    next
      case opposite
      then have "y2 \<noteq> y" by auto
      then show ?thesis using opposite(1,4) 3 unfolding unf Let_def eq by simp
    qed
  qed
qed

section \<open>Properties\<close>

lemma jacobian_double_rep: "jac64_rep p P \<Longrightarrow> ec_add P P R \<Longrightarrow> jac64_rep (jacobian_double p) R"
  unfolding jacobian_double_def by (rule jacobian_double_inplace_rep)

lemma jacobian_add_rep: "jac64_rep p P \<Longrightarrow> jac64_rep q Q \<Longrightarrow> ec_add P Q R \<Longrightarrow> jac64_rep (jacobian_add p q) R"
  unfolding jacobian_add_eq by (rule jacobian_add_inplace_rep)

interpretation j64: curve_arith jac64_rep jacobian_double jacobian_add
  by unfold_locales (rule jacobian_double_rep, assumption+, rule jacobian_add_rep)

text \<open>Two Jacobian triples of one point, compared by cross-multiplication as \<open>operator==\<close> of points would.\<close>

definition same_jacobian :: "jac52 \<Rightarrow> jac64 \<Rightarrow> bool" where
  "same_jacobian p q \<longleftrightarrow> jinf p = pinf q \<and> (\<not> jinf p \<longrightarrow>
     (fe52_val (jx p) * fval (pz q) ^ 2) mod prime_p = (fval (px q) * fe52_val (jz p) ^ 2) mod prime_p \<and>
     (fe52_val (jy p) * fval (pz q) ^ 3) mod prime_p = (fval (py q) * fe52_val (jz p) ^ 3) mod prime_p)"

lemma same_jacobianI:
  assumes "jac_rep p P" "jac64_rep q P"
  shows "same_jacobian p q"
proof (cases "jinf p")
  case True
  then have "P = Infinity" using assms(1) by (simp add: jac_rep_def)
  then have "pinf q" using assms(2) by (cases "pinf q") (auto simp: jac64_rep_def)
  then show ?thesis using True by (simp add: same_jacobian_def)
next
  case False
  from jac_repE [OF assms(1) False] obtain x y z where p: "P = Affine x y"
    "rep52 8 287 (x * z ^ 2) (jx p)" "rep52 4 159 (y * z ^ 3) (jy p)" "rep52 1 33 z (jz p)" by metis
  have "\<not> pinf q" using assms(2) p(1) by (auto simp: jac64_rep_def)
  from jac64_repE [OF assms(2) this] obtain x' y' z' where q: "P = Affine x' y'"
    "rep64 (x' * z' ^ 2) (px q)" "rep64 (y' * z' ^ 3) (py q)" "rep64 z' (pz q)" by metis
  have e: "x' = x" "y' = y" using p(1) q(1) by simp_all
  have v: "of_int (fe52_val (jx p)) = x * z ^ 2" "of_int (fe52_val (jy p)) = y * z ^ 3" "of_int (fe52_val (jz p)) = z"
    "of_int (fval (px q)) = x * z' ^ 2" "of_int (fval (py q)) = y * z' ^ 3" "of_int (fval (pz q)) = z'"
    using p q by (simp_all add: rep52_def rep64_def e)
  have "(of_int (fe52_val (jx p) * fval (pz q) ^ 2) :: fp) = of_int (fval (px q) * fe52_val (jz p) ^ 2)"
    "(of_int (fe52_val (jy p) * fval (pz q) ^ 3) :: fp) = of_int (fval (py q) * fe52_val (jz p) ^ 3)"
    by (simp_all add: v ac_simps)
  then show ?thesis using False \<open>\<not> pinf q\<close> unfolding fp_eq_iff by (simp add: same_jacobian_def)
qed

definition jac64_of :: "int \<times> int \<Rightarrow> jac64" where
  "jac64_of c = \<lparr>px = fe52_to_fe (fe52_of_int (fst c)), py = fe52_to_fe (fe52_of_int (snd c)), pz = fe_one, pinf = False\<rparr>"

lemma rep64_of_int: "0 \<le> v \<Longrightarrow> v < 2 ^ 256 \<Longrightarrow> rep64 (of_int v) (fe52_to_fe (fe52_of_int v))"
  using fe52_of_int [of v] fe52_to_fe_val [OF mag_loose [OF reduced_mag], of "fe52_of_int v"] by (simp add: rep64_def)

lemma jac64_of_rep: "coords_ok c \<Longrightarrow> jac64_rep (jac64_of c) (pt c)"
  using rep64_of_int [of "fst c"] rep64_of_int [of "snd c"]
  by (auto simp: jac64_rep_def jac64_of_def pt_def coords_ok_def rep64_def fval_small intro!: exI [of _ "1 :: fp"])

text \<open>C21: The 4x64 formulas refine the addition of the curve along any sequence of doublings and additions, and end in the same point as
  the 5x52 formulas on the same inputs: both infinite, or equal after cross-multiplication by the other's Z.\<close>

theorem jac64_steps_correct:
  assumes "list_all2 (rel_group_step jac64_rep) s64 SS" "jac64_rep p64 P" "ec_steps SS P R"
    "list_all2 (rel_group_step jac_rep) s52 SS" "jac_rep p52 P"
  shows "jac64_rep (run_steps jacobian_double jacobian_add s64 p64) R \<and>
    same_jacobian (run_steps jac52_double jac52_add s52 p52) (run_steps jacobian_double jacobian_add s64 p64)"
  using j64.steps_rep [OF assms(1-3)] same_jacobianI [OF j52.steps_rep [OF assms(4,5,3)]] by blast

definition sample_double_add :: "curve_point group_step list" where
  "sample_double_add = [Double, Add (pt mulG1)]"

lemma sample_double_add: "ec_steps sample_double_add (pt mulG1) (pt mulG3)"
  unfolding sample_double_add_def by (rule ec_steps.intros ec_step.intros gen_double gen_odd_3)+

theorem jac64_steps_correct_witness:
  "same_jacobian (run_steps jac52_double jac52_add [Double, Add (jac52_of mulG1)] (jac52_of mulG1))
     (run_steps jacobian_double jacobian_add [Double, Add (jac64_of mulG1)] (jac64_of mulG1))"
proof -
  have "list_all2 (rel_group_step jac64_rep) [Double, Add (jac64_of mulG1)] sample_double_add"
    "list_all2 (rel_group_step jac_rep) [Double, Add (jac52_of mulG1)] sample_double_add"
    by (simp_all add: sample_double_add_def jac64_of_rep jac52_of_rep coords_ok_mulG)
  from jac64_steps_correct [OF this(1) jac64_of_rep sample_double_add this(2) jac52_of_rep] coords_ok_mulG show ?thesis by blast
qed

end
