(* ===== verification/Point52.thy ===== *)
theory Point52
  imports Jac52
begin

text \<open>
  The class \<open>Point\<close> of point.hpp and point.cpp in the 5x52 build: Jacobian coordinates with the flags
  \<open>infinity_\<close>, \<open>is_generator_\<close> and \<open>z_one_\<close>. The constructors and factories, doubling, negation, the in-place
  additions and subtractions, the steps by the generator, and the serialisation of points whose flags spare it the
  inversion. Every operation refines the addition of the curve and keeps what the flags promise.
\<close>

unbundle bit_operations_syntax

section \<open>The class\<close>

record point =
  pt_x :: fe52
  pt_y :: fe52
  pt_z :: fe52
  pt_infinity :: bool
  pt_is_generator :: bool
  pt_z_one :: bool

text \<open>The constructors; \<open>z_one_\<close> starts false.\<close>

definition point_default :: point where
  "point_default = \<lparr>pt_x = fe52_zero, pt_y = fe52_one, pt_z = fe52_zero, pt_infinity = True, pt_is_generator = False, pt_z_one = False\<rparr>"

definition point_of_fe :: "field_element \<Rightarrow> field_element \<Rightarrow> field_element \<Rightarrow> bool \<Rightarrow> point" where
  "point_of_fe x y z is_inf =
     \<lparr>pt_x = fe52_from_fe x, pt_y = fe52_from_fe y, pt_z = fe52_from_fe z, pt_infinity = is_inf, pt_is_generator = False, pt_z_one = False\<rparr>"

definition point_of_fe52 :: "fe52 \<Rightarrow> fe52 \<Rightarrow> fe52 \<Rightarrow> bool \<Rightarrow> bool \<Rightarrow> point" where
  "point_of_fe52 x y z is_inf is_gen =
     \<lparr>pt_x = x, pt_y = y, pt_z = z, pt_infinity = is_inf, pt_is_generator = is_gen, pt_z_one = False\<rparr>"

definition point_infinity :: point where
  "point_infinity = point_of_fe fe_zero fe_one fe_zero True"

definition from_jacobian_coords :: "field_element \<Rightarrow> field_element \<Rightarrow> field_element \<Rightarrow> bool \<Rightarrow> point" where
  "from_jacobian_coords x y z is_inf = (if is_inf \<or> fe_eq z fe_zero then point_infinity else point_of_fe x y z False)"

definition from_jacobian52 :: "fe52 \<Rightarrow> fe52 \<Rightarrow> fe52 \<Rightarrow> bool \<Rightarrow> point" where
  "from_jacobian52 x y z is_inf = (if is_inf then point_infinity else point_of_fe52 x y z False False)"

definition from_affine52 :: "fe52 \<Rightarrow> fe52 \<Rightarrow> point" where
  "from_affine52 x y =
     (let p = point_of_fe52 x y fe52_one False False
      in p\<lparr>pt_x := fe52_normalize (pt_x p), pt_y := fe52_normalize (pt_y p), pt_z_one := True\<rparr>)"

definition from_affine :: "field_element \<Rightarrow> field_element \<Rightarrow> point" where
  "from_affine x y =
     (let p = point_of_fe x y (fe_from_uint64 1) False
      in p\<lparr>pt_x := fe52_normalize (pt_x p), pt_y := fe52_normalize (pt_y p), pt_z_one := True\<rparr>)"

definition point_from_hex :: "string \<Rightarrow> string \<Rightarrow> hex_error + point" where
  "point_from_hex x_hex y_hex =
     (case fe_from_hex x_hex of Inl e \<Rightarrow> Inl e
      | Inr x \<Rightarrow> (case fe_from_hex y_hex of Inl e \<Rightarrow> Inl e | Inr y \<Rightarrow> Inr (from_affine x y)))"

definition kGeneratorX :: field_element where
  "kGeneratorX = fe_from_bytes
     [0x79,0xBE,0x66,0x7E,0xF9,0xDC,0xBB,0xAC, 0x55,0xA0,0x62,0x95,0xCE,0x87,0x0B,0x07,
      0x02,0x9B,0xFC,0xDB,0x2D,0xCE,0x28,0xD9, 0x59,0xF2,0x81,0x5B,0x16,0xF8,0x17,0x98]"

definition kGeneratorY :: field_element where
  "kGeneratorY = fe_from_bytes
     [0x48,0x3A,0xDA,0x77,0x26,0xA3,0xC4,0x65, 0x5D,0xA4,0xFB,0xFC,0x0E,0x11,0x08,0xA8,
      0xFD,0x17,0xB4,0x48,0xA6,0x85,0x54,0x19, 0x9C,0x47,0xD0,0x8F,0xFB,0x10,0xD4,0xB8]"

definition kNegGeneratorY :: field_element where
  "kNegGeneratorY = fe_from_bytes
     [0xB7,0xC5,0x25,0x88,0xD9,0x5C,0x3B,0x9A, 0xA2,0x5B,0x04,0x03,0xF1,0xEE,0xF7,0x57,
      0x02,0xE8,0x4B,0xB7,0x59,0x7A,0xAB,0xE6, 0x63,0xB8,0x2F,0x6F,0x04,0xEF,0x27,0x77]"

definition point_generator :: point where
  "point_generator = (point_of_fe kGeneratorX kGeneratorY (fe_from_uint64 1) False)\<lparr>pt_is_generator := True, pt_z_one := True\<rparr>"

text \<open>The raw coordinates (\<open>X\<close>, \<open>Y\<close>, \<open>z\<close>, \<open>x_raw\<close>, ...) and the test for a point at infinity of \<open>z_fe_nonzero\<close>.\<close>

definition point_X :: "point \<Rightarrow> field_element" where "point_X p = fe52_to_fe (pt_x p)"
definition point_Y :: "point \<Rightarrow> field_element" where "point_Y p = fe52_to_fe (pt_y p)"
definition point_Z :: "point \<Rightarrow> field_element" where "point_Z p = fe52_to_fe (pt_z p)"

definition z_fe_nonzero :: "point \<Rightarrow> bool \<times> field_element" where
  "z_fe_nonzero p = (let fe = fe52_to_fe (pt_z p) in (limbs_or (fe_limbs fe) \<noteq> 0, fe))"

section \<open>Arithmetic\<close>

abbreviation jac_of :: "point \<Rightarrow> jac52" where
  "jac_of p \<equiv> \<lparr>jx = pt_x p, jy = pt_y p, jz = pt_z p, jinf = pt_infinity p\<rparr>"

text \<open>The result of an in-place operation: coordinates and \<open>infinity_\<close> written back, \<open>is_generator_\<close> cleared.\<close>

abbreviation store_jac :: "jac52 \<Rightarrow> point \<Rightarrow> point" where
  "store_jac r p \<equiv> p\<lparr>pt_x := jx r, pt_y := jy r, pt_z := jz r, pt_infinity := jinf r, pt_is_generator := False\<rparr>"

definition point_dbl :: "point \<Rightarrow> point" where
  "point_dbl p =
     (if pt_infinity p then point_of_fe52 (pt_x p) (pt_y p) (pt_z p) True False
      else
        case (if pt_z_one p then jac52_double_z1_to (pt_x p) (pt_y p) else jac52_double_to (pt_x p) (pt_y p) (pt_z p)) of
          (x, y, z) \<Rightarrow> point_default\<lparr>pt_x := x, pt_y := y, pt_z := z, pt_infinity := False, pt_is_generator := False, pt_z_one := False\<rparr>)"

definition point_negate :: "point \<Rightarrow> point" where
  "point_negate p =
     (if pt_infinity p then p
      else
        let neg_y = pt_y p;
            neg_y = fe52_normalize_weak neg_y;
            neg_y = fe52_negate 1 neg_y;
            neg_y = fe52_normalize_weak neg_y
        in (point_of_fe52 (pt_x p) neg_y (pt_z p) False False)\<lparr>pt_z_one := pt_z_one p\<rparr>)"

definition add_gen_mixed :: "point \<Rightarrow> field_element \<Rightarrow> point" where
  "add_gen_mixed self gen_y =
     (let r = jac52_add_mixed_inplace (jac_of self) \<lparr>ax = fe52_from_fe kGeneratorX, ay = fe52_from_fe gen_y\<rparr>
      in from_jacobian52 (jx r) (jy r) (jz r) (jinf r))"

definition point_next :: "point \<Rightarrow> point" where "point_next p = add_gen_mixed p kGeneratorY"
definition point_prev :: "point \<Rightarrow> point" where "point_prev p = add_gen_mixed p kNegGeneratorY"

definition next_inplace :: "point \<Rightarrow> point" where
  "next_inplace p =
     (let p = p\<lparr>pt_z_one := False\<rparr>
      in if pt_infinity p then point_generator else add_gen_mixed p kGeneratorY)"

definition prev_inplace :: "point \<Rightarrow> point" where
  "prev_inplace p =
     (let p = p\<lparr>pt_z_one := False\<rparr>
      in if pt_infinity p then point_negate point_generator else add_gen_mixed p kNegGeneratorY)"

definition point_add_inplace :: "point \<Rightarrow> point \<Rightarrow> point" where
  "point_add_inplace p other =
     (let p = p\<lparr>pt_z_one := False\<rparr>
      in if \<not> pt_infinity other \<and> fe52_is_one_raw (pt_z other)
         then store_jac (jac52_add_mixed_inplace (jac_of p) \<lparr>ax = pt_x other, ay = pt_y other\<rparr>) p
         else store_jac (jac52_add_inplace (jac_of p) (jac_of other)) p)"

definition point_sub_inplace :: "point \<Rightarrow> point \<Rightarrow> point" where
  "point_sub_inplace p other =
     (let p = p\<lparr>pt_z_one := False\<rparr>;
          q = jac_of other;
          q = q\<lparr>jy := fe52_normalize_weak (jy q)\<rparr>;
          q = q\<lparr>jy := fe52_negate 1 (jy q)\<rparr>;
          q = q\<lparr>jy := fe52_normalize_weak (jy q)\<rparr>
      in store_jac (jac52_add_inplace (jac_of p) q) p)"

definition point_dbl_inplace :: "point \<Rightarrow> point" where
  "point_dbl_inplace p =
     (let p = p\<lparr>pt_z_one := False\<rparr>
      in if pt_infinity p then p
         else case jac52_double_coords (pt_x p) (pt_y p) (pt_z p) of
           (x, y, z) \<Rightarrow> p\<lparr>pt_x := x, pt_y := y, pt_z := z, pt_is_generator := False\<rparr>)"

definition point_negate_inplace :: "point \<Rightarrow> point" where
  "point_negate_inplace p =
     (let p = p\<lparr>pt_y := fe52_normalize_weak (pt_y p)\<rparr>;
          p = p\<lparr>pt_y := fe52_negate 1 (pt_y p)\<rparr>;
          p = p\<lparr>pt_y := fe52_normalize_weak (pt_y p)\<rparr>
      in p\<lparr>pt_is_generator := False\<rparr>)"

definition point_add_mixed_inplace :: "point \<Rightarrow> field_element \<Rightarrow> field_element \<Rightarrow> point" where
  "point_add_mixed_inplace p x y =
     (let p = p\<lparr>pt_z_one := False\<rparr>
      in if pt_infinity p
         then p\<lparr>pt_x := fe52_from_fe x, pt_y := fe52_from_fe y, pt_z := fe52_one, pt_infinity := False, pt_is_generator := False\<rparr>
         else store_jac (jac52_add_mixed_inplace (jac_of p) \<lparr>ax = fe52_from_fe x, ay = fe52_from_fe y\<rparr>) p)"

definition point_sub_mixed_inplace :: "point \<Rightarrow> field_element \<Rightarrow> field_element \<Rightarrow> point" where
  "point_sub_mixed_inplace p x y = (let neg_y = fe_sub fe_zero y in point_add_mixed_inplace p x neg_y)"

definition add_affine_constant_inplace :: "point \<Rightarrow> field_element \<Rightarrow> field_element \<Rightarrow> point" where
  "add_affine_constant_inplace p x y = (let p = p\<lparr>pt_z_one := False\<rparr> in point_add_mixed_inplace p x y)"

text \<open>The mixed additions of 5x52 coordinates, the formula of \<open>jac52_add_mixed_inplace\<close> on the members.\<close>

definition add_mixed52_inplace :: "point \<Rightarrow> fe52 \<Rightarrow> fe52 \<Rightarrow> point" where
  "add_mixed52_inplace p x2 y2 =
     (let p = p\<lparr>pt_z_one := False\<rparr>
      in if pt_infinity p
         then p\<lparr>pt_x := x2, pt_y := y2, pt_z := fe52_one, pt_infinity := False, pt_is_generator := False\<rparr>
         else
           let zz = fe52_square (pt_z p);
               u2 = fe52_mul x2 zz;
               s2 = fe52_mul y2 zz;
               s2 = fe52_mul s2 (pt_z p);
               negX1 = fe52_negate 8 (pt_x p);
               h = fe52_add u2 negX1
           in if fe52_normalizes_to_zero_var h
              then (let negY1 = fe52_negate 4 (pt_y p);
                        diff = fe52_add s2 negY1
                    in if fe52_normalizes_to_zero_var diff
                       then (case jac52_double_coords (pt_x p) (pt_y p) (pt_z p) of
                           (x, y, z) \<Rightarrow> p\<lparr>pt_x := x, pt_y := y, pt_z := z, pt_infinity := False, pt_is_generator := False\<rparr>)
                       else p\<lparr>pt_x := fe52_zero, pt_y := fe52_one, pt_z := fe52_zero, pt_infinity := True, pt_is_generator := False\<rparr>)
              else
                let z = fe52_mul (pt_z p) h;
                    negS2 = fe52_negate 1 s2;
                    i_val = fe52_add (pt_y p) negS2;
                    h2 = fe52_square h;
                    i2 = fe52_square i_val;
                    h2 = fe52_negate 1 h2;
                    h3 = fe52_mul h2 h;
                    t = fe52_mul (pt_x p) h2;
                    x = fe52_add i2 h3;
                    x = fe52_add x t;
                    x = fe52_add x t;
                    t = fe52_add t x;
                    h3 = fe52_mul h3 (pt_y p);
                    y = fe52_mul t i_val;
                    y = fe52_add y h3
                in p\<lparr>pt_x := x, pt_y := y, pt_z := z, pt_infinity := False, pt_is_generator := False\<rparr>)"

definition add_mixed52_neg_inplace :: "point \<Rightarrow> fe52 \<Rightarrow> fe52 \<Rightarrow> point" where
  "add_mixed52_neg_inplace p x2 y2 =
     (let p = p\<lparr>pt_z_one := False\<rparr>
      in if pt_infinity p
         then p\<lparr>pt_x := x2, pt_y := fe52_negate 1 y2, pt_z := fe52_one, pt_infinity := False, pt_is_generator := False\<rparr>
         else
           let zz = fe52_square (pt_z p);
               u2 = fe52_mul x2 zz;
               s2 = fe52_mul y2 zz;
               s2 = fe52_mul s2 (pt_z p);
               negX1 = fe52_negate 8 (pt_x p);
               h = fe52_add u2 negX1
           in if fe52_normalizes_to_zero_var h
              then (let sum = fe52_add (pt_y p) s2
                    in if fe52_normalizes_to_zero_var sum
                       then (case jac52_double_coords (pt_x p) (pt_y p) (pt_z p) of
                           (x, y, z) \<Rightarrow> p\<lparr>pt_x := x, pt_y := y, pt_z := z, pt_infinity := False, pt_is_generator := False\<rparr>)
                       else p\<lparr>pt_x := fe52_zero, pt_y := fe52_one, pt_z := fe52_zero, pt_infinity := True, pt_is_generator := False\<rparr>)
              else
                let z = fe52_mul (pt_z p) h;
                    i_val = fe52_add (pt_y p) s2;
                    h2 = fe52_square h;
                    i2 = fe52_square i_val;
                    h2 = fe52_negate 1 h2;
                    h3 = fe52_mul h2 h;
                    t = fe52_mul (pt_x p) h2;
                    x = fe52_add i2 h3;
                    x = fe52_add x t;
                    x = fe52_add x t;
                    t = fe52_add t x;
                    h3 = fe52_mul h3 (pt_y p);
                    y = fe52_mul t i_val;
                    y = fe52_add y h3
                in p\<lparr>pt_x := x, pt_y := y, pt_z := z, pt_infinity := False, pt_is_generator := False\<rparr>)"

section \<open>Serialisation without an inversion\<close>

text \<open>
  The branches of the accessors and of the serialisation for infinity and for \<open>z_one_\<close>. They are these functions on the
  points with one of the flags set; for the others the functions divide by \<open>z_\<close> first.
\<close>

definition flagged :: "point \<Rightarrow> bool" where "flagged p \<longleftrightarrow> pt_infinity p \<or> pt_z_one p"

definition point_x_flagged :: "point \<Rightarrow> field_element" where
  "point_x_flagged p = (if pt_infinity p then fe_zero else fe52_to_fe (pt_x p))"

definition point_y_flagged :: "point \<Rightarrow> field_element" where
  "point_y_flagged p = (if pt_infinity p then fe_zero else fe52_to_fe (pt_y p))"

definition to_compressed_flagged :: "point \<Rightarrow> bytes" where
  "to_compressed_flagged p =
     (if pt_infinity p then replicate 33 0
      else (if n0 (pt_y p) AND 1 \<noteq> 0 then 0x03 else 0x02) # fe52_store_b32_prenorm (pt_x p))"

definition to_uncompressed_flagged :: "point \<Rightarrow> bytes" where
  "to_uncompressed_flagged p =
     (if pt_infinity p then replicate 65 0
      else 0x04 # fe52_store_b32_prenorm (pt_x p) @ fe52_store_b32_prenorm (pt_y p))"

definition has_even_y_flagged :: "point \<Rightarrow> bool" where
  "has_even_y_flagged p = (if pt_infinity p then False else n0 (pt_y p) AND 1 = 0)"

definition x_bytes_and_parity_flagged :: "point \<Rightarrow> bytes \<times> bool" where
  "x_bytes_and_parity_flagged p =
     (if pt_infinity p then (replicate 32 0, False)
      else (let y_odd = n0 (pt_y p) AND 1 \<noteq> 0; xb = fe52_store_b32_prenorm (pt_x p) in (xb, y_odd)))"

definition x_only_bytes_flagged :: "point \<Rightarrow> bytes" where
  "x_only_bytes_flagged p = (if pt_infinity p then replicate 32 0 else fe52_store_b32_prenorm (pt_x p))"

section \<open>Refinement of the addition of the curve\<close>

lemma generator_vals:
  "fval kGeneratorX = 0x79BE667EF9DCBBAC55A06295CE870B07029BFCDB2DCE28D959F2815B16F81798"
  "fval kGeneratorY = 0x483ADA7726A3C4655DA4FBFC0E1108A8FD17B448A68554199C47D08FFB10D4B8"
  "fval kNegGeneratorY = prime_p - 0x483ADA7726A3C4655DA4FBFC0E1108A8FD17B448A68554199C47D08FFB10D4B8"
  by (simp_all add: kGeneratorX_def kGeneratorY_def kNegGeneratorY_def fval_from_bytes prime_p_def)

lemma gen_point_coords:
  "gen_point = Affine (of_int 0x79BE667EF9DCBBAC55A06295CE870B07029BFCDB2DCE28D959F2815B16F81798)
     (of_int 0x483ADA7726A3C4655DA4FBFC0E1108A8FD17B448A68554199C47D08FFB10D4B8)"
  by (simp only: gen_point_def pt_def mulG1_def fst_conv snd_conv)

text \<open>A point object and the point it stands for, with what its flags promise.\<close>

definition point_rep :: "point \<Rightarrow> curve_point \<Rightarrow> bool" where
  "point_rep p P \<longleftrightarrow> jac_rep (jac_of p) P \<and>
     (pt_z_one p \<and> \<not> pt_infinity p \<longrightarrow> pt_z p = fe52_one \<and> mag 1 33 (pt_x p) \<and> mag 1 33 (pt_y p)) \<and>
     (pt_is_generator p \<longrightarrow> P = gen_point)"

lemma point_rep_infinity: "point_rep p P \<Longrightarrow> pt_infinity p \<longleftrightarrow> P = Infinity"
proof -
  assume "point_rep p P"
  then have "jac_rep (jac_of p) P" by (simp add: point_rep_def)
  then show ?thesis by (cases "pt_infinity p") (auto simp: jac_rep_def)
qed

lemma point_rep_jac: "point_rep p P \<Longrightarrow> jac_rep (jac_of p) P"
  by (simp add: point_rep_def)

lemma point_rep_store [intro]:
  "jac_rep r R \<Longrightarrow> point_rep (store_jac r (p\<lparr>pt_z_one := False\<rparr>)) R"
  by (cases r) (simp add: point_rep_def)

lemma rep52_affine_one: "rep52 8 287 (x * z ^ 2) X \<Longrightarrow> rep52 4 159 (y * z ^ 3) Y \<Longrightarrow> z = 1 \<Longrightarrow> aff_rep \<lparr>ax = X, ay = Y\<rparr> (Affine x y)"
  by simp

lemma jac_rep_affine_one:
  assumes "jac_rep q Q" "\<not> jinf q" "jz q = fe52_one"
  obtains x y where "Q = Affine x y" "rep52 8 287 x (jx q)" "rep52 4 159 y (jy q)"
proof -
  from jac_repE [OF assms(1,2)] obtain x y z where q: "Q = Affine x y" "fp_unit z"
    "rep52 8 287 (x * z ^ 2) (jx q)" "rep52 4 159 (y * z ^ 3) (jy q)" "rep52 1 33 z (jz q)" .
  have "z = 1" using q(5) rep52_const(2) assms(3) by (simp add: rep52_def)
  then show ?thesis using that q by simp
qed

lemma fe52_is_one_raw_iff: "fe52_is_one_raw a \<longleftrightarrow> a = fe52_one"
  by (cases a) (auto simp: fe52_one_def)

lemma rep52_from_fe: "rep52 1 32 (of_int (fval x)) (fe52_from_fe x)"
  by (simp add: rep52_def fe52_from_fe_val reduced_mag)

lemma aff_rep_from_fe: "aff_rep \<lparr>ax = fe52_from_fe x, ay = fe52_from_fe y\<rparr> (Affine (of_int (fval x)) (of_int (fval y)))"
  by (simp add: rep52_mono [OF rep52_from_fe])

lemma fe52_from_fe_one: "fe52_from_fe (fe_from_uint64 1) = fe52_one"
proof (rule fe52_val_inj)
  show "fe52_val (fe52_from_fe (fe_from_uint64 1)) = fe52_val fe52_one"
    by (simp add: fe52_from_fe_val fval_small fe52_one_def)
qed (simp_all add: fe52_from_fe_val fe52_one_def)

lemma point_infinity_rep: "point_rep point_infinity Infinity" "point_rep point_default Infinity"
  by (simp_all add: point_rep_def point_infinity_def point_of_fe_def point_default_def)

lemma from_jacobian52_rep: "jac_rep r R \<Longrightarrow> point_rep (from_jacobian52 (jx r) (jy r) (jz r) (jinf r)) R"
proof (cases "jinf r")
  case True
  assume "jac_rep r R"
  with True have "R = Infinity" by (simp add: jac_rep_def)
  with True show ?thesis by (simp add: from_jacobian52_def point_infinity_rep)
next
  case False
  assume "jac_rep r R"
  moreover have "jac_of (point_of_fe52 (jx r) (jy r) (jz r) False False) = r" using False by (cases r) (simp add: point_of_fe52_def)
  ultimately have "point_rep (point_of_fe52 (jx r) (jy r) (jz r) False False) R" by (simp add: point_rep_def point_of_fe52_def)
  then show ?thesis using False by (simp add: from_jacobian52_def)
qed

lemma point_generator_rep: "point_rep point_generator gen_point"
proof -
  have "jac_rep \<lparr>jx = fe52_from_fe kGeneratorX, jy = fe52_from_fe kGeneratorY, jz = fe52_one, jinf = False\<rparr> gen_point"
    unfolding gen_point_coords generator_vals [symmetric]
    by (rule jac_rep_affine) (rule rep52_mono [OF rep52_from_fe]; simp)+
  then show ?thesis
    by (simp add: point_rep_def point_generator_def point_of_fe_def fe52_from_fe_one mag_mono [OF reduced_mag [OF fe52_from_fe_val(2)]])
qed

text \<open>Doubling with \<open>Z = 1\<close>.\<close>

lemma jac52_double_z1_to_eq:
  "jac52_double_z1_to x y = (case jac52_double_coords x y fe52_one of (x3, y3, z3) \<Rightarrow> (x3, y3, y))"
  unfolding jac52_double_z1_to_def jac52_double_coords_def Let_def by simp

lemma jac52_double_z1_to_rep:
  assumes "rep52 8 287 x X" "rep52 1 33 y Y" "ec_add (Affine x y) (Affine x y) R" "jac52_double_z1_to X Y = (X3, Y3, Z3)"
  shows "jac_rep \<lparr>jx = X3, jy = Y3, jz = Z3, jinf = False\<rparr> R"
proof -
  obtain Z' where d: "jac52_double_coords X Y fe52_one = (X3, Y3, Z')" and z: "Z3 = Y"
    using assms(4) by (auto simp: jac52_double_z1_to_eq split: prod.splits)
  have Y: "rep52 4 159 y Y" by (rule rep52_mono [OF assms(2)]) simp_all
  from assms(3) show ?thesis
  proof (cases rule: ec_add_affineE)
    case (tangent s)
    have X1: "rep52 8 287 (x * 1 ^ 2) X" and Y1: "rep52 4 159 (y * 1 ^ 3) Y" using assms(1) Y by simp_all
    note c = jac52_double_coords_rep [OF X1 Y1 rep52_const(2) tangent(4) d]
    show ?thesis unfolding tangent(5) z
    proof (rule jac_rep_intro [where z = y])
      show "rep52 8 287 ((s\<^sup>2 - 2 * x) * y\<^sup>2) X3" using rep52_mono [OF c(1), of 8 287] by simp
      show "rep52 4 159 ((s * (x - (s\<^sup>2 - 2 * x)) - y) * y ^ 3) Y3" using rep52_mono [OF c(2), of 4 159] by simp
    qed (use assms(2) tangent(3) in simp_all)
  qed (use ec_add_affineE in auto)
qed

lemma point_dbl_rep:
  assumes "point_rep p P" "ec_add P P R"
  shows "point_rep (point_dbl p) R"
proof (cases "pt_infinity p")
  case True
  then have "P = Infinity" using point_rep_infinity [OF assms(1)] by simp
  then have "R = Infinity" using assms(2) by (simp add: ec_add_left_iff)
  then show ?thesis using True by (simp add: point_dbl_def point_rep_def point_of_fe52_def)
next
  case False
  note j = point_rep_jac [OF assms(1)]
  have r: "point_rep (point_dbl p) R" if
    d: "(if pt_z_one p then jac52_double_z1_to (pt_x p) (pt_y p) else jac52_double_to (pt_x p) (pt_y p) (pt_z p)) = (X, Y, Z)" and
    "jac_rep \<lparr>jx = X, jy = Y, jz = Z, jinf = False\<rparr> R" for X Y Z
    unfolding point_dbl_def d prod.case using False that(2) by (simp add: point_rep_def point_default_def)
  show ?thesis
  proof (cases "pt_z_one p")
    case one: True
    then have z: "pt_z p = fe52_one" and m: "mag 1 33 (pt_y p)" using assms(1) False by (simp_all add: point_rep_def)
    from jac_rep_affine_one [OF j] False z obtain x y where
      q: "P = Affine x y" "rep52 8 287 x (pt_x p)" "rep52 4 159 y (pt_y p)" by auto
    have y: "rep52 1 33 y (pt_y p)" using q(3) m by (simp add: rep52_def)
    obtain X Y Z where d: "jac52_double_z1_to (pt_x p) (pt_y p) = (X, Y, Z)" by (metis prod_cases3)
    show ?thesis by (rule r [OF _ jac52_double_z1_to_rep [OF q(2) y assms(2) [unfolded q(1)] d]]) (simp add: one d)
  next
    case general: False
    obtain X Y Z where d: "jac52_double_coords (pt_x p) (pt_y p) (pt_z p) = (X, Y, Z)" by (metis prod_cases3)
    have "jac_rep (jac52_double_inplace (jac_of p)) R" by (rule jac52_double_inplace_rep [OF j assms(2)])
    then have "jac_rep \<lparr>jx = X, jy = Y, jz = Z, jinf = False\<rparr> R" using False by (simp add: jac52_double_inplace_def d)
    then show ?thesis by (intro r) (simp add: general jac52_double_to_eq d)
  qed
qed

lemma point_dbl_inplace_rep:
  assumes "point_rep p P" "ec_add P P R"
  shows "point_rep (point_dbl_inplace p) R"
proof (cases "pt_infinity p")
  case True
  then have "P = Infinity" using point_rep_infinity [OF assms(1)] by simp
  then have "R = Infinity" using assms(2) by (simp add: ec_add_left_iff)
  then show ?thesis using True assms(1) \<open>P = Infinity\<close> by (simp add: point_dbl_inplace_def point_rep_def)
next
  case False
  obtain X Y Z where d: "jac52_double_coords (pt_x p) (pt_y p) (pt_z p) = (X, Y, Z)" by (metis prod_cases3)
  have "jac_rep (jac52_double_inplace (jac_of p)) R" by (rule jac52_double_inplace_rep [OF point_rep_jac [OF assms(1)] assms(2)])
  then have "jac_rep \<lparr>jx = X, jy = Y, jz = Z, jinf = False\<rparr> R" using False by (simp add: jac52_double_inplace_def d)
  then show ?thesis using False by (simp add: point_dbl_inplace_def Let_def d point_rep_def)
qed

text \<open>Negation.\<close>

definition negated_y :: "fe52 \<Rightarrow> fe52" where
  "negated_y y = fe52_normalize_weak (fe52_negate 1 (fe52_normalize_weak y))"

lemma jac_rep_negated_y:
  assumes "jac_rep q P"
  shows "jac_rep (q\<lparr>jy := negated_y (jy q)\<rparr>) (ec_neg P)"
proof -
  have "q\<lparr>jy := negated_y (jy q)\<rparr> = jac52_negate q" by (simp add: jac52_negate_def negated_y_def)
  then show ?thesis using jac52_negate_rep [OF assms] by simp
qed

lemma negated_y_rep: "rep52 4 159 y Y \<Longrightarrow> rep52 1 32 (- y) (negated_y Y)"
proof -
  assume y: "rep52 4 159 y Y"
  have "rep52 1 32 y (fe52_normalize_weak Y)" by (rule rep52_normalize_weak [OF y]) simp_all
  from rep52_negate [OF this, of 1] have "rep52 2 64 (- y) (fe52_negate 1 (fe52_normalize_weak Y))" by simp
  then show ?thesis unfolding negated_y_def by (rule rep52_normalize_weak) simp_all
qed

lemma negated_y_mag:
  assumes "jac_rep (jac_of p) P" "\<not> pt_infinity p"
  shows "mag 1 33 (negated_y (pt_y p))"
proof -
  from jac_repE [OF assms(1)] assms(2) obtain y z where "rep52 4 159 (y * z ^ 3) (pt_y p)" by (metis jac52.select_convs(2,4))
  from negated_y_rep [OF this] show ?thesis by (auto simp: rep52_def intro: mag_mono)
qed

lemma point_negate_rep: "point_rep p P \<Longrightarrow> point_rep (point_negate p) (ec_neg P)"
proof (cases "pt_infinity p")
  case True
  assume "point_rep p P"
  then show ?thesis using True point_rep_infinity [of p P] by (simp add: point_negate_def)
next
  case False
  assume p: "point_rep p P"
  from jac_rep_negated_y [OF point_rep_jac [OF p]] negated_y_mag [OF point_rep_jac [OF p] False]
  show ?thesis using False p by (simp add: point_negate_def point_of_fe52_def negated_y_def point_rep_def)
qed

lemma point_negate_inplace_rep: "point_rep p P \<Longrightarrow> point_rep (point_negate_inplace p) (ec_neg P)"
proof -
  assume p: "point_rep p P"
  from jac_rep_negated_y [OF point_rep_jac [OF p]] negated_y_mag [OF point_rep_jac [OF p]]
  show ?thesis using p by (simp add: point_negate_inplace_def negated_y_def point_rep_def)
qed

text \<open>The additions.\<close>

lemma point_add_inplace_rep:
  assumes "point_rep p P" "point_rep q Q" "ec_add P Q R"
  shows "point_rep (point_add_inplace p q) R"
proof (cases "\<not> pt_infinity q \<and> fe52_is_one_raw (pt_z q)")
  case True
  from jac_rep_affine_one [OF point_rep_jac [OF assms(2)]] True obtain x y where
    q: "Q = Affine x y" "rep52 8 287 x (pt_x q)" "rep52 4 159 y (pt_y q)" by (auto simp: fe52_is_one_raw_iff)
  have "aff_rep \<lparr>ax = pt_x q, ay = pt_y q\<rparr> Q" using q by simp
  from jac52_add_mixed_inplace_rep [OF point_rep_jac [OF assms(1)] this assms(3)]
  show ?thesis using True by (auto simp: point_add_inplace_def)
next
  case False
  from jac52_add_inplace_rep [OF point_rep_jac [OF assms(1)] point_rep_jac [OF assms(2)] assms(3)]
  show ?thesis using False by (auto simp: point_add_inplace_def)
qed

lemma point_sub_inplace_rep:
  assumes "point_rep p P" "point_rep q Q" "ec_add P (ec_neg Q) R"
  shows "point_rep (point_sub_inplace p q) R"
proof -
  note n = jac_rep_negated_y [OF point_rep_jac [OF assms(2)]]
  from jac52_add_inplace_rep [OF point_rep_jac [OF assms(1)] n assms(3)]
  show ?thesis by (auto simp: point_sub_inplace_def negated_y_def Let_def)
qed

lemma point_add_mixed_inplace_rep:
  assumes "point_rep p P" "ec_add P (Affine (of_int (fval x)) (of_int (fval y))) R"
  shows "point_rep (point_add_mixed_inplace p x y) R"
proof -
  have "jac_rep (jac52_add_mixed_inplace (jac_of p) \<lparr>ax = fe52_from_fe x, ay = fe52_from_fe y\<rparr>) R"
    by (rule jac52_add_mixed_inplace_rep [OF point_rep_jac [OF assms(1)] aff_rep_from_fe assms(2)])
  moreover have "point_add_mixed_inplace p x y =
      store_jac (jac52_add_mixed_inplace (jac_of p) \<lparr>ax = fe52_from_fe x, ay = fe52_from_fe y\<rparr>) (p\<lparr>pt_z_one := False\<rparr>)"
    by (cases "pt_infinity p") (simp_all add: point_add_mixed_inplace_def, simp add: jac52_add_mixed_inplace_def)
  ultimately show ?thesis by auto
qed

lemma point_sub_mixed_inplace_rep:
  assumes "point_rep p P" "fe_ok y" "ec_add P (ec_neg (Affine (of_int (fval x)) (of_int (fval y)))) R"
  shows "point_rep (point_sub_mixed_inplace p x y) R"
proof -
  have "(of_int (fval (fe_sub fe_zero y)) :: fp) = - of_int (fval y)" using assms(2) by (simp add: fval_sub fval_small)
  then show ?thesis unfolding point_sub_mixed_inplace_def Let_def
    by (intro point_add_mixed_inplace_rep [OF assms(1)]) (use assms(3) in simp)
qed

lemma point_unflag_rep: "point_rep p P \<Longrightarrow> point_rep (p\<lparr>pt_z_one := False\<rparr>) P"
  by (simp add: point_rep_def)

lemma add_affine_constant_inplace_rep:
  "point_rep p P \<Longrightarrow> ec_add P (Affine (of_int (fval x)) (of_int (fval y))) R \<Longrightarrow> point_rep (add_affine_constant_inplace p x y) R"
  unfolding add_affine_constant_inplace_def Let_def by (rule point_add_mixed_inplace_rep [OF point_unflag_rep])

text \<open>The steps by the generator.\<close>

lemma add_gen_mixed_rep:
  assumes "point_rep p P" "ec_add P (Affine (of_int (fval kGeneratorX)) (of_int (fval y))) R"
  shows "point_rep (add_gen_mixed p y) R"
  unfolding add_gen_mixed_def Let_def
  by (rule from_jacobian52_rep jac52_add_mixed_inplace_rep point_rep_jac aff_rep_from_fe assms)+

lemma gen_point_fvals:
  "gen_point = Affine (of_int (fval kGeneratorX)) (of_int (fval kGeneratorY))"
  "ec_neg gen_point = Affine (of_int (fval kGeneratorX)) (of_int (fval kNegGeneratorY))"
  by (simp_all add: gen_point_coords generator_vals of_int_diff del: of_int_numeral)

lemma gen_point_neg: "ec_add P (ec_neg gen_point) R \<Longrightarrow> ec_add P (Affine (of_int (fval kGeneratorX)) (of_int (fval kNegGeneratorY))) R"
  by (simp only: gen_point_fvals(2))

lemma point_next_rep: "point_rep p P \<Longrightarrow> ec_add P gen_point R \<Longrightarrow> point_rep (point_next p) R"
  unfolding point_next_def gen_point_fvals by (rule add_gen_mixed_rep)

lemma point_prev_rep: "point_rep p P \<Longrightarrow> ec_add P (ec_neg gen_point) R \<Longrightarrow> point_rep (point_prev p) R"
  unfolding point_prev_def by (rule add_gen_mixed_rep [OF _ gen_point_neg])

lemma next_inplace_rep:
  assumes "point_rep p P" "ec_add P gen_point R"
  shows "point_rep (next_inplace p) R"
proof (cases "pt_infinity p")
  case True
  then have "R = gen_point" using point_rep_infinity [OF assms(1)] assms(2) by (simp add: ec_add_left_iff)
  then show ?thesis using True point_generator_rep by (simp add: next_inplace_def)
next
  case False
  from add_gen_mixed_rep [OF point_unflag_rep [OF assms(1)], of kGeneratorY R] show ?thesis
    using False assms(2) by (simp add: next_inplace_def gen_point_fvals)
qed

lemma prev_inplace_rep:
  assumes "point_rep p P" "ec_add P (ec_neg gen_point) R"
  shows "point_rep (prev_inplace p) R"
proof (cases "pt_infinity p")
  case True
  then have "R = ec_neg gen_point" using point_rep_infinity [OF assms(1)] assms(2) by (simp add: ec_add_left_iff)
  then show ?thesis using True point_negate_rep [OF point_generator_rep] by (simp add: prev_inplace_def)
next
  case False
  from add_gen_mixed_rep [OF point_unflag_rep [OF assms(1)] gen_point_neg [OF assms(2)]] show ?thesis
    using False by (simp add: prev_inplace_def)
qed

text \<open>The mixed additions on the members.\<close>

lemma add_mixed52_inplace_eq:
  "add_mixed52_inplace p x y = store_jac (jac52_add_mixed_inplace (jac_of p) \<lparr>ax = x, ay = y\<rparr>) (p\<lparr>pt_z_one := False\<rparr>)"
  unfolding add_mixed52_inplace_def jac52_add_mixed_inplace_def Let_def jac52_double_inplace_def
  by (simp split: prod.split)

lemma add_mixed52_neg_inplace_eq:
  "add_mixed52_neg_inplace p x y = store_jac (jac52_add_mixed_neg_inplace (jac_of p) \<lparr>ax = x, ay = y\<rparr>) (p\<lparr>pt_z_one := False\<rparr>)"
  unfolding add_mixed52_neg_inplace_def jac52_add_mixed_neg_inplace_def Let_def jac52_double_inplace_def
  by (simp split: prod.split)

lemma add_mixed52_inplace_rep:
  assumes "point_rep p P" "aff_rep \<lparr>ax = x, ay = y\<rparr> Q" "ec_add P Q R"
  shows "point_rep (add_mixed52_inplace p x y) R"
  unfolding add_mixed52_inplace_eq
  by (rule point_rep_store jac52_add_mixed_inplace_rep point_rep_jac assms)+

lemma add_mixed52_neg_inplace_rep:
  assumes "point_rep p P" "aff_rep \<lparr>ax = x, ay = y\<rparr> Q" "mag 1 63 y" "ec_add P (ec_neg Q) R"
  shows "point_rep (add_mixed52_neg_inplace p x y) R"
  unfolding add_mixed52_neg_inplace_eq
  by (intro point_rep_store jac52_add_mixed_neg_inplace_rep [OF point_rep_jac [OF assms(1)] assms(2)]) (use assms(3,4) in simp_all)

section \<open>Canonical coordinates\<close>

definition canonical52 :: "fe52 \<Rightarrow> bool" where
  "canonical52 a \<longleftrightarrow> fe52_reduced a \<and> fe52_val a < prime_p"

lemma canonical52_normalize: "fe52_loose a \<Longrightarrow> canonical52 (fe52_normalize a)"
  using fe52_normalize_val [of a] prime_p_bounds by (simp add: canonical52_def)

lemma canonical52_loose: "canonical52 a \<Longrightarrow> fe52_loose a"
  by (auto simp: canonical52_def intro: mag_loose [OF reduced_mag])

lemma canonical52_bounds: "canonical52 a \<Longrightarrow> 0 \<le> fe52_val a \<and> fe52_val a < prime_p"
  using fe52_val_reduced [of a] by (simp add: canonical52_def)

lemma fval_canonical52: "canonical52 a \<Longrightarrow> fval (fe52_to_fe a) = fe52_val a"
  using canonical52_bounds [of a] by (simp add: fe52_to_fe_val canonical52_loose)

lemma canonical52_normalize_id: "canonical52 a \<Longrightarrow> fe52_normalize a = a"
  using fe52_normalize_val [OF canonical52_loose, of a] canonical52_bounds [of a]
  by (intro fe52_val_inj) (simp_all add: canonical52_def)

text \<open>For canonical coordinates the raw stores are the bytes of the 4x64 element, and the low bit is the parity.\<close>

lemma store_canonical52: "canonical52 a \<Longrightarrow> fe52_store_b32_prenorm a = fe_to_bytes (fe52_to_fe a)"
  by (simp add: fe52_store_b32_prenorm_pack fe_to_bytes_def fe52_to_fe_def canonical52_normalize_id)

lemma fe52_low_bit: "n0 a AND 1 = 0 \<longleftrightarrow> even (fe52_val a)"
proof -
  obtain a0 a1 a2 a3 a4 where a: "a = Fe52 a0 a1 a2 a3 a4" by (cases a)
  have "a0 AND 1 = 0 \<longleftrightarrow> even (uint a0)"
    by (simp add: word_uint_eq_iff uint_and_1 even_iff_mod_2_eq_zero)
  then show ?thesis by (simp add: a)
qed

definition parity_prefix :: "int \<Rightarrow> byte" where
  "parity_prefix y = (if even y then 0x02 else 0x03)"

lemma to_compressed_flagged_eq:
  "\<not> pt_infinity p \<Longrightarrow> to_compressed_flagged p = parity_prefix (fe52_val (pt_y p)) # fe52_store_b32_prenorm (pt_x p)"
  by (simp add: to_compressed_flagged_def fe52_low_bit parity_prefix_def)

text \<open>A point with \<open>z_one_\<close> whose coordinates are canonical: what the factories make.\<close>

definition affine_canonical :: "point \<Rightarrow> bool" where
  "affine_canonical p \<longleftrightarrow> pt_z_one p \<and> \<not> pt_infinity p \<and> pt_z p = fe52_one \<and> canonical52 (pt_x p) \<and> canonical52 (pt_y p)"

lemma from_affine52_canonical:
  assumes "fe52_loose x" "fe52_loose y"
  shows "affine_canonical (from_affine52 x y)"
    "fe52_val (pt_x (from_affine52 x y)) = fe52_val x mod prime_p" "fe52_val (pt_y (from_affine52 x y)) = fe52_val y mod prime_p"
  using assms by (simp_all add: from_affine52_def affine_canonical_def point_of_fe52_def canonical52_normalize fe52_normalize_val)

lemma fe52_from_fe_loose: "fe52_loose (fe52_from_fe x)"
  by (rule mag_loose [OF reduced_mag [OF fe52_from_fe_val(2)]]) simp_all

lemma from_affine_canonical:
  "affine_canonical (from_affine x y)" "fe52_val (pt_x (from_affine x y)) = fval x mod prime_p" "fe52_val (pt_y (from_affine x y)) = fval y mod prime_p"
  by (simp_all add: from_affine_def affine_canonical_def point_of_fe_def canonical52_normalize fe52_from_fe_loose
      fe52_from_fe_one fe52_normalize_val fe52_from_fe_val)

lemma canonical_generator: "affine_canonical point_generator"
  unfolding affine_canonical_def point_generator_def point_of_fe_def
  by (simp add: fe52_from_fe_one canonical52_def fe52_from_fe_val generator_vals) (simp add: prime_p_def)

lemma affine_canonical_rep:
  assumes "affine_canonical p" "\<not> pt_is_generator p"
  shows "point_rep p (Affine (of_int (fe52_val (pt_x p))) (of_int (fe52_val (pt_y p))))"
proof -
  have m: "mag 1 32 (pt_x p)" "mag 1 32 (pt_y p)" using assms(1) by (simp_all add: affine_canonical_def canonical52_def reduced_mag)
  then have "rep52 8 287 (of_int (fe52_val (pt_x p))) (pt_x p)" "rep52 4 159 (of_int (fe52_val (pt_y p))) (pt_y p)"
    by (auto simp: rep52_def intro: mag_mono)
  from jac_rep_affine [OF this] show ?thesis
    using assms m by (auto simp: point_rep_def affine_canonical_def intro: mag_mono)
qed

lemma from_affine_rep: "point_rep (from_affine x y) (Affine (of_int (fval x)) (of_int (fval y)))"
  using affine_canonical_rep [OF from_affine_canonical(1), of x y]
  by (simp add: from_affine_canonical(2,3)) (simp add: from_affine_def point_of_fe_def)

lemma from_affine52_rep:
  "fe52_loose x \<Longrightarrow> fe52_loose y \<Longrightarrow> point_rep (from_affine52 x y) (Affine (of_int (fe52_val x)) (of_int (fe52_val y)))"
  using affine_canonical_rep [OF from_affine52_canonical(1), of x y]
  by (simp add: from_affine52_canonical(2,3)) (simp add: from_affine52_def point_of_fe52_def)

text \<open>What the serialisations write then.\<close>

lemma flagged_serialisation:
  assumes "affine_canonical p"
  shows "to_compressed_flagged p = parity_prefix (fval (point_y_flagged p)) # fe_to_bytes (point_x_flagged p)"
    "to_uncompressed_flagged p = 0x04 # fe_to_bytes (point_x_flagged p) @ fe_to_bytes (point_y_flagged p)"
    "has_even_y_flagged p \<longleftrightarrow> even (fval (point_y_flagged p))"
    "x_bytes_and_parity_flagged p = (fe_to_bytes (point_x_flagged p), odd (fval (point_y_flagged p)))"
    "x_only_bytes_flagged p = fe_to_bytes (point_x_flagged p)"
  using assms by (simp_all add: affine_canonical_def to_compressed_flagged_eq to_uncompressed_flagged_def has_even_y_flagged_def
      x_bytes_and_parity_flagged_def x_only_bytes_flagged_def point_x_flagged_def point_y_flagged_def store_canonical52 fval_canonical52 fe52_low_bit)

text \<open>
  Negation keeps \<open>z_one_\<close> but only normalises weakly. For \<open>0 < y < p\<close> the new coordinate is \<open>p - y\<close> when \<open>2 p - y\<close>
  exceeds \<open>2^256\<close>; for the \<open>2^32 + 976\<close> largest \<open>y\<close> it is \<open>2 p - y\<close>, which is not canonical.
\<close>

lemma normalize_weak_small:
  assumes "fe52_loose a" "0 \<le> fe52_val a" "fe52_val a < 2 ^ 256"
  shows "fe52_val (fe52_normalize_weak a) = fe52_val a" "fe52_reduced (fe52_normalize_weak a)"
proof -
  have "fe52_val a div 2 ^ 256 = 0" using assms(2,3) by simp
  then show v: "fe52_val (fe52_normalize_weak a) = fe52_val a" using fe52_normalize_weak_exact(1) [OF assms(1)] by simp
  show "fe52_reduced (fe52_normalize_weak a)"
    using fe52_low_reduced_iff [OF fe52_normalize_weak_exact(2) [OF assms(1)]] assms(3) by (simp only: v)
qed

lemma negated_y_val:
  assumes "canonical52 y"
  defines "v \<equiv> fe52_val y"
  shows "fe52_val (negated_y y) = (if 2 * prime_p - v < 2 ^ 256 then 2 * prime_p - v else prime_p - v)" "fe52_reduced (negated_y y)"
proof -
  have v: "0 \<le> v" "v < prime_p" using canonical52_bounds [OF assms(1)] by (simp_all add: v_def)
  have v256: "v < 2 ^ 256" using v by (simp add: prime_p_def)
  note w = normalize_weak_small [OF canonical52_loose [OF assms(1)], folded v_def, OF v(1) v256]
  define u where "u = fe52_negate 1 (fe52_normalize_weak y)"
  have u: "fe52_val u = 2 * prime_p - v" "mag 2 64 u"
    using fe52_negate_val [OF reduced_mag [OF w(2)], of 1] by (simp_all add: u_def w(1))
  have l: "fe52_loose u" by (rule mag_loose [OF u(2)]) simp_all
  have n: "negated_y y = fe52_normalize_weak u" by (simp add: negated_y_def u_def)
  have "fe52_val (negated_y y) = (if 2 * prime_p - v < 2 ^ 256 then 2 * prime_p - v else prime_p - v) \<and> fe52_val (negated_y y) < 2 ^ 256"
  proof (cases "2 * prime_p - v < 2 ^ 256")
    case True
    then have "(2 * prime_p - v) div 2 ^ 256 = 0" using v by simp
    then show ?thesis using fe52_normalize_weak_exact(1) [OF l] True by (simp add: n u(1))
  next
    case False
    have "(2 * prime_p - v) div 2 ^ 256 = 1" using False v unfolding prime_p_def by simp
    then have "fe52_val (negated_y y) = prime_p - v" using fe52_normalize_weak_exact(1) [OF l] by (simp add: n u(1))
    then show ?thesis using False v by (simp add: prime_p_def)
  qed
  then show "fe52_val (negated_y y) = (if 2 * prime_p - v < 2 ^ 256 then 2 * prime_p - v else prime_p - v)" "fe52_reduced (negated_y y)"
    using fe52_low_reduced_iff [OF fe52_normalize_weak_exact(2) [OF l]] by (simp_all add: n)
qed

lemma odd_prime_p: "odd prime_p" by (simp add: prime_p_def)

lemma negate_compressed_shape:
  assumes "affine_canonical p"
  defines "v \<equiv> fe52_val (pt_y p)"
  shows "to_compressed_flagged (point_negate p) =
    (if 2 * prime_p - v < 2 ^ 256 then parity_prefix v else parity_prefix (prime_p - v)) # fe_to_bytes (point_x_flagged p)"
proof -
  have c: "canonical52 (pt_x p)" "canonical52 (pt_y p)" "\<not> pt_infinity p" using assms by (simp_all add: affine_canonical_def)
  have "point_negate p = \<lparr>pt_x = pt_x p, pt_y = negated_y (pt_y p), pt_z = pt_z p, pt_infinity = False, pt_is_generator = False, pt_z_one = pt_z_one p\<rparr>"
    using c(3) by (simp add: point_negate_def negated_y_def point_of_fe52_def)
  then have "to_compressed_flagged (point_negate p) = parity_prefix (fe52_val (negated_y (pt_y p))) # fe_to_bytes (point_x_flagged p)"
    using c by (simp add: to_compressed_flagged_eq store_canonical52 point_x_flagged_def)
  then show ?thesis unfolding negated_y_val(1) [OF c(2)] v_def by (simp add: parity_prefix_def)
qed

lemma negate_canonical:
  assumes "affine_canonical p" "fe52_val (pt_y p) \<noteq> 0" "2 ^ 256 \<le> 2 * prime_p - fe52_val (pt_y p)"
  shows "affine_canonical (point_negate p)" "fe52_val (pt_y (point_negate p)) = prime_p - fe52_val (pt_y p)"
proof -
  have c: "canonical52 (pt_x p)" "canonical52 (pt_y p)" "\<not> pt_infinity p" "pt_z_one p" "pt_z p = fe52_one"
    using assms by (simp_all add: affine_canonical_def)
  have e: "point_negate p = \<lparr>pt_x = pt_x p, pt_y = negated_y (pt_y p), pt_z = pt_z p, pt_infinity = False, pt_is_generator = False, pt_z_one = pt_z_one p\<rparr>"
    using c(3) by (simp add: point_negate_def negated_y_def point_of_fe52_def)
  show v: "fe52_val (pt_y (point_negate p)) = prime_p - fe52_val (pt_y p)"
    unfolding e point.simps negated_y_val(1) [OF c(2)] using assms(3) by simp
  have "0 < fe52_val (pt_y p)" using canonical52_bounds [OF c(2)] assms(2) by linarith
  then have "canonical52 (negated_y (pt_y p))"
    using v negated_y_val(2) [OF c(2)] unfolding canonical52_def e point.simps by simp
  then show "affine_canonical (point_negate p)" using c by (simp add: affine_canonical_def e)
qed

text \<open>The curve has such points: \<open>x^3 = -6\<close> has a root, so \<open>(x, 1)\<close> and \<open>(x, -1)\<close> are on it.\<close>

definition cube_root_minus_6 :: int where
  "cube_root_minus_6 = 0x1fe1e5ef3fceb5c135ab7741333ce5a6e80d68167653f6b2b24bcbcfaaaff507"

lemma cube_root_minus_6: "cube_root_minus_6 ^ 3 mod prime_p = (prime_p - 6) mod prime_p"
  unfolding cube_root_minus_6_def prime_p_def by simp

definition minus_one_point :: point where
  "minus_one_point =
     from_affine (fe_from_limbs (Limbs4 0xb24bcbcfaaaff507 0xe80d68167653f6b2 0x35ab7741333ce5a6 0x1fe1e5ef3fceb5c1))
       (fe_from_limbs (Limbs4 0xFFFFFFFEFFFFFC2E 0xFFFFFFFFFFFFFFFF 0xFFFFFFFFFFFFFFFF 0xFFFFFFFFFFFFFFFF))"

lemma minus_one_point:
  "affine_canonical minus_one_point" "fe52_val (pt_x minus_one_point) = cube_root_minus_6" "fe52_val (pt_y minus_one_point) = prime_p - 1"
  unfolding minus_one_point_def
  by (rule from_affine_canonical)
    (simp_all only: from_affine_canonical(2,3) fval_from_limbs mod_mod_trivial, simp_all add: cube_root_minus_6_def prime_p_def)

lemma minus_one_point_rep: "point_rep minus_one_point (Affine (of_int cube_root_minus_6) (- 1))"
proof -
  have "\<not> pt_is_generator minus_one_point" by (simp add: minus_one_point_def from_affine_def point_of_fe_def)
  from affine_canonical_rep [OF minus_one_point(1) this] show ?thesis by (simp add: minus_one_point)
qed

lemma minus_one_on_curve: "on_curve (Affine (of_int cube_root_minus_6) (- 1))"
proof -
  have "(of_int (cube_root_minus_6 ^ 3) :: fp) = of_int (prime_p - 6)" unfolding fp_eq_iff by (rule cube_root_minus_6)
  then have "(of_int cube_root_minus_6 :: fp) ^ 3 = - 6" by simp
  then show ?thesis by simp
qed

section \<open>The class as an interface\<close>

interpretation pts: curve_arith point_rep point_dbl_inplace point_add_inplace
  by unfold_locales (rule point_dbl_inplace_rep point_add_inplace_rep; assumption)+

text \<open>The calls on a point object, copying and in place, with their operands, and what each means on the curve.\<close>

datatype point_op =
  Call_dbl | Call_negate | Call_next | Call_prev
  | Call_dbl_inplace | Call_negate_inplace | Call_next_inplace | Call_prev_inplace
  | Call_add_inplace point | Call_sub_inplace point
  | Call_add_mixed_inplace field_element field_element | Call_sub_mixed_inplace field_element field_element
  | Call_add_affine_constant_inplace field_element field_element
  | Call_add_mixed52_inplace fe52 fe52 | Call_add_mixed52_neg_inplace fe52 fe52

fun call_point :: "point_op \<Rightarrow> point \<Rightarrow> point" where
  "call_point Call_dbl p = point_dbl p"
| "call_point Call_negate p = point_negate p"
| "call_point Call_next p = point_next p"
| "call_point Call_prev p = point_prev p"
| "call_point Call_dbl_inplace p = point_dbl_inplace p"
| "call_point Call_negate_inplace p = point_negate_inplace p"
| "call_point Call_next_inplace p = next_inplace p"
| "call_point Call_prev_inplace p = prev_inplace p"
| "call_point (Call_add_inplace q) p = point_add_inplace p q"
| "call_point (Call_sub_inplace q) p = point_sub_inplace p q"
| "call_point (Call_add_mixed_inplace x y) p = point_add_mixed_inplace p x y"
| "call_point (Call_sub_mixed_inplace x y) p = point_sub_mixed_inplace p x y"
| "call_point (Call_add_affine_constant_inplace x y) p = add_affine_constant_inplace p x y"
| "call_point (Call_add_mixed52_inplace x y) p = add_mixed52_inplace p x y"
| "call_point (Call_add_mixed52_neg_inplace x y) p = add_mixed52_neg_inplace p x y"

abbreviation fe_affine :: "field_element \<Rightarrow> field_element \<Rightarrow> curve_point" where
  "fe_affine x y \<equiv> Affine (of_int (fval x)) (of_int (fval y))"

inductive point_call :: "point_op \<Rightarrow> curve_point \<Rightarrow> curve_point \<Rightarrow> bool" where
  double: "c \<in> {Call_dbl, Call_dbl_inplace} \<Longrightarrow> ec_add P P R \<Longrightarrow> point_call c P R"
| negate: "c \<in> {Call_negate, Call_negate_inplace} \<Longrightarrow> point_call c P (ec_neg P)"
| forward: "c \<in> {Call_next, Call_next_inplace} \<Longrightarrow> ec_add P gen_point R \<Longrightarrow> point_call c P R"
| backward: "c \<in> {Call_prev, Call_prev_inplace} \<Longrightarrow> ec_add P (ec_neg gen_point) R \<Longrightarrow> point_call c P R"
| add: "point_rep q Q \<Longrightarrow> on_curve Q \<Longrightarrow> ec_add P Q R \<Longrightarrow> point_call (Call_add_inplace q) P R"
| sub: "point_rep q Q \<Longrightarrow> on_curve Q \<Longrightarrow> ec_add P (ec_neg Q) R \<Longrightarrow> point_call (Call_sub_inplace q) P R"
| mixed: "c \<in> {Call_add_mixed_inplace x y, Call_add_affine_constant_inplace x y} \<Longrightarrow> on_curve (fe_affine x y) \<Longrightarrow>
    ec_add P (fe_affine x y) R \<Longrightarrow> point_call c P R"
| mixed_sub: "fe_ok y \<Longrightarrow> on_curve (fe_affine x y) \<Longrightarrow> ec_add P (ec_neg (fe_affine x y)) R \<Longrightarrow> point_call (Call_sub_mixed_inplace x y) P R"
| mixed52: "aff_rep \<lparr>ax = X, ay = Y\<rparr> Q \<Longrightarrow> on_curve Q \<Longrightarrow> ec_add P Q R \<Longrightarrow> point_call (Call_add_mixed52_inplace X Y) P R"
| mixed52_neg: "aff_rep \<lparr>ax = X, ay = Y\<rparr> Q \<Longrightarrow> mag 1 63 Y \<Longrightarrow> on_curve Q \<Longrightarrow> ec_add P (ec_neg Q) R \<Longrightarrow>
    point_call (Call_add_mixed52_neg_inplace X Y) P R"

inductive point_calls :: "point_op list \<Rightarrow> curve_point \<Rightarrow> curve_point \<Rightarrow> bool" where
  none: "point_calls [] P P"
| more: "point_call c P Q \<Longrightarrow> point_calls cs Q R \<Longrightarrow> point_calls (c # cs) P R"

lemmas point_op_reps = point_dbl_rep point_dbl_inplace_rep point_negate_rep point_negate_inplace_rep point_next_rep next_inplace_rep
  point_prev_rep prev_inplace_rep pts.add_rep point_sub_inplace_rep point_add_mixed_inplace_rep add_affine_constant_inplace_rep
  point_sub_mixed_inplace_rep add_mixed52_inplace_rep add_mixed52_neg_inplace_rep

lemma call_point_rep: "point_call c P R \<Longrightarrow> point_rep p P \<Longrightarrow> point_rep (call_point c p) R"
  by (induction rule: point_call.induct) (auto intro: point_op_reps)

lemma on_curve_ec_neg [simp]: "on_curve (ec_neg P) \<longleftrightarrow> on_curve P"
  by (cases P) simp_all

lemma point_call_on_curve: "point_call c P R \<Longrightarrow> on_curve P \<Longrightarrow> on_curve R"
  by (induction rule: point_call.induct) (auto intro: ec_add_on_curve simp: gen_point_on_curve)

lemma point_calls_rep:
  "point_calls cs P R \<Longrightarrow> point_rep p P \<Longrightarrow> on_curve P \<Longrightarrow> point_rep (fold call_point cs p) R \<and> on_curve R"
proof (induction arbitrary: p rule: point_calls.induct)
  case (more c P Q cs R)
  from more.IH [OF call_point_rep [OF more.hyps(1) more.prems(1)] point_call_on_curve [OF more.hyps(1) more.prems(2)]]
  show ?case by simp
qed simp

text \<open>From infinity: the generator, its double, back and forth by the generator, and a subtraction of the generator object.\<close>

definition sample_calls :: "point_op list" where
  "sample_calls = [Call_next_inplace, Call_dbl, Call_next, Call_negate, Call_negate_inplace]"

lemma sample_calls: "point_calls sample_calls Infinity (ec_neg (ec_neg (pt mulG3)))"
proof -
  have 1: "point_call Call_next_inplace Infinity gen_point" by (rule point_call.forward) (simp_all add: ec_add.left)
  have 2: "point_call Call_dbl gen_point (pt mulG2)" using gen_double by (intro point_call.double) (simp_all add: gen_point_def)
  have 3: "point_call Call_next (pt mulG2) (pt mulG3)" using gen_odd_3 by (intro point_call.forward) (simp_all add: gen_point_def)
  have 4: "point_call c P (ec_neg P)" if "c \<in> {Call_negate, Call_negate_inplace}" for c P by (rule point_call.negate [OF that])
  show ?thesis unfolding sample_calls_def
    by (rule point_calls.more [OF 1 point_calls.more [OF 2 point_calls.more [OF 3 point_calls.more [OF 4 point_calls.more [OF 4 point_calls.none]]]]]) simp_all
qed

lemma point_rep_flags:
  "point_rep q R \<Longrightarrow> pt_infinity q = (R = Infinity) \<and> (pt_is_generator q \<longrightarrow> R = gen_point) \<and> (pt_z_one q \<and> \<not> pt_infinity q \<longrightarrow> pt_z q = fe52_one)"
  using point_rep_infinity [of q R] unfolding point_rep_def by blast

section \<open>Properties\<close>





lemma minus_one_example:
  "\<exists>q Q. affine_canonical q \<and> point_rep q Q \<and> on_curve Q \<and> point_rep (point_negate q) (ec_neg Q) \<and> ec_neg Q \<noteq> Q \<and>
     to_compressed_flagged (point_negate q) = to_compressed_flagged q"
proof -
  have v: "fval (point_y_flagged minus_one_point) = prime_p - 1"
    using minus_one_point(1,3) fval_canonical52 by (simp add: affine_canonical_def point_y_flagged_def)
  have "2 * prime_p - (prime_p - 1) < 2 ^ 256" by (simp add: prime_p_def)
  then have "to_compressed_flagged (point_negate minus_one_point) = to_compressed_flagged minus_one_point"
    using negate_compressed_shape [OF minus_one_point(1)] flagged_serialisation(1) [OF minus_one_point(1)]
    by (simp only: minus_one_point(3) v if_True)
  moreover have "ec_neg (Affine (of_int cube_root_minus_6) (- 1)) \<noteq> Affine (of_int cube_root_minus_6) (- 1)"
  proof -
    have "(of_int 1 :: fp) \<noteq> of_int (- 1)" unfolding fp_eq_iff by (simp add: prime_p_def)
    then show ?thesis by simp
  qed
  ultimately show ?thesis using minus_one_point(1) minus_one_point_rep minus_one_on_curve point_negate_rep [OF minus_one_point_rep] by blast
qed



end
