(* ===== verification/Spec2Isabelle.thy ===== *)
theory Spec2Isabelle
  imports Scalar_Mul Scalar_Naf Ripemd160 Rfc6979 Keccak256 Field_Pow Bip324_Session Fe52_Pow Glv52 Jac64 Point52
begin

text \<open>
  A verification development for the C++ core of UltrafastSecp256k1 (the library under \<open>src/cpu\<close>): the arithmetic
  modulo the group order and modulo the field prime, the points of the curve, the hash functions with what
  is built on them, and the encrypted transport. All paths below are relative to \<open>src/cpu/src\<close>; headers are under
  \<open>src/cpu/include/secp256k1\<close>.

  \<^bold>\<open>The parts and how they depend on each other.\<close>
  Scalars and field elements are four 64-bit limbs, kept below the modulus by every operator. The point
  formulas of 64-bit builds use a second representation of the field, five 52-bit limbs in 64-bit words, which is only
  normalised where a bound asks for it. Points are Jacobian triples in either representation; \<open>Point\<close> adds the flags that let
  later operations skip work. Variable-base multiplication reads signed digits of two half-length scalars
  from tables of odd multiples. The hash classes share one buffering discipline; HMAC, HKDF and the RFC 6979
  nonces are built on SHA-256, some by saved compression states. ChaCha20 and Poly1305 make up the AEAD, which seals the
  packets of the BIP-324 transport; its handshake draws a scalar and derives keys with HKDF.

  \<^bold>\<open>Shared theories.\<close>
  \<^item> \<open>Prelude\<close>: bytes, words, big- and little-endian values, buffer copies; the collections \<open>val_simps\<close> and \<open>len_simps\<close>.
  \<^item> \<open>Limbs\<close>: four-limb numbers, their carry and borrow chains and byte order, with the order of their values as a
    \<open>linorder\<close> instance.
  \<^item> \<open>Block_Hash\<close>: the buffering of the hash classes as the locales \<open>block_absorber\<close> and \<open>md_hash\<close>: any chunking of the input absorbs
    the same blocks, and the finaliser hashes the padded message.
  \<^item> \<open>Fp\<close>: the residues modulo the field prime as a ring, the points of the curve \<open>y^2 = x^3 + 7\<close>, and their addition as a
    relation (chord, tangent, opposite, neutral) in which a denominator must be invertible; nothing rests on primality.
  \<^item> \<open>Gen_Multiples\<close>: coordinates of the generator's small odd multiples and of two more points, with the additions
    among them checked; the theorems on points are applied to these.
  \<^item> \<open>Curve_Steps\<close>: sequences of doublings and additions, and the locale \<open>curve_arith\<close>, the contract of every representation of points.

  \<^bold>\<open>Scalars (scalar.cpp, ct_scalar.cpp, ct/ops.hpp).\<close>
  \<open>Scalar\<close> has the class with its parsers, encodings, sums and negations; \<open>Scalar_Mul\<close> the 512-bit product and its
  reduction in three folds; \<open>Scalar_Naf\<close> the NAF and wNAF recodings; \<open>Ct_Scalar\<close> the mask primitives, the branch-free
  operations and the inversion chain. The lemmas give the value of every operation modulo the order and its canonical form, the ring
  laws, round trips, the digits of the recodings (their loops are partial functions, proved to return), and the equality of the
  branch-free operations with the branching ones.

  \<^bold>\<open>The field in four limbs (field.cpp, field.hpp).\<close>
  \<open>Field\<close> has the products, both reductions (with and without a 128-bit type), the operators, parsers and
  encodings. \<open>Field_Pow\<close> has the twenty-one inversion strategies over exponent tables and windows and the 4x64 square root chain:
  eighteen strategies are proved to raise to \<open>p - 2\<close>, two are proved not to.

  \<^bold>\<open>The field in five limbs (field_52.hpp, field_52_impl.hpp, field_52_magnitude.hpp, field_52.cpp).\<close>
  \<open>Fe52\<close> has the operations and what each does to value and magnitude; \<open>Fe52_Norm\<close> the normalisations, zero tests, conversions
  and byte forms; \<open>Fe52_Mul\<close> the two column-wise kernels; \<open>Fe52_Pow\<close> the inverse and square root chains. A bound is a pair:
  the four low limbs in units of \<open>2^52 - 1\<close>, the top limb in units of \<open>2^43\<close>. Products are exact up to magnitude 16, the
  normalisations up to limbs of \<open>0xFFF0000000000000\<close>.

  \<^bold>\<open>Points (point.cpp, point.hpp).\<close>
  \<open>Jac52\<close> has the 5x52 Jacobian formulas (\<open>jac52_*\<close>) and \<open>Jac64\<close> the 4x64 ones (\<open>jacobian_*\<close>); each operation refines the addition
  of the curve on every branch, from coordinates within fixed magnitudes to coordinates within the same ones. Both interpret
  \<open>curve_arith\<close>, and so does \<open>Point52\<close>, the \<open>Point\<close> class of 5x52 builds: constructors, factories, the copying and in-place
  operations, and the serialisation of points whose flags spare it the inversion. \<open>Glv52\<close> has the co-Z table of odd multiples, the
  table of the endomorphism, the two-stream ladder and \<open>scalar_mul_glv52\<close> from the digits on. A property of a point operation
  has as hypothesis that the addition on the curve has a result; for points of the curve it always has one, the prime being prime.

  \<^bold>\<open>Hashes and what is built on them.\<close>
  \<open>Sha256\<close> (sha256.hpp, tagged_hash.hpp, hash_accel.cpp), \<open>Sha512\<close> (sha512.hpp), \<open>Ripemd160\<close> (hash_accel.cpp, bip32.cpp) and
  \<open>Keccak256\<close> (keccak256.cpp) interpret the locales of \<open>Block_Hash\<close>; the fixed-size routines equal the general hash. \<open>Hmac\<close> (hkdf.cpp,
  bip32.cpp) meets the definitions of HMAC and HKDF; \<open>Rfc6979\<close> (ecdsa.cpp) relates the midstate HMAC and the three
  nonce functions to the generator of the RFC, up to its second candidate, which is where the code stops.

  \<^bold>\<open>AEAD and transport (chacha20_poly1305.cpp, bip324.cpp, bip324.hpp).\<close>
  \<open>ChaCha20\<close> has the scalar and the SSE2 block functions and the cipher; \<open>Poly1305\<close> the 44-bit limb accumulator, behind the
  locale \<open>poly_state\<close>; \<open>Aead\<close> sealing and opening with their buffers, behind the locale \<open>sealing\<close>. \<open>Bip324\<close> has the packet cipher
  and the session with both constructors and the handshake, behind the locale \<open>packet_channel\<close>; \<open>Bip324_Session\<close> the runs of one session
  and the network of two. \<open>ellswift_create\<close> and \<open>ellswift_xdh\<close> are arguments: the first takes the key and 32 bytes of
  randomness drawn at each call, the second is assumed to agree on valid keys (\<open>xdh_agrees\<close>) where two sessions are connected.

  \<^bold>\<open>Loops.\<close>
  A loop the code may run forever is a partial function with values in \<open>option\<close> (the recodings, one inversion, the
  key-drawing loop), with theorems that it returns; the padding loop of RIPEMD-160 has 64 units of fuel, the block length, which bound
  its turns. Every other loop is a total recursion.

  \<^bold>\<open>Not modelled, and why.\<close>
  Assembly, intrinsics and compiler-specific kernels (the portable C++ bodies are modelled, the SSE2 block function
  of ChaCha20 being the exception), the 26-bit limbs and the 32-bit fallbacks; the SafeGCD and Euclidean inversions, whose proof
  needs the convergence bound of the divstep iteration, and with them the serialisation of points not yet affine and \<open>Point::normalize\<close>; the
  lattice decomposition of scalars, the generator tables and combs, multi-scalar multiplication and batch verification; the
  constant-time points; signatures beyond their nonces, the multi-party protocols, ElligatorSwift, zero-knowledge proofs, wallets,
  addresses and transactions, the C interface, and the GPU back ends. Erasure of temporaries has no effect on results
  and is left out, except for the key fields of a transport session, which later operations read.
\<close>

end
